(* ===== verification/HPLF_Prelude.thy ===== *)
theory HPLF_Prelude
  imports Main "HOL-Library.Word" "HOL-Library.Monad_Syntax"
begin

unbundle bit_operations_syntax

text \<open>
  Shared vocabulary of the development: the machine types of the LP64 target, out-parameters,
  fixed-size C arrays, and the generic lemmas on words, options and lists that the component
  theories use.  Nothing in here models a function of the repository.
\<close>

section \<open>Machine types\<close>

text \<open>
  \<open>size_t\<close>, \<open>uintptr_t\<close> and object pointers are 64 bits wide on the supported targets
  (Linux, LP64).  A null pointer is the address zero.
\<close>

type_synonym size_t = "64 word"
type_synonym addr = "64 word"
type_synonym byte = "8 word"

abbreviation NULL :: addr where
  "NULL \<equiv> 0"

abbreviation SIZE_MAX :: size_t where
  "SIZE_MAX \<equiv> - 1"

text \<open>One more than the largest \<open>size_t\<close>: the modulus of its arithmetic.\<close>

abbreviation SIZE_BOUND :: nat where
  "SIZE_BOUND \<equiv> 18446744073709551616"

definition PTRDIFF_MAX :: size_t where
  "PTRDIFF_MAX = 9223372036854775807"

section \<open>Proof-automation collections\<close>

named_theorems unat_facts
  \<open>facts that move \<open>size_t\<close> arithmetic without wrap-around to \<open>nat\<close>\<close>
named_theorems array_facts
  \<open>reads and writes of fixed-size arrays\<close>
named_theorems out_facts
  \<open>results passed back through out-parameters\<close>

section \<open>Out-parameters\<close>

text \<open>
  A C out-parameter \<open>T *result\<close> is a cell: \<open>None\<close> is the null pointer, \<open>Some v\<close> a valid pointer
  to an object that currently holds \<open>v\<close>.  A function that fills it returns its Boolean result
  together with the cell afterwards, so "the output is unchanged on failure" is an equation.
  \<open>checked\<close> is the caller's view of \<open>if (!f(..., &local)) return false;\<close>.
\<close>

type_synonym 'a cell = "'a option"

fun checked :: "bool \<times> 'a cell \<Rightarrow> 'a option" where
  "checked (True, Some v) = Some v"
| "checked _ = None"

lemma checked_eq_Some [out_facts]: "checked r = Some v \<longleftrightarrow> r = (True, Some v)"
  by (cases r rule: checked.cases) auto

lemma checked_eq_None [out_facts]: "checked r = None \<longleftrightarrow> (\<nexists>v. r = (True, Some v))"
  by (cases r rule: checked.cases) auto

section \<open>Fixed-size arrays\<close>

text \<open>
  A C array is a list of its elements; an access outside it has no defined behaviour, which is
  the value \<open>None\<close>.
\<close>

definition array_read :: "'a list \<Rightarrow> size_t \<Rightarrow> 'a option" where
  "array_read xs i = (if unat i < length xs then Some (xs ! unat i) else None)"

definition array_write :: "'a list \<Rightarrow> size_t \<Rightarrow> 'a \<Rightarrow> 'a list option" where
  "array_write xs i v = (if unat i < length xs then Some (xs[unat i := v]) else None)"

lemma array_read_Some [array_facts]:
  "array_read xs i = Some v \<longleftrightarrow> unat i < length xs \<and> v = xs ! unat i"
  by (auto simp: array_read_def)

lemma array_write_Some [array_facts]:
  "array_write xs i v = Some ys \<longleftrightarrow> unat i < length xs \<and> ys = xs[unat i := v]"
  by (auto simp: array_write_def)

lemma array_read_in [simp]: "unat i < length xs \<Longrightarrow> array_read xs i = Some (xs ! unat i)"
  by (simp add: array_read_def)

lemma array_write_in [simp]:
  "unat i < length xs \<Longrightarrow> array_write xs i v = Some (xs[unat i := v])"
  by (simp add: array_write_def)

lemma array_read_out [simp]: "\<not> unat i < length xs \<Longrightarrow> array_read xs i = None"
  by (simp add: array_read_def)

section \<open>Unsigned words as natural numbers\<close>

lemma unat_lt_2p64 [simp]: "unat (x :: size_t) < SIZE_BOUND"
  using unsigned_less [where ?'a = nat, of x] by simp

lemma unat_le_size_max [simp]: "unat (x :: size_t) \<le> 18446744073709551615"
  using unat_lt_2p64 [of x] by linarith

lemma unat_SIZE_MAX [simp]: "unat SIZE_MAX = 18446744073709551615"
  by (simp add: unsigned_minus_1_eq_mask mask_eq_exp_minus_1)

lemma unat_SIZE_MAX_minus: "unat (SIZE_MAX - x) = 18446744073709551615 - unat (x :: size_t)"
  by (subst unat_sub) (simp_all add: word_le_nat_alt)

lemma unat_PTRDIFF_MAX [simp]: "unat PTRDIFF_MAX = 9223372036854775807"
  by (simp add: PTRDIFF_MAX_def)

lemma unat_numeral_64: "unat (64 :: size_t) = 64" "unat (48 :: size_t) = 48"
  by simp_all

lemma unat_add_noverflow [unat_facts]:
  fixes x y :: size_t
  assumes "unat x + unat y < SIZE_BOUND"
  shows "unat (x + y) = unat x + unat y"
  using assms by (simp add: unat_word_ariths)

lemma unat_mult_noverflow [unat_facts]:
  fixes x y :: size_t
  assumes "unat x * unat y < SIZE_BOUND"
  shows "unat (x * y) = unat x * unat y"
  using assms by (simp add: unat_word_ariths)

lemma unat_sub_le [unat_facts]:
  fixes x y :: size_t
  assumes "unat y \<le> unat x"
  shows "unat (x - y) = unat x - unat y"
  using assms by (simp add: unat_sub word_le_nat_alt)

lemma word_eq_of_unat: "unat x = n \<Longrightarrow> x = (word_of_nat n :: size_t)"
  by auto

lemma unat_word_of_nat [unat_facts]: "n < SIZE_BOUND \<Longrightarrow> unat (word_of_nat n :: size_t) = n"
  by (simp add: unat_of_nat)

lemma unat_inj_iff: "unat x = unat y \<longleftrightarrow> x = (y :: size_t)"
  by (rule word_unat_eq_iff [symmetric])

lemma size_t_le_iff: "x \<le> (y :: size_t) \<longleftrightarrow> unat x \<le> unat y"
  by (rule word_le_nat_alt)

lemma size_t_less_iff: "x < (y :: size_t) \<longleftrightarrow> unat x < unat y"
  by (rule word_less_nat_alt)

lemmas size_t_order = size_t_le_iff size_t_less_iff

lemma size_t_eq_0_iff: "x = (0 :: size_t) \<longleftrightarrow> unat x = 0"
  by (rule unat_0_iff [symmetric])

lemma unat_div_size_t [unat_facts]: "unat (x div (y :: size_t)) = unat x div unat y"
  by (rule unat_div)

lemma unat_mod_size_t [unat_facts]: "unat (x mod (y :: size_t)) = unat x mod unat y"
  by (rule unat_mod)

text \<open>A \<open>long\<close> that is not negative, read as a \<open>size_t\<close>.\<close>

lemma unat_nonneg_long:
  assumes "0 \<le> sint (w :: 64 word)" shows "unat w < 9223372036854775808"
proof -
  have "\<not> bit (unat w) 63" using assms bit_last_iff [of w] by (simp add: bit_unsigned_iff)
  then have "even (unat w div 9223372036854775808)" by (simp add: bit_iff_odd)
  moreover have "unat w div 9223372036854775808 < 2"
    using unat_lt_2p64 [of w] by (subst div_less_iff_less_mult) simp_all
  ultimately have "unat w div 9223372036854775808 = 0" by (metis less_2_cases odd_one One_nat_def)
  then show ?thesis by simp
qed

section \<open>Replacing one list of a table\<close>

lemma concat_update:
  assumes "i < length F"
  shows "concat (F[i := xs]) = concat (take i F) @ xs @ concat (drop (Suc i) F)"
  using assms by (simp add: upd_conv_take_nth_drop)

lemma distinct_concat_update:
  assumes "i < length F"
  shows "distinct (concat (F[i := xs])) \<longleftrightarrow>
    distinct (concat (F[i := []])) \<and> distinct xs \<and> set xs \<inter> set (concat (F[i := []])) = {}"
  unfolding concat_update [OF assms] by auto

lemma set_concat_update:
  assumes "i < length F"
  shows "set (concat (F[i := xs])) = set xs \<union> set (concat (F[i := []]))"
  unfolding concat_update [OF assms] by auto

lemma set_concat_self: "i < length F \<Longrightarrow> set (concat F) = set (F ! i) \<union> set (concat (F[i := []]))"
  using set_concat_update [of i F "F ! i"] by simp

lemma other_lists: "j < length F \<Longrightarrow> j \<noteq> i \<Longrightarrow> set (F ! j) \<subseteq> set (concat (F[i := []]))"
proof -
  assume "j < length F" "j \<noteq> i"
  then have "F[i := []] ! j = F ! j" "j < length (F[i := []])" by simp_all
  then have "F ! j \<in> set (F[i := []])" by (metis nth_mem)
  then show ?thesis by auto
qed

lemma distinct_lists_disjoint:
  assumes "distinct (concat F)" and "i < length F" and "j < length F" and "i \<noteq> j"
  shows "set (F ! i) \<inter> set (F ! j) = {}"
proof -
  have "set (F ! i) \<inter> set (concat (F[i := []])) = {}"
    using assms(1,2) distinct_concat_update [of i F "F ! i"] by simp
  with other_lists [of j F i] assms show ?thesis by auto
qed

end
