(* ===== verification/Checked_Math.thy ===== *)
theory Checked_Math
  imports HPLF_Prelude
begin

text \<open>
  \<open>src/checked_math.h\<close>: overflow-checked \<open>size_t\<close> arithmetic.  Every function fills an
  out-parameter (\<open>HPLF_Prelude.cell\<close>) and reports success; on failure the cell is returned as
  it was passed.
\<close>

section \<open>Definitions\<close>

definition hplf_size_add :: "size_t \<Rightarrow> size_t \<Rightarrow> size_t cell \<Rightarrow> bool \<times> size_t cell" where
  "hplf_size_add left right result =
     (if result = None \<or> right > SIZE_MAX - left then (False, result)
      else (True, Some (left + right)))"

definition hplf_size_multiply :: "size_t \<Rightarrow> size_t \<Rightarrow> size_t cell \<Rightarrow> bool \<times> size_t cell" where
  "hplf_size_multiply left right result =
     (if result = None \<or> (left \<noteq> 0 \<and> right > SIZE_MAX div left) then (False, result)
      else (True, Some (left * right)))"

definition hplf_size_align_up_pow2 ::
  "size_t \<Rightarrow> size_t \<Rightarrow> size_t cell \<Rightarrow> bool \<times> size_t cell" where
  "hplf_size_align_up_pow2 value alignment result =
     (if result = None \<or> alignment = 0 \<or> (alignment AND (alignment - 1)) \<noteq> 0
      then (False, result)
      else let mask = alignment - 1 in
        if value > SIZE_MAX - mask then (False, result)
        else (True, Some ((value + mask) AND NOT mask)))"

definition hplf_size_round_up_multiple ::
  "size_t \<Rightarrow> size_t \<Rightarrow> size_t cell \<Rightarrow> bool \<times> size_t cell" where
  "hplf_size_round_up_multiple value multiple result =
     (if result = None \<or> multiple = 0 then (False, result)
      else let remainder = value mod multiple in
        if remainder = 0 then (True, Some value)
        else hplf_size_add value (multiple - remainder) result)"

section \<open>Addition and multiplication\<close>

lemma hplf_size_add_eq:
  "hplf_size_add x y (Some v) =
     (if unat x + unat y < SIZE_BOUND then (True, Some (x + y)) else (False, Some v))"
proof -
  have "y > SIZE_MAX - x \<longleftrightarrow> \<not> unat x + unat y < SIZE_BOUND"
    using unat_lt_2p64 [of x] by (simp only: size_t_order unat_SIZE_MAX_minus) linarith
  then show ?thesis by (simp add: hplf_size_add_def)
qed

lemma hplf_size_multiply_eq:
  "hplf_size_multiply x y (Some v) =
     (if unat x * unat y < SIZE_BOUND then (True, Some (x * y)) else (False, Some v))"
proof (cases "x = 0")
  case True
  then show ?thesis by (simp add: hplf_size_multiply_def)
next
  case False
  then have pos: "0 < unat x" by (simp add: unat_gt_0)
  have "y > SIZE_MAX div x \<longleftrightarrow> 18446744073709551615 div unat x < unat y"
    by (simp add: size_t_order unat_div)
  also have "\<dots> \<longleftrightarrow> \<not> unat x * unat y < SIZE_BOUND"
    using pos by (simp add: div_less_iff_less_mult mult.commute not_less) arith
  finally show ?thesis using False by (simp add: hplf_size_multiply_def)
qed

section \<open>The specification of rounding\<close>

text \<open>\<open>round_up n m\<close> is the least multiple of \<open>m\<close> that is at least \<open>n\<close>.\<close>

definition round_up :: "nat \<Rightarrow> nat \<Rightarrow> nat" where
  "round_up n m = (n + (m - 1)) div m * m"

lemma round_up_dvd [simp]: "m dvd round_up n m"
  by (simp add: round_up_def)

lemma round_up_ge: "0 < m \<Longrightarrow> n \<le> round_up n m"
proof -
  assume m: "0 < m"
  have "n + (m - 1) < m + (n + (m - 1)) div m * m"
    using m by (rule dividend_less_div_times)
  then show ?thesis using m unfolding round_up_def by linarith
qed

lemma round_up_less: "0 < m \<Longrightarrow> round_up n m < n + m"
proof -
  assume m: "0 < m"
  have "(n + (m - 1)) div m * m \<le> n + (m - 1)" by (rule div_times_less_eq_dividend)
  with m show ?thesis unfolding round_up_def by linarith
qed

lemma round_up_least:
  assumes "0 < m" and "m dvd k" and "n \<le> k" shows "round_up n m \<le> k"
proof -
  from assms(2) obtain j where j: "k = m * j" ..
  have "round_up n m < m * j + m" using round_up_less [OF assms(1), of n] assms(3) j by linarith
  then have "(n + (m - 1)) div m * m < Suc j * m" by (simp add: round_up_def ac_simps)
  then have "(n + (m - 1)) div m < Suc j" by (simp only: mult_less_cancel2)
  then have "(n + (m - 1)) div m * m \<le> j * m" by (intro mult_le_mono1) simp
  then show ?thesis using j by (simp only: round_up_def mult.commute)
qed

lemma round_up_unique:
  assumes "0 < m" "m dvd k" "n \<le> k" "k < n + m" shows "round_up n m = k"
proof -
  have "round_up n m \<le> k" using assms by (intro round_up_least)
  moreover have "\<not> round_up n m < k"
  proof
    assume lt: "round_up n m < k"
    moreover have "m dvd k - round_up n m" using assms(2) by simp
    ultimately have "m \<le> k - round_up n m" by (simp add: dvd_imp_le)
    with lt round_up_ge [OF assms(1), of n] assms(4) show False by linarith
  qed
  ultimately show ?thesis by simp
qed

lemma round_up_idem: "0 < m \<Longrightarrow> m dvd n \<Longrightarrow> round_up n m = n"
  by (rule round_up_unique) simp_all

section \<open>Rounding to a multiple\<close>

lemma hplf_size_round_up_multiple_eq:
  assumes "m \<noteq> 0"
  shows "hplf_size_round_up_multiple x m (Some v) =
     (if round_up (unat x) (unat m) < SIZE_BOUND
      then (True, Some (word_of_nat (round_up (unat x) (unat m)))) else (False, Some v))"
proof (cases "x mod m = 0")
  case True
  then have "unat m dvd unat x" by (metis unat_0 unat_mod dvd_eq_mod_eq_0)
  then have "round_up (unat x) (unat m) = unat x"
    using assms by (intro round_up_unique) (auto simp: unat_gt_0)
  with True assms show ?thesis by (simp add: hplf_size_round_up_multiple_def)
next
  case False
  have mpos: "0 < unat m" using assms by (simp add: unat_gt_0)
  then have lt: "unat x mod unat m < unat m" by simp
  have inc: "unat (m - x mod m) = unat m - unat x mod unat m"
    using lt by (simp add: unat_sub_le unat_mod)
  have rpos: "0 < unat x mod unat m" using False by (metis unat_gt_0 unat_mod)
  have "unat x + (unat m - unat x mod unat m) = unat x div unat m * unat m + unat m"
    using div_mult_mod_eq [of "unat x" "unat m"] lt by linarith
  then have dvd: "unat m dvd unat x + (unat m - unat x mod unat m)" by simp
  then have ru: "round_up (unat x) (unat m) = unat x + unat (m - x mod m)"
    unfolding inc using mpos rpos lt by (intro round_up_unique) linarith+
  have "x + (m - x mod m) = word_of_nat (unat x + unat (m - x mod m))" by simp
  then show ?thesis using False assms
    by (simp add: hplf_size_round_up_multiple_def hplf_size_add_eq ru Let_def)
qed

section \<open>Alignment to a power of two\<close>

text \<open>The test \<open>a & (a - 1) == 0\<close> accepts exactly the powers of two.\<close>

lemma pow2_test_nat:
  "0 < n \<Longrightarrow> n AND (n - 1) = 0 \<Longrightarrow> \<exists>k. n = (2::nat) ^ k"
proof (induction n rule: less_induct)
  case (less n)
  show ?case
  proof (cases "even n")
    case True
    then obtain m where m: "n = 2 * m" by (rule evenE)
    with less.prems have "0 < m" by simp
    then have "(n - 1) div 2 = m - 1" using m by linarith
    with m have "n AND (n - 1) = 2 * (m AND (m - 1))"
      by (subst and_nat_rec) simp
    with less.prems have "m AND (m - 1) = 0" by simp
    with less.IH [of m] m \<open>0 < m\<close> obtain k where "m = 2 ^ k" by auto
    with m have "n = 2 ^ Suc k" by simp
    then show ?thesis ..
  next
    case False
    then obtain m where m: "n = 2 * m + 1" by (rule oddE)
    then have "n AND (n - 1) = 2 * m"
      by (subst and_nat_rec) simp
    with less.prems m have "n = 2 ^ 0" by simp
    then show ?thesis ..
  qed
qed

lemma pow2_test_word:
  assumes "a \<noteq> 0" and "a AND (a - 1) = (0 :: size_t)"
  shows "\<exists>k < 64. a = 2 ^ k"
proof -
  have pos: "0 < unat a" using assms(1) by (simp add: unat_gt_0)
  then have "unat (a - 1) = unat a - 1" by (simp add: unat_minus_one assms(1))
  then have "unat a AND (unat a - 1) = 0"
    using arg_cong [OF assms(2), of unat] by (simp add: unsigned_and_eq)
  with pow2_test_nat [OF pos] obtain k where k: "unat a = 2 ^ k" by blast
  with unat_lt_2p64 [of a] have "(2::nat) ^ k < 2 ^ 64" by simp
  then have "k < 64" by (simp only: power_strict_increasing_iff) 
  moreover have "a = 2 ^ k" using word_eq_of_unat [OF k] by simp
  ultimately show ?thesis by blast
qed

lemma and_not_mask_minus: "x AND NOT (mask k) = x - (x AND mask k)" for x :: size_t
proof -
  have "NOT x AND (x AND mask k) = 0" by (simp add: bit_eq_iff bit_simps)
  then have "x - (x AND mask k) = x AND NOT (x AND mask k)" by (rule disjunctive_diff_eq_and_not)
  also have "\<dots> = x AND NOT (mask k)" by (auto simp: bit_eq_iff bit_simps)
  finally show ?thesis by simp
qed

lemma unat_align_down:
  "k < 64 \<Longrightarrow> unat (x AND NOT (2 ^ k - 1)) = unat x div 2 ^ k * 2 ^ k" for x :: size_t
proof -
  have "x AND NOT (2 ^ k - 1) = x - take_bit k x"
    by (simp add: and_not_mask_minus take_bit_eq_mask flip: mask_eq_exp_minus_1)
  moreover have "unat (take_bit k x) = unat x mod 2 ^ k"
    by (simp add: unsigned_take_bit_eq flip: take_bit_eq_mod)
  ultimately have "unat (x AND NOT (2 ^ k - 1)) = unat x - unat x mod 2 ^ k"
    by (simp add: unat_sub_le)
  then show ?thesis by (simp add: minus_mod_eq_div_mult)
qed

lemma unat_pow2: "k < 64 \<Longrightarrow> unat (2 ^ k :: size_t) = 2 ^ k"
proof -
  assume "k < 64"
  then have "(2::nat) ^ k < 2 ^ 64" by (rule power_strict_increasing) simp
  then have "unat (word_of_nat (2 ^ k) :: size_t) = 2 ^ k" by (intro unat_word_of_nat) simp
  then show ?thesis by simp
qed

lemma pow2_passes_test: "k < 64 \<Longrightarrow> (2 ^ k :: size_t) \<noteq> 0 \<and> 2 ^ k AND (2 ^ k - 1) = (0 :: size_t)"
proof
  assume k: "k < 64"
  show "(2 ^ k :: size_t) \<noteq> 0" using unat_pow2 [OF k] by (metis power_not_zero unat_0 zero_neq_numeral)
  show "2 ^ k AND (2 ^ k - 1) = (0 :: size_t)"
    by (rule bit_eqI) (auto simp: bit_simps simp flip: mask_eq_exp_minus_1)
qed

lemma hplf_size_align_up_pow2_eq:
  assumes k: "k < 64"
  shows "hplf_size_align_up_pow2 x (2 ^ k) (Some v) =
     (if unat x + (2 ^ k - 1) < SIZE_BOUND
      then (True, Some (word_of_nat (round_up (unat x) (2 ^ k)))) else (False, Some v))"
proof -
  have mask: "unat (2 ^ k - 1 :: size_t) = 2 ^ k - 1"
    using pow2_passes_test [OF k] by (simp add: unat_minus_one unat_pow2 k)
  have guard: "x > SIZE_MAX - (2 ^ k - 1) \<longleftrightarrow> \<not> unat x + (2 ^ k - 1) < SIZE_BOUND"
    using unat_lt_2p64 [of "2 ^ k - 1"] unfolding size_t_order unat_SIZE_MAX_minus mask by linarith
  have "(x + (2 ^ k - 1)) AND NOT (2 ^ k - 1) = word_of_nat (round_up (unat x) (2 ^ k))"
    if "unat x + (2 ^ k - 1) < SIZE_BOUND"
  proof (rule word_eq_of_unat)
    have "unat (x + (2 ^ k - 1)) = unat x + (2 ^ k - 1)"
      using that by (simp add: unat_add_noverflow mask)
    then show "unat ((x + (2 ^ k - 1)) AND NOT (2 ^ k - 1)) = round_up (unat x) (2 ^ k)"
      by (simp add: unat_align_down k round_up_def)
  qed
  then show ?thesis
    using pow2_passes_test [OF k] guard by (simp add: hplf_size_align_up_pow2_def Let_def)
qed

lemma pow2_round_up_fits:
  assumes k: "k < 64"
  shows "n + (2 ^ k - 1) < SIZE_BOUND \<longleftrightarrow> round_up n (2 ^ k) < SIZE_BOUND"
proof
  assume "n + (2 ^ k - 1) < SIZE_BOUND"
  moreover have "round_up n (2 ^ k) < n + 2 ^ k" by (rule round_up_less) simp
  ultimately show "round_up n (2 ^ k) < SIZE_BOUND" by linarith
next
  assume lt: "round_up n (2 ^ k) < SIZE_BOUND"
  have "(2::nat) ^ k dvd 2 ^ 64" using k by (intro le_imp_power_dvd) simp
  then have "2 ^ k dvd SIZE_BOUND - round_up n (2 ^ k)" by (intro dvd_diff_nat round_up_dvd) simp
  with lt have "2 ^ k \<le> SIZE_BOUND - round_up n (2 ^ k)" by (intro dvd_imp_le) auto
  moreover have "n \<le> round_up n (2 ^ k)" by (rule round_up_ge) simp
  moreover have "(0::nat) < 2 ^ k" by simp
  ultimately show "n + (2 ^ k - 1) < SIZE_BOUND" using lt by linarith
qed

definition is_pow2 :: "size_t \<Rightarrow> bool" where
  "is_pow2 a \<longleftrightarrow> a \<noteq> 0 \<and> a AND (a - 1) = 0"

lemma is_pow2_iff: "is_pow2 a \<longleftrightarrow> (\<exists>k < 64. a = 2 ^ k)"
proof
  show "is_pow2 a \<Longrightarrow> \<exists>k < 64. a = 2 ^ k"
    unfolding is_pow2_def by (elim conjE) (rule pow2_test_word)
  show "\<exists>k < 64. a = 2 ^ k \<Longrightarrow> is_pow2 a"
    unfolding is_pow2_def by (elim exE conjE) (simp only: pow2_passes_test simp_thms)
qed

lemma hplf_size_align_up_pow2_round_up:
  "hplf_size_align_up_pow2 x a (Some v) =
     (if is_pow2 a \<and> round_up (unat x) (unat a) < SIZE_BOUND
      then (True, Some (word_of_nat (round_up (unat x) (unat a)))) else (False, Some v))"
proof (cases "is_pow2 a")
  case True
  then obtain k where "k < 64" "a = 2 ^ k" by (auto simp: is_pow2_iff)
  with True show ?thesis
    by (simp only: hplf_size_align_up_pow2_eq pow2_round_up_fits unat_pow2 simp_thms)
next
  case False
  then show ?thesis by (auto simp: hplf_size_align_up_pow2_def is_pow2_def)
qed

section \<open>The common contract\<close>

text \<open>
  All four functions keep one contract, relative to the operation \<open>den\<close> on natural numbers that
  they compute and the operands \<open>dom\<close> they accept.
\<close>

locale checked_operation =
  fixes oper :: "size_t \<Rightarrow> size_t \<Rightarrow> size_t cell \<Rightarrow> bool \<times> size_t cell"
    and den :: "nat \<Rightarrow> nat \<Rightarrow> nat"
    and dom :: "size_t \<Rightarrow> bool"
  assumes null_output: "oper x y None = (False, None)"
    and valid_output: "oper x y (Some v) =
      (if dom y \<and> den (unat x) (unat y) < SIZE_BOUND
       then (True, Some (word_of_nat (den (unat x) (unat y)))) else (False, Some v))"
begin

lemma failure_keeps_output: "\<not> fst (oper x y r) \<Longrightarrow> snd (oper x y r) = r"
  by (cases r) (auto simp: null_output valid_output split: if_splits)

lemma success_iff:
  "fst (oper x y r) \<longleftrightarrow> r \<noteq> None \<and> dom y \<and> den (unat x) (unat y) < SIZE_BOUND"
  by (cases r) (auto simp: null_output valid_output)

lemma success_value:
  "checked (oper x y (Some v)) = Some z \<longleftrightarrow> dom y \<and> unat z = den (unat x) (unat y)"
  by (auto simp: valid_output unat_facts intro: word_eq_of_unat dest: sym)

lemma initial_value_irrelevant: "checked (oper x y (Some v)) = checked (oper x y (Some w))"
  by (simp add: valid_output)

end

interpretation size_add: checked_operation hplf_size_add "(+)" "\<lambda>_. True"
  by unfold_locales (simp_all add: hplf_size_add_eq, simp add: hplf_size_add_def)

interpretation size_multiply: checked_operation hplf_size_multiply "(*)" "\<lambda>_. True"
  by unfold_locales (simp_all add: hplf_size_multiply_eq, simp add: hplf_size_multiply_def)

interpretation size_round_up:
  checked_operation hplf_size_round_up_multiple round_up "\<lambda>m. m \<noteq> 0"
proof
  show "hplf_size_round_up_multiple x y None = (False, None)" for x y
    by (simp add: hplf_size_round_up_multiple_def)
  show "hplf_size_round_up_multiple x y (Some v) =
      (if y \<noteq> 0 \<and> round_up (unat x) (unat y) < SIZE_BOUND
       then (True, Some (word_of_nat (round_up (unat x) (unat y)))) else (False, Some v))" for x y v
    by (cases "y = 0")
      (simp add: hplf_size_round_up_multiple_def, simp add: hplf_size_round_up_multiple_eq)
qed

interpretation size_align_up: checked_operation hplf_size_align_up_pow2 round_up is_pow2
  by unfold_locales
    (simp_all add: hplf_size_align_up_pow2_round_up, simp add: hplf_size_align_up_pow2_def)

end
