(* ===== verification/Block.thy ===== *)
theory Block
  imports Checked_Math
begin

text \<open>
  \<open>src/block.h\<close>: the prefix in front of every payload, the distance between prefix and payload,
  and the layout of a large mapping.
\<close>

section \<open>Data\<close>

datatype hplf_block_kind = HPLF_BLOCK_SMALL | HPLF_BLOCK_LARGE

text \<open>
  The union \<open>owner\<close>: either the containing slab or the exact mapping.  Reading a member other
  than the one stored last is not given a value.
\<close>

datatype hplf_owner = OwnerSmall (small_slab: addr) | OwnerLarge (large_base: addr) (large_length: size_t)

record hplf_block =
  owner :: hplf_owner
  next_free :: addr
  requested_size :: size_t
  capacity :: size_t
  kind :: hplf_block_kind

fun owner_small :: "hplf_owner \<Rightarrow> addr option" where
  "owner_small (OwnerSmall slab) = Some slab"
| "owner_small (OwnerLarge base len) = None"

fun owner_large :: "hplf_owner \<Rightarrow> (addr \<times> size_t) option" where
  "owner_large (OwnerSmall slab) = None"
| "owner_large (OwnerLarge base len) = Some (base, len)"

record hplf_large_layout =
  ll_payload_offset :: size_t
  ll_mapping_length :: size_t

text \<open>
  \<open>sizeof(struct hplf_block)\<close> on LP64 (a 16-byte union, three 8-byte fields, a 4-byte enum and 4
  bytes of padding) and \<open>_Alignof(max_align_t)\<close> on x86-64 and AArch64.
\<close>

definition sizeof_hplf_block :: size_t where
  "sizeof_hplf_block = 48"

definition HPLF_PAYLOAD_ALIGNMENT :: size_t where
  "HPLF_PAYLOAD_ALIGNMENT = 16"

section \<open>Operations\<close>

definition hplf_block_payload_offset :: "size_t cell \<Rightarrow> bool \<times> size_t cell" where
  "hplf_block_payload_offset payload_offset =
     hplf_size_align_up_pow2 sizeof_hplf_block HPLF_PAYLOAD_ALIGNMENT payload_offset"

definition hplf_block_payload :: "addr \<Rightarrow> addr" where
  "hplf_block_payload block =
     (if block = NULL then NULL
      else case checked (hplf_block_payload_offset (Some 0)) of
             None \<Rightarrow> NULL
           | Some payload_offset \<Rightarrow> block + payload_offset)"

definition hplf_block_from_payload :: "addr \<Rightarrow> addr" where
  "hplf_block_from_payload payload =
     (if payload = NULL then NULL
      else case checked (hplf_block_payload_offset (Some 0)) of
             None \<Rightarrow> NULL
           | Some payload_offset \<Rightarrow> payload - payload_offset)"

definition hplf_large_layout_compute ::
  "size_t \<Rightarrow> size_t \<Rightarrow> hplf_large_layout cell \<Rightarrow> bool \<times> hplf_large_layout cell" where
  "hplf_large_layout_compute requested page_size layout =
     (if requested = 0 \<or> page_size = 0 \<or> layout = None then (False, layout)
      else case
        do {
          payload_offset \<leftarrow> checked (hplf_block_payload_offset (Some 0));
          bytes_before_rounding \<leftarrow> checked (hplf_size_add payload_offset requested (Some 0));
          mapping_length \<leftarrow>
            checked (hplf_size_round_up_multiple bytes_before_rounding page_size (Some 0));
          Some \<lparr>ll_payload_offset = payload_offset, ll_mapping_length = mapping_length\<rparr>
        } of
          None \<Rightarrow> (False, layout)
        | Some computed \<Rightarrow> (True, Some computed))"

section \<open>Prefix and payload\<close>

lemma payload_offset_value [simp]: "hplf_block_payload_offset (Some v) = (True, Some 48)"
  by (simp add: hplf_block_payload_offset_def sizeof_hplf_block_def HPLF_PAYLOAD_ALIGNMENT_def
      hplf_size_align_up_pow2_def)

lemma hplf_block_payload_eq: "hplf_block_payload b = (if b = NULL then NULL else b + 48)"
  by (simp add: hplf_block_payload_def)

lemma hplf_block_from_payload_eq: "hplf_block_from_payload p = (if p = NULL then NULL else p - 48)"
  by (simp add: hplf_block_from_payload_def)

lemma block_payload_roundtrip:
  "b + 48 \<noteq> NULL \<or> b = NULL \<Longrightarrow> hplf_block_from_payload (hplf_block_payload b) = b"
  by (auto simp: hplf_block_payload_eq hplf_block_from_payload_eq)

section \<open>Large mappings\<close>

lemma large_layout_eq:
  "hplf_large_layout_compute requested page (Some l) =
     (if requested \<noteq> 0 \<and> page \<noteq> 0 \<and> round_up (48 + unat requested) (unat page) < SIZE_BOUND
      then (True, Some \<lparr>ll_payload_offset = 48,
             ll_mapping_length = word_of_nat (round_up (48 + unat requested) (unat page))\<rparr>)
      else (False, Some l))"
proof (cases "requested = 0 \<or> page = 0")
  case True
  then show ?thesis by (auto simp: hplf_large_layout_compute_def)
next
  case False
  then have pos: "0 < unat page" by (simp add: unat_gt_0)
  show ?thesis
  proof (cases "48 + unat requested < SIZE_BOUND")
    case True
    then have "unat (48 + requested) = 48 + unat requested" by (simp add: unat_facts)
    with True False show ?thesis
      by (auto simp: hplf_large_layout_compute_def size_add.valid_output size_round_up.valid_output)
  next
    case over: False
    then have "\<not> round_up (48 + unat requested) (unat page) < SIZE_BOUND"
      using round_up_ge [OF pos, of "48 + unat requested"] by linarith
    with over False show ?thesis
      by (auto simp: hplf_large_layout_compute_def size_add.valid_output)
  qed
qed

lemma large_layout_SomeD:
  assumes "hplf_large_layout_compute requested page (Some l0) = (True, Some l)"
  shows "requested \<noteq> 0" and "page \<noteq> 0" and "ll_payload_offset l = 48"
    and "unat page dvd unat (ll_mapping_length l)"
    and "48 + unat requested \<le> unat (ll_mapping_length l)"
    and "unat (ll_mapping_length l) < 48 + unat requested + unat page"
proof -
  let ?r = "round_up (48 + unat requested) (unat page)"
  from assms have *: "requested \<noteq> 0" "page \<noteq> 0" "?r < SIZE_BOUND"
    "ll_payload_offset l = 48" "ll_mapping_length l = word_of_nat ?r"
    by (auto simp: large_layout_eq split: if_splits)
  then have u: "unat (ll_mapping_length l) = ?r" by (simp add: unat_word_of_nat)
  have pos: "0 < unat page" using *(2) by (simp add: unat_gt_0)
  show "requested \<noteq> 0" "page \<noteq> 0" "ll_payload_offset l = 48" using * by auto
  show "unat page dvd unat (ll_mapping_length l)" by (simp add: u)
  show "48 + unat requested \<le> unat (ll_mapping_length l)" using round_up_ge [OF pos] by (simp add: u)
  show "unat (ll_mapping_length l) < 48 + unat requested + unat page"
    using round_up_less [OF pos] by (simp add: u)
qed

end
