(* ===== verification/Size_Class.thy ===== *)
theory Size_Class
  imports HPLF_Prelude
begin

text \<open>
  \<open>src/size_class.h\<close> and \<open>src/size_class.c\<close>: the sixteen small-object capacities, the search for
  the class of a request and the capacity of a class.
\<close>

section \<open>Definitions\<close>

definition HPLF_SIZE_CLASS_COUNT :: size_t where
  "HPLF_SIZE_CLASS_COUNT = 16"

definition HPLF_MAX_SMALL_SIZE :: size_t where
  "HPLF_MAX_SMALL_SIZE = 4096"

definition size_class_capacities :: "size_t list" where
  "size_class_capacities =
     [16, 32, 48, 64, 96, 128, 192, 256, 384, 512, 768, 1024, 1536, 2048, 3072, 4096]"

text \<open>
  The \<open>for\<close> loop of \<open>hplf_size_class_for\<close>: the third argument is the part of the table that is
  still to be visited, the second its first index.
\<close>

fun size_class_search :: "size_t \<Rightarrow> size_t \<Rightarrow> size_t list \<Rightarrow> (size_t \<times> size_t) option" where
  "size_class_search sz index [] = None"
| "size_class_search sz index (c # cs) =
     (if sz \<le> c then Some (index, c) else size_class_search sz (index + 1) cs)"

definition hplf_size_class_for ::
  "size_t \<Rightarrow> size_t cell \<Rightarrow> size_t cell \<Rightarrow> bool \<times> size_t cell \<times> size_t cell" where
  "hplf_size_class_for sz class_index class_capacity =
     (if sz = 0 \<or> sz > HPLF_MAX_SMALL_SIZE \<or> class_index = None \<or> class_capacity = None
      then (False, class_index, class_capacity)
      else case size_class_search sz 0 size_class_capacities of
             Some (index, c) \<Rightarrow> (True, Some index, Some c)
           | None \<Rightarrow> (False, class_index, class_capacity))"

definition hplf_size_class_capacity :: "size_t \<Rightarrow> size_t cell \<Rightarrow> bool \<times> size_t cell" where
  "hplf_size_class_capacity class_index class_capacity =
     (if class_index \<ge> HPLF_SIZE_CLASS_COUNT \<or> class_capacity = None
      then (False, class_capacity)
      else (True, Some (size_class_capacities ! unat class_index)))"

text \<open>A caller's view of \<open>hplf_size_class_for\<close> with two local output variables.\<close>

definition class_of :: "size_t \<Rightarrow> (size_t \<times> size_t) option" where
  "class_of sz = (case hplf_size_class_for sz (Some 0) (Some 0) of
     (True, Some i, Some c) \<Rightarrow> Some (i, c) | _ \<Rightarrow> None)"

section \<open>The table\<close>

lemma length_capacities [simp]: "length size_class_capacities = 16"
  by (simp add: size_class_capacities_def)

lemma capacities_unat:
  "map unat size_class_capacities =
     [16, 32, 48, 64, 96, 128, 192, 256, 384, 512, 768, 1024, 1536, 2048, 3072, 4096]"
  by (simp add: size_class_capacities_def)

lemma capacity_in_table:
  assumes "i < 16"
  shows "size_class_capacities ! i \<in> set size_class_capacities"
  using assms by (intro nth_mem) simp

lemma capacity_bounds:
  assumes "c \<in> set size_class_capacities"
  shows "16 \<le> unat c" and "unat c \<le> 4096" and "16 dvd unat c"
  using assms by (auto simp: size_class_capacities_def)

lemma capacities_increasing:
  assumes "i < j" and "j < 16"
  shows "size_class_capacities ! i < size_class_capacities ! j"
proof -
  have "sorted_wrt (<) size_class_capacities"
    by (simp add: size_class_capacities_def)
  then show ?thesis using assms by (simp add: sorted_wrt_iff_nth_less)
qed

section \<open>The search\<close>

lemma size_class_search_cases:
  "case size_class_search sz index cs of
     None \<Rightarrow> (\<forall>c \<in> set cs. c < sz)
   | Some (i, c) \<Rightarrow> (\<exists>k < length cs. i = index + word_of_nat k \<and> c = cs ! k \<and> sz \<le> c \<and>
       (\<forall>j < k. cs ! j < sz))"
proof (induction sz index cs rule: size_class_search.induct)
  case (1 sz index)
  then show ?case by simp
next
  case (2 sz index c cs)
  show ?case
  proof (cases "sz \<le> c")
    case True
    then show ?thesis by (auto intro!: exI [of _ 0])
  next
    case False
    note IH = "2.IH" [OF False]
    show ?thesis
    proof (cases "size_class_search sz (index + 1) cs")
      case None
      with IH False show ?thesis by auto
    next
      case (Some r)
      obtain i d where r: "r = (i, d)" by (cases r)
      from IH Some r obtain k where k: "k < length cs" "i = index + 1 + word_of_nat k" "d = cs ! k"
        "sz \<le> d" "\<forall>j < k. cs ! j < sz" by auto
      have "\<forall>j < Suc k. (c # cs) ! j < sz"
        using k(5) False by (auto simp: nth_Cons split: nat.split)
      then show ?thesis using k Some r False
        by (auto intro!: exI [of _ "Suc k"])
    qed
  qed
qed

lemma class_of_None [simp]:
  "sz = 0 \<or> HPLF_MAX_SMALL_SIZE < sz \<Longrightarrow> class_of sz = None"
  by (auto simp: class_of_def hplf_size_class_for_def)

lemma class_of_search:
  "class_of sz = (if sz = 0 \<or> sz > HPLF_MAX_SMALL_SIZE then None
                    else size_class_search sz 0 size_class_capacities)"
  by (auto simp: class_of_def hplf_size_class_for_def split: option.splits)

lemma class_of_total:
  assumes "sz \<noteq> 0" and "sz \<le> HPLF_MAX_SMALL_SIZE"
  shows "class_of sz \<noteq> None"
proof
  assume "class_of sz = None"
  with assms have "size_class_search sz 0 size_class_capacities = None"
    by (auto simp: class_of_search split: if_splits)
  with size_class_search_cases [where sz = sz and index = 0 and cs = size_class_capacities]
  have "\<forall>c \<in> set size_class_capacities. c < sz" by simp
  moreover have "4096 \<in> set size_class_capacities" by (simp add: size_class_capacities_def)
  ultimately have "4096 < sz" by blast
  with assms show False by (simp add: HPLF_MAX_SMALL_SIZE_def)
qed

lemma class_of_SomeD:
  assumes "class_of sz = Some (i, c)"
  shows "sz \<noteq> 0" and "unat i < 16" and "c = size_class_capacities ! unat i" and "sz \<le> c"
    and "\<And>j. j < unat i \<Longrightarrow> size_class_capacities ! j < sz"
proof -
  from assms have nz: "sz \<noteq> 0" and s: "size_class_search sz 0 size_class_capacities = Some (i, c)"
    by (auto simp: class_of_search split: if_splits)
  show "sz \<noteq> 0" by (rule nz)
  from size_class_search_cases [where sz = sz and index = 0 and cs = size_class_capacities] s
  obtain k where k: "k < 16" "i = word_of_nat k" "c = size_class_capacities ! k" "sz \<le> c"
    "\<forall>j < k. size_class_capacities ! j < sz" by auto
  then have "unat i = k" by (simp add: unat_word_of_nat)
  with k show "unat i < 16" "c = size_class_capacities ! unat i" "sz \<le> c"
    "\<And>j. j < unat i \<Longrightarrow> size_class_capacities ! j < sz" by auto
qed

lemma class_of_small: "class_of sz = Some c \<Longrightarrow> sz \<noteq> 0 \<and> sz \<le> HPLF_MAX_SMALL_SIZE"
  by (auto simp: class_of_search not_less split: if_splits)

section \<open>The class of a request\<close>

lemma class_for_first:
  "hplf_size_class_for sz (Some i0) (Some c0) =
     (if sz = 0 \<or> sz > 4096 then (False, Some i0, Some c0)
      else let k = (LEAST k. sz \<le> size_class_capacities ! k) in
        (True, Some (word_of_nat k), Some (size_class_capacities ! k)))"
proof (cases "sz = 0 \<or> sz > 4096")
  case True
  then show ?thesis by (auto simp: hplf_size_class_for_def HPLF_MAX_SMALL_SIZE_def)
next
  case False
  then obtain i c where ic: "class_of sz = Some (i, c)"
    using class_of_total [of sz] by (auto simp: HPLF_MAX_SMALL_SIZE_def not_less)
  note D = class_of_SomeD [OF ic]
  have "(LEAST k. sz \<le> size_class_capacities ! k) = unat i"
    using D(3-5) by (intro Least_equality) (auto simp: not_less [symmetric] not_le)
  then show ?thesis using ic False D(3)
    by (auto simp: class_of_search hplf_size_class_for_def HPLF_MAX_SMALL_SIZE_def Let_def)
qed

lemma capacity_class:
  assumes "hplf_size_class_capacity i (Some c0) = (True, Some c)"
  shows "hplf_size_class_for c (Some x) (Some y) = (True, Some i, Some c)"
proof -
  from assms have i: "unat i < 16" and c: "c = size_class_capacities ! unat i"
    by (auto simp: hplf_size_class_capacity_def HPLF_SIZE_CLASS_COUNT_def size_t_order split: if_splits)
  have "c \<in> set size_class_capacities" using capacity_in_table [OF i] c by simp
  from capacity_bounds(1,2) [OF this] have "c \<noteq> 0" "\<not> c > 4096" by (auto simp: size_t_order)
  moreover have "(LEAST k. c \<le> size_class_capacities ! k) = unat i"
  proof (rule Least_equality)
    show "c \<le> size_class_capacities ! unat i" by (simp add: c)
    show "unat i \<le> k" if "c \<le> size_class_capacities ! k" for k
      using that capacities_increasing [of k "unat i"] i c by (meson leD leI)
  qed
  ultimately show ?thesis by (simp add: class_for_first c)
qed

lemma class_waste:
  assumes "hplf_size_class_for sz (Some x) (Some y) = (True, Some i, Some c)"
    and "16 < sz"
  shows "unat c < 2 * unat sz"
proof -
  from assms(1) have "class_of sz = Some (i, c)"
    by (auto simp: class_of_search hplf_size_class_for_def split: if_splits option.splits)
  note D = class_of_SomeD [OF this]
  have step: "unat (size_class_capacities ! Suc j) \<le> 2 * unat (size_class_capacities ! j)" if "j < 15" for j
  proof -
    have "\<forall>j \<in> {0..<15}. unat (size_class_capacities ! Suc j) \<le> 2 * unat (size_class_capacities ! j)"
      by code_simp
    with that show ?thesis by simp
  qed
  have "unat i \<noteq> 0"
  proof
    assume "unat i = 0"
    with D(3) have "c = 16" by (simp add: size_class_capacities_def)
    with D(4) assms(2) show False by simp
  qed
  then obtain j where j: "unat i = Suc j" by (cases "unat i") auto
  with D(2) have "unat c \<le> 2 * unat (size_class_capacities ! j)" using step [of j] D(3) by simp
  moreover have "unat (size_class_capacities ! j) < unat sz"
    using D(5) [of j] j by (simp add: size_t_order)
  ultimately show ?thesis by linarith
qed

end
