(* ===== verification/Slab_Layout.thy ===== *)
theory Slab_Layout
  imports Block Size_Class
begin

text \<open>
  \<open>src/slab.h\<close>: the slab header, the layout of its slots, and the facts about slot geometry that
  the allocator's memory safety rests on.
\<close>

section \<open>Data\<close>

definition HPLF_SLAB_TARGET_BYTES :: size_t where
  "HPLF_SLAB_TARGET_BYTES = 64 * 1024"

record hplf_slab =
  slab_next :: addr
  mapping_base :: addr
  mapping_length :: size_t
  first_slot_offset :: size_t
  slot_stride :: size_t
  slot_count :: size_t
  class_capacity :: size_t
  class_index :: size_t

record hplf_slab_layout =
  sl_mapping_length :: size_t
  sl_first_slot_offset :: size_t
  sl_payload_offset :: size_t
  sl_slot_stride :: size_t
  sl_slot_count :: size_t
  sl_class_capacity :: size_t

text \<open>\<open>sizeof(struct hplf_slab)\<close>: eight 8-byte members on LP64.\<close>

definition sizeof_hplf_slab :: size_t where
  "sizeof_hplf_slab = 64"

section \<open>Operations\<close>

definition hplf_slab_layout_compute ::
  "size_t \<Rightarrow> size_t \<Rightarrow> hplf_slab_layout cell \<Rightarrow> bool \<times> hplf_slab_layout cell" where
  "hplf_slab_layout_compute cap page_size layout =
     (if cap = 0 \<or> page_size = 0 \<or> layout = None then (False, layout)
      else case
        do {
          map_len \<leftarrow> checked (hplf_size_round_up_multiple HPLF_SLAB_TARGET_BYTES page_size (Some 0));
          first \<leftarrow> checked (hplf_size_align_up_pow2 sizeof_hplf_slab HPLF_PAYLOAD_ALIGNMENT (Some 0));
          payload_offset \<leftarrow> checked (hplf_block_payload_offset (Some 0));
          slot_bytes \<leftarrow> checked (hplf_size_add payload_offset cap (Some 0));
          stride \<leftarrow> checked (hplf_size_align_up_pow2 slot_bytes HPLF_PAYLOAD_ALIGNMENT (Some 0));
          if first \<ge> map_len then None
          else do {
            let usable_bytes = map_len - first;
            let count = usable_bytes div stride;
            if count = 0 then None
            else do {
              occupied_bytes \<leftarrow> checked (hplf_size_multiply count stride (Some 0));
              occupied_end \<leftarrow> checked (hplf_size_add first occupied_bytes (Some 0));
              if occupied_end > map_len then None
              else Some \<lparr>sl_mapping_length = map_len, sl_first_slot_offset = first,
                         sl_payload_offset = payload_offset, sl_slot_stride = stride,
                         sl_slot_count = count, sl_class_capacity = cap\<rparr>
            }
          }
        } of
          None \<Rightarrow> (False, layout)
        | Some computed \<Rightarrow> (True, Some computed))"

section \<open>Layout facts\<close>

lemma first_slot_offset_value:
  "hplf_size_align_up_pow2 sizeof_hplf_slab HPLF_PAYLOAD_ALIGNMENT (Some v) = (True, Some 64)"
  by (simp add: sizeof_hplf_slab_def HPLF_PAYLOAD_ALIGNMENT_def hplf_size_align_up_pow2_def)

lemma is_pow2_alignment [simp]: "is_pow2 HPLF_PAYLOAD_ALIGNMENT"
  by (simp add: is_pow2_def HPLF_PAYLOAD_ALIGNMENT_def)

lemma unat_alignment [simp]: "unat HPLF_PAYLOAD_ALIGNMENT = 16"
  by (simp add: HPLF_PAYLOAD_ALIGNMENT_def)

text \<open>The computation in closed form, on natural numbers.\<close>

definition slab_bytes :: "size_t \<Rightarrow> nat" where
  "slab_bytes page = round_up 65536 (unat page)"

definition slot_bytes :: "size_t \<Rightarrow> nat" where
  "slot_bytes cap = round_up (48 + unat cap) 16"

definition slots_per_slab :: "size_t \<Rightarrow> size_t \<Rightarrow> nat" where
  "slots_per_slab cap page = (slab_bytes page - 64) div slot_bytes cap"

lemma slab_bytes_ge: "page \<noteq> 0 \<Longrightarrow> 65536 \<le> slab_bytes page"
  by (simp add: slab_bytes_def round_up_ge unat_gt_0)

lemma slot_bytes_ge: "48 + unat cap \<le> slot_bytes cap"
  by (simp add: slot_bytes_def round_up_ge)

lemma slot_bytes_dvd: "16 dvd slot_bytes cap"
  by (simp add: slot_bytes_def)

lemma slots_fit: "page \<noteq> 0 \<Longrightarrow> 64 + slots_per_slab cap page * slot_bytes cap \<le> slab_bytes page"
  using slab_bytes_ge [of page] div_times_less_eq_dividend [of "slab_bytes page - 64" "slot_bytes cap"]
  unfolding slots_per_slab_def by linarith

lemma checked_slab_bytes:
  "checked (hplf_size_round_up_multiple HPLF_SLAB_TARGET_BYTES page (Some v)) =
     (if page \<noteq> 0 \<and> slab_bytes page < SIZE_BOUND then Some (word_of_nat (slab_bytes page)) else None)"
  by (simp add: size_round_up.valid_output HPLF_SLAB_TARGET_BYTES_def slab_bytes_def)

lemma checked_slot_bytes:
  "(checked (hplf_size_add 48 cap (Some v)) \<bind>
     (\<lambda>b. checked (hplf_size_align_up_pow2 b HPLF_PAYLOAD_ALIGNMENT (Some w)) \<bind> f)) =
   (if slot_bytes cap < SIZE_BOUND then f (word_of_nat (slot_bytes cap)) else None)"
proof (cases "48 + unat cap < SIZE_BOUND")
  case True
  then have "unat (48 + cap) = 48 + unat cap" by (simp add: unat_facts)
  with True show ?thesis
    by (simp add: size_add.valid_output size_align_up.valid_output slot_bytes_def)
next
  case False
  then have "\<not> slot_bytes cap < SIZE_BOUND" using slot_bytes_ge [of cap] by linarith
  with False show ?thesis by (simp add: size_add.valid_output)
qed

lemma checked_slots:
  assumes "page \<noteq> 0" "slab_bytes page < SIZE_BOUND" "slot_bytes cap < SIZE_BOUND"
  defines "m \<equiv> word_of_nat (slab_bytes page) :: size_t" and "s \<equiv> word_of_nat (slot_bytes cap) :: size_t"
  shows "(64::size_t) < m" and "(m - 64) div s = word_of_nat (slots_per_slab cap page)"
    and "hplf_size_multiply ((m - 64) div s) s (Some v) = (True, Some ((m - 64) div s * s))"
    and "hplf_size_add 64 ((m - 64) div s * s) (Some v) = (True, Some (64 + (m - 64) div s * s))"
    and "64 + (m - 64) div s * s \<le> m"
proof -
  have m: "unat m = slab_bytes page" and s: "unat s = slot_bytes cap"
    using assms by (simp_all add: unat_word_of_nat)
  show lt: "(64::size_t) < m" using slab_bytes_ge [OF assms(1)] m by (simp add: size_t_less_iff)
  then have "unat (m - 64) = slab_bytes page - 64"
    by (subst unat_sub_le) (simp_all add: size_t_less_iff m)
  then have n: "unat ((m - 64) div s) = slots_per_slab cap page"
    by (simp add: unat_div s slots_per_slab_def)
  show "(m - 64) div s = word_of_nat (slots_per_slab cap page)" by (rule word_eq_of_unat [OF n])
  note fit = slots_fit [OF assms(1), of cap]
  then have np: "unat ((m - 64) div s) * unat s < SIZE_BOUND" using assms(2) unfolding n s by linarith
  then show "hplf_size_multiply ((m - 64) div s) s (Some v) = (True, Some ((m - 64) div s * s))"
    by (simp add: hplf_size_multiply_eq)
  have prod: "unat ((m - 64) div s * s) = slots_per_slab cap page * slot_bytes cap"
    using unat_mult_noverflow [OF np] n s by simp
  have ns: "unat (64 :: size_t) + unat ((m - 64) div s * s) < SIZE_BOUND"
    using fit assms(2) unfolding prod by simp
  then show "hplf_size_add 64 ((m - 64) div s * s) (Some v) = (True, Some (64 + (m - 64) div s * s))"
    by (simp add: hplf_size_add_eq)
  show "64 + (m - 64) div s * s \<le> m"
    using fit unat_add_noverflow [OF ns] unfolding size_t_le_iff prod m by simp
qed

lemma hplf_slab_layout_compute_eq:
  "hplf_slab_layout_compute cap page (Some l0) =
     (if cap \<noteq> 0 \<and> page \<noteq> 0 \<and> slab_bytes page < SIZE_BOUND \<and> slot_bytes cap < SIZE_BOUND \<and>
         0 < slots_per_slab cap page
      then (True, Some \<lparr>sl_mapping_length = word_of_nat (slab_bytes page),
              sl_first_slot_offset = 64, sl_payload_offset = 48,
              sl_slot_stride = word_of_nat (slot_bytes cap),
              sl_slot_count = word_of_nat (slots_per_slab cap page), sl_class_capacity = cap\<rparr>)
      else (False, Some l0))"
proof (cases "cap \<noteq> 0 \<and> page \<noteq> 0 \<and> slab_bytes page < SIZE_BOUND \<and> slot_bytes cap < SIZE_BOUND")
  case False
  then show ?thesis
    by (auto simp: hplf_slab_layout_compute_def checked_slab_bytes first_slot_offset_value
        checked_slot_bytes)
next
  case True
  then have "slots_per_slab cap page < SIZE_BOUND"
    unfolding slots_per_slab_def by (meson div_le_dividend diff_le_self le_trans le_less_trans)
  then have "(word_of_nat (slots_per_slab cap page) :: size_t) = 0 \<longleftrightarrow> slots_per_slab cap page = 0"
    by (simp add: size_t_eq_0_iff unat_word_of_nat)
  with True show ?thesis using checked_slots [of page cap]
    by (simp add: hplf_slab_layout_compute_def checked_slab_bytes first_slot_offset_value
        checked_slot_bytes Let_def leD)
qed

text \<open>
  For the capacities of the class table and any positive page size of a signed \<open>long\<close> the layout
  exists: none of the guards of \<open>hplf_slab_layout_compute\<close> can fire.
\<close>

lemma table_slot_bytes:
  assumes "c \<in> set size_class_capacities" shows "slot_bytes c = 48 + unat c"
  unfolding slot_bytes_def
proof (rule round_up_unique)
  have "16 dvd 48 + unat c" using capacity_bounds(3) [OF assms] by presburger
  then show "16 dvd 48 + unat c" .
qed simp_all

lemma slab_bytes_bound:
  assumes "page \<noteq> 0" "unat page < 9223372036854775808"
  shows "slab_bytes page < SIZE_BOUND"
  using round_up_less [of "unat page" 65536] assms by (simp add: slab_bytes_def unat_gt_0)

lemma table_slots_positive:
  assumes "c \<in> set size_class_capacities" "page \<noteq> 0"
  shows "0 < slots_per_slab c page"
  unfolding slots_per_slab_def table_slot_bytes [OF assms(1)]
  using capacity_bounds(2) [OF assms(1)] slab_bytes_ge [OF assms(2)]
  by (subst div_greater_zero_iff) linarith

lemma slab_layout_compute_total:
  assumes "c \<in> set size_class_capacities" and "page \<noteq> 0" and "unat page < 9223372036854775808"
  shows "hplf_slab_layout_compute c page (Some l0) = (True, Some
     \<lparr>sl_mapping_length = word_of_nat (slab_bytes page),
      sl_first_slot_offset = 64, sl_payload_offset = 48, sl_slot_stride = word_of_nat (48 + unat c),
      sl_slot_count = word_of_nat (slots_per_slab c page), sl_class_capacity = c\<rparr>)"
proof -
  have "c \<noteq> 0" using capacity_bounds(1) [OF assms(1)] by auto
  moreover have "slot_bytes c < SIZE_BOUND"
    using capacity_bounds(2) [OF assms(1)] by (simp add: table_slot_bytes assms(1))
  ultimately show ?thesis
    using assms slab_bytes_bound table_slots_positive
    by (simp add: hplf_slab_layout_compute_eq table_slot_bytes)
qed

end
