(* ===== verification/Chains.thy ===== *)
theory Chains
  imports HPLF_Prelude
begin

text \<open>
  Null-terminated singly linked lists in a heap, seen through a function \<open>nx\<close> from the address of
  a node to the link it holds (\<open>None\<close> where there is no node).  Both intrusive lists of the
  allocator, the \<open>next_free\<close> chains of blocks and the \<open>next\<close> chain of slabs, are instances.
\<close>

section \<open>Segments and chains\<close>

fun segment :: "(addr \<Rightarrow> addr option) \<Rightarrow> addr \<Rightarrow> addr list \<Rightarrow> addr \<Rightarrow> bool" where
  "segment nx p [] q \<longleftrightarrow> p = q"
| "segment nx p (x # xs) q \<longleftrightarrow> p = x \<and> x \<noteq> NULL \<and> (\<exists>r. nx x = Some r \<and> segment nx r xs q)"

definition chain :: "(addr \<Rightarrow> addr option) \<Rightarrow> addr \<Rightarrow> addr list \<Rightarrow> bool" where
  "chain nx p xs \<longleftrightarrow> segment nx p xs NULL"

lemma chain_Nil [simp]: "chain nx p [] \<longleftrightarrow> p = NULL"
  by (simp add: chain_def)

lemma chain_Cons [simp]:
  "chain nx p (x # xs) \<longleftrightarrow> p = x \<and> x \<noteq> NULL \<and> (\<exists>r. nx x = Some r \<and> chain nx r xs)"
  by (simp add: chain_def)

lemma chain_NULL [simp]: "chain nx NULL xs \<longleftrightarrow> xs = []"
  by (cases xs) auto

lemma chain_nonnull: "p \<noteq> NULL \<Longrightarrow> chain nx p xs \<Longrightarrow> \<exists>ys. xs = p # ys"
  by (cases xs) auto

lemma segment_append [simp]:
  "segment nx p (xs @ ys) q \<longleftrightarrow> (\<exists>r. segment nx p xs r \<and> segment nx r ys q)"
  by (induction xs arbitrary: p) auto

lemma chain_append: "chain nx p (xs @ ys) \<longleftrightarrow> (\<exists>r. segment nx p xs r \<and> chain nx r ys)"
  by (simp add: chain_def)

lemma chain_unique: "chain nx p xs \<Longrightarrow> chain nx p ys \<Longrightarrow> xs = ys"
  by (induction xs arbitrary: p ys) (auto dest: chain_nonnull)

lemma chain_nodes: "chain nx p xs \<Longrightarrow> x \<in> set xs \<Longrightarrow> x \<noteq> NULL \<and> nx x \<noteq> None"
  by (induction xs arbitrary: p) auto

lemma chain_suffix_unique:
  assumes "chain nx p (xs @ x # ys)" shows "nx x = Some (case ys of [] \<Rightarrow> NULL | y # _ \<Rightarrow> y)"
  using assms by (auto simp: chain_append split: list.splits)

lemma chain_distinct: "chain nx p xs \<Longrightarrow> distinct xs"
proof (induction xs arbitrary: p)
  case Nil
  then show ?case by simp
next
  case (Cons x xs)
  then obtain r where r: "nx x = Some r" "chain nx r xs" by auto
  have "x \<notin> set xs"
  proof
    assume "x \<in> set xs"
    then obtain as bs where "xs = as @ x # bs" by (auto simp: in_set_conv_decomp)
    with r have "chain nx x (x # bs)" by (auto simp: chain_append)
    with Cons.prems have "x # xs = x # bs" by (auto dest: chain_unique)
    with \<open>xs = as @ x # bs\<close> show False by simp
  qed
  with Cons.IH r show ?case by simp
qed

text \<open>Chains are shorter than the address space, so a \<open>size_t\<close> counts them exactly.\<close>

lemma chain_length: "chain nx p xs \<Longrightarrow> length xs < SIZE_BOUND"
proof -
  assume c: "chain nx p xs"
  have "length xs = card (set xs)" using chain_distinct [OF c] by (simp add: distinct_card)
  also have "\<dots> \<le> card (UNIV - {NULL})" using chain_nodes [OF c] by (intro card_mono) auto
  also have "\<dots> < card (UNIV :: addr set)" by (intro psubset_card_mono) auto
  also have "\<dots> = SIZE_BOUND" by (simp add: card_word)
  finally show ?thesis .
qed

text \<open>A chain depends on the links of its own nodes only.\<close>

lemma segment_cong:
  "(\<And>x. x \<in> set xs \<Longrightarrow> nx x = nx' x) \<Longrightarrow> segment nx p xs q \<longleftrightarrow> segment nx' p xs q"
  by (induction xs arbitrary: p) auto

lemma chain_cong:
  "(\<And>x. x \<in> set xs \<Longrightarrow> nx x = nx' x) \<Longrightarrow> chain nx p xs \<longleftrightarrow> chain nx' p xs"
  unfolding chain_def by (rule segment_cong)

lemma chain_update_frame [simp]:
  "a \<notin> set xs \<Longrightarrow> chain (nx(a := v)) p xs \<longleftrightarrow> chain nx p xs"
  by (rule chain_cong) auto

lemma segment_update_frame [simp]:
  "a \<notin> set xs \<Longrightarrow> segment (nx(a := v)) p xs q \<longleftrightarrow> segment nx p xs q"
  by (rule segment_cong) auto

text \<open>Redirecting the last link of one chain to the head of another joins them.\<close>

lemma chain_splice:
  assumes "chain nx p (xs @ [l])" and "chain nx q ys" and "l \<notin> set ys"
  shows "chain (nx(l \<mapsto> q)) p (xs @ l # ys)"
proof -
  have "distinct (xs @ [l])" by (rule chain_distinct [OF assms(1)])
  with assms show ?thesis by (auto simp: chain_append)
qed

lemma chain_cut:
  assumes "chain nx p (xs @ l # ys)"
  shows "chain (nx(l \<mapsto> NULL)) p (xs @ [l])" and "\<exists>q. nx l = Some q \<and> chain (nx(l \<mapsto> NULL)) q ys"
proof -
  have "distinct (xs @ l # ys)" by (rule chain_distinct [OF assms(1)])
  with assms show "chain (nx(l \<mapsto> NULL)) p (xs @ [l])"
    and "\<exists>q. nx l = Some q \<and> chain (nx(l \<mapsto> NULL)) q ys"
    by (auto simp: chain_append)
qed

lemma chain_push:
  "chain nx p xs \<Longrightarrow> a \<noteq> NULL \<Longrightarrow> a \<notin> set xs \<Longrightarrow> chain (nx(a \<mapsto> p)) a (a # xs)"
  by simp

section \<open>The interface of a linked heap\<close>

text \<open>
  What the list algorithms need of a heap of nodes: links can be read, and writing the link of an
  existing node succeeds, changes that link and no other.
\<close>

locale linked_heap =
  fixes link :: "'s \<Rightarrow> addr \<Rightarrow> addr option"
    and set_link :: "addr \<Rightarrow> addr \<Rightarrow> 's \<Rightarrow> 's option"
  assumes set_link_defined: "link s p \<noteq> None \<Longrightarrow> \<exists>s'. set_link p q s = Some s'"
    and set_link_link: "set_link p q s = Some s' \<Longrightarrow> link s' = (link s)(p \<mapsto> q)"
begin

lemma push_front:
  assumes "chain (link s) h xs" and "link s a \<noteq> None" and "a \<noteq> NULL" and "a \<notin> set xs"
  shows "\<exists>s'. set_link a h s = Some s' \<and> chain (link s') a (a # xs)"
proof -
  from set_link_defined [OF assms(2)] obtain s' where s': "set_link a h s = Some s'" by blast
  with assms chain_push show ?thesis by (auto simp: set_link_link)
qed

lemma splice_front:
  assumes "chain (link s) p (xs @ [l])" and "chain (link s) h ys" and "l \<notin> set ys"
  shows "\<exists>s'. set_link l h s = Some s' \<and> chain (link s') p (xs @ l # ys)"
proof -
  have "link s l \<noteq> None" using chain_nodes [OF assms(1), of l] by simp
  from set_link_defined [OF this] obtain s' where s': "set_link l h s = Some s'" by blast
  with assms show ?thesis by (auto simp: set_link_link intro: chain_splice)
qed

lemma detach_after:
  assumes "chain (link s) p (xs @ l # ys)"
  shows "\<exists>q s'. link s l = Some q \<and> set_link l NULL s = Some s' \<and>
    chain (link s') p (xs @ [l]) \<and> chain (link s') q ys"
proof -
  have "link s l \<noteq> None" using chain_nodes [OF assms, of l] by simp
  from set_link_defined [OF this] obtain s' where s': "set_link l NULL s = Some s'" by blast
  with chain_cut [OF assms] show ?thesis by (auto simp: set_link_link)
qed

lemma other_chain:
  assumes "set_link p q s = Some s'" and "p \<notin> set xs"
  shows "chain (link s') h xs \<longleftrightarrow> chain (link s) h xs"
  using assms by (simp add: set_link_link)

end

end
