(* ===== verification/Memory_Model.thy ===== *)
theory Memory_Model
  imports Slab_Layout Chains
begin

text \<open>
  The memory and the operating system that the allocator runs on.

  Memory is typed: an address holds a block prefix, a slab header or bytes.  Creating an object
  and writing bytes destroy whatever overlaps them, so that metadata and payloads stay intact is
  something to prove, not something the model gives away.  An access that C leaves undefined (a
  dangling pointer, an unmapped range, a mutex that the caller already holds) is \<open>None\<close>.

  \<open>mmap\<close>, \<open>munmap\<close>, \<open>sysconf\<close> and the pthread mutexes are not part of the repository: their results
  are the parameter \<open>os_env\<close>, indexed by the number of system calls made so far, and \<open>os_ok\<close> states
  the documented behaviour that the allocator relies on.
\<close>

section \<open>Error numbers\<close>

definition EIO :: int where "EIO = 5"
definition EAGAIN :: int where "EAGAIN = 11"
definition ENOMEM :: int where "ENOMEM = 12"
definition EINVAL :: int where "EINVAL = 22"

section \<open>The state\<close>

text \<open>The fault-injection state of \<open>os_memory.c\<close>, part of the \<open>HPLF_TESTING\<close> build.\<close>

record hplf_os_fault_state =
  page_query_calls :: size_t
  map_calls :: size_t
  unmap_calls :: size_t
  successful_maps :: size_t
  successful_unmaps :: size_t
  fail_page_query_on :: size_t
  fail_map_on :: size_t
  fail_unmap_on :: size_t

record world =
  errno :: int
  ticks :: nat
  mappings :: "(addr \<times> size_t) list"
  blocks :: "addr \<Rightarrow> hplf_block option"
  slab_objs :: "addr \<Rightarrow> hplf_slab option"
  bytes :: "addr \<Rightarrow> byte option"
  fault_state :: hplf_os_fault_state

record os_env =
  hplf_testing :: bool
  sc_pagesize :: "64 word"
  mmap_result :: "nat \<Rightarrow> (addr \<times> size_t) list \<Rightarrow> size_t \<Rightarrow> int + addr"
  munmap_result :: "nat \<Rightarrow> addr \<Rightarrow> size_t \<Rightarrow> int"
  lock_result :: "nat \<Rightarrow> int"
  unlock_result :: "nat \<Rightarrow> int"

section \<open>Address ranges\<close>

definition in_range :: "addr \<Rightarrow> nat \<Rightarrow> addr \<Rightarrow> bool" where
  "in_range p n q \<longleftrightarrow> unat p \<le> unat q \<and> unat q < unat p + n"

definition disjoint_ranges :: "addr \<Rightarrow> nat \<Rightarrow> addr \<Rightarrow> nat \<Rightarrow> bool" where
  "disjoint_ranges p n q m \<longleftrightarrow> unat p + n \<le> unat q \<or> unat q + m \<le> unat p"

definition subrange :: "addr \<Rightarrow> nat \<Rightarrow> addr \<Rightarrow> nat \<Rightarrow> bool" where
  "subrange p n q m \<longleftrightarrow> unat q \<le> unat p \<and> unat p + n \<le> unat q + m"

definition mapped :: "'a world_scheme \<Rightarrow> addr \<Rightarrow> nat \<Rightarrow> bool" where
  "mapped s p n \<longleftrightarrow> list_ex (\<lambda>(b, l). subrange p n b (unat l)) (mappings s)"

section \<open>Objects\<close>

definition clobber :: "addr \<Rightarrow> nat \<Rightarrow> 'a world_scheme \<Rightarrow> 'a world_scheme" where
  "clobber p n s = s\<lparr>
     blocks := (\<lambda>q. if disjoint_ranges p n q 48 then blocks s q else None),
     slab_objs := (\<lambda>q. if disjoint_ranges p n q 64 then slab_objs s q else None),
     bytes := (\<lambda>q. if in_range p n q then None else bytes s q)\<rparr>"

definition store_block :: "addr \<Rightarrow> hplf_block \<Rightarrow> 'a world_scheme \<Rightarrow> 'a world_scheme option" where
  "store_block p b s =
     (if mapped s p 48 then Some (clobber p 48 s\<lparr>blocks := (blocks (clobber p 48 s))(p \<mapsto> b)\<rparr>) else None)"

definition store_slab :: "addr \<Rightarrow> hplf_slab \<Rightarrow> 'a world_scheme \<Rightarrow> 'a world_scheme option" where
  "store_slab p d s =
     (if mapped s p 64 then Some (clobber p 64 s\<lparr>slab_objs := (slab_objs (clobber p 64 s))(p \<mapsto> d)\<rparr>) else None)"

definition update_block ::
  "addr \<Rightarrow> (hplf_block \<Rightarrow> hplf_block) \<Rightarrow> 'a world_scheme \<Rightarrow> 'a world_scheme option" where
  "update_block p f s = (case blocks s p of
     None \<Rightarrow> None | Some b \<Rightarrow> Some (s\<lparr>blocks := (blocks s)(p \<mapsto> f b)\<rparr>))"

definition update_slab ::
  "addr \<Rightarrow> (hplf_slab \<Rightarrow> hplf_slab) \<Rightarrow> 'a world_scheme \<Rightarrow> 'a world_scheme option" where
  "update_slab p f s = (case slab_objs s p of
     None \<Rightarrow> None | Some d \<Rightarrow> Some (s\<lparr>slab_objs := (slab_objs s)(p \<mapsto> f d)\<rparr>))"

definition block_next :: "'a world_scheme \<Rightarrow> addr \<Rightarrow> addr option" where
  "block_next s p = map_option next_free (blocks s p)"

definition slab_link :: "'a world_scheme \<Rightarrow> addr \<Rightarrow> addr option" where
  "slab_link s p = map_option slab_next (slab_objs s p)"

definition set_next_free :: "addr \<Rightarrow> addr \<Rightarrow> 'a world_scheme \<Rightarrow> 'a world_scheme option" where
  "set_next_free p q s = update_block p (\<lambda>b. b\<lparr>next_free := q\<rparr>) s"

definition set_slab_next :: "addr \<Rightarrow> addr \<Rightarrow> 'a world_scheme \<Rightarrow> 'a world_scheme option" where
  "set_slab_next p q s = update_slab p (\<lambda>d. d\<lparr>slab_next := q\<rparr>) s"

section \<open>Bytes\<close>

text \<open>\<open>memset\<close>, \<open>memcpy\<close> and a client's byte store.\<close>

definition mem_set :: "addr \<Rightarrow> byte \<Rightarrow> nat \<Rightarrow> 'a world_scheme \<Rightarrow> 'a world_scheme option" where
  "mem_set p v n s =
     (if mapped s p n
      then Some (clobber p n s\<lparr>bytes := (\<lambda>q. if in_range p n q then Some v else bytes s q)\<rparr>)
      else None)"

definition mem_copy :: "addr \<Rightarrow> addr \<Rightarrow> nat \<Rightarrow> 'a world_scheme \<Rightarrow> 'a world_scheme option" where
  "mem_copy dst src n s =
     (if mapped s dst n \<and> mapped s src n \<and> disjoint_ranges dst n src n
      then Some (clobber dst n s\<lparr>bytes :=
        (\<lambda>q. if in_range dst n q then bytes s (src + (q - dst)) else bytes s q)\<rparr>)
      else None)"

section \<open>System calls\<close>

definition sys_mmap :: "os_env \<Rightarrow> size_t \<Rightarrow> 'a world_scheme \<Rightarrow> addr option \<times> 'a world_scheme" where
  "sys_mmap env len s =
     (case mmap_result env (ticks s) (mappings s) len of
        Inl e \<Rightarrow> (None, s\<lparr>ticks := Suc (ticks s), errno := e\<rparr>)
      | Inr base \<Rightarrow> (Some base, clobber base (unat len) s\<lparr>
          ticks := Suc (ticks s),
          mappings := (base, len) # mappings s,
          bytes := (\<lambda>q. if in_range base (unat len) q then Some 0 else bytes s q)\<rparr>))"

definition sys_munmap ::
  "os_env \<Rightarrow> addr \<Rightarrow> size_t \<Rightarrow> 'a world_scheme \<Rightarrow> (int \<times> 'a world_scheme) option" where
  "sys_munmap env base len s =
     (let e = munmap_result env (ticks s) base len in
      if e \<noteq> 0 then Some (-1, s\<lparr>ticks := Suc (ticks s), errno := e\<rparr>)
      else if (base, len) \<in> set (mappings s)
      then Some (0, clobber base (unat len) s\<lparr>
             ticks := Suc (ticks s), mappings := remove1 (base, len) (mappings s)\<rparr>)
      else None)"

text \<open>
  A default pthread mutex, as the flag "held".  Locking a mutex that is held never returns in this
  sequential setting, unlocking one that is not held is undefined.
\<close>

definition pthread_mutex_lock ::
  "os_env \<Rightarrow> bool \<Rightarrow> 'a world_scheme \<Rightarrow> (int \<times> bool \<times> 'a world_scheme) option" where
  "pthread_mutex_lock env held s =
     (let e = lock_result env (ticks s); s' = s\<lparr>ticks := Suc (ticks s)\<rparr> in
      if e \<noteq> 0 then Some (e, held, s') else if held then None else Some (0, True, s'))"

definition pthread_mutex_unlock ::
  "os_env \<Rightarrow> bool \<Rightarrow> 'a world_scheme \<Rightarrow> (int \<times> bool \<times> 'a world_scheme) option" where
  "pthread_mutex_unlock env held s =
     (let e = unlock_result env (ticks s); s' = s\<lparr>ticks := Suc (ticks s)\<rparr> in
      if \<not> held then None else if e \<noteq> 0 then Some (e, True, s') else Some (0, False, s'))"

section \<open>What the allocator relies on\<close>

text \<open>
  \<open>sysconf(_SC_PAGESIZE)\<close> is a positive \<open>long\<close> and a multiple of the fundamental alignment;
  \<open>mmap\<close> returns a page-aligned, non-null range that does not wrap and that is disjoint from every
  range mapped at the time; a mutex the caller holds can be unlocked.  Any of \<open>mmap\<close>, \<open>munmap\<close> and
  \<open>pthread_mutex_lock\<close> may fail at any time.
\<close>

definition os_ok :: "os_env \<Rightarrow> bool" where
  "os_ok env \<longleftrightarrow>
     0 < sint (sc_pagesize env) \<and> 16 dvd unat (sc_pagesize env) \<and>
     (\<forall>t ms len base. len \<noteq> 0 \<longrightarrow> mmap_result env t ms len = Inr base \<longrightarrow>
        base \<noteq> NULL \<and> unat (sc_pagesize env) dvd unat base \<and>
        unat base + unat len \<le> SIZE_BOUND \<and>
        (\<forall>(b, l) \<in> set ms. disjoint_ranges base (unat len) b (unat l))) \<and>
     (\<forall>t. unlock_result env t = 0)"

section \<open>Lemmas\<close>

lemma mapped_iff: "mapped s p n \<longleftrightarrow> (\<exists>(b, l) \<in> set (mappings s). subrange p n b (unat l))"
  by (auto simp: mapped_def list_ex_iff)

lemma mapped_cong: "mappings s = mappings s' \<Longrightarrow> mapped s p n = mapped s' p n"
  by (simp add: mapped_def)

lemma clobber_simps [simp]:
  "errno (clobber p n s) = errno s" "ticks (clobber p n s) = ticks s"
  "mappings (clobber p n s) = mappings s" "fault_state (clobber p n s) = fault_state s"
  "blocks (clobber p n s) q = (if disjoint_ranges p n q 48 then blocks s q else None)"
  "slab_objs (clobber p n s) q = (if disjoint_ranges p n q 64 then slab_objs s q else None)"
  "bytes (clobber p n s) q = (if in_range p n q then None else bytes s q)"
  "world.more (clobber p n s) = world.more s"
  by (simp_all add: clobber_def)

lemma disjoint_ranges_sym: "disjoint_ranges p n q m \<longleftrightarrow> disjoint_ranges q m p n"
  by (auto simp: disjoint_ranges_def)

lemma disjoint_subrange:
  "disjoint_ranges p n q m \<Longrightarrow> subrange p' n' p n \<Longrightarrow> subrange q' m' q m \<Longrightarrow> disjoint_ranges p' n' q' m'"
  by (auto simp: disjoint_ranges_def subrange_def)

lemma in_range_disjoint:
  "disjoint_ranges p n q m \<Longrightarrow> in_range p n x \<Longrightarrow> \<not> in_range q m x"
  by (auto simp: disjoint_ranges_def in_range_def)

lemma in_range_subrange: "in_range p n x \<Longrightarrow> subrange p n q m \<Longrightarrow> in_range q m x"
  by (auto simp: in_range_def subrange_def)

lemma subrange_refl [simp]: "subrange p n p n"
  by (simp add: subrange_def)

lemma subrange_trans: "subrange p n q m \<Longrightarrow> subrange q m r k \<Longrightarrow> subrange p n r k"
  by (simp add: subrange_def)

interpretation block_list: linked_heap block_next set_next_free
  by unfold_locales
    (auto simp: block_next_def set_next_free_def update_block_def fun_eq_iff split: option.splits)

interpretation slab_list: linked_heap slab_link set_slab_next
  by unfold_locales
    (auto simp: slab_link_def set_slab_next_def update_slab_def fun_eq_iff split: option.splits)

lemma os_ok_page:
  assumes "os_ok env"
  shows "sc_pagesize env \<noteq> 0" and "unat (sc_pagesize env) < 9223372036854775808"
    and "16 dvd unat (sc_pagesize env)"
  using assms unat_nonneg_long [of "sc_pagesize env"] by (auto simp: os_ok_def)

lemma os_ok_unlock [simp]: "os_ok env \<Longrightarrow> unlock_result env t = 0"
  by (simp add: os_ok_def)

lemma os_ok_mmap:
  assumes "os_ok env" and "mmap_result env t ms len = Inr base" and "len \<noteq> 0"
  shows "base \<noteq> NULL" and "unat (sc_pagesize env) dvd unat base"
    and "unat base + unat len \<le> SIZE_BOUND"
    and "\<And>b l. (b, l) \<in> set ms \<Longrightarrow> disjoint_ranges base (unat len) b (unat l)"
  using assms by (fastforce simp: os_ok_def)+

section \<open>How a call may change the memory\<close>

text \<open>
  The three effects of the functions of \<open>os_memory.c\<close>: nothing but \<open>errno\<close>, the call counter and
  the test counters changes; a fresh range appears; an existing range disappears.
\<close>

definition same_memory :: "'a world_scheme \<Rightarrow> 'a world_scheme \<Rightarrow> bool" where
  "same_memory s s' \<longleftrightarrow> mappings s' = mappings s \<and> blocks s' = blocks s \<and>
     slab_objs s' = slab_objs s \<and> bytes s' = bytes s \<and> world.more s' = world.more s"

definition range_gone :: "addr \<Rightarrow> nat \<Rightarrow> 'a world_scheme \<Rightarrow> 'a world_scheme \<Rightarrow> bool" where
  "range_gone base n s s' \<longleftrightarrow>
     (\<forall>q. blocks s' q = (if disjoint_ranges base n q 48 then blocks s q else None)) \<and>
     (\<forall>q. slab_objs s' q = (if disjoint_ranges base n q 64 then slab_objs s q else None)) \<and>
     (\<forall>q. \<not> in_range base n q \<longrightarrow> bytes s' q = bytes s q) \<and>
     world.more s' = world.more s"

definition range_mapped :: "addr \<Rightarrow> size_t \<Rightarrow> 'a world_scheme \<Rightarrow> 'a world_scheme \<Rightarrow> bool" where
  "range_mapped base len s s' \<longleftrightarrow> range_gone base (unat len) s s' \<and>
     mappings s' = (base, len) # mappings s \<and>
     (\<forall>q. in_range base (unat len) q \<longrightarrow> bytes s' q = Some 0)"

definition range_unmapped :: "addr \<Rightarrow> size_t \<Rightarrow> 'a world_scheme \<Rightarrow> 'a world_scheme \<Rightarrow> bool" where
  "range_unmapped base len s s' \<longleftrightarrow> range_gone base (unat len) s s' \<and>
     mappings s' = remove1 (base, len) (mappings s)"

lemma same_memory_refl [simp, intro]: "same_memory s s"
  by (simp add: same_memory_def)

lemma same_memory_trans [trans]:
  "same_memory s s' \<Longrightarrow> same_memory s' s'' \<Longrightarrow> same_memory s s''"
  by (simp add: same_memory_def)

lemma same_memory_quiet [simp]:
  "same_memory s (s'\<lparr>errno := e\<rparr>) = same_memory s s'"
  "same_memory s (s'\<lparr>ticks := n\<rparr>) = same_memory s s'"
  "same_memory s (s'\<lparr>fault_state := f\<rparr>) = same_memory s s'"
  by (simp_all add: same_memory_def)

lemma range_mapped_quiet [simp]:
  "range_mapped b l (s\<lparr>fault_state := f\<rparr>) s' = range_mapped b l s s'"
  "range_mapped b l s (s'\<lparr>fault_state := f\<rparr>) = range_mapped b l s s'"
  by (simp_all add: range_mapped_def range_gone_def)

lemma range_unmapped_quiet [simp]:
  "range_unmapped b l (s\<lparr>fault_state := f\<rparr>) s' = range_unmapped b l s s'"
  "range_unmapped b l s (s'\<lparr>fault_state := f\<rparr>) = range_unmapped b l s s'"
  by (simp_all add: range_unmapped_def range_gone_def)

lemma sys_mmap_cases:
  assumes "sys_mmap env len s = (r, s')"
  obtains (failed) "r = None" "same_memory s s'"
  | (succeeded) base where "r = Some base" "range_mapped base len s s'"
      "mmap_result env (ticks s) (mappings s) len = Inr base"
  using assms
  by (auto simp: sys_mmap_def same_memory_def range_mapped_def range_gone_def split: sum.splits)

lemma sys_munmap_cases:
  assumes "(base, len) \<in> set (mappings s)"
  obtains (failed) s' where "sys_munmap env base len s = Some (-1, s')" "same_memory s s'"
  | (succeeded) s' where "sys_munmap env base len s = Some (0, s')" "range_unmapped base len s s'"
  using assms
  by (cases "munmap_result env (ticks s) base len = 0")
     (auto simp: sys_munmap_def same_memory_def range_unmapped_def range_gone_def Let_def)

text \<open>Everything outside a range is as before: what initialising a fresh mapping may change.\<close>

definition outside_same :: "addr \<Rightarrow> nat \<Rightarrow> 'a world_scheme \<Rightarrow> 'a world_scheme \<Rightarrow> bool" where
  "outside_same base n s s' \<longleftrightarrow>
     (\<forall>q. disjoint_ranges base n q 48 \<longrightarrow> blocks s' q = blocks s q) \<and>
     (\<forall>q. disjoint_ranges base n q 64 \<longrightarrow> slab_objs s' q = slab_objs s q) \<and>
     (\<forall>q. \<not> in_range base n q \<longrightarrow> bytes s' q = bytes s q) \<and>
     world.more s' = world.more s"

lemma outside_same_trans [trans]:
  "outside_same b n s s' \<Longrightarrow> outside_same b n s' s'' \<Longrightarrow> outside_same b n s s''"
  by (simp add: outside_same_def)

lemma range_gone_outside: "range_gone b n s s' \<Longrightarrow> outside_same b n s s'"
  by (simp add: range_gone_def outside_same_def)

lemma disjoint_narrow: "disjoint_ranges b n q m \<Longrightarrow> subrange p k b n \<Longrightarrow> disjoint_ranges p k q m"
  by (auto simp: disjoint_ranges_def subrange_def)

lemma not_disjoint_inside: "subrange p m b n \<Longrightarrow> 0 < m \<Longrightarrow> \<not> disjoint_ranges b n p m"
  by (auto simp: disjoint_ranges_def subrange_def)

lemma store_block_inside:
  assumes "mapped s p 48" and "subrange p 48 b n"
  obtains s' where "store_block p v s = Some s'" "outside_same b n s s'" "mappings s' = mappings s"
    "blocks s' p = Some v"
    "\<And>q. q \<noteq> p \<Longrightarrow> disjoint_ranges p 48 q 48 \<Longrightarrow> blocks s' q = blocks s q"
    "\<And>q. disjoint_ranges p 48 q 64 \<Longrightarrow> slab_objs s' q = slab_objs s q"
proof -
  let ?s' = "clobber p 48 s\<lparr>blocks := (blocks (clobber p 48 s))(p \<mapsto> v)\<rparr>"
  have "outside_same b n s ?s'"
    using assms(2) by (auto simp: outside_same_def disjoint_narrow not_disjoint_inside dest: in_range_subrange)
  with assms(1) show ?thesis by (intro that [of ?s']) (auto simp: store_block_def)
qed

lemma store_slab_inside:
  assumes "mapped s p 64" and "subrange p 64 b n"
  obtains s' where "store_slab p v s = Some s'" "outside_same b n s s'" "mappings s' = mappings s"
    "slab_objs s' p = Some v"
proof -
  let ?s' = "clobber p 64 s\<lparr>slab_objs := (slab_objs (clobber p 64 s))(p \<mapsto> v)\<rparr>"
  have "outside_same b n s ?s'"
    using assms(2) by (auto simp: outside_same_def disjoint_narrow not_disjoint_inside dest: in_range_subrange)
  with assms(1) show ?thesis by (intro that [of ?s']) (auto simp: store_slab_def)
qed

end
