(* ===== verification/Os_Memory.thy ===== *)
theory Os_Memory
  imports Memory_Model
begin

text \<open>
  \<open>src/os_memory.h\<close> and \<open>src/os_memory.c\<close>: page-size queries, mapping and unmapping, and the
  fault injection of the \<open>HPLF_TESTING\<close> build.  The flag \<open>hplf_testing\<close> of the environment selects
  the build, as the preprocessor does.
\<close>

section \<open>Definitions\<close>

record hplf_os_mapping =
  map_base :: addr
  map_length :: size_t

record hplf_os_test_counters =
  c_page_queries :: size_t
  c_map_attempts :: size_t
  c_unmap_attempts :: size_t
  c_successful_maps :: size_t
  c_successful_unmaps :: size_t

text \<open>The two counters are passed by address: the result carries the new value of \<open>calls\<close>.\<close>

definition hplf_os_test_should_fail :: "size_t \<Rightarrow> size_t \<Rightarrow> bool \<times> size_t" where
  "hplf_os_test_should_fail calls failure_call =
     (let call = calls + 1; failure = failure_call in (failure \<noteq> 0 \<and> call = failure, call))"

definition hplf_os_test_faults_reset :: "'a world_scheme \<Rightarrow> 'a world_scheme" where
  "hplf_os_test_faults_reset s = s\<lparr>fault_state :=
     \<lparr>page_query_calls = 0, map_calls = 0, unmap_calls = 0, successful_maps = 0,
      successful_unmaps = 0, fail_page_query_on = 0, fail_map_on = 0, fail_unmap_on = 0\<rparr>\<rparr>"

definition hplf_os_test_fail_page_query_on :: "size_t \<Rightarrow> 'a world_scheme \<Rightarrow> 'a world_scheme" where
  "hplf_os_test_fail_page_query_on call_number s =
     s\<lparr>fault_state := (fault_state s)\<lparr>fail_page_query_on := call_number\<rparr>\<rparr>"

definition hplf_os_test_fail_map_on :: "size_t \<Rightarrow> 'a world_scheme \<Rightarrow> 'a world_scheme" where
  "hplf_os_test_fail_map_on call_number s =
     s\<lparr>fault_state := (fault_state s)\<lparr>fail_map_on := call_number\<rparr>\<rparr>"

definition hplf_os_test_fail_unmap_on :: "size_t \<Rightarrow> 'a world_scheme \<Rightarrow> 'a world_scheme" where
  "hplf_os_test_fail_unmap_on call_number s =
     s\<lparr>fault_state := (fault_state s)\<lparr>fail_unmap_on := call_number\<rparr>\<rparr>"

definition hplf_os_test_get_counters ::
  "hplf_os_test_counters cell \<Rightarrow> 'a world_scheme \<Rightarrow> hplf_os_test_counters cell" where
  "hplf_os_test_get_counters counters s =
     (if counters = None then None
      else Some \<lparr>c_page_queries = page_query_calls (fault_state s),
                 c_map_attempts = map_calls (fault_state s),
                 c_unmap_attempts = unmap_calls (fault_state s),
                 c_successful_maps = successful_maps (fault_state s),
                 c_successful_unmaps = successful_unmaps (fault_state s)\<rparr>)"

text \<open>
  The \<open>#ifdef HPLF_TESTING\<close> guards in front of the three system calls: whether a fault is injected
  here, and the state with the call counted.
\<close>

definition page_query_fault :: "os_env \<Rightarrow> 'a world_scheme \<Rightarrow> bool \<times> 'a world_scheme" where
  "page_query_fault env s =
     (if hplf_testing env
      then let (fail, calls) = hplf_os_test_should_fail (page_query_calls (fault_state s))
                                 (fail_page_query_on (fault_state s))
           in (fail, s\<lparr>fault_state := (fault_state s)\<lparr>page_query_calls := calls\<rparr>\<rparr>)
      else (False, s))"

definition map_fault :: "os_env \<Rightarrow> 'a world_scheme \<Rightarrow> bool \<times> 'a world_scheme" where
  "map_fault env s =
     (if hplf_testing env
      then let (fail, calls) = hplf_os_test_should_fail (map_calls (fault_state s))
                                 (fail_map_on (fault_state s))
           in (fail, s\<lparr>fault_state := (fault_state s)\<lparr>map_calls := calls\<rparr>\<rparr>)
      else (False, s))"

definition unmap_fault :: "os_env \<Rightarrow> 'a world_scheme \<Rightarrow> bool \<times> 'a world_scheme" where
  "unmap_fault env s =
     (if hplf_testing env
      then let (fail, calls) = hplf_os_test_should_fail (unmap_calls (fault_state s))
                                 (fail_unmap_on (fault_state s))
           in (fail, s\<lparr>fault_state := (fault_state s)\<lparr>unmap_calls := calls\<rparr>\<rparr>)
      else (False, s))"

definition hplf_os_page_size ::
  "os_env \<Rightarrow> size_t cell \<Rightarrow> 'a world_scheme \<Rightarrow> bool \<times> size_t cell \<times> 'a world_scheme" where
  "hplf_os_page_size env page_size s =
     (if page_size = None then (False, page_size, s\<lparr>errno := EINVAL\<rparr>)
      else
        let (inject, s) = page_query_fault env s
        in if inject then (False, page_size, s\<lparr>errno := EIO\<rparr>)
        else let queried_page_size = sc_pagesize env in
          if sint queried_page_size \<le> 0 \<or> queried_page_size > SIZE_MAX
          then (False, page_size, s\<lparr>errno := EINVAL\<rparr>)
          else (True, Some queried_page_size, s))"

definition hplf_os_map ::
  "os_env \<Rightarrow> size_t \<Rightarrow> hplf_os_mapping cell \<Rightarrow> 'a world_scheme \<Rightarrow>
     bool \<times> hplf_os_mapping cell \<times> 'a world_scheme" where
  "hplf_os_map env minimum_length output s =
     (if output = None \<or> minimum_length = 0 then (False, output, s\<lparr>errno := EINVAL\<rparr>)
      else case hplf_os_page_size env (Some 0) s of
        (True, Some page_size, s) \<Rightarrow>
          (case checked (hplf_size_round_up_multiple minimum_length page_size (Some 0)) of
             None \<Rightarrow> (False, output, s\<lparr>errno := ENOMEM\<rparr>)
           | Some len \<Rightarrow>
               let (inject, s) = map_fault env s
               in if inject then (False, output, s\<lparr>errno := ENOMEM\<rparr>)
               else case sys_mmap env len s of
                 (None, s) \<Rightarrow> (False, output, s)
               | (Some base, s) \<Rightarrow>
                   (True, Some \<lparr>map_base = base, map_length = len\<rparr>,
                    if hplf_testing env
                    then s\<lparr>fault_state := (fault_state s)
                             \<lparr>successful_maps := successful_maps (fault_state s) + 1\<rparr>\<rparr>
                    else s))
      | (_, _, s) \<Rightarrow> (False, output, s))"

definition hplf_os_unmap ::
  "os_env \<Rightarrow> hplf_os_mapping cell \<Rightarrow> size_t cell \<Rightarrow> 'a world_scheme \<Rightarrow>
     (bool \<times> hplf_os_mapping cell \<times> size_t cell \<times> 'a world_scheme) option" where
  "hplf_os_unmap env mapping released_bytes s =
     (case mapping of
        None \<Rightarrow> Some (False, mapping, released_bytes, s\<lparr>errno := EINVAL\<rparr>)
      | Some m \<Rightarrow>
          if released_bytes = None \<or> map_base m = NULL \<or> map_length m = 0
          then Some (False, mapping, released_bytes, s\<lparr>errno := EINVAL\<rparr>)
          else
            let base = map_base m; len = map_length m; (inject, s) = unmap_fault env s
            in if inject then Some (False, mapping, released_bytes, s\<lparr>errno := EIO\<rparr>)
            else do {
              (r, s) \<leftarrow> sys_munmap env base len s;
              if r \<noteq> 0 then Some (False, mapping, released_bytes, s)
              else Some (True, Some (m\<lparr>map_base := NULL, map_length := 0\<rparr>), Some len,
                if hplf_testing env
                then s\<lparr>fault_state := (fault_state s)
                         \<lparr>successful_unmaps := successful_unmaps (fault_state s) + 1\<rparr>\<rparr>
                else s)
            })"

section \<open>Fault injection\<close>

lemma page_query_fault_memory:
  "page_query_fault env s = (f, s') \<Longrightarrow> same_memory s s' \<and> errno s' = errno s \<and> ticks s' = ticks s"
  by (auto simp: page_query_fault_def split: if_splits prod.splits)

lemma map_fault_memory:
  "map_fault env s = (f, s') \<Longrightarrow> same_memory s s' \<and> errno s' = errno s \<and> ticks s' = ticks s"
  by (auto simp: map_fault_def split: if_splits prod.splits)

lemma unmap_fault_memory:
  "unmap_fault env s = (f, s') \<Longrightarrow> same_memory s s' \<and> errno s' = errno s \<and> ticks s' = ticks s"
  by (auto simp: unmap_fault_def split: if_splits prod.splits)

lemma range_mapped_same_memory:
  "same_memory s s1 \<Longrightarrow> range_mapped b l s1 s' \<Longrightarrow> range_mapped b l s s'"
  by (simp add: same_memory_def range_mapped_def range_gone_def)

lemma range_unmapped_same_memory:
  "same_memory s s1 \<Longrightarrow> range_unmapped b l s1 s' \<Longrightarrow> range_unmapped b l s s'"
  by (simp add: same_memory_def range_unmapped_def range_gone_def)

section \<open>Page size\<close>

lemma page_size_cases:
  assumes "os_ok env"
  obtains (failed) s' where "hplf_os_page_size env (Some p) s = (False, Some p, s')" "same_memory s s'"
      "hplf_testing env"
  | (succeeded) s' where "hplf_os_page_size env (Some p) s = (True, Some (sc_pagesize env), s')"
    "same_memory s s'" "errno s' = errno s"
proof -
  have "\<not> sint (sc_pagesize env) \<le> 0" "\<not> sc_pagesize env > SIZE_MAX"
    using assms by (auto simp: os_ok_def size_t_less_iff not_less)
  moreover obtain f s1 where "page_query_fault env s = (f, s1)" by (cases "page_query_fault env s")
  ultimately show ?thesis
    using page_query_fault_memory [of env s f s1] that
    by (cases f) (auto simp: hplf_os_page_size_def page_query_fault_def split: if_splits)
qed

section \<open>Mapping\<close>

text \<open>\<open>mmap\<close> would grant \<open>n\<close> bytes now, and no fault is injected.\<close>

definition can_map :: "os_env \<Rightarrow> 'a world_scheme \<Rightarrow> nat \<Rightarrow> bool" where
  "can_map env s n \<longleftrightarrow> \<not> hplf_testing env \<and> n < SIZE_BOUND \<and>
     (\<forall>t. \<exists>b. mmap_result env t (mappings s) (word_of_nat n) = Inr b)"

lemma can_map_same: "mappings s' = mappings s \<Longrightarrow> can_map env s' n = can_map env s n"
  by (simp add: can_map_def)

lemma os_map_cases:
  assumes ok: "os_ok env" and n: "n \<noteq> 0"
  obtains (failed) s' where "hplf_os_map env n (Some m) s = (False, Some m, s')" "same_memory s s'"
      "\<not> can_map env s (round_up (unat n) (unat (sc_pagesize env)))"
  | (succeeded) base len s' where
      "hplf_os_map env n (Some m) s = (True, Some \<lparr>map_base = base, map_length = len\<rparr>, s')"
      "range_mapped base len s s'" "unat len = round_up (unat n) (unat (sc_pagesize env))"
      "base \<noteq> NULL" "unat (sc_pagesize env) dvd unat base" "unat base + unat len \<le> SIZE_BOUND"
      "\<And>b l. (b, l) \<in> set (mappings s) \<Longrightarrow> disjoint_ranges base (unat len) b (unat l)"
  using ok
proof (cases rule: page_size_cases [where p = 0 and s = s])
  case (failed s1)
  with n that(1) show ?thesis by (auto simp: hplf_os_map_def can_map_def)
next
  case (succeeded s1)
  let ?r = "checked (hplf_size_round_up_multiple n (sc_pagesize env) (Some 0))"
  show ?thesis
  proof (cases ?r)
    case None
    moreover from None os_ok_page(1) [OF ok]
    have "\<not> round_up (unat n) (unat (sc_pagesize env)) < SIZE_BOUND"
      by (auto simp: hplf_size_round_up_multiple_eq)
    ultimately show ?thesis using succeeded n that(1) by (auto simp: hplf_os_map_def can_map_def)
  next
    case (Some len)
    then have len: "unat len = round_up (unat n) (unat (sc_pagesize env))"
      by (simp add: size_round_up.success_value)
    have "0 < unat (sc_pagesize env)" using os_ok_page(1) [OF ok] by (simp add: unat_gt_0)
    from round_up_ge [OF this, of "unat n"] have "len \<noteq> 0"
      using n len by (metis le_zero_eq unat_0 unat_0_iff)
    obtain f s2 where s2: "map_fault env s1 = (f, s2)" by (cases "map_fault env s1")
    have m2: "same_memory s s2"
      using succeeded(2) map_fault_memory [OF s2] by (auto intro: same_memory_trans)
    obtain r s3 where s3: "sys_mmap env len s2 = (r, s3)" by (cases "sys_mmap env len s2")
    show ?thesis
    proof (cases f)
      case True
      moreover from True s2 have "hplf_testing env" by (auto simp: map_fault_def split: if_splits)
      ultimately show ?thesis using succeeded n Some s2 m2 that(1) by (auto simp: hplf_os_map_def can_map_def)
    next
      case f: False
      from s3 show ?thesis
      proof (cases rule: sys_mmap_cases)
        case failed
        have "mappings s2 = mappings s" using m2 by (simp add: same_memory_def)
        with failed(1) s3 have "\<not> can_map env s (unat len)"
          by (auto simp: can_map_def sys_mmap_def split: sum.splits)
             (metis sum.distinct(1))
        with failed succeeded n Some s2 m2 f s3 that(1) len show ?thesis
          by (auto simp: hplf_os_map_def intro: same_memory_trans)
      next
        case (succeeded base)
        note ms = os_ok_mmap [OF ok succeeded(3) \<open>len \<noteq> 0\<close>]
        have "mappings s2 = mappings s" using m2 by (simp add: same_memory_def)
        with succeeded ms len m2 show ?thesis
          using \<open>hplf_os_page_size env (Some 0) s = _\<close> n Some s2 f s3
          by (intro that(2) [of base len]) (auto simp: hplf_os_map_def intro: range_mapped_same_memory)
      qed
    qed
  qed
qed

section \<open>Unmapping\<close>

lemma os_unmap_cases:
  assumes "(base, len) \<in> set (mappings s)" and "base \<noteq> NULL" and "len \<noteq> 0"
  obtains (failed) s' where
      "hplf_os_unmap env (Some \<lparr>map_base = base, map_length = len\<rparr>) (Some r) s =
         Some (False, Some \<lparr>map_base = base, map_length = len\<rparr>, Some r, s')" "same_memory s s'"
  | (succeeded) s' where
      "hplf_os_unmap env (Some \<lparr>map_base = base, map_length = len\<rparr>) (Some r) s =
         Some (True, Some \<lparr>map_base = NULL, map_length = 0\<rparr>, Some len, s')"
      "range_unmapped base len s s'"
proof -
  obtain f s1 where s1: "unmap_fault env s = (f, s1)" by (cases "unmap_fault env s")
  have m1: "same_memory s s1" using unmap_fault_memory [OF s1] by simp
  then have "(base, len) \<in> set (mappings s1)" using assms(1) by (simp add: same_memory_def)
  then show ?thesis
  proof (cases rule: sys_munmap_cases [where env = env])
    case (failed s2)
    with s1 m1 assms(2,3) that(1) show ?thesis
      by (cases f) (auto simp: hplf_os_unmap_def intro: same_memory_trans)
  next
    case (succeeded s2)
    have "range_unmapped base len s s2" by (rule range_unmapped_same_memory [OF m1 succeeded(2)])
    with succeeded s1 m1 assms(2,3) that show ?thesis
      by (cases f) (auto simp: hplf_os_unmap_def)
  qed
qed

text \<open>A system whose \<open>munmap\<close> never fails.\<close>

definition unmap_reliable :: "os_env \<Rightarrow> bool" where
  "unmap_reliable env \<longleftrightarrow> \<not> hplf_testing env \<and> (\<forall>t b l. munmap_result env t b l = 0)"

lemma os_unmap_reliable:
  assumes "unmap_reliable env" and "hplf_os_unmap env (Some m) (Some r) s = Some (ok, x)"
    and "map_base m \<noteq> NULL" and "map_length m \<noteq> 0"
  shows ok
  using assms by (auto simp: unmap_reliable_def hplf_os_unmap_def unmap_fault_def sys_munmap_def Let_def
      split: if_splits)

end
