(* ===== verification/Slab.thy ===== *)
theory Slab
  imports Os_Memory
begin

text \<open>
  \<open>src/slab.c\<close>: creating a slab, that is mapping it, writing its header and threading all of its
  slots into a private free chain.
\<close>

section \<open>Definitions\<close>

text \<open>The \<open>for\<close> loop over the slots; the fourth argument counts the iterations that are left.\<close>

fun slab_init_slots ::
  "addr \<Rightarrow> hplf_slab_layout \<Rightarrow> size_t \<Rightarrow> nat \<Rightarrow> size_t \<Rightarrow> addr \<Rightarrow> 'a world_scheme \<Rightarrow>
     (addr \<times> 'a world_scheme) option" where
  "slab_init_slots slab layout cap 0 index free_list s = Some (free_list, s)"
| "slab_init_slots slab layout cap (Suc n) index free_list s = do {
     let offset = sl_first_slot_offset layout + index * sl_slot_stride layout;
     let block = slab + offset;
     s \<leftarrow> store_block block
       \<lparr>owner = OwnerSmall slab, next_free = free_list, requested_size = 0, capacity = cap,
        kind = HPLF_BLOCK_SMALL\<rparr> s;
     slab_init_slots slab layout cap n (index + 1) block s
   }"

definition hplf_slab_create ::
  "os_env \<Rightarrow> size_t \<Rightarrow> size_t \<Rightarrow> addr cell \<Rightarrow> addr cell \<Rightarrow> 'a world_scheme \<Rightarrow>
     (bool \<times> addr cell \<times> addr cell \<times> 'a world_scheme) option" where
  "hplf_slab_create env ci cap slab_output free_list_output s =
     (if slab_output = None \<or> free_list_output = None
      then Some (False, slab_output, free_list_output, s\<lparr>errno := EINVAL\<rparr>)
      else case hplf_os_page_size env (Some 0) s of
        (True, Some page_size, s) \<Rightarrow>
          (case checked (hplf_slab_layout_compute cap page_size (Some
               \<lparr>sl_mapping_length = 0, sl_first_slot_offset = 0, sl_payload_offset = 0,
                sl_slot_stride = 0, sl_slot_count = 0, sl_class_capacity = 0\<rparr>)) of
             None \<Rightarrow> Some (False, slab_output, free_list_output, s\<lparr>errno := ENOMEM\<rparr>)
           | Some layout \<Rightarrow>
               (case hplf_os_map env (sl_mapping_length layout)
                       (Some \<lparr>map_base = NULL, map_length = 0\<rparr>) s of
                  (True, Some mapping, s) \<Rightarrow> do {
                    let slab = map_base mapping;
                    s \<leftarrow> store_slab slab
                      \<lparr>slab_next = NULL, mapping_base = map_base mapping,
                       mapping_length = map_length mapping,
                       first_slot_offset = sl_first_slot_offset layout,
                       slot_stride = sl_slot_stride layout,
                       slot_count = sl_slot_count layout,
                       class_capacity = cap, class_index = ci\<rparr> s;
                    (free_list, s) \<leftarrow>
                      slab_init_slots slab layout cap (unat (sl_slot_count layout)) 0 NULL s;
                    Some (True, Some slab, Some free_list, s)
                  }
                | (_, _, s) \<Rightarrow> Some (False, slab_output, free_list_output, s)))
      | (_, _, s) \<Rightarrow> Some (False, slab_output, free_list_output, s))"

section \<open>Slot geometry\<close>

definition slot_at :: "addr \<Rightarrow> hplf_slab \<Rightarrow> nat \<Rightarrow> addr" where
  "slot_at a d k = a + (first_slot_offset d + word_of_nat k * slot_stride d)"

definition slab_slots :: "addr \<Rightarrow> hplf_slab \<Rightarrow> addr list" where
  "slab_slots a d = map (slot_at a d) [0..<unat (slot_count d)]"

definition slab_ok :: "os_env \<Rightarrow> addr \<Rightarrow> hplf_slab \<Rightarrow> bool" where
  "slab_ok env a d \<longleftrightarrow>
     a \<noteq> NULL \<and> 16 dvd unat a \<and> unat a + unat (mapping_length d) \<le> SIZE_BOUND \<and>
     mapping_base d = a \<and> unat (mapping_length d) = slab_bytes (sc_pagesize env) \<and>
     first_slot_offset d = 64 \<and> unat (slot_stride d) = 48 + unat (class_capacity d) \<and>
     unat (slot_count d) = slots_per_slab (class_capacity d) (sc_pagesize env) \<and>
     unat (class_index d) < 16 \<and> class_capacity d = size_class_capacities ! unat (class_index d)"

lemma slab_ok_capacity:
  assumes "slab_ok env a d"
  shows "class_capacity d \<in> set size_class_capacities"
    and "16 \<le> unat (class_capacity d)" and "unat (class_capacity d) \<le> 4096" and "16 dvd unat (class_capacity d)"
proof -
  show "class_capacity d \<in> set size_class_capacities"
    using assms capacity_in_table by (auto simp: slab_ok_def)
  from capacity_bounds [OF this] show "16 \<le> unat (class_capacity d)"
    "unat (class_capacity d) \<le> 4096" "16 dvd unat (class_capacity d)" .
qed

lemma slots_end:
  assumes "os_ok env" and "slab_ok env a d"
  shows "64 + unat (slot_count d) * (48 + unat (class_capacity d)) \<le> unat (mapping_length d)"
  using slots_fit [OF os_ok_page(1) [OF assms(1)], of "class_capacity d"] assms(2)
    table_slot_bytes [OF slab_ok_capacity(1) [OF assms(2)]]
  by (simp add: slab_ok_def)

lemma slab_ok_count: "os_ok env \<Longrightarrow> slab_ok env a d \<Longrightarrow> 0 < unat (slot_count d)"
  using table_slots_positive [OF slab_ok_capacity(1) os_ok_page(1)] by (simp add: slab_ok_def)

lemma slot_index_end:
  "k < n \<Longrightarrow> k * c + c \<le> n * (c :: nat)"
  using mult_le_mono1 [of "Suc k" n c] by simp

lemma unat_slot_at:
  assumes "os_ok env" and "slab_ok env a d" and "k < unat (slot_count d)"
  shows "unat (slot_at a d k) = unat a + 64 + k * (48 + unat (class_capacity d))"
proof -
  let ?c = "48 + unat (class_capacity d)"
  have e: "64 + k * ?c + ?c \<le> unat (mapping_length d)"
    using slots_end [OF assms(1,2)] slot_index_end [OF assms(3), of ?c] by linarith
  have ml: "unat a + unat (mapping_length d) \<le> SIZE_BOUND" using assms(2) by (simp add: slab_ok_def)
  have k: "unat (word_of_nat k :: size_t) = k"
    using assms(3) unat_lt_2p64 [of "slot_count d"] by (intro unat_word_of_nat) linarith
  have st: "unat (slot_stride d) = ?c" using assms(2) by (simp add: slab_ok_def)
  have lt: "64 + k * ?c < SIZE_BOUND" using e unat_lt_2p64 [of "mapping_length d"] by linarith
  then have "unat (word_of_nat k :: size_t) * unat (slot_stride d) < SIZE_BOUND"
    unfolding k st by linarith
  from unat_mult_noverflow [OF this] have m: "unat (word_of_nat k * slot_stride d) = k * ?c"
    unfolding k st .
  have "unat (64 :: size_t) + unat (word_of_nat k * slot_stride d) < SIZE_BOUND"
    using lt unfolding m by simp
  from unat_add_noverflow [OF this] have f: "unat (64 + word_of_nat k * slot_stride d) = 64 + k * ?c"
    unfolding m by simp
  have "unat a + unat (64 + word_of_nat k * slot_stride d) < SIZE_BOUND"
    using e ml unfolding f by linarith
  from unat_add_noverflow [OF this]
  have "unat (a + (64 + word_of_nat k * slot_stride d)) = unat a + (64 + k * ?c)"
    unfolding f .
  then show ?thesis using assms(2) by (simp add: slot_at_def slab_ok_def)
qed

lemma slot_in_slab:
  assumes "os_ok env" and "slab_ok env a d" and "k < unat (slot_count d)"
  shows "subrange (slot_at a d k) (48 + unat (class_capacity d)) a (unat (mapping_length d))"
  using unat_slot_at [OF assms] slots_end [OF assms(1,2)]
    slot_index_end [OF assms(3), of "48 + unat (class_capacity d)"]
  unfolding subrange_def by linarith

lemma slots_disjoint:
  assumes "os_ok env" and "slab_ok env a d" and "j < unat (slot_count d)" and "k < unat (slot_count d)"
    and "j \<noteq> k"
  shows "disjoint_ranges (slot_at a d j) (48 + unat (class_capacity d))
           (slot_at a d k) (48 + unat (class_capacity d))"
proof -
  let ?c = "48 + unat (class_capacity d)"
  have "j * ?c + ?c \<le> k * ?c \<or> k * ?c + ?c \<le> j * ?c"
    using assms(5) slot_index_end [of j k ?c] slot_index_end [of k j ?c] by (meson nat_neq_iff)
  then show ?thesis
    using unat_slot_at [OF assms(1-3)] unat_slot_at [OF assms(1,2,4)]
    unfolding disjoint_ranges_def by linarith
qed

lemma slot_header_disjoint:
  assumes "os_ok env" and "slab_ok env a d" and "k < unat (slot_count d)"
  shows "disjoint_ranges (slot_at a d k) (48 + unat (class_capacity d)) a 64"
  using unat_slot_at [OF assms] unfolding disjoint_ranges_def by linarith

lemma slot_aligned:
  assumes "os_ok env" and "slab_ok env a d" and "k < unat (slot_count d)"
  shows "16 dvd unat (slot_at a d k)" and "slot_at a d k \<noteq> NULL"
proof -
  have "16 dvd unat a" using assms(2) by (simp add: slab_ok_def)
  moreover have "16 dvd k * (48 + unat (class_capacity d))"
    using slab_ok_capacity(4) [OF assms(2)] by (intro dvd_mult dvd_add) simp_all
  ultimately show "16 dvd unat (slot_at a d k)"
    unfolding unat_slot_at [OF assms] by (intro dvd_add) simp_all
  show "slot_at a d k \<noteq> NULL"
    using unat_slot_at [OF assms] by (auto simp: size_t_eq_0_iff)
qed

lemma slot_at_inj:
  assumes "os_ok env" and "slab_ok env a d" and "j < unat (slot_count d)" and "k < unat (slot_count d)"
    and "slot_at a d j = slot_at a d k"
  shows "j = k"
  using slots_disjoint [OF assms(1-4)] assms(5) by (auto simp: disjoint_ranges_def)

lemma slab_slots_distinct: "os_ok env \<Longrightarrow> slab_ok env a d \<Longrightarrow> distinct (slab_slots a d)"
  by (auto simp: slab_slots_def distinct_map inj_on_def dest: slot_at_inj)

lemma in_slab_slots: "x \<in> set (slab_slots a d) \<longleftrightarrow> (\<exists>k < unat (slot_count d). x = slot_at a d k)"
  by (auto simp: slab_slots_def)

section \<open>Initialising the slots\<close>

definition fresh_slot :: "addr \<Rightarrow> hplf_slab \<Rightarrow> nat \<Rightarrow> hplf_block" where
  "fresh_slot a d k =
     \<lparr>owner = OwnerSmall a, next_free = (if k = 0 then NULL else slot_at a d (k - 1)),
      requested_size = 0, capacity = class_capacity d, kind = HPLF_BLOCK_SMALL\<rparr>"

lemma slab_init_slots_spec:
  assumes "os_ok env" and "slab_ok env a d"
    and "sl_first_slot_offset l = first_slot_offset d" and "sl_slot_stride l = slot_stride d"
    and "(a, mapping_length d) \<in> set (mappings s)" and "k + n = unat (slot_count d)"
    and "fl = (if k = 0 then NULL else slot_at a d (k - 1))"
  shows "\<exists>s'. slab_init_slots a l (class_capacity d) n (word_of_nat k) fl s =
              Some (if k + n = 0 then NULL else slot_at a d (k + n - 1), s') \<and>
     mappings s' = mappings s \<and> outside_same a (unat (mapping_length d)) s s' \<and>
     slab_objs s' a = slab_objs s a \<and>
     (\<forall>j. k \<le> j \<and> j < k + n \<longrightarrow> blocks s' (slot_at a d j) = Some (fresh_slot a d j)) \<and>
     (\<forall>j < k. blocks s' (slot_at a d j) = blocks s (slot_at a d j))"
  using assms(5-7)
proof (induction n arbitrary: k fl s)
  case 0
  then show ?case by (auto simp: outside_same_def)
next
  case (Suc n)
  let ?c = "48 + unat (class_capacity d)"
  let ?p = "slot_at a d k"
  from Suc.prems(2) have k: "k < unat (slot_count d)" by simp
  have sub: "subrange ?p 48 a (unat (mapping_length d))"
    using slot_in_slab [OF assms(1,2) k] by (simp add: subrange_def)
  then have "mapped s ?p 48" using Suc.prems(1) by (auto simp: mapped_iff)
  from store_block_inside [OF this sub, of "fresh_slot a d k"] obtain s1 where s1:
    "store_block ?p (fresh_slot a d k) s = Some s1" "outside_same a (unat (mapping_length d)) s s1"
    "mappings s1 = mappings s" "blocks s1 ?p = Some (fresh_slot a d k)"
    "\<And>q. q \<noteq> ?p \<Longrightarrow> disjoint_ranges ?p 48 q 48 \<Longrightarrow> blocks s1 q = blocks s q"
    "\<And>q. disjoint_ranges ?p 48 q 64 \<Longrightarrow> slab_objs s1 q = slab_objs s q" by metis
  have hdr: "slab_objs s1 a = slab_objs s a"
    using slot_header_disjoint [OF assms(1,2) k] by (intro s1(6)) (auto simp: disjoint_ranges_def)
  have below: "blocks s1 (slot_at a d j) = blocks s (slot_at a d j)" if "j < k" for j
    using slots_disjoint [OF assms(1,2) k, of j] slot_at_inj [OF assms(1,2) k, of j] that k
    by (intro s1(5)) (auto simp: disjoint_ranges_def)
  have idx: "(word_of_nat k :: size_t) + 1 = word_of_nat (Suc k)" by simp
  have ofs: "a + (sl_first_slot_offset l + word_of_nat k * sl_slot_stride l) = ?p"
    by (simp add: slot_at_def assms(3,4))
  have "(a, mapping_length d) \<in> set (mappings s1)" "Suc k + n = unat (slot_count d)"
    using Suc.prems s1(3) by auto
  from Suc.IH [OF this, of ?p] obtain s2 where s2:
    "slab_init_slots a l (class_capacity d) n (word_of_nat (Suc k)) ?p s1 =
       Some (slot_at a d (k + Suc n - 1), s2)"
    "mappings s2 = mappings s1" "outside_same a (unat (mapping_length d)) s1 s2"
    "slab_objs s2 a = slab_objs s1 a"
    "\<And>j. Suc k \<le> j \<Longrightarrow> j < Suc k + n \<Longrightarrow> blocks s2 (slot_at a d j) = Some (fresh_slot a d j)"
    "\<And>j. j < Suc k \<Longrightarrow> blocks s2 (slot_at a d j) = blocks s1 (slot_at a d j)"
    by auto
  have run: "slab_init_slots a l (class_capacity d) (Suc n) (word_of_nat k) fl s =
      Some (slot_at a d (k + Suc n - 1), s2)"
    using s1(1) s2(1) Suc.prems(3) unfolding slab_init_slots.simps Let_def ofs idx
    by (simp add: fresh_slot_def)
  have fresh: "blocks s2 (slot_at a d j) = Some (fresh_slot a d j)" if "k \<le> j" "j < k + Suc n" for j
    using that s2(5) [of j] s2(6) [of j] s1(4) by (cases "j = k") auto
  show ?case
    using run fresh s2 s1(2,3) hdr below by (auto intro: outside_same_trans)
qed

section \<open>Creating a slab\<close>

text \<open>
  Either nothing but \<open>errno\<close> and the counters changes and the outputs keep their values, or a fresh
  mapping holds a complete slab: a valid header, every slot initialised, and the slots threaded,
  last one first, into the chain that is returned.
\<close>

definition slab_created ::
  "os_env \<Rightarrow> size_t \<Rightarrow> addr \<Rightarrow> hplf_slab \<Rightarrow> 'a world_scheme \<Rightarrow> 'a world_scheme \<Rightarrow> bool" where
  "slab_created env ci a d s s' \<longleftrightarrow>
     slab_ok env a d \<and> class_index d = ci \<and> slab_objs s' a = Some d \<and>
     mappings s' = (a, mapping_length d) # mappings s \<and>
     (\<forall>(b, l) \<in> set (mappings s). disjoint_ranges a (unat (mapping_length d)) b (unat l)) \<and>
     unat (sc_pagesize env) dvd unat a \<and>
     outside_same a (unat (mapping_length d)) s s' \<and>
     (\<forall>k < unat (slot_count d). blocks s' (slot_at a d k) = Some (fresh_slot a d k))"

definition new_header :: "os_env \<Rightarrow> size_t \<Rightarrow> addr \<Rightarrow> size_t \<Rightarrow> hplf_slab" where
  "new_header env ci a len = (let cap = size_class_capacities ! unat ci in
     \<lparr>slab_next = NULL, mapping_base = a, mapping_length = len, first_slot_offset = 64,
      slot_stride = word_of_nat (48 + unat cap),
      slot_count = word_of_nat (slots_per_slab cap (sc_pagesize env)),
      class_capacity = cap, class_index = ci\<rparr>)"

lemma new_header_ok:
  assumes ok: "os_ok env" and ci: "unat ci < 16" and a: "a \<noteq> NULL"
    and al: "unat (sc_pagesize env) dvd unat a" and wr: "unat a + unat len \<le> SIZE_BOUND"
    and len: "unat len = slab_bytes (sc_pagesize env)"
  shows "slab_ok env a (new_header env ci a len)" and "0 < unat (slot_count (new_header env ci a len))"
proof -
  let ?cap = "size_class_capacities ! unat ci"
  note pg = os_ok_page [OF ok]
  have tab: "?cap \<in> set size_class_capacities" by (rule capacity_in_table [OF ci])
  have "slots_per_slab ?cap (sc_pagesize env) \<le> slab_bytes (sc_pagesize env)"
    unfolding slots_per_slab_def by (meson div_le_dividend diff_le_self le_trans)
  then have n: "slots_per_slab ?cap (sc_pagesize env) < SIZE_BOUND"
    using slab_bytes_bound [OF pg(1,2)] by linarith
  have "16 dvd unat a" using pg(3) al by (rule dvd_trans)
  moreover have "unat (48 + ?cap) = 48 + unat ?cap"
    using capacity_bounds(2) [OF tab] by (subst unat_add_noverflow) simp_all
  ultimately show "slab_ok env a (new_header env ci a len)"
    using a wr len ci n by (simp add: slab_ok_def new_header_def Let_def unat_word_of_nat)
  show "0 < unat (slot_count (new_header env ci a len))"
    using table_slots_positive [OF tab pg(1)] n by (simp add: new_header_def Let_def unat_word_of_nat)
qed

text \<open>Filling a fresh mapping: the header, then the slots.\<close>

lemma slab_fill:
  assumes ok: "os_ok env" and d: "slab_ok env a d" "0 < unat (slot_count d)"
    and l: "sl_first_slot_offset l = first_slot_offset d" "sl_slot_stride l = slot_stride d"
    and m: "(a, mapping_length d) \<in> set (mappings s)"
  shows "\<exists>s1 s2. store_slab a d s = Some s1 \<and>
     slab_init_slots a l (class_capacity d) (unat (slot_count d)) 0 NULL s1 =
       Some (slot_at a d (unat (slot_count d) - 1), s2) \<and>
     mappings s2 = mappings s \<and> outside_same a (unat (mapping_length d)) s s2 \<and>
     slab_objs s2 a = Some d \<and>
     (\<forall>j < unat (slot_count d). blocks s2 (slot_at a d j) = Some (fresh_slot a d j))"
proof -
  have hdr: "subrange a 64 a (unat (mapping_length d))"
    using slots_end [OF ok d(1)] by (simp add: subrange_def)
  then have "mapped s a 64" using m by (auto simp: mapped_iff)
  from store_slab_inside [OF this hdr, of d] obtain s1 where s1:
    "store_slab a d s = Some s1" "outside_same a (unat (mapping_length d)) s s1"
    "mappings s1 = mappings s" "slab_objs s1 a = Some d" by metis
  with m have "(a, mapping_length d) \<in> set (mappings s1)" by simp
  from slab_init_slots_spec [OF ok d(1) l this, of 0 "unat (slot_count d)" NULL] d(2)
  obtain s2 where "slab_init_slots a l (class_capacity d) (unat (slot_count d)) 0 NULL s1 =
      Some (slot_at a d (unat (slot_count d) - 1), s2)"
    "mappings s2 = mappings s1" "outside_same a (unat (mapping_length d)) s1 s2"
    "slab_objs s2 a = slab_objs s1 a"
    "\<forall>j < unat (slot_count d). blocks s2 (slot_at a d j) = Some (fresh_slot a d j)" by auto
  with s1 show ?thesis by (auto intro: outside_same_trans)
qed

lemma slab_create_cases:
  assumes ok: "os_ok env" and ci: "unat ci < 16" and cap: "cap = size_class_capacities ! unat ci"
  obtains (failed) s' where "hplf_slab_create env ci cap (Some x) (Some y) s = Some (False, Some x, Some y, s')"
      "same_memory s s'" "\<not> can_map env s (slab_bytes (sc_pagesize env))"
  | (succeeded) a d s' where
      "hplf_slab_create env ci cap (Some x) (Some y) s =
         Some (True, Some a, Some (slot_at a d (unat (slot_count d) - 1)), s')"
      "slab_created env ci a d s s'" "slab_next d = NULL"
  using ok
proof (cases rule: page_size_cases [where p = 0 and s = s])
  case (failed s1)
  then show ?thesis by (intro that(1) [of s1]) (auto simp: hplf_slab_create_def can_map_def)
next
  case ps: (succeeded s1)
  let ?page = "sc_pagesize env" and ?m0 = "\<lparr>map_base = NULL, map_length = 0\<rparr>"
  note pg = os_ok_page [OF ok]
  have tab: "cap \<in> set size_class_capacities" using capacity_in_table [OF ci] cap by simp
  note lay = slab_layout_compute_total [OF tab pg(1,2)]
  have usb: "unat (word_of_nat (slab_bytes ?page) :: size_t) = slab_bytes ?page"
    by (rule unat_word_of_nat [OF slab_bytes_bound [OF pg(1,2)]])
  have idem: "round_up (slab_bytes ?page) (unat ?page) = slab_bytes ?page"
    using pg(1) by (intro round_up_idem) (simp_all add: slab_bytes_def unat_gt_0)
  have "(word_of_nat (slab_bytes ?page) :: size_t) \<noteq> 0"
    using slab_bytes_ge [OF pg(1)] usb by auto
  with ok show ?thesis
  proof (cases rule: os_map_cases [where s = s1 and m = ?m0])
    case (failed s2)
    have "mappings s1 = mappings s" using ps(2) by (simp add: same_memory_def)
    then have "\<not> can_map env s (slab_bytes ?page)" using failed(3) usb idem can_map_same by metis
    with failed ps lay show ?thesis
      by (intro that(1) [of s2]) (auto simp: hplf_slab_create_def intro: same_memory_trans)
  next
    case mp: (succeeded a len s2)
    have len: "unat len = slab_bytes ?page" using mp(3) usb idem by simp
    define d where "d = new_header env ci a len"
    note dok = new_header_ok [OF ok ci mp(4,5,6) len, folded d_def]
    have m2: "mappings s2 = (a, len) # mappings s" "outside_same a (unat len) s s2"
      using mp(2) ps(2) by (auto simp: range_mapped_def same_memory_def outside_same_def range_gone_def)
    have "(a, mapping_length d) \<in> set (mappings s2)" by (simp add: m2 d_def new_header_def Let_def)
    from slab_fill [OF ok dok, of "\<lparr>sl_mapping_length = word_of_nat (slab_bytes ?page),
      sl_first_slot_offset = 64, sl_payload_offset = 48, sl_slot_stride = word_of_nat (48 + unat cap),
      sl_slot_count = word_of_nat (slots_per_slab cap ?page), sl_class_capacity = cap\<rparr>", OF _ _ this]
    obtain s3 s4 where s34: "store_slab a d s2 = Some s3"
      "slab_init_slots a \<lparr>sl_mapping_length = word_of_nat (slab_bytes ?page),
        sl_first_slot_offset = 64, sl_payload_offset = 48, sl_slot_stride = word_of_nat (48 + unat cap),
        sl_slot_count = word_of_nat (slots_per_slab cap ?page), sl_class_capacity = cap\<rparr>
        cap (unat (slot_count d)) 0 NULL s3 = Some (slot_at a d (unat (slot_count d) - 1), s4)"
      "mappings s4 = mappings s2" "outside_same a (unat len) s2 s4" "slab_objs s4 a = Some d"
      "\<forall>j < unat (slot_count d). blocks s4 (slot_at a d j) = Some (fresh_slot a d j)"
      by (auto simp: d_def new_header_def Let_def cap)
    show ?thesis
    proof (rule that(2) [of a d s4])
      show "hplf_slab_create env ci cap (Some x) (Some y) s =
         Some (True, Some a, Some (slot_at a d (unat (slot_count d) - 1)), s4)"
        using ps(1) lay mp(1) s34(1,2) by (simp add: hplf_slab_create_def d_def new_header_def Let_def cap)
      have "mapping_length d = len" "class_index d = ci" by (simp_all add: d_def new_header_def Let_def)
      then show "slab_created env ci a d s s4"
        unfolding slab_created_def
        using dok s34 m2 mp(5,7) ps(2) by (auto simp: same_memory_def intro: outside_same_trans)
      show "slab_next d = NULL" by (simp add: d_def new_header_def Let_def)
    qed
  qed
qed

lemma fresh_chain:
  assumes "os_ok env" and "slab_ok env a d"
    and "\<And>k. k < unat (slot_count d) \<Longrightarrow> blocks s (slot_at a d k) = Some (fresh_slot a d k)"
    and "n \<le> unat (slot_count d)"
  shows "chain (block_next s) (if n = 0 then NULL else slot_at a d (n - 1)) (rev (map (slot_at a d) [0..<n]))"
  using assms(4)
proof (induction n)
  case 0
  then show ?case by simp
next
  case (Suc n)
  then show ?case using assms(3) [of n] slot_aligned(2) [OF assms(1,2), of n]
    by (auto simp: block_next_def fresh_slot_def)
qed

end
