(* ===== verification/Arena.thy ===== *)
theory Arena
  imports Slab
begin

text \<open>
  The arena: the slabs of the registry and the large mappings, seen as one collection of blocks.
  \<open>arena_ok\<close> is the well-formedness of that collection; it is independent of which blocks are free
  and of the links that thread them, so both allocator variants share it.  Its consequence is the
  geometry every other proof rests on: distinct blocks occupy disjoint ranges, and no block
  overlaps a slab header.
\<close>

section \<open>Shapes\<close>

text \<open>The part of an object that no operation changes after its creation.\<close>

definition bshape :: "'a world_scheme \<Rightarrow> addr \<Rightarrow> (hplf_owner \<times> size_t \<times> hplf_block_kind) option" where
  "bshape s p = map_option (\<lambda>b. (owner b, capacity b, kind b)) (blocks s p)"

definition sshape :: "'a world_scheme \<Rightarrow> addr \<Rightarrow> hplf_slab option" where
  "sshape s a = map_option (\<lambda>d. d\<lparr>slab_next := NULL\<rparr>) (slab_objs s a)"

section \<open>Well-formed mappings and arenas\<close>

definition maps_ok :: "os_env \<Rightarrow> (addr \<times> size_t) list \<Rightarrow> bool" where
  "maps_ok env ms \<longleftrightarrow> distinct ms \<and>
     (\<forall>(b, l) \<in> set ms. b \<noteq> NULL \<and> l \<noteq> 0 \<and> unat (sc_pagesize env) dvd unat b \<and>
        unat b + unat l \<le> SIZE_BOUND \<and>
        (\<forall>(b', l') \<in> set ms. (b', l') = (b, l) \<or> disjoint_ranges b (unat l) b' (unat l')))"

definition slab_conf :: "os_env \<Rightarrow> 'a world_scheme \<Rightarrow> addr \<Rightarrow> hplf_slab \<Rightarrow> bool" where
  "slab_conf env s a d \<longleftrightarrow> sshape s a = Some d \<and> slab_ok env a d \<and>
     (a, mapping_length d) \<in> set (mappings s) \<and>
     (\<forall>k < unat (slot_count d).
        bshape s (slot_at a d k) = Some (OwnerSmall a, class_capacity d, HPLF_BLOCK_SMALL))"

definition large_conf :: "'a world_scheme \<Rightarrow> addr \<Rightarrow> size_t \<Rightarrow> bool" where
  "large_conf s p len \<longleftrightarrow> (p, len) \<in> set (mappings s) \<and> 48 < unat len \<and>
     bshape s p = Some (OwnerLarge p len, len - 48, HPLF_BLOCK_LARGE)"

definition arena_ok :: "os_env \<Rightarrow> 'a world_scheme \<Rightarrow> addr list \<Rightarrow> addr set \<Rightarrow> bool" where
  "arena_ok env s ss L \<longleftrightarrow> maps_ok env (mappings s) \<and> distinct ss \<and> set ss \<inter> L = {} \<and>
     (\<forall>a \<in> set ss. \<exists>d. slab_conf env s a d) \<and> (\<forall>p \<in> L. \<exists>len. large_conf s p len)"

definition slots_of :: "'a world_scheme \<Rightarrow> addr \<Rightarrow> addr list" where
  "slots_of s a = (case sshape s a of None \<Rightarrow> [] | Some d \<Rightarrow> slab_slots a d)"

definition small_blocks :: "'a world_scheme \<Rightarrow> addr list \<Rightarrow> addr set" where
  "small_blocks s ss = (\<Union>a \<in> set ss. set (slots_of s a))"

definition arena_blocks :: "'a world_scheme \<Rightarrow> addr list \<Rightarrow> addr set \<Rightarrow> addr set" where
  "arena_blocks s ss L = small_blocks s ss \<union> L"

definition extent :: "'a world_scheme \<Rightarrow> addr \<Rightarrow> nat" where
  "extent s p = (case bshape s p of None \<Rightarrow> 0 | Some (_, c, _) \<Rightarrow> 48 + unat c)"

section \<open>Mappings\<close>

lemma maps_okD:
  assumes "maps_ok env ms" and "(b, l) \<in> set ms"
  shows "b \<noteq> NULL" and "l \<noteq> 0" and "unat (sc_pagesize env) dvd unat b" and "unat b + unat l \<le> SIZE_BOUND"
    and "\<And>b' l'. (b', l') \<in> set ms \<Longrightarrow> (b', l') \<noteq> (b, l) \<Longrightarrow> disjoint_ranges b (unat l) b' (unat l')"
  using assms unfolding maps_ok_def by (fastforce)+

lemma maps_same_base:
  assumes "maps_ok env ms" and "(b, l) \<in> set ms" and "(b, m) \<in> set ms"
  shows "l = m"
proof (rule ccontr)
  assume "l \<noteq> m"
  then have "disjoint_ranges b (unat l) b (unat m)" using maps_okD(5) [OF assms] by simp
  moreover have "0 < unat l" "0 < unat m" using maps_okD(2) [OF assms(1)] assms(2,3) by (auto simp: unat_gt_0)
  ultimately show False by (simp add: disjoint_ranges_def)
qed

lemma maps_ok_new:
  assumes "maps_ok env ms" and "b \<noteq> NULL" and "l \<noteq> 0" and "unat (sc_pagesize env) dvd unat b"
    and "unat b + unat l \<le> SIZE_BOUND"
    and "\<And>b' l'. (b', l') \<in> set ms \<Longrightarrow> disjoint_ranges b (unat l) b' (unat l')"
  shows "maps_ok env ((b, l) # ms)"
proof -
  have "0 < unat l" using assms(3) by (simp add: unat_gt_0)
  then have "(b, l) \<notin> set ms" using assms(6) [of b l] by (auto simp: disjoint_ranges_def)
  moreover have "disjoint_ranges b' (unat l') b (unat l)" if "(b', l') \<in> set ms" for b' l'
    using assms(6) [OF that] by (simp add: disjoint_ranges_sym)
  ultimately show ?thesis using assms unfolding maps_ok_def by auto
qed

lemma maps_ok_remove1: "maps_ok env ms \<Longrightarrow> maps_ok env (remove1 m ms)"
  unfolding maps_ok_def by (auto dest: notin_set_remove1 [rotated])

section \<open>Objects of an arena\<close>

lemma slots_of_conf: "slab_conf env s a d \<Longrightarrow> slots_of s a = slab_slots a d"
  by (simp add: slab_conf_def slots_of_def)

lemma extent_slot:
  "slab_conf env s a d \<Longrightarrow> k < unat (slot_count d) \<Longrightarrow>
     extent s (slot_at a d k) = 48 + unat (class_capacity d)"
  by (simp add: slab_conf_def extent_def)

lemma extent_large: "large_conf s p len \<Longrightarrow> extent s p = unat len"
  by (simp add: large_conf_def extent_def unat_sub_le)

lemma arena_block_cases:
  assumes "arena_ok env s ss L" and "p \<in> arena_blocks s ss L"
  obtains (small) a d k where "a \<in> set ss" "slab_conf env s a d" "k < unat (slot_count d)"
      "p = slot_at a d k"
  | (large) len where "p \<in> L" "large_conf s p len"
  using assms
  by (fastforce simp: arena_ok_def arena_blocks_def small_blocks_def slots_of_conf in_slab_slots)

lemma slot_in_small:
  "k < unat (slot_count d) \<Longrightarrow> a \<in> set ss \<Longrightarrow> slab_conf env s a d \<Longrightarrow> slot_at a d k \<in> small_blocks s ss"
  unfolding small_blocks_def by (rule UN_I [of a]) (auto simp: slots_of_conf in_slab_slots)

lemma slot_in_arena:
  "k < unat (slot_count d) \<Longrightarrow> a \<in> set ss \<Longrightarrow> slab_conf env s a d \<Longrightarrow> slot_at a d k \<in> arena_blocks s ss L"
  by (simp add: arena_blocks_def slot_in_small)

lemma block_home:
  assumes "os_ok env" and "arena_ok env s ss L" and "p \<in> arena_blocks s ss L"
  obtains b l where "(b, l) \<in> set (mappings s)" "subrange p (extent s p) b (unat l)"
  using assms(2,3)
proof (cases rule: arena_block_cases)
  case (small a d k)
  then show ?thesis
    using slot_in_slab [OF assms(1), of a d k] extent_slot [of env s a d k]
    by (intro that) (auto simp: slab_conf_def)
next
  case (large len)
  then show ?thesis by (intro that [of p len]) (auto simp: large_conf_def extent_large)
qed

lemma block_facts:
  assumes "os_ok env" and "arena_ok env s ss L" and "p \<in> arena_blocks s ss L"
  shows "p \<noteq> NULL" and "16 dvd unat p" and "48 < extent s p" and "unat p + extent s p \<le> SIZE_BOUND"
    and "\<exists>b. blocks s p = Some b \<and> extent s p = 48 + unat (capacity b)"
proof -
  have "p \<noteq> NULL \<and> 16 dvd unat p \<and> 48 < extent s p \<and> bshape s p \<noteq> None"
    using assms(2,3)
  proof (cases rule: arena_block_cases)
    case (small a d k)
    then have "slab_ok env a d" by (simp add: slab_conf_def)
    with small assms(1) slot_aligned [of env a d k] slab_ok_capacity(2) [of env a d] show ?thesis
      by (auto simp: extent_slot slab_conf_def)
  next
    case (large len)
    then have "(p, len) \<in> set (mappings s)" by (simp add: large_conf_def)
    with assms(2) have "p \<noteq> NULL" "unat (sc_pagesize env) dvd unat p"
      by (auto simp: arena_ok_def dest: maps_okD)
    with large os_ok_page(3) [OF assms(1)] show ?thesis
      by (auto simp: extent_large large_conf_def intro: dvd_trans)
  qed
  then show "p \<noteq> NULL" "16 dvd unat p" "48 < extent s p"
    "\<exists>b. blocks s p = Some b \<and> extent s p = 48 + unat (capacity b)"
    by (auto simp: extent_def bshape_def)
  from assms obtain b l where "(b, l) \<in> set (mappings s)" "subrange p (extent s p) b (unat l)"
    by (rule block_home)
  with assms(2) show "unat p + extent s p \<le> SIZE_BOUND"
    by (auto simp: arena_ok_def subrange_def dest: maps_okD(4))
qed

lemma distinct_homes_disjoint:
  assumes "maps_ok env ms" and "(a, l) \<in> set ms" and "(b, m) \<in> set ms" and "a \<noteq> b"
    and "subrange p n a (unat l)" and "subrange q k b (unat m)"
  shows "disjoint_ranges p n q k"
  using maps_okD(5) [OF assms(1,2,3)] assms(4-6) by (auto intro: disjoint_subrange)

text \<open>Every block has a base address that names its mapping: its slab, or itself when large.\<close>

lemma block_base:
  assumes "os_ok env" and "arena_ok env s ss L" and "p \<in> arena_blocks s ss L"
  obtains b l where "(b, l) \<in> set (mappings s)" "subrange p (extent s p) b (unat l)"
    "b \<in> set ss \<and> (\<exists>d k. slab_conf env s b d \<and> k < unat (slot_count d) \<and> p = slot_at b d k) \<or>
     b \<in> L \<and> p = b"
  using assms(2,3)
proof (cases rule: arena_block_cases)
  case (small a d k)
  then show ?thesis
    using slot_in_slab [OF assms(1), of a d k] extent_slot [of env s a d k]
    by (intro that [of a "mapping_length d"]) (auto simp: slab_conf_def)
next
  case (large len)
  then show ?thesis by (intro that [of p len]) (auto simp: large_conf_def extent_large)
qed

lemma extents_disjoint:
  assumes ok: "os_ok env" and ar: "arena_ok env s ss L"
    and p: "p \<in> arena_blocks s ss L" and q: "q \<in> arena_blocks s ss L" and ne: "p \<noteq> q"
  shows "disjoint_ranges p (extent s p) q (extent s q)"
proof -
  have maps: "maps_ok env (mappings s)" and dj: "set ss \<inter> L = {}" using ar by (auto simp: arena_ok_def)
  from ok ar p obtain b l where b: "(b, l) \<in> set (mappings s)" "subrange p (extent s p) b (unat l)"
    "b \<in> set ss \<and> (\<exists>d k. slab_conf env s b d \<and> k < unat (slot_count d) \<and> p = slot_at b d k) \<or>
     b \<in> L \<and> p = b" by (rule block_base)
  from ok ar q obtain b' l' where b': "(b', l') \<in> set (mappings s)" "subrange q (extent s q) b' (unat l')"
    "b' \<in> set ss \<and> (\<exists>d k. slab_conf env s b' d \<and> k < unat (slot_count d) \<and> q = slot_at b' d k) \<or>
     b' \<in> L \<and> q = b'" by (rule block_base)
  show ?thesis
  proof (cases "b = b'")
    case False
    then show ?thesis using distinct_homes_disjoint [OF maps b(1) b'(1)] b(2) b'(2) by blast
  next
    case True
    with b(3) b'(3) ne dj obtain d k d' k' where k: "slab_conf env s b d" "k < unat (slot_count d)"
      "p = slot_at b d k" "slab_conf env s b d'" "k' < unat (slot_count d')" "q = slot_at b d' k'"
      by blast
    then have "d' = d" by (simp add: slab_conf_def)
    moreover from this k ne have "k \<noteq> k'" by auto
    ultimately show ?thesis using k ok slots_disjoint [of env b d k k']
      by (auto simp: extent_slot slab_conf_def)
  qed
qed

lemma header_disjoint:
  assumes ok: "os_ok env" and ar: "arena_ok env s ss L"
    and p: "p \<in> arena_blocks s ss L" and a: "a \<in> set ss"
  shows "disjoint_ranges p (extent s p) a 64"
proof -
  have maps: "maps_ok env (mappings s)" using ar by (simp add: arena_ok_def)
  from ar a obtain d where d: "slab_conf env s a d" by (auto simp: arena_ok_def)
  then have hdr: "subrange a 64 a (unat (mapping_length d))" "(a, mapping_length d) \<in> set (mappings s)"
    using slots_end [OF ok, of a d] by (auto simp: subrange_def slab_conf_def)
  from ok ar p obtain b l where b: "(b, l) \<in> set (mappings s)" "subrange p (extent s p) b (unat l)"
    "b \<in> set ss \<and> (\<exists>d k. slab_conf env s b d \<and> k < unat (slot_count d) \<and> p = slot_at b d k) \<or>
     b \<in> L \<and> p = b" by (rule block_base)
  show ?thesis
  proof (cases "b = a")
    case False
    then show ?thesis using distinct_homes_disjoint [OF maps b(1) hdr(2)] b(2) hdr(1) by blast
  next
    case True
    with b(3) a ar obtain d' k where "slab_conf env s a d'" "k < unat (slot_count d')" "p = slot_at a d' k"
      by (auto simp: arena_ok_def)
    with ok slot_header_disjoint [of env a d' k] show ?thesis
      by (auto simp: extent_slot slab_conf_def)
  qed
qed

section \<open>What leaves an arena intact\<close>

definition arena_same :: "addr list \<Rightarrow> addr set \<Rightarrow> 'a world_scheme \<Rightarrow> 'b world_scheme \<Rightarrow> bool" where
  "arena_same ss L s s' \<longleftrightarrow> (\<forall>a \<in> set ss. sshape s' a = sshape s a) \<and>
     (\<forall>p \<in> arena_blocks s ss L. bshape s' p = bshape s p)"

lemma slots_of_same: "sshape s' a = sshape s a \<Longrightarrow> slots_of s' a = slots_of s a"
  by (simp add: slots_of_def)

lemma arena_blocks_same: "arena_same ss L s s' \<Longrightarrow> arena_blocks s' ss L = arena_blocks s ss L"
  by (simp add: arena_same_def arena_blocks_def small_blocks_def slots_of_def)

lemma small_blocks_same: "arena_same ss L s s' \<Longrightarrow> small_blocks s' ss = small_blocks s ss"
  by (simp add: arena_same_def small_blocks_def slots_of_def)

lemma extent_same: "arena_same ss L s s' \<Longrightarrow> p \<in> arena_blocks s ss L \<Longrightarrow> extent s' p = extent s p"
  by (simp add: arena_same_def extent_def)

lemma arena_same_refl [simp]: "arena_same ss L s s"
  by (simp add: arena_same_def)

lemma arena_same_trans:
  "arena_same ss L s s' \<Longrightarrow> arena_same ss L s' s'' \<Longrightarrow> arena_same ss L s s''"
  using arena_blocks_same [of ss L s s'] by (simp add: arena_same_def)

lemma slab_conf_same:
  assumes "arena_same ss L s s'" and "a \<in> set ss" and "slab_conf env s a d"
    and "(a, mapping_length d) \<in> set (mappings s')"
  shows "slab_conf env s' a d"
proof -
  have "slot_at a d k \<in> arena_blocks s ss L" if "k < unat (slot_count d)" for k
    using that assms(2,3) by (rule slot_in_arena)
  with assms show ?thesis by (simp add: slab_conf_def arena_same_def)
qed

lemma arena_ok_same:
  assumes ar: "arena_ok env s ss L" and same: "arena_same ss L s s'" and maps: "maps_ok env (mappings s')"
    and S: "\<And>a d. a \<in> set ss \<Longrightarrow> slab_conf env s a d \<Longrightarrow> (a, mapping_length d) \<in> set (mappings s')"
    and L: "\<And>p len. p \<in> L \<Longrightarrow> large_conf s p len \<Longrightarrow> (p, len) \<in> set (mappings s')"
  shows "arena_ok env s' ss L"
proof -
  have "\<exists>d. slab_conf env s' a d" if "a \<in> set ss" for a
    using ar that S slab_conf_same [OF same that] unfolding arena_ok_def by blast
  moreover have "\<exists>len. large_conf s' p len" if p: "p \<in> L" for p
  proof -
    from ar p obtain len where "large_conf s p len" by (auto simp: arena_ok_def)
    with L [OF p] same p have "large_conf s' p len"
      by (simp add: large_conf_def arena_same_def arena_blocks_def)
    then show ?thesis ..
  qed
  ultimately show ?thesis using ar maps by (simp add: arena_ok_def)
qed

lemma arena_ok_cong:
  assumes "arena_ok env s ss L" and "arena_same ss L s s'" and "mappings s' = mappings s"
  shows "arena_ok env s' ss L"
  using assms(1)
  by (intro arena_ok_same [OF assms(1,2)]) (auto simp: assms(3) arena_ok_def slab_conf_def large_conf_def)

text \<open>
  Changes confined to a range that is disjoint from the mappings of an arena do not touch it.
\<close>

definition objects_same :: "addr list \<Rightarrow> addr set \<Rightarrow> 'a world_scheme \<Rightarrow> 'b world_scheme \<Rightarrow> bool" where
  "objects_same ss L s s' \<longleftrightarrow> (\<forall>a \<in> set ss. slab_objs s' a = slab_objs s a) \<and>
     (\<forall>p \<in> arena_blocks s ss L. blocks s' p = blocks s p)"

lemma objects_same_arena: "objects_same ss L s s' \<Longrightarrow> arena_same ss L s s'"
  by (simp add: objects_same_def arena_same_def bshape_def sshape_def)

lemma objects_same_outside:
  assumes ok: "os_ok env" and ar: "arena_ok env s ss L" and out: "outside_same base n s s'"
    and S: "\<And>a d. a \<in> set ss \<Longrightarrow> slab_conf env s a d \<Longrightarrow> disjoint_ranges base n a (unat (mapping_length d))"
    and L: "\<And>p len. p \<in> L \<Longrightarrow> large_conf s p len \<Longrightarrow> disjoint_ranges base n p (unat len)"
  shows "objects_same ss L s s'"
proof -
  have "slab_objs s' a = slab_objs s a" if a: "a \<in> set ss" for a
  proof -
    from ar a obtain d where d: "slab_conf env s a d" by (auto simp: arena_ok_def)
    then have "disjoint_ranges base n a 64"
      using S [OF a d] slots_end [OF ok, of a d] by (auto simp: disjoint_ranges_def slab_conf_def)
    with out show ?thesis by (simp add: outside_same_def)
  qed
  moreover have "blocks s' p = blocks s p" if p: "p \<in> arena_blocks s ss L" for p
  proof -
    have "disjoint_ranges base n p 48"
      using ar p
    proof (cases rule: arena_block_cases)
      case (small a d k)
      then show ?thesis
        using S [of a d] slot_in_slab [OF ok, of a d k]
        by (auto simp: slab_conf_def disjoint_ranges_def subrange_def)
    next
      case (large len)
      then show ?thesis using L [of p len] by (auto simp: large_conf_def disjoint_ranges_def)
    qed
    with out show ?thesis by (simp add: outside_same_def)
  qed
  ultimately show ?thesis by (simp add: objects_same_def)
qed

section \<open>Growing and shrinking an arena\<close>

text \<open>A mapping that is disjoint from all others, before anything is put into it.\<close>

lemma arena_fresh_range:
  assumes ok: "os_ok env" and ar: "arena_ok env s ss L" and out: "outside_same b (unat l) s s'"
    and ms: "mappings s' = (b, l) # mappings s" and nz: "l \<noteq> 0"
    and dj: "\<And>b' l'. (b', l') \<in> set (mappings s) \<Longrightarrow> disjoint_ranges b (unat l) b' (unat l')"
    and new: "b \<noteq> NULL" "unat (sc_pagesize env) dvd unat b" "unat b + unat l \<le> SIZE_BOUND"
  shows "objects_same ss L s s'" and "arena_ok env s' ss L" and "b \<notin> set ss" and "b \<notin> L"
    and "\<And>p. p \<in> arena_blocks s ss L \<Longrightarrow> disjoint_ranges b (unat l) p (extent s p)"
proof -
  have pos: "0 < unat l" using nz by (simp add: unat_gt_0)
  show obj: "objects_same ss L s s'"
    by (rule objects_same_outside [OF ok ar out]) (auto simp: slab_conf_def large_conf_def intro: dj)
  note same = objects_same_arena [OF obj]
  have "maps_ok env (mappings s')"
    unfolding ms using ar nz dj new by (intro maps_ok_new) (auto simp: arena_ok_def)
  then show "arena_ok env s' ss L"
    by (rule arena_ok_same [OF ar same]) (auto simp: ms slab_conf_def large_conf_def)
  have nob: "(b, l') \<notin> set (mappings s)" for l'
  proof
    assume in_maps: "(b, l') \<in> set (mappings s)"
    with ar have "0 < unat l'" by (auto simp: arena_ok_def unat_gt_0 dest: maps_okD(2))
    with dj [OF in_maps] pos show False by (auto simp: disjoint_ranges_def)
  qed
  show "b \<notin> set ss" using ar nob unfolding arena_ok_def slab_conf_def by blast
  show "b \<notin> L" using ar nob unfolding arena_ok_def large_conf_def by blast
  show "disjoint_ranges b (unat l) p (extent s p)" if p: "p \<in> arena_blocks s ss L" for p
  proof -
    from ok ar p obtain b' l' where "(b', l') \<in> set (mappings s)" "subrange p (extent s p) b' (unat l')"
      by (rule block_home)
    then show ?thesis using disjoint_subrange [OF dj subrange_refl] by blast
  qed
qed

lemma arena_add_slab:
  assumes ok: "os_ok env" and ar: "arena_ok env s ss L" and cr: "slab_created env ci a d s s'"
    and nx: "slab_next d = NULL"
  shows "objects_same ss L s s'" and "arena_ok env s' (a # ss) L" and "slab_conf env s' a d"
    and "a \<notin> set ss" and "set (slab_slots a d) \<inter> arena_blocks s ss L = {}"
proof -
  note c = cr [unfolded slab_created_def]
  have nz: "mapping_length d \<noteq> 0"
    using slots_end [OF ok, of a d] c by auto
  have dj: "disjoint_ranges a (unat (mapping_length d)) b' (unat l')" if "(b', l') \<in> set (mappings s)" for b' l'
    using c that by auto
  have "a \<noteq> NULL" "unat (sc_pagesize env) dvd unat a" "unat a + unat (mapping_length d) \<le> SIZE_BOUND"
    using c by (auto simp: slab_ok_def)
  from arena_fresh_range [OF ok ar _ _ nz dj this] c
  have *: "objects_same ss L s s'" "arena_ok env s' ss L" "a \<notin> set ss" "a \<notin> L"
    "\<And>p. p \<in> arena_blocks s ss L \<Longrightarrow> disjoint_ranges a (unat (mapping_length d)) p (extent s p)"
    by auto
  then show "objects_same ss L s s'" "a \<notin> set ss" by auto
  have "d\<lparr>slab_next := NULL\<rparr> = d" using nx by simp
  then show conf: "slab_conf env s' a d"
    using c by (auto simp: slab_conf_def sshape_def bshape_def fresh_slot_def)
  then show "arena_ok env s' (a # ss) L" using * by (auto simp: arena_ok_def)
  show "set (slab_slots a d) \<inter> arena_blocks s ss L = {}"
  proof (safe)
    fix p assume "p \<in> set (slab_slots a d)" and p: "p \<in> arena_blocks s ss L"
    then obtain k where "k < unat (slot_count d)" "p = slot_at a d k" by (auto simp: in_slab_slots)
    with slot_in_slab [OF ok, of a d k] c have "subrange p 1 a (unat (mapping_length d))"
      by (auto simp: subrange_def)
    with *(5) [OF p] block_facts(3) [OF ok ar p] show "p \<in> {}"
      by (auto simp: subrange_def disjoint_ranges_def)
  qed
qed

lemma small_blocks_Cons:
  "slab_conf env s a d \<Longrightarrow> small_blocks s (a # ss) = set (slab_slots a d) \<union> small_blocks s ss"
  by (simp add: small_blocks_def slots_of_conf)

lemma arena_add_large:
  assumes ok: "os_ok env" and ar: "arena_ok env s ss L" and out: "outside_same b (unat l) s s'"
    and ms: "mappings s' = (b, l) # mappings s" and nz: "48 < unat l"
    and dj: "\<And>b' l'. (b', l') \<in> set (mappings s) \<Longrightarrow> disjoint_ranges b (unat l) b' (unat l')"
    and new: "b \<noteq> NULL" "unat (sc_pagesize env) dvd unat b" "unat b + unat l \<le> SIZE_BOUND"
    and sh: "bshape s' b = Some (OwnerLarge b l, l - 48, HPLF_BLOCK_LARGE)"
  shows "objects_same ss L s s'" and "arena_ok env s' ss (insert b L)" and "b \<notin> arena_blocks s ss L"
    and "b \<notin> L"
proof -
  have "l \<noteq> 0" using nz by auto
  note * = arena_fresh_range [OF ok ar out ms this dj new]
  then show "objects_same ss L s s'" "b \<notin> L" by auto
  have "large_conf s' b l" using sh nz ms by (simp add: large_conf_def)
  then show "arena_ok env s' ss (insert b L)" using * by (auto simp: arena_ok_def)
  show "b \<notin> arena_blocks s ss L"
    using *(5) [of b] block_facts(3) [OF ok ar, of b] nz by (auto simp: disjoint_ranges_def)
qed

lemma arena_remove:
  assumes ok: "os_ok env" and ar: "arena_ok env s ss L" and un: "range_unmapped b l s s'"
    and b: "(b, l) \<in> set (mappings s)"
    and sub: "set ss' \<subseteq> set ss" "distinct ss'" "L' \<subseteq> L" "b \<notin> set ss'" "b \<notin> L'"
  shows "objects_same ss' L' s s'" and "arena_ok env s' ss' L'"
proof -
  have maps: "maps_ok env (mappings s)" using ar by (simp add: arena_ok_def)
  have ar': "arena_ok env s ss' L'" using ar sub by (auto simp: arena_ok_def)
  have out: "outside_same b (unat l) s s'" and ms: "mappings s' = remove1 (b, l) (mappings s)"
    using un by (auto simp: range_unmapped_def intro: range_gone_outside)
  have dj: "disjoint_ranges b (unat l) b' (unat l')" if "(b', l') \<in> set (mappings s)" "b' \<noteq> b" for b' l'
    using maps_okD(5) [OF maps b that(1)] that(2) by auto
  show obj: "objects_same ss' L' s s'"
    using sub by (intro objects_same_outside [OF ok ar' out] dj) (auto simp: slab_conf_def large_conf_def)
  note same = objects_same_arena [OF obj]
  have "maps_ok env (mappings s')" unfolding ms using maps by (rule maps_ok_remove1)
  then show "arena_ok env s' ss' L'"
    using sub maps by (intro arena_ok_same [OF ar' same])
      (auto simp: ms slab_conf_def large_conf_def maps_ok_def)
qed

section \<open>Relinking\<close>

text \<open>Only \<open>next_free\<close> fields of the blocks in \<open>X\<close> changed.\<close>

definition relinked :: "addr set \<Rightarrow> 'a world_scheme \<Rightarrow> 'a world_scheme \<Rightarrow> bool" where
  "relinked X s s' \<longleftrightarrow> (\<forall>p. p \<notin> X \<longrightarrow> blocks s' p = blocks s p) \<and> bshape s' = bshape s \<and>
     slab_objs s' = slab_objs s \<and> mappings s' = mappings s \<and> bytes s' = bytes s \<and>
     world.more s' = world.more s"

lemma relinked_refl [simp]: "relinked X s s"
  by (simp add: relinked_def)

lemma relinked_trans: "relinked X s s' \<Longrightarrow> relinked Y s' s'' \<Longrightarrow> X \<union> Y \<subseteq> Z \<Longrightarrow> relinked Z s s''"
  unfolding relinked_def by (metis UnI1 UnI2 subsetD)

lemma block_next_Some: "block_next s x = Some q \<longleftrightarrow> (\<exists>b. blocks s x = Some b \<and> q = next_free b)"
  by (auto simp: block_next_def)

lemma set_next_relinked: "set_next_free p q s = Some s' \<Longrightarrow> relinked {p} s s'"
  by (auto simp: set_next_free_def update_block_def relinked_def bshape_def fun_eq_iff split: option.splits)

lemma set_next_defined:
  "blocks s x = Some b \<Longrightarrow> \<exists>s'. set_next_free x v s = Some s' \<and> block_next s' = (block_next s)(x \<mapsto> v)"
  by (auto simp: set_next_free_def update_block_def block_next_def fun_eq_iff)

end
