(* ===== verification/Free_Lists.thy ===== *)
theory Free_Lists
  imports Arena
begin

text \<open>
  Free blocks: one chain per size class, threaded through \<open>next_free\<close>.  \<open>heads\<close> is the C array of
  list heads and \<open>F\<close> the content of the lists.  The two operations of the allocators on it, taking
  the first block of a class and putting a block back, are proved here once.
\<close>

section \<open>Free lists and live blocks\<close>

definition free_blocks :: "addr list list \<Rightarrow> addr set" where
  "free_blocks F = (\<Union>xs \<in> set F. set xs)"

definition in_class :: "'a world_scheme \<Rightarrow> addr list \<Rightarrow> nat \<Rightarrow> addr \<Rightarrow> bool" where
  "in_class s ss i p \<longleftrightarrow> (\<exists>a \<in> set ss. \<exists>d. sshape s a = Some d \<and> unat (class_index d) = i \<and>
     p \<in> set (slab_slots a d))"

definition free_ok :: "'a world_scheme \<Rightarrow> addr list \<Rightarrow> addr list \<Rightarrow> addr list list \<Rightarrow> bool" where
  "free_ok s ss heads F \<longleftrightarrow> length heads = 16 \<and> length F = 16 \<and>
     (\<forall>i < 16. chain (block_next s) (heads ! i) (F ! i) \<and> (\<forall>p \<in> set (F ! i). in_class s ss i p))"

definition live_ok :: "'a world_scheme \<Rightarrow> addr \<Rightarrow> bool" where
  "live_ok s p \<longleftrightarrow> (\<exists>b. blocks s p = Some b \<and> requested_size b \<noteq> 0 \<and> requested_size b \<le> capacity b)"

text \<open>The ghost state of an allocator: its slabs, its large blocks and its free lists.\<close>

record heap_abs =
  abs_slabs :: "addr list"
  abs_large :: "addr set"
  abs_free :: "addr list list"

definition live_blocks :: "'a world_scheme \<Rightarrow> heap_abs \<Rightarrow> addr set" where
  "live_blocks s A = arena_blocks s (abs_slabs A) (abs_large A) - free_blocks (abs_free A)"

text \<open>
  \<open>heap_lists\<close> is the shape of the heap, whoever holds the other blocks; \<open>heap_ok\<close> adds that they are
  all held by clients.
\<close>

definition heap_lists :: "os_env \<Rightarrow> 'a world_scheme \<Rightarrow> addr list \<Rightarrow> heap_abs \<Rightarrow> bool" where
  "heap_lists env s heads A \<longleftrightarrow> arena_ok env s (abs_slabs A) (abs_large A) \<and>
     free_ok s (abs_slabs A) heads (abs_free A)"

definition heap_ok :: "os_env \<Rightarrow> 'a world_scheme \<Rightarrow> addr list \<Rightarrow> heap_abs \<Rightarrow> bool" where
  "heap_ok env s heads A \<longleftrightarrow> arena_ok env s (abs_slabs A) (abs_large A) \<and>
     free_ok s (abs_slabs A) heads (abs_free A) \<and> (\<forall>p \<in> live_blocks s A. live_ok s p)"

section \<open>Classes\<close>

lemma in_class_slot:
  assumes "arena_ok env s ss L" and "in_class s ss i p"
  obtains a d k where "a \<in> set ss" "slab_conf env s a d" "unat (class_index d) = i"
    "k < unat (slot_count d)" "p = slot_at a d k"
proof -
  from assms(2) obtain a d where a: "a \<in> set ss" "sshape s a = Some d" "unat (class_index d) = i"
    "p \<in> set (slab_slots a d)" by (auto simp: in_class_def)
  from assms(1) a(1) obtain d' where d': "slab_conf env s a d'" by (auto simp: arena_ok_def)
  with a(2) have "d' = d" by (simp add: slab_conf_def)
  with a d' that show ?thesis by (auto simp: in_slab_slots)
qed

lemma in_class_small: "arena_ok env s ss L \<Longrightarrow> in_class s ss i p \<Longrightarrow> p \<in> small_blocks s ss"
  by (auto elim!: in_class_slot intro: slot_in_small)

lemma in_class_owner:
  assumes "arena_ok env s ss L" and "in_class s ss i p"
  obtains a d where "a \<in> set ss" "slab_conf env s a d" "unat (class_index d) = i"
    "bshape s p = Some (OwnerSmall a, class_capacity d, HPLF_BLOCK_SMALL)"
  using assms by (elim in_class_slot) (auto simp: slab_conf_def intro: that)

lemma free_block_capacity:
  assumes "arena_ok env s ss L" and "in_class s ss i p"
  obtains b where "blocks s p = Some b" "capacity b = size_class_capacities ! i" "kind b = HPLF_BLOCK_SMALL"
proof -
  from assms obtain a d where "slab_conf env s a d" "unat (class_index d) = i"
    "bshape s p = Some (OwnerSmall a, class_capacity d, HPLF_BLOCK_SMALL)" by (rule in_class_owner)
  then show ?thesis using that by (auto simp: slab_conf_def slab_ok_def bshape_def)
qed

lemma in_class_unique:
  assumes "arena_ok env s ss L" and "in_class s ss i p" and "in_class s ss j p"
  shows "i = j"
proof -
  from assms(1,2) obtain a d where a: "a \<in> set ss" "slab_conf env s a d" "unat (class_index d) = i"
    "bshape s p = Some (OwnerSmall a, class_capacity d, HPLF_BLOCK_SMALL)" by (rule in_class_owner)
  from assms(1,3) obtain a' d' where a': "slab_conf env s a' d'" "unat (class_index d') = j"
    "bshape s p = Some (OwnerSmall a', class_capacity d', HPLF_BLOCK_SMALL)" by (rule in_class_owner)
  from a(4) a'(3) have "a' = a" by simp
  with a(2) a'(1) have "d' = d" by (simp add: slab_conf_def)
  with a(3) a'(2) show ?thesis by simp
qed

lemma in_class_same:
  "arena_same ss L s s' \<Longrightarrow> in_class s' ss i p \<longleftrightarrow> in_class s ss i p"
  by (simp add: in_class_def arena_same_def)

lemma small_in_class:
  assumes "arena_ok env s ss L" and "p \<in> small_blocks s ss"
  obtains a d where "a \<in> set ss" "slab_conf env s a d" "p \<in> set (slab_slots a d)"
    "in_class s ss (unat (class_index d)) p"
proof -
  from assms obtain a d where "a \<in> set ss" "slab_conf env s a d" "p \<in> set (slab_slots a d)"
    by (fastforce simp: small_blocks_def arena_ok_def slots_of_conf)
  then show ?thesis by (intro that) (auto simp: in_class_def slab_conf_def)
qed

section \<open>Lists of a well-formed heap\<close>

lemma free_blocks_iff: "p \<in> free_blocks F \<longleftrightarrow> (\<exists>i < length F. p \<in> set (F ! i))"
  unfolding free_blocks_def by (auto, metis in_set_conv_nth)

lemma free_okD:
  assumes "free_ok s ss heads F" and "i < 16"
  shows "chain (block_next s) (heads ! i) (F ! i)" and "\<And>p. p \<in> set (F ! i) \<Longrightarrow> in_class s ss i p"
    and "distinct (F ! i)"
  using assms by (auto simp: free_ok_def intro: chain_distinct)

lemma free_lists_disjoint:
  assumes "arena_ok env s ss L" and "free_ok s ss heads F" and "i < 16" and "j < 16"
    and "p \<in> set (F ! i)" and "p \<in> set (F ! j)"
  shows "i = j"
  using assms by (auto intro: in_class_unique dest: free_okD(2))

lemma free_blocks_update:
  assumes "arena_ok env s ss L" and "free_ok s ss heads F" and "i < 16"
  shows "free_blocks (F[i := xs]) = (free_blocks F - set (F ! i)) \<union> set xs"
proof -
  have len: "length F = 16" using assms(2) by (simp add: free_ok_def)
  show ?thesis
  proof (rule set_eqI)
    fix p
    have "(\<exists>j < 16. j \<noteq> i \<and> p \<in> set (F ! j)) \<longleftrightarrow> p \<in> free_blocks F - set (F ! i)"
      using free_lists_disjoint [OF assms(1,2)] assms(3) by (auto simp: free_blocks_iff len)
    then show "p \<in> free_blocks (F[i := xs]) \<longleftrightarrow> p \<in> free_blocks F - set (F ! i) \<union> set xs"
      using assms(3) by (auto simp: free_blocks_iff len nth_list_update split: if_splits)
  qed
qed

lemma free_is_small:
  assumes "arena_ok env s ss L" and "free_ok s ss heads F" and "p \<in> free_blocks F"
  shows "p \<in> small_blocks s ss"
  using assms by (auto simp: free_blocks_iff free_ok_def intro: in_class_small)

lemma free_ok_heads:
  "free_ok s ss heads F \<Longrightarrow> i < 16 \<Longrightarrow> heads ! i = NULL \<longleftrightarrow> F ! i = []"
  by (cases "F ! i") (auto simp: free_ok_def dest!: spec [of _ i])

section \<open>Changes that keep the heap\<close>

text \<open>
  The heap depends on its own objects only: the blocks of the arena and the headers of its slabs.
\<close>

definition heap_same :: "'a world_scheme \<Rightarrow> 'b world_scheme \<Rightarrow> heap_abs \<Rightarrow> bool" where
  "heap_same s s' A \<longleftrightarrow> mappings s' = mappings s \<and>
     (\<forall>a \<in> set (abs_slabs A). sshape s' a = sshape s a) \<and>
     (\<forall>p \<in> arena_blocks s (abs_slabs A) (abs_large A). blocks s' p = blocks s p)"

lemma heap_same_arena: "heap_same s s' A \<Longrightarrow> arena_same (abs_slabs A) (abs_large A) s s'"
  by (simp add: heap_same_def arena_same_def bshape_def)

lemma free_ok_blocks_same:
  assumes "arena_ok env s ss L" and "free_ok s ss heads F" and "arena_same ss L s s'"
    and "\<And>p. p \<in> free_blocks F \<Longrightarrow> block_next s' p = block_next s p"
  shows "free_ok s' ss heads F"
proof -
  have "chain (block_next s') (heads ! i) (F ! i)" if i: "i < 16" for i
  proof -
    have "block_next s' p = block_next s p" if "p \<in> set (F ! i)" for p
      using assms(2) i that by (intro assms(4)) (auto simp: free_blocks_iff free_ok_def)
    then have "chain (block_next s) (heads ! i) (F ! i) \<longleftrightarrow> chain (block_next s') (heads ! i) (F ! i)"
      by (intro chain_cong) simp
    with free_okD(1) [OF assms(2) i] show ?thesis by simp
  qed
  with assms(2,3) show ?thesis by (auto simp: free_ok_def in_class_same)
qed

lemma heap_same_lists:
  assumes "heap_lists env s heads A" and same: "heap_same s s' A"
  shows "heap_lists env s' heads A" and "live_blocks s' A = live_blocks s A"
proof -
  let ?ss = "abs_slabs A" and ?L = "abs_large A"
  have ar: "arena_ok env s ?ss ?L" and fr: "free_ok s ?ss heads (abs_free A)" using assms(1) by (auto simp: heap_lists_def)
  note as = heap_same_arena [OF same]
  have ab: "arena_blocks s' ?ss ?L = arena_blocks s ?ss ?L" by (rule arena_blocks_same [OF as])
  then show "live_blocks s' A = live_blocks s A" by (simp add: live_blocks_def)
  have "arena_ok env s' ?ss ?L"
    using same by (intro arena_ok_cong [OF ar as]) (simp add: heap_same_def)
  moreover have "free_ok s' ?ss heads (abs_free A)"
    using same free_is_small [OF ar fr]
    by (intro free_ok_blocks_same [OF ar fr as]) (auto simp: heap_same_def arena_blocks_def block_next_def)
  ultimately show "heap_lists env s' heads A" by (simp add: heap_lists_def)
qed

lemma heap_ok_lists:
  "heap_ok env s heads A \<longleftrightarrow> heap_lists env s heads A \<and> (\<forall>p \<in> live_blocks s A. live_ok s p)"
  by (auto simp: heap_ok_def heap_lists_def)

lemma heap_same_ok:
  assumes h: "heap_ok env s heads A" and same: "heap_same s s' A"
  shows "heap_ok env s' heads A" and "live_blocks s' A = live_blocks s A"
proof -
  have h': "heap_lists env s heads A" and live: "\<forall>p \<in> live_blocks s A. live_ok s p" using h by (auto simp: heap_ok_lists)
  show lv: "live_blocks s' A = live_blocks s A" by (rule heap_same_lists(2) [OF h' same])
  have "live_ok s' p" if "p \<in> live_blocks s' A" for p
    using that live same unfolding lv by (auto simp: live_ok_def heap_same_def live_blocks_def)
  with heap_same_lists(1) [OF h' same] show "heap_ok env s' heads A" by (simp add: heap_ok_lists)
qed

section \<open>Taking and putting back a block\<close>

text \<open>The state after one block's links or request were rewritten.\<close>

definition block_changed ::
  "addr \<Rightarrow> hplf_block \<Rightarrow> hplf_block \<Rightarrow> 'a world_scheme \<Rightarrow> 'a world_scheme \<Rightarrow> bool" where
  "block_changed p b b' s s' \<longleftrightarrow> blocks s p = Some b \<and> blocks s' = (blocks s)(p \<mapsto> b') \<and>
     owner b' = owner b \<and> capacity b' = capacity b \<and> kind b' = kind b \<and>
     slab_objs s' = slab_objs s \<and> mappings s' = mappings s"

lemma block_changed_arena:
  "block_changed p b b' s s' \<Longrightarrow> arena_same ss L s s'"
  "block_changed p b b' s s' \<Longrightarrow> bshape s' = bshape s"
  "block_changed p b b' s s' \<Longrightarrow> sshape s' = sshape s"
  by (auto simp: block_changed_def arena_same_def sshape_def bshape_def)

lemma block_changed_arena_ok:
  "arena_ok env s ss L \<Longrightarrow> block_changed p b b' s s' \<Longrightarrow> arena_ok env s' ss L"
  by (rule arena_ok_cong) (auto intro: block_changed_arena simp: block_changed_def)

lemma block_changed_next:
  "block_changed p b b' s s' \<Longrightarrow> block_next s' = (block_next s)(p \<mapsto> next_free b')"
  by (auto simp: block_changed_def block_next_def fun_eq_iff)

lemma heap_pop:
  assumes h: "heap_ok env s heads A" and i: "i < 16" and F: "abs_free A ! i = p # xs"
    and ch: "block_changed p b b' s s'" and sz: "requested_size b' \<noteq> 0" "requested_size b' \<le> capacity b'"
  defines "A' \<equiv> A\<lparr>abs_free := (abs_free A)[i := xs]\<rparr>"
  shows "heap_ok env s' (heads[i := next_free b]) A'"
    and "live_blocks s' A' = insert p (live_blocks s A)" and "p \<notin> live_blocks s A"
proof -
  let ?ss = "abs_slabs A" and ?L = "abs_large A" and ?F = "abs_free A"
  have ar: "arena_ok env s ?ss ?L" and fr: "free_ok s ?ss heads ?F"
    and live: "\<forall>q \<in> live_blocks s A. live_ok s q" using h by (auto simp: heap_ok_def)
  have len: "length heads = 16" "length ?F = 16" using fr by (auto simp: free_ok_def)
  have b: "blocks s p = Some b" using ch by (simp add: block_changed_def)
  have pfree: "p \<in> free_blocks ?F" using i F len by (auto simp: free_blocks_iff intro!: exI [of _ i])
  then show "p \<notin> live_blocks s A" by (simp add: live_blocks_def)
  have ab: "arena_blocks s' ?ss ?L = arena_blocks s ?ss ?L"
    using ch by (intro arena_blocks_same block_changed_arena)
  have "set (?F ! i) \<subseteq> free_blocks ?F" using i len by (auto simp: free_blocks_iff)
  then have fb: "free_blocks (?F[i := xs]) = free_blocks ?F - {p}"
    using free_blocks_update [OF ar fr i] free_okD(3) [OF fr i] F by auto
  have "p \<in> arena_blocks s ?ss ?L" using free_is_small [OF ar fr pfree] by (simp add: arena_blocks_def)
  then show lv: "live_blocks s' A' = insert p (live_blocks s A)"
    using pfree by (auto simp: live_blocks_def A'_def ab fb)
  have "chain (block_next s') (heads[i := next_free b] ! j) (?F[i := xs] ! j)" if j: "j < 16" for j
  proof (cases "j = i")
    case True
    with free_okD [OF fr i] F b i len show ?thesis
      by (auto simp: block_changed_next [OF ch] block_next_def)
  next
    case False
    then have "p \<notin> set (?F ! j)" using free_lists_disjoint [OF ar fr i j] F by auto
    with False free_okD(1) [OF fr j] show ?thesis by (simp add: block_changed_next [OF ch])
  qed
  moreover have "in_class s' ?ss j q" if "j < 16" "q \<in> set (?F[i := xs] ! j)" for j q
    using that free_okD(2) [OF fr, of j q] F i len in_class_same [OF block_changed_arena(1) [OF ch]]
    by (auto simp: nth_list_update split: if_splits)
  ultimately have "free_ok s' ?ss (heads[i := next_free b]) (?F[i := xs])"
    using len by (simp add: free_ok_def)
  moreover have "live_ok s' q" if "q \<in> live_blocks s' A'" for q
    using that live ch sz unfolding lv by (auto simp: live_ok_def block_changed_def)
  ultimately show "heap_ok env s' (heads[i := next_free b]) A'"
    using block_changed_arena_ok [OF ar ch] by (simp add: heap_ok_def A'_def)
qed

lemma heap_push:
  assumes ok: "os_ok env" and h: "heap_ok env s heads A" and i: "i < 16" and p: "p \<in> live_blocks s A"
    and cl: "in_class s (abs_slabs A) i p"
    and ch: "block_changed p b b' s s'" and nx: "next_free b' = heads ! i"
  defines "A' \<equiv> A\<lparr>abs_free := (abs_free A)[i := p # abs_free A ! i]\<rparr>"
  shows "heap_ok env s' (heads[i := p]) A'" and "live_blocks s' A' = live_blocks s A - {p}"
proof -
  let ?ss = "abs_slabs A" and ?L = "abs_large A" and ?F = "abs_free A"
  have ar: "arena_ok env s ?ss ?L" and fr: "free_ok s ?ss heads ?F"
    and live: "\<forall>q \<in> live_blocks s A. live_ok s q" using h by (auto simp: heap_ok_def)
  have len: "length heads = 16" "length ?F = 16" using fr by (auto simp: free_ok_def)
  have pnf: "p \<notin> free_blocks ?F" using p by (simp add: live_blocks_def)
  then have pn: "p \<notin> set (?F ! j)" if "j < 16" for j using that len by (auto simp: free_blocks_iff)
  have ab: "arena_blocks s' ?ss ?L = arena_blocks s ?ss ?L"
    using ch by (intro arena_blocks_same block_changed_arena)
  have "set (?F ! i) \<subseteq> free_blocks ?F" using i len by (auto simp: free_blocks_iff)
  then have "free_blocks (?F[i := p # ?F ! i]) = insert p (free_blocks ?F)"
    using free_blocks_update [OF ar fr i] by auto
  then show lv: "live_blocks s' A' = live_blocks s A - {p}" by (auto simp: live_blocks_def A'_def ab)
  have nn: "p \<noteq> NULL"
    using block_facts(1) [OF ok ar] in_class_small [OF ar cl] by (simp add: arena_blocks_def)
  have "chain (block_next s') (heads[i := p] ! j) (?F[i := p # ?F ! i] ! j)" if j: "j < 16" for j
    using free_okD(1) [OF fr j] pn [OF j] nn nx i len
    by (cases "j = i") (auto simp: block_changed_next [OF ch])
  moreover have "in_class s' ?ss j q" if "j < 16" "q \<in> set (?F[i := p # ?F ! i] ! j)" for j q
    using that free_okD(2) [OF fr, of j q] cl i len in_class_same [OF block_changed_arena(1) [OF ch]]
    by (auto simp: nth_list_update split: if_splits)
  ultimately have "free_ok s' ?ss (heads[i := p]) (?F[i := p # ?F ! i])"
    using len by (simp add: free_ok_def)
  moreover have "live_ok s' q" if "q \<in> live_blocks s' A'" for q
    using that live ch unfolding lv by (auto simp: live_ok_def block_changed_def)
  ultimately show "heap_ok env s' (heads[i := p]) A'"
    using block_changed_arena_ok [OF ar ch] by (simp add: heap_ok_def A'_def)
qed

lemma heap_resize:
  assumes h: "heap_ok env s heads A" and p: "p \<in> live_blocks s A" and ch: "block_changed p b b' s s'"
    and sz: "requested_size b' \<noteq> 0" "requested_size b' \<le> capacity b'"
  shows "heap_ok env s' heads A" and "live_blocks s' A = live_blocks s A"
proof -
  let ?ss = "abs_slabs A" and ?L = "abs_large A" and ?F = "abs_free A"
  have ar: "arena_ok env s ?ss ?L" and fr: "free_ok s ?ss heads ?F"
    and live: "\<forall>q \<in> live_blocks s A. live_ok s q" using h by (auto simp: heap_ok_def)
  note as = block_changed_arena(1) [OF ch]
  show lv: "live_blocks s' A = live_blocks s A"
    by (simp add: live_blocks_def arena_blocks_same [OF as])
  have "p \<notin> free_blocks ?F" using p by (simp add: live_blocks_def)
  then have "free_ok s' ?ss heads ?F"
    by (intro free_ok_blocks_same [OF ar fr as]) (auto simp: block_changed_next [OF ch])
  moreover have "live_ok s' q" if "q \<in> live_blocks s' A" for q
    using that live ch sz unfolding lv by (auto simp: live_ok_def block_changed_def)
  ultimately show "heap_ok env s' heads A"
    using block_changed_arena_ok [OF ar ch] by (simp add: heap_ok_def)
qed

section \<open>Adding a slab\<close>

lemma heap_new_slab:
  assumes ok: "os_ok env" and h: "heap_ok env s heads A" and ci: "unat ci < 16"
    and F: "abs_free A ! unat ci = []" and cr: "slab_created env ci a d s s'" and nx: "slab_next d = NULL"
  defines "A' \<equiv> A\<lparr>abs_slabs := a # abs_slabs A, abs_free := (abs_free A)[unat ci := rev (slab_slots a d)]\<rparr>"
  shows "heap_ok env s' (heads[unat ci := slot_at a d (unat (slot_count d) - 1)]) A'"
    and "live_blocks s' A' = live_blocks s A"
proof -
  let ?ss = "abs_slabs A" and ?L = "abs_large A" and ?F = "abs_free A" and ?i = "unat ci"
  let ?h = "slot_at a d (unat (slot_count d) - 1)" and ?xs = "rev (slab_slots a d)"
  have ar: "arena_ok env s ?ss ?L" and fr: "free_ok s ?ss heads ?F"
    and live: "\<forall>q \<in> live_blocks s A. live_ok s q" using h by (auto simp: heap_ok_def)
  have len: "length heads = 16" "length ?F = 16" using fr by (auto simp: free_ok_def)
  note new = arena_add_slab [OF ok ar cr nx]
  have small: "small_blocks s' (a # ?ss) = set (slab_slots a d) \<union> small_blocks s ?ss"
    using small_blocks_Cons [OF new(3)] small_blocks_same [OF objects_same_arena [OF new(1)]] by simp
  have fb: "free_blocks (?F[?i := ?xs]) = free_blocks ?F \<union> set (slab_slots a d)"
    using free_blocks_update [OF ar fr ci] F by simp
  have sub: "free_blocks ?F \<subseteq> arena_blocks s ?ss ?L"
    using free_is_small [OF ar fr] by (auto simp: arena_blocks_def)
  show lv: "live_blocks s' A' = live_blocks s A"
    using new(5) by (auto simp: live_blocks_def A'_def fb arena_blocks_def small)
  have same: "blocks s' p = blocks s p" if "p \<in> arena_blocks s ?ss ?L" for p
    using new(1) that by (simp add: objects_same_def)
  have fresh: "chain (block_next s') ?h ?xs"
    using fresh_chain [OF ok, of a d s' "unat (slot_count d)"] cr slab_ok_count [OF ok, of a d]
    by (auto simp: slab_created_def slab_slots_def split: if_splits)
  have "chain (block_next s') (heads[?i := ?h] ! j) (?F[?i := ?xs] ! j)" if j: "j < 16" for j
  proof (cases "j = ?i")
    case True
    then show ?thesis using fresh ci len by simp
  next
    case False
    have "set (?F ! j) \<subseteq> free_blocks ?F" using j len by (auto simp: free_blocks_iff)
    with sub same have "block_next s' p = block_next s p" if "p \<in> set (?F ! j)" for p
      using that by (auto simp: block_next_def)
    then have "chain (block_next s') (heads ! j) (?F ! j) \<longleftrightarrow> chain (block_next s) (heads ! j) (?F ! j)"
      by (intro chain_cong) simp
    with False free_okD(1) [OF fr j] show ?thesis by simp
  qed
  moreover have "in_class s' (a # ?ss) j p" if j: "j < 16" "p \<in> set (?F[?i := ?xs] ! j)" for j p
  proof (cases "j = ?i")
    case True
    with j ci len cr new(3) show ?thesis
      by (auto simp: in_class_def slab_created_def slab_conf_def)
  next
    case False
    with j free_okD(2) [OF fr j(1), of p] have "in_class s' ?ss j p"
      using in_class_same [OF objects_same_arena [OF new(1)]] by simp
    then show ?thesis by (auto simp: in_class_def)
  qed
  ultimately have "free_ok s' (a # ?ss) (heads[?i := ?h]) (?F[?i := ?xs])"
    using len by (simp add: free_ok_def)
  moreover have "live_ok s' p" if "p \<in> live_blocks s' A'" for p
    using that live same [of p] unfolding lv by (auto simp: live_ok_def live_blocks_def)
  ultimately show "heap_ok env s' (heads[?i := ?h]) A'"
    using new(2) by (simp add: heap_ok_def A'_def)
qed

end
