(* ===== verification/Allocator_Large.thy ===== *)
theory Allocator_Large
  imports Free_Lists
begin

text \<open>
  The parts of \<open>src/allocator.c\<close> that do not depend on the variant: the large-object path of
  \<open>hplf_malloc\<close>, the test of \<open>hplf_realloc\<close> for resizing in place, and joining two free chains.
\<close>

section \<open>Definitions\<close>

definition hplf_allocate_large ::
  "os_env \<Rightarrow> size_t \<Rightarrow> 'a world_scheme \<Rightarrow> (addr \<times> 'a world_scheme) option" where
  "hplf_allocate_large env requested s =
     (case hplf_os_page_size env (Some 0) s of
        (True, Some page_size, s) \<Rightarrow>
          (case checked (hplf_large_layout_compute requested page_size
                   (Some \<lparr>ll_payload_offset = 0, ll_mapping_length = 0\<rparr>)) of
             None \<Rightarrow> Some (NULL, s\<lparr>errno := ENOMEM\<rparr>)
           | Some layout \<Rightarrow>
               (case hplf_os_map env (ll_mapping_length layout)
                       (Some \<lparr>map_base = NULL, map_length = 0\<rparr>) s of
                  (True, Some mapping, s) \<Rightarrow> do {
                    let block = map_base mapping;
                    s \<leftarrow> store_block block
                      \<lparr>owner = OwnerLarge (map_base mapping) (map_length mapping),
                       next_free = NULL, requested_size = requested,
                       capacity = map_length mapping - ll_payload_offset layout,
                       kind = HPLF_BLOCK_LARGE\<rparr> s;
                    Some (hplf_block_payload block, s)
                  }
                | (_, _, s) \<Rightarrow> Some (NULL, s\<lparr>errno := ENOMEM\<rparr>)))
      | (_, _, s) \<Rightarrow> Some (NULL, s\<lparr>errno := ENOMEM\<rparr>))"

definition hplf_realloc_can_retain :: "addr \<Rightarrow> size_t \<Rightarrow> 'a world_scheme \<Rightarrow> bool option" where
  "hplf_realloc_can_retain block requested s = do {
     b \<leftarrow> blocks s block;
     (case kind b of
        HPLF_BLOCK_SMALL \<Rightarrow>
          (case class_of requested of
             None \<Rightarrow> Some False
           | Some (ci, cap) \<Rightarrow> do {
               slab \<leftarrow> owner_small (owner b);
               d \<leftarrow> slab_objs s slab;
               Some (ci = class_index d)
             })
      | HPLF_BLOCK_LARGE \<Rightarrow> Some (class_of requested = None \<and> requested \<le> capacity b))
   }"

section \<open>The large path\<close>

text \<open>
  Either the call fails, returns null, sets \<open>errno\<close> to \<open>ENOMEM\<close> and leaves the memory alone, or a
  fresh mapping holds the block and nothing outside it changed.
\<close>

definition large_created ::
  "os_env \<Rightarrow> size_t \<Rightarrow> addr \<Rightarrow> size_t \<Rightarrow> 'a world_scheme \<Rightarrow> 'a world_scheme \<Rightarrow> bool" where
  "large_created env requested p len s s' \<longleftrightarrow>
     p \<noteq> NULL \<and> unat (sc_pagesize env) dvd unat p \<and> unat p + unat len \<le> SIZE_BOUND \<and>
     48 + unat requested \<le> unat len \<and>
     (\<forall>(b, l) \<in> set (mappings s). disjoint_ranges p (unat len) b (unat l)) \<and>
     mappings s' = (p, len) # mappings s \<and> outside_same p (unat len) s s' \<and>
     blocks s' p = Some \<lparr>owner = OwnerLarge p len, next_free = NULL, requested_size = requested,
       capacity = len - 48, kind = HPLF_BLOCK_LARGE\<rparr>"

lemma layout_length:
  assumes "hplf_large_layout_compute requested page (Some l0) = (True, Some l)"
  shows "unat (ll_mapping_length l) = round_up (48 + unat requested) (unat page)"
  using assms by (auto simp: large_layout_eq unat_word_of_nat split: if_splits)

lemma allocate_large_cases:
  assumes ok: "os_ok env" and req: "requested \<noteq> 0"
  obtains (failed) s' where "hplf_allocate_large env requested s = Some (NULL, s')"
      "same_memory s s'" "errno s' = ENOMEM"
      "\<not> can_map env s (round_up (48 + unat requested) (unat (sc_pagesize env)))"
  | (succeeded) p len s' where "hplf_allocate_large env requested s = Some (p + 48, s')"
      "large_created env requested p len s s'"
  using ok
proof (cases rule: page_size_cases [where p = 0 and s = s])
  case (failed s1)
  then show ?thesis by (intro that(1) [of "s1\<lparr>errno := ENOMEM\<rparr>"]) (auto simp: hplf_allocate_large_def can_map_def)
next
  case ps: (succeeded s1)
  let ?m0 = "\<lparr>map_base = NULL, map_length = 0\<rparr>" and ?l0 = "\<lparr>ll_payload_offset = 0, ll_mapping_length = 0\<rparr>"
  show ?thesis
  proof (cases "checked (hplf_large_layout_compute requested (sc_pagesize env) (Some ?l0))")
    case None
    with req os_ok_page(1) [OF ok] have "\<not> round_up (48 + unat requested) (unat (sc_pagesize env)) < SIZE_BOUND"
      by (auto simp: large_layout_eq)
    with None ps show ?thesis
      by (intro that(1) [of "s1\<lparr>errno := ENOMEM\<rparr>"]) (auto simp: hplf_allocate_large_def can_map_def)
  next
    case (Some l)
    then have lay: "hplf_large_layout_compute requested (sc_pagesize env) (Some ?l0) = (True, Some l)"
      by (simp add: checked_eq_Some)
    note l = large_layout_SomeD [OF lay]
    have "ll_mapping_length l \<noteq> 0" using l(5) by auto
    with ok show ?thesis
    proof (cases rule: os_map_cases [where s = s1 and m = ?m0])
      case (failed s2)
      have "round_up (unat (ll_mapping_length l)) (unat (sc_pagesize env)) =
          round_up (48 + unat requested) (unat (sc_pagesize env))"
        using layout_length [OF lay] l(2,4) by (simp add: round_up_idem unat_gt_0)
      moreover have "mappings s1 = mappings s" using ps(2) by (simp add: same_memory_def)
      ultimately have "\<not> can_map env s (round_up (48 + unat requested) (unat (sc_pagesize env)))"
        using failed(3) can_map_same by metis
      with failed ps Some show ?thesis
        by (intro that(1) [of "s2\<lparr>errno := ENOMEM\<rparr>"])
          (auto simp: hplf_allocate_large_def intro: same_memory_trans)
    next
      case mp: (succeeded p len s2)
      have "unat len = unat (ll_mapping_length l)"
        using mp(3) l(2,4) by (simp add: round_up_idem unat_gt_0)
      then have len: "48 + unat requested \<le> unat len" using l(5) by simp
      let ?b = "\<lparr>owner = OwnerLarge p len, next_free = NULL, requested_size = requested,
        capacity = len - 48, kind = HPLF_BLOCK_LARGE\<rparr>"
      have m2: "mappings s2 = (p, len) # mappings s" "outside_same p (unat len) s s2"
        using mp(2) ps(2) by (auto simp: range_mapped_def same_memory_def outside_same_def range_gone_def)
      have sub: "subrange p 48 p (unat len)" using len by (simp add: subrange_def)
      then have "mapped s2 p 48" by (auto simp: mapped_iff m2)
      from store_block_inside [OF this sub, of ?b] obtain s3 where s3: "store_block p ?b s2 = Some s3"
        "outside_same p (unat len) s2 s3" "mappings s3 = mappings s2" "blocks s3 p = Some ?b" by metis
      show ?thesis
      proof (rule that(2))
        show "hplf_allocate_large env requested s = Some (p + 48, s3)"
          using ps(1) Some mp(1,4) l(3) s3(1) by (simp add: hplf_allocate_large_def hplf_block_payload_eq)
        show "large_created env requested p len s s3"
          unfolding large_created_def
          using mp(4-7) len m2 s3 ps(2) by (auto simp: same_memory_def intro: outside_same_trans)
      qed
    qed
  qed
qed

section \<open>Large blocks in the heap\<close>

lemma heap_new_large:
  assumes ok: "os_ok env" and h: "heap_ok env s heads A" and req: "requested \<noteq> 0"
    and cr: "large_created env requested p len s s'"
  defines "A' \<equiv> A\<lparr>abs_large := insert p (abs_large A)\<rparr>"
  shows "heap_ok env s' heads A'" and "live_blocks s' A' = insert p (live_blocks s A)"
    and "p \<notin> live_blocks s A" and "objects_same (abs_slabs A) (abs_large A) s s'"
proof -
  let ?ss = "abs_slabs A" and ?L = "abs_large A" and ?F = "abs_free A"
  have ar: "arena_ok env s ?ss ?L" and fr: "free_ok s ?ss heads ?F"
    and live: "\<forall>q \<in> live_blocks s A. live_ok s q" using h by (auto simp: heap_ok_def)
  note c = cr [unfolded large_created_def]
  have "0 < unat requested" using req by (simp add: unat_gt_0)
  then have big: "48 < unat len" using c by linarith
  have "bshape s' p = Some (OwnerLarge p len, len - 48, HPLF_BLOCK_LARGE)" using c by (simp add: bshape_def)
  with arena_add_large [OF ok ar, of p len s'] c big
  have new: "objects_same ?ss ?L s s'" "arena_ok env s' ?ss (insert p ?L)" "p \<notin> arena_blocks s ?ss ?L"
    by auto
  show "objects_same ?ss ?L s s'" by (rule new(1))
  show "p \<notin> live_blocks s A" using new(3) by (simp add: live_blocks_def)
  have as: "arena_same ?ss ?L s s'" by (rule objects_same_arena [OF new(1)])
  have fsub: "free_blocks ?F \<subseteq> arena_blocks s ?ss ?L"
    using free_is_small [OF ar fr] by (auto simp: arena_blocks_def)
  have "arena_blocks s' ?ss (insert p ?L) = insert p (arena_blocks s ?ss ?L)"
    using small_blocks_same [OF as] by (simp add: arena_blocks_def)
  then show lv: "live_blocks s' A' = insert p (live_blocks s A)"
    using new(3) fsub by (auto simp: live_blocks_def A'_def)
  have "free_ok s' ?ss heads ?F"
    using new(1) fsub
    by (intro free_ok_blocks_same [OF ar fr as]) (auto simp: objects_same_def block_next_def)
  moreover have "live_ok s' p"
    using c req big by (auto simp: live_ok_def size_t_le_iff unat_sub_le)
  then have "live_ok s' q" if "q \<in> live_blocks s' A'" for q
    using that live new(1) unfolding lv by (auto simp: live_ok_def live_blocks_def objects_same_def)
  ultimately show "heap_ok env s' heads A'" using new(2) by (simp add: heap_ok_def A'_def)
qed

lemma heap_drop_large:
  assumes ok: "os_ok env" and h: "heap_ok env s heads A" and p: "p \<in> abs_large A"
    and lc: "large_conf s p len" and un: "range_unmapped p len s s'"
  defines "A' \<equiv> A\<lparr>abs_large := abs_large A - {p}\<rparr>"
  shows "heap_ok env s' heads A'" and "live_blocks s' A' = live_blocks s A - {p}"
    and "objects_same (abs_slabs A) (abs_large A - {p}) s s'"
proof -
  let ?ss = "abs_slabs A" and ?L = "abs_large A" and ?F = "abs_free A"
  have ar: "arena_ok env s ?ss ?L" and fr: "free_ok s ?ss heads ?F"
    and live: "\<forall>q \<in> live_blocks s A. live_ok s q" using h by (auto simp: heap_ok_def)
  have "p \<notin> set ?ss" "distinct ?ss" using ar p by (auto simp: arena_ok_def)
  with arena_remove [OF ok ar un, of ?ss "?L - {p}"] lc
  have new: "objects_same ?ss (?L - {p}) s s'" "arena_ok env s' ?ss (?L - {p})"
    by (auto simp: large_conf_def)
  show "objects_same ?ss (?L - {p}) s s'" by (rule new(1))
  have as: "arena_same ?ss (?L - {p}) s s'" by (rule objects_same_arena [OF new(1)])
  have ar': "arena_ok env s ?ss (?L - {p})" using ar by (auto simp: arena_ok_def)
  have psmall: "p \<notin> small_blocks s ?ss"
  proof
    assume "p \<in> small_blocks s ?ss"
    with ar obtain a d k where "slab_conf env s a d" "k < unat (slot_count d)" "p = slot_at a d k"
      by (auto elim!: small_in_class simp: in_slab_slots)
    then have "bshape s p = Some (OwnerSmall a, class_capacity d, HPLF_BLOCK_SMALL)"
      by (simp add: slab_conf_def)
    with lc show False by (simp add: large_conf_def)
  qed
  have fsub: "free_blocks ?F \<subseteq> arena_blocks s ?ss (?L - {p})"
    using free_is_small [OF ar fr] by (auto simp: arena_blocks_def)
  have "arena_blocks s' ?ss (?L - {p}) = arena_blocks s ?ss ?L - {p}"
    using small_blocks_same [OF as] psmall by (auto simp: arena_blocks_def)
  then show lv: "live_blocks s' A' = live_blocks s A - {p}"
    by (auto simp: live_blocks_def A'_def)
  have "free_ok s' ?ss heads ?F"
    using new(1) fsub
    by (intro free_ok_blocks_same [OF ar' fr as]) (auto simp: objects_same_def block_next_def)
  moreover have "live_ok s' q" if "q \<in> live_blocks s' A'" for q
    using that live new(1) unfolding lv
    by (auto simp: live_ok_def live_blocks_def objects_same_def arena_blocks_def)
  ultimately show "heap_ok env s' heads A'" using new(2) by (simp add: heap_ok_def A'_def)
qed

section \<open>Payload bytes\<close>

text \<open>The bytes of a set of blocks are as before.\<close>

definition bytes_kept :: "addr set \<Rightarrow> 'a world_scheme \<Rightarrow> 'b world_scheme \<Rightarrow> bool" where
  "bytes_kept P s s' \<longleftrightarrow>
     (\<forall>p \<in> P. \<forall>q. in_range p (extent s p) q \<longrightarrow> bytes s' q = bytes s q)"

lemma bytes_kept_same [simp]: "bytes s' = bytes s \<Longrightarrow> bytes_kept P s s'"
  by (simp add: bytes_kept_def)

lemma bytes_kept_outside:
  assumes "outside_same b n s s'" and "\<And>p. p \<in> P \<Longrightarrow> disjoint_ranges b n p (extent s p)"
  shows "bytes_kept P s s'"
  unfolding bytes_kept_def
proof (intro ballI allI impI)
  fix p q assume "p \<in> P" and "in_range p (extent s p) q"
  then have "\<not> in_range b n q" using in_range_disjoint [OF assms(2)] by blast
  then show "bytes s' q = bytes s q" using assms(1) by (simp add: outside_same_def)
qed

lemma bytes_kept_fresh:
  assumes ok: "os_ok env" and h: "heap_ok env s heads A" and out: "outside_same b (unat l) s s'"
    and dj: "\<forall>(b', l') \<in> set (mappings s). disjoint_ranges b (unat l) b' (unat l')"
  shows "bytes_kept (live_blocks s A) s s'"
proof (rule bytes_kept_outside [OF out])
  fix p assume "p \<in> live_blocks s A"
  then have "p \<in> arena_blocks s (abs_slabs A) (abs_large A)" by (simp add: live_blocks_def)
  with ok h obtain b' l' where "(b', l') \<in> set (mappings s)" "subrange p (extent s p) b' (unat l')"
    by (auto simp: heap_ok_def elim: block_home)
  with dj show "disjoint_ranges b (unat l) p (extent s p)"
    using disjoint_subrange [OF _ subrange_refl] by fastforce
qed

text \<open>
  Writing inside the payload of a block touches no block prefix, no slab header and no other
  block's payload.
\<close>

lemma payload_address:
  assumes "os_ok env" and "arena_ok env s ss L" and "p \<in> arena_blocks s ss L"
  shows "unat (p + 48) = unat p + 48" and "p + 48 \<noteq> NULL" and "16 dvd unat (p + 48)"
proof -
  note f = block_facts [OF assms]
  show u: "unat (p + 48) = unat p + 48" using f(3,4) by (subst unat_add_noverflow) simp_all
  then show "p + 48 \<noteq> NULL" by (auto simp: size_t_eq_0_iff)
  show "16 dvd unat (p + 48)" unfolding u using f(2) by (intro dvd_add) simp_all
qed

lemma payload_write:
  assumes ok: "os_ok env" and ar: "arena_ok env s ss L" and p: "p \<in> arena_blocks s ss L"
    and w: "unat p + 48 \<le> unat x" "unat x + n \<le> unat p + extent s p"
  shows "mapped s x n" and "objects_same ss L s (clobber x n s)"
    and "\<And>q. q \<in> arena_blocks s ss L \<Longrightarrow> q \<noteq> p \<Longrightarrow> disjoint_ranges x n q (extent s q)"
proof -
  have sub: "subrange x n p (extent s p)" using w by (simp add: subrange_def)
  from ok ar p obtain b l where "(b, l) \<in> set (mappings s)" "subrange p (extent s p) b (unat l)"
    by (rule block_home)
  with sub show "mapped s x n" by (auto simp: mapped_iff intro: subrange_trans)
  show oth: "disjoint_ranges x n q (extent s q)" if "q \<in> arena_blocks s ss L" "q \<noteq> p" for q
    using extents_disjoint [OF ok ar p that(1)] that(2) sub by (metis disjoint_narrow)
  have "disjoint_ranges x n q 48" if "q \<in> arena_blocks s ss L" for q
    using oth [OF that] block_facts(3) [OF ok ar that] w
    by (cases "q = p") (auto simp: disjoint_ranges_def)
  moreover have "disjoint_ranges x n a 64" if "a \<in> set ss" for a
    using header_disjoint [OF ok ar p that] sub by (rule disjoint_narrow)
  ultimately show "objects_same ss L s (clobber x n s)"
    by (simp add: objects_same_def)
qed

text \<open>A set of blocks is untouched: neither its prefixes nor its payloads changed.\<close>

definition kept :: "addr set \<Rightarrow> 'a world_scheme \<Rightarrow> 'b world_scheme \<Rightarrow> bool" where
  "kept P s s' \<longleftrightarrow> bytes_kept P s s' \<and> (\<forall>p \<in> P. blocks s' p = blocks s p)"

lemma keptI: "bytes_kept P s s' \<Longrightarrow> (\<And>p. p \<in> P \<Longrightarrow> blocks s' p = blocks s p) \<Longrightarrow> kept P s s'"
  by (simp add: kept_def)

lemma kept_trans:
  assumes "kept P s s'" and "kept P s' s''" shows "kept P s s''"
proof -
  have "extent s' p = extent s p" if "p \<in> P" for p
    using assms(1) that by (simp add: kept_def extent_def bshape_def)
  with assms show ?thesis by (simp add: kept_def bytes_kept_def)
qed

lemma kept_mono: "kept P s s' \<Longrightarrow> Q \<subseteq> P \<Longrightarrow> kept Q s s'"
  by (auto simp: kept_def bytes_kept_def)

lemma kept_same [simp]: "blocks s' = blocks s \<Longrightarrow> bytes s' = bytes s \<Longrightarrow> kept P s s'"
  by (simp add: kept_def)

section \<open>Fields the heap does not depend on\<close>

lemma heap_ok_cong:
  assumes "mappings s' = mappings s" and "blocks s' = blocks s" and "slab_objs s' = slab_objs s"
  shows "heap_ok env s' heads A \<longleftrightarrow> heap_ok env s heads A" and "live_blocks s' A = live_blocks s A"
    and "extent s' p = extent s p"
proof -
  have 1: "heap_same s s' A" and 2: "heap_same s' s A" using assms by (auto simp: heap_same_def sshape_def)
  show "heap_ok env s' heads A \<longleftrightarrow> heap_ok env s heads A"
    using heap_same_ok(1) [OF _ 1] heap_same_ok(1) [OF _ 2] by blast
  show "live_blocks s' A = live_blocks s A"
    using assms by (simp add: live_blocks_def arena_blocks_def small_blocks_def slots_of_def sshape_def)
  show "extent s' p = extent s p" using assms by (simp add: extent_def bshape_def)
qed

end
