(* ===== verification/Allocator_Api.thy ===== *)
theory Allocator_Api
  imports Allocator_Large
begin

text \<open>
  The public interface.  \<open>hplf_calloc\<close> and \<open>hplf_realloc\<close> are the same code in both variants of
  \<open>src/allocator.c\<close>; they call the variant's \<open>hplf_malloc\<close> and \<open>hplf_free\<close>, which are arguments
  here.  The locale \<open>allocator\<close> states what a variant promises of these two, and the contracts of
  \<open>hplf_calloc\<close>, \<open>hplf_realloc\<close> and of a client's stores follow from it once for all variants.
\<close>

section \<open>Definitions\<close>

definition hplf_calloc_with ::
  "(size_t \<Rightarrow> 'a world_scheme \<Rightarrow> (addr \<times> 'a world_scheme) option) \<Rightarrow>
   size_t \<Rightarrow> size_t \<Rightarrow> 'a world_scheme \<Rightarrow> (addr \<times> 'a world_scheme) option" where
  "hplf_calloc_with malloc count sz s =
     (if count = 0 \<or> sz = 0 then Some (NULL, s)
      else case checked (hplf_size_multiply count sz (Some 0)) of
        None \<Rightarrow> Some (NULL, s\<lparr>errno := ENOMEM\<rparr>)
      | Some total_size \<Rightarrow> do {
          (pointer, s) \<leftarrow> malloc total_size s;
          if pointer \<noteq> NULL then do {
            s \<leftarrow> mem_set pointer 0 (unat total_size) s;
            Some (pointer, s)
          } else Some (pointer, s)
        })"

definition hplf_realloc_with ::
  "(size_t \<Rightarrow> 'a world_scheme \<Rightarrow> (addr \<times> 'a world_scheme) option) \<Rightarrow>
   (addr \<Rightarrow> 'a world_scheme \<Rightarrow> 'a world_scheme option) \<Rightarrow>
   addr \<Rightarrow> size_t \<Rightarrow> 'a world_scheme \<Rightarrow> (addr \<times> 'a world_scheme) option" where
  "hplf_realloc_with malloc free pointer sz s =
     (if pointer = NULL then malloc sz s
      else if sz = 0 then do { s \<leftarrow> free pointer s; Some (NULL, s) }
      else if sz > PTRDIFF_MAX then Some (NULL, s\<lparr>errno := ENOMEM\<rparr>)
      else do {
        let old_block = hplf_block_from_payload pointer;
        retain \<leftarrow> hplf_realloc_can_retain old_block sz s;
        if retain then do {
          s \<leftarrow> update_block old_block (\<lambda>b. b\<lparr>requested_size := sz\<rparr>) s;
          Some (pointer, s)
        }
        else do {
          (replacement, s) \<leftarrow> malloc sz s;
          if replacement = NULL then Some (NULL, s)
          else do {
            b \<leftarrow> blocks s old_block;
            let copy_size = (if requested_size b < sz then requested_size b else sz);
            s \<leftarrow> mem_copy replacement pointer (unat copy_size) s;
            s \<leftarrow> free pointer s;
            Some (replacement, s)
          }
        }
      })"

section \<open>Outcomes\<close>

text \<open>
  \<open>granted\<close>: a block that was not live is live now, with the requested size recorded; nothing of the
  blocks that were live changed.  \<open>refused\<close>: the live blocks are the same and nothing of them changed.
\<close>

definition granted ::
  "addr \<Rightarrow> size_t \<Rightarrow> 'a world_scheme \<Rightarrow> heap_abs \<Rightarrow> 'a world_scheme \<Rightarrow> heap_abs \<Rightarrow> bool" where
  "granted p sz s A s' A' \<longleftrightarrow> p \<notin> live_blocks s A \<and> live_blocks s' A' = insert p (live_blocks s A) \<and>
     (\<exists>b. blocks s' p = Some b \<and> requested_size b = sz) \<and> kept (live_blocks s A) s s'"

definition refused :: "'a world_scheme \<Rightarrow> heap_abs \<Rightarrow> 'a world_scheme \<Rightarrow> heap_abs \<Rightarrow> bool" where
  "refused s A s' A' \<longleftrightarrow> live_blocks s' A' = live_blocks s A \<and> kept (live_blocks s A) s s'"

definition released :: "addr \<Rightarrow> 'a world_scheme \<Rightarrow> heap_abs \<Rightarrow> 'a world_scheme \<Rightarrow> heap_abs \<Rightarrow> bool" where
  "released p s A s' A' \<longleftrightarrow> live_blocks s A - {p} \<subseteq> live_blocks s' A' \<and>
     live_blocks s' A' \<subseteq> live_blocks s A \<and> kept (live_blocks s A - {p}) s s' \<and> errno s' = errno s"

text \<open>The bytes a client may use.\<close>

definition payload_byte :: "'a world_scheme \<Rightarrow> addr \<Rightarrow> nat \<Rightarrow> byte option" where
  "payload_byte s p i = bytes s (p + 48 + word_of_nat i)"

definition request :: "'a world_scheme \<Rightarrow> addr \<Rightarrow> nat" where
  "request s p = (case blocks s p of None \<Rightarrow> 0 | Some b \<Rightarrow> unat (requested_size b))"

definition resized ::
  "addr \<Rightarrow> addr \<Rightarrow> size_t \<Rightarrow> 'a world_scheme \<Rightarrow> heap_abs \<Rightarrow> 'a world_scheme \<Rightarrow> heap_abs \<Rightarrow> bool" where
  "resized p q sz s A s' A' \<longleftrightarrow> q \<notin> live_blocks s A - {p} \<and>
     insert q (live_blocks s A - {p}) \<subseteq> live_blocks s' A' \<and> live_blocks s' A' \<subseteq> insert q (live_blocks s A) \<and>
     (\<exists>b. blocks s' q = Some b \<and> requested_size b = sz) \<and> kept (live_blocks s A - {p}) s s' \<and>
     (\<forall>i < min (request s p) (unat sz). payload_byte s' q i = payload_byte s p i)"

section \<open>Payload addresses\<close>

lemma live_in_arena: "p \<in> live_blocks s A \<Longrightarrow> p \<in> arena_blocks s (abs_slabs A) (abs_large A)"
  by (simp add: live_blocks_def)

lemma payload_index:
  assumes ok: "os_ok env" and ar: "arena_ok env s ss L" and p: "p \<in> arena_blocks s ss L"
    and i: "48 + i < extent s p"
  shows "unat (p + 48 + word_of_nat i) = unat p + 48 + i"
    and "in_range p (extent s p) (p + 48 + word_of_nat i)"
    and "48 + n \<le> extent s p \<Longrightarrow> in_range (p + 48) n (p + 48 + word_of_nat i) \<longleftrightarrow> i < n"
proof -
  note f = block_facts [OF ok ar p] and u = payload_address(1) [OF ok ar p]
  have wi: "unat (word_of_nat i :: size_t) = i" using f(4) i by (intro unat_word_of_nat) linarith
  show a: "unat (p + 48 + word_of_nat i) = unat p + 48 + i"
    using f(4) i wi u by (subst unat_add_noverflow) simp_all
  show "in_range p (extent s p) (p + 48 + word_of_nat i)" using a i by (simp add: in_range_def)
  show "in_range (p + 48) n (p + 48 + word_of_nat i) \<longleftrightarrow> i < n" using a u by (simp add: in_range_def)
qed

lemma kept_payload:
  assumes "os_ok env" and "arena_ok env s ss L" and "p \<in> arena_blocks s ss L" and "48 + i < extent s p"
    and "kept P s s'" and "p \<in> P"
  shows "payload_byte s' p i = payload_byte s p i"
  using payload_index(2) [OF assms(1-4)] assms(5,6) by (simp add: kept_def bytes_kept_def payload_byte_def)

lemma live_request:
  assumes "os_ok env" and "arena_ok env s ss L" and "p \<in> arena_blocks s ss L" and "live_ok s p"
  shows "48 + request s p \<le> extent s p" and "0 < request s p"
  using assms(4) block_facts(5) [OF assms(1-3)]
  by (auto simp: live_ok_def request_def size_t_le_iff unat_gt_0)

lemma kept_request: "kept P s s' \<Longrightarrow> p \<in> P \<Longrightarrow> request s' p = request s p"
  by (simp add: kept_def request_def)

lemma kept_extent: "kept P s s' \<Longrightarrow> p \<in> P \<Longrightarrow> extent s' p = extent s p"
  by (simp add: kept_def extent_def bshape_def)

lemma can_retain_defined:
  assumes "arena_ok env s ss L" and "p \<in> arena_blocks s ss L"
  shows "\<exists>r b. hplf_realloc_can_retain p sz s = Some r \<and> blocks s p = Some b \<and> (r \<longrightarrow> sz \<le> capacity b)"
  using assms
proof (cases rule: arena_block_cases)
  case (small a d k)
  then obtain b where b: "blocks s p = Some b" "owner b = OwnerSmall a" "capacity b = class_capacity d"
    "kind b = HPLF_BLOCK_SMALL" by (auto simp: slab_conf_def bshape_def)
  from small(2) obtain d' where d': "slab_objs s a = Some d'" "class_index d' = class_index d"
    by (auto simp: slab_conf_def sshape_def)
  have "class_capacity d = size_class_capacities ! unat (class_index d)"
    using small(2) by (simp add: slab_conf_def slab_ok_def)
  with b d' show ?thesis
    by (auto simp: hplf_realloc_can_retain_def split: option.splits dest: class_of_SomeD(3,4))
next
  case (large len)
  then show ?thesis by (auto simp: large_conf_def bshape_def hplf_realloc_can_retain_def)
qed

section \<open>The interface of an allocator\<close>

text \<open>
  \<open>inv env s A\<close> is the variant's invariant, with the ghost state \<open>A\<close> that names its slabs, large
  blocks and free blocks.  It determines the geometry of the arena, ignores \<open>errno\<close> and the payload
  bytes, and survives a new request size for a live block.  \<open>malloc\<close> and \<open>free\<close> are defined on every
  argument the interface allows: none of the undefined cases of the model occurs.
\<close>

locale allocator =
  fixes inv :: "os_env \<Rightarrow> 'a world_scheme \<Rightarrow> heap_abs \<Rightarrow> bool"
    and malloc :: "os_env \<Rightarrow> size_t \<Rightarrow> 'a world_scheme \<Rightarrow> (addr \<times> 'a world_scheme) option"
    and free :: "os_env \<Rightarrow> addr \<Rightarrow> 'a world_scheme \<Rightarrow> 'a world_scheme option"
  assumes inv_arena: "inv env s A \<Longrightarrow> arena_ok env s (abs_slabs A) (abs_large A)"
    and inv_live: "inv env s A \<Longrightarrow> p \<in> live_blocks s A \<Longrightarrow> live_ok s p"
    and inv_frame: "inv env s A \<Longrightarrow>
      objects_same (abs_slabs A) (abs_large A) s (s\<lparr>blocks := B, slab_objs := S, bytes := Y\<rparr>) \<Longrightarrow>
      inv env (s\<lparr>blocks := B, slab_objs := S, bytes := Y\<rparr>) A"
    and inv_errno: "inv env s A \<Longrightarrow> inv env (s\<lparr>errno := e\<rparr>) A"
    and inv_resize: "inv env s A \<Longrightarrow> p \<in> live_blocks s A \<Longrightarrow> blocks s p = Some b \<Longrightarrow>
      sz \<noteq> 0 \<Longrightarrow> sz \<le> capacity b \<Longrightarrow>
      inv env (s\<lparr>blocks := (blocks s)(p \<mapsto> b\<lparr>requested_size := sz\<rparr>)\<rparr>) A"
    and malloc_contract: "os_ok env \<Longrightarrow> inv env s A \<Longrightarrow>
      \<exists>r s' A'. malloc env sz s = Some (r, s') \<and> inv env s' A' \<and>
        (r = NULL \<and> (sz \<noteq> 0 \<longrightarrow> errno s' \<noteq> 0) \<and> refused s A s' A' \<or>
         sz \<noteq> 0 \<and> sz \<le> PTRDIFF_MAX \<and> (\<exists>p. r = p + 48 \<and> granted p sz s A s' A'))"
    and free_contract: "os_ok env \<Longrightarrow> inv env s A \<Longrightarrow> p \<in> live_blocks s A \<Longrightarrow>
      \<exists>s' A'. free env (p + 48) s = Some s' \<and> inv env s' A' \<and> released p s A s' A'"
    and free_null: "free env NULL s = Some s"
begin

lemma live_payload:
  assumes "os_ok env" and "inv env s A" and "p \<in> live_blocks s A"
  shows "p + 48 \<noteq> NULL" and "hplf_block_from_payload (p + 48) = p" and "16 dvd unat (p + 48)"
    and "48 + request s p \<le> extent s p" and "unat (p + 48) = unat p + 48" and "mapped s (p + 48) (request s p)"
proof -
  note ar = inv_arena [OF assms(2)] and p = live_in_arena [OF assms(3)]
  note a = payload_address [OF assms(1) ar p]
  from a show "p + 48 \<noteq> NULL" "16 dvd unat (p + 48)" "unat (p + 48) = unat p + 48" by auto
  then show "hplf_block_from_payload (p + 48) = p" by (simp add: hplf_block_from_payload_eq)
  show r: "48 + request s p \<le> extent s p"
    by (rule live_request(1) [OF assms(1) ar p inv_live [OF assms(2,3)]])
  show "mapped s (p + 48) (request s p)"
    by (rule payload_write(1) [OF assms(1) ar p]) (use r a in simp_all)
qed

text \<open>Payloads of distinct live blocks are disjoint.\<close>

lemma live_disjoint:
  assumes "os_ok env" and "inv env s A" and "p \<in> live_blocks s A" and "q \<in> live_blocks s A" and "p \<noteq> q"
  shows "disjoint_ranges (p + 48) (request s p) (q + 48) (request s q)"
proof -
  have "disjoint_ranges p (extent s p) q (extent s q)"
    using assms inv_arena by (blast intro: extents_disjoint live_in_arena)
  moreover have "subrange (x + 48) (request s x) x (extent s x)" if "x \<in> live_blocks s A" for x
    using live_payload [OF assms(1,2) that] by (simp add: subrange_def)
  ultimately show ?thesis using assms(3,4) by (blast intro: disjoint_subrange)
qed

text \<open>Stores into the payload of a live block.\<close>

lemma payload_store:
  assumes ok: "os_ok env" and i: "inv env s A" and p: "p \<in> live_blocks s A"
    and w: "unat p + 48 \<le> unat x" "unat x + n \<le> unat p + extent s p"
    and Y: "\<And>q. \<not> in_range x n q \<Longrightarrow> Y q = bytes s q"
  defines "t \<equiv> clobber x n s\<lparr>bytes := Y\<rparr>"
  shows "inv env t A" and "live_blocks t A = live_blocks s A" and "blocks t p = blocks s p"
    and "kept (live_blocks s A - {p}) s t"
proof -
  note ar = inv_arena [OF i] and pa = live_in_arena [OF p]
  note pw = payload_write [OF ok ar pa w]
  have t: "t = s\<lparr>blocks := blocks (clobber x n s), slab_objs := slab_objs (clobber x n s), bytes := Y\<rparr>"
    by (simp add: t_def clobber_def)
  have same: "objects_same (abs_slabs A) (abs_large A) s t"
    using pw(2) by (simp add: t objects_same_def)
  with i show "inv env t A" unfolding t by (rule inv_frame)
  show "live_blocks t A = live_blocks s A"
    using arena_blocks_same [OF objects_same_arena [OF same]] by (simp add: live_blocks_def)
  show "blocks t p = blocks s p" using same pa by (simp add: objects_same_def)
  show "kept (live_blocks s A - {p}) s t"
  proof (rule keptI)
    fix q assume "q \<in> live_blocks s A - {p}"
    then show "blocks t q = blocks s q" using same by (simp add: objects_same_def live_in_arena)
  next
    show "bytes_kept (live_blocks s A - {p}) s t"
      unfolding bytes_kept_def
    proof (intro ballI allI impI)
      fix q y assume "q \<in> live_blocks s A - {p}" and y: "in_range q (extent s q) y"
      then have "disjoint_ranges x n q (extent s q)" using pw(3) by (simp add: live_in_arena)
      with y have "\<not> in_range x n y" by (meson in_range_disjoint)
      with Y show "bytes t y = bytes s y" by (simp add: t_def)
    qed
  qed
qed

lemma granted_store:
  assumes ok: "os_ok env" and i: "inv env s1 A1" and g: "granted p sz s A s1 A1" and n: "48 + n \<le> extent s1 p"
    and Y: "\<And>q. \<not> in_range (p + 48) n q \<Longrightarrow> Y q = bytes s1 q"
  defines "t \<equiv> clobber (p + 48) n s1\<lparr>bytes := Y\<rparr>"
  shows "inv env t A1" and "granted p sz s A t A1"
proof -
  have p: "p \<in> live_blocks s1 A1" using g by (simp add: granted_def)
  have "unat p + 48 \<le> unat (p + 48)" "unat (p + 48) + n \<le> unat p + extent s1 p"
    using n live_payload(5) [OF ok i p] by simp_all
  note st = payload_store [OF ok i p this Y, folded t_def]
  show "inv env t A1" using st(1) by simp
  have "live_blocks s A \<subseteq> live_blocks s1 A1 - {p}" using g by (auto simp: granted_def)
  with st(4) have "kept (live_blocks s A) s1 t" by (auto intro: kept_mono)
  with g have "kept (live_blocks s A) s t" by (auto simp: granted_def intro: kept_trans)
  with g st(2,3) show "granted p sz s A t A1" by (simp add: granted_def)
qed

lemma granted_request: "granted p sz s A s' A' \<Longrightarrow> request s' p = unat sz"
  by (auto simp: granted_def request_def)

lemma calloc_contract:
  assumes ok: "os_ok env" and i: "inv env s A"
  shows "\<exists>r s' A'. hplf_calloc_with (malloc env) c n s = Some (r, s') \<and> inv env s' A' \<and>
    (r = NULL \<and> (c \<noteq> 0 \<and> n \<noteq> 0 \<longrightarrow> errno s' \<noteq> 0) \<and> refused s A s' A' \<or>
     unat c * unat n < SIZE_BOUND \<and> (\<exists>p. r = p + 48 \<and> granted p (c * n) s A s' A' \<and>
       (\<forall>j < unat c * unat n. payload_byte s' p j = Some 0)))"
proof (cases "c = 0 \<or> n = 0 \<or> \<not> unat c * unat n < SIZE_BOUND")
  case True
  have "refused s A s A" "refused s A (s\<lparr>errno := ENOMEM\<rparr>) A"
    by (auto simp: refused_def live_blocks_def arena_blocks_def small_blocks_def slots_of_def sshape_def)
  with True i inv_errno [OF i, of ENOMEM] show ?thesis
    by (auto simp: hplf_calloc_with_def hplf_size_multiply_eq ENOMEM_def)
next
  case False
  then have nz: "c \<noteq> 0" "n \<noteq> 0" and lt: "unat c * unat n < SIZE_BOUND" by auto
  then have mul: "checked (hplf_size_multiply c n (Some 0)) = Some (c * n)" by (simp add: hplf_size_multiply_eq)
  have u: "unat (c * n) = unat c * unat n" using lt by (rule unat_mult_noverflow)
  from malloc_contract [OF ok i, of "c * n"] obtain r s1 A1 where m: "malloc env (c * n) s = Some (r, s1)"
    "inv env s1 A1" "r = NULL \<and> (c * n \<noteq> 0 \<longrightarrow> errno s1 \<noteq> 0) \<and> refused s A s1 A1 \<or>
      (\<exists>p. r = p + 48 \<and> granted p (c * n) s A s1 A1)" by blast
  from m(3) show ?thesis
  proof (elim disjE exE conjE)
    assume "r = NULL" "c * n \<noteq> 0 \<longrightarrow> errno s1 \<noteq> 0" "refused s A s1 A1"
    moreover have "c * n \<noteq> 0" using u nz by (auto simp: size_t_eq_0_iff)
    ultimately show ?thesis using m nz mul by (auto simp: hplf_calloc_with_def)
  next
    fix p assume r: "r = p + 48" and g: "granted p (c * n) s A s1 A1"
    then have p: "p \<in> live_blocks s1 A1" by (simp add: granted_def)
    note lp = live_payload [OF ok m(2) p] and rq = granted_request [OF g]
    let ?n = "unat (c * n)" and ?Y = "\<lambda>q. if in_range (p + 48) (unat (c * n)) q then Some 0 else bytes s1 q"
    have n: "48 + ?n \<le> extent s1 p" using lp(4) rq by simp
    note st = granted_store [OF ok m(2) g n, of ?Y]
    have "mem_set (p + 48) 0 ?n s1 = Some (clobber (p + 48) ?n s1\<lparr>bytes := ?Y\<rparr>)"
      using lp(6) rq by (simp add: mem_set_def)
    moreover have "in_range (p + 48) ?n (p + 48 + word_of_nat j)" if "j < unat c * unat n" for j
      using payload_index(3) [OF ok inv_arena [OF m(2)] live_in_arena [OF p], of j ?n] n that u by simp
    ultimately show ?thesis
      using m(1) nz mul r lp(1) st lt
      by (intro exI [of _ r] exI [of _ "clobber (p + 48) ?n s1\<lparr>bytes := ?Y\<rparr>"] exI [of _ A1])
        (auto simp: hplf_calloc_with_def payload_byte_def)
  qed
qed

text \<open>Growing or shrinking in place.\<close>

lemma realloc_retain:
  assumes ok: "os_ok env" and i: "inv env s A" and p: "p \<in> live_blocks s A" and sz: "sz \<noteq> 0" "sz \<le> capacity b"
    and b: "blocks s p = Some b"
  defines "t \<equiv> s\<lparr>blocks := (blocks s)(p \<mapsto> b\<lparr>requested_size := sz\<rparr>)\<rparr>"
  shows "inv env t A" and "resized p p sz s A t A"
proof -
  show "inv env t A" unfolding t_def using i p b sz by (rule inv_resize)
  have "live_blocks t A = live_blocks s A"
    by (simp add: t_def live_blocks_def arena_blocks_def small_blocks_def slots_of_def sshape_def)
  with p show "resized p p sz s A t A"
    by (auto simp: resized_def t_def kept_def payload_byte_def)
qed

text \<open>Moving: the replacement is filled from the old block, which is then released.\<close>

lemma copy_old:
  assumes ok: "os_ok env" and i: "inv env s A" and p: "p \<in> live_blocks s A"
    and i1: "inv env s1 A1" and g: "granted q sz s A s1 A1" and n: "n = min (request s p) (unat sz)"
  obtains t where "mem_copy (q + 48) (p + 48) n s1 = Some t" "inv env t A1" "granted q sz s A t A1"
    "\<And>j. j < n \<Longrightarrow> payload_byte t q j = payload_byte s p j"
proof -
  let ?Y = "\<lambda>x. if in_range (q + 48) n x then bytes s1 (p + 48 + (x - (q + 48))) else bytes s1 x"
  let ?t = "clobber (q + 48) n s1\<lparr>bytes := ?Y\<rparr>"
  have k: "kept (live_blocks s A) s s1" and l1: "live_blocks s1 A1 = insert q (live_blocks s A)" and qp: "q \<noteq> p"
    using g p by (auto simp: granted_def)
  have p1: "p \<in> live_blocks s1 A1" and q1: "q \<in> live_blocks s1 A1" using l1 p by auto
  note lq = live_payload [OF ok i1 q1] and lp = live_payload [OF ok i1 p1]
  have rq: "request s1 q = unat sz" and rp: "request s1 p = request s p"
    using granted_request [OF g] kept_request [OF k p] by auto
  have nq: "n \<le> request s1 q" and np: "n \<le> request s1 p" using n rq rp by auto
  have n48: "48 + n \<le> extent s1 q" "48 + n \<le> extent s1 p" using nq np lq(4) lp(4) by linarith+
  note st = granted_store [OF ok i1 g n48(1), of ?Y]
  have sub: "subrange (x + 48) n (x + 48) (request s1 x)" if "n \<le> request s1 x" for x
    using that by (simp add: subrange_def)
  have "mapped s1 (q + 48) n" "mapped s1 (p + 48) n"
    using lq(6) lp(6) sub [OF nq] sub [OF np] by (auto simp: mapped_iff intro: subrange_trans)
  moreover have "disjoint_ranges (q + 48) n (p + 48) n"
    using live_disjoint [OF ok i1 q1 p1 qp] sub [OF nq] sub [OF np] by (rule disjoint_subrange)
  ultimately have cp: "mem_copy (q + 48) (p + 48) n s1 = Some ?t" by (simp add: mem_copy_def)
  have "payload_byte ?t q j = payload_byte s p j" if j: "j < n" for j
  proof -
    have jq: "48 + j < extent s1 q" and jp: "48 + j < extent s p"
      using j n48 kept_extent [OF k p] by auto
    have "payload_byte s1 p j = payload_byte s p j"
      by (rule kept_payload [OF ok inv_arena [OF i] live_in_arena [OF p] jp k p])
    moreover have "in_range (q + 48) n (q + 48 + word_of_nat j)"
      using payload_index(3) [OF ok inv_arena [OF i1] live_in_arena [OF q1] jq n48(1)] j by simp
    ultimately show ?thesis by (simp add: payload_byte_def)
  qed
  with cp st that show ?thesis by auto
qed

lemma realloc_move:
  assumes ok: "os_ok env" and i: "inv env s A" and p: "p \<in> live_blocks s A"
    and i1: "inv env s1 A1" and g: "granted q sz s A s1 A1" and n: "n = min (request s p) (unat sz)"
  obtains t s2 A2 where "mem_copy (q + 48) (p + 48) n s1 = Some t" "free env (p + 48) t = Some s2"
    "inv env s2 A2" "resized p q sz s A s2 A2"
proof -
  from copy_old [OF assms] obtain t where t: "mem_copy (q + 48) (p + 48) n s1 = Some t" "inv env t A1"
    "granted q sz s A t A1" "\<And>j. j < n \<Longrightarrow> payload_byte t q j = payload_byte s p j" by blast
  have lt: "live_blocks t A1 = insert q (live_blocks s A)" and ql: "q \<notin> live_blocks s A"
    and k: "kept (live_blocks s A) s t" using t(3) by (auto simp: granted_def)
  with p have pt: "p \<in> live_blocks t A1" and qt: "q \<in> live_blocks t A1" and qp: "q \<noteq> p" by auto
  from free_contract [OF ok t(2) pt] obtain s2 A2 where f: "free env (p + 48) t = Some s2" "inv env s2 A2"
    "released p t A1 s2 A2" by blast
  then have k2: "kept (live_blocks t A1 - {p}) t s2" by (simp add: released_def)
  have "payload_byte s2 q j = payload_byte s p j" if j: "j < n" for j
  proof -
    have "48 + j < extent t q"
      using live_payload(4) [OF ok t(2) qt] granted_request [OF t(3)] n j by simp
    then have "payload_byte s2 q j = payload_byte t q j"
      using kept_payload [OF ok inv_arena [OF t(2)] live_in_arena [OF qt] _ k2] qt qp by simp
    with t(4) [OF j] show ?thesis by simp
  qed
  moreover have "kept (live_blocks s A - {p}) s s2"
    by (rule kept_trans [OF kept_mono [OF k] kept_mono [OF k2]]) (auto simp: lt)
  moreover have "blocks s2 q = blocks t q" using k2 qt qp by (simp add: kept_def)
  ultimately have "resized p q sz s A s2 A2"
    using f(3) t(3) ql qp by (auto simp: resized_def released_def granted_def n)
  with that t(1) f(1,2) show ?thesis by blast
qed

lemma realloc_contract:
  assumes ok: "os_ok env" and i: "inv env s A" and p: "p \<in> live_blocks s A" and sz: "sz \<noteq> 0"
  shows "\<exists>r s' A'. hplf_realloc_with (malloc env) (free env) (p + 48) sz s = Some (r, s') \<and> inv env s' A' \<and>
    (r = NULL \<and> errno s' \<noteq> 0 \<and> refused s A s' A' \<or> (\<exists>q. r = q + 48 \<and> resized p q sz s A s' A'))"
proof -
  let ?R = "hplf_realloc_with (malloc env) (free env) (p + 48) sz s"
  note lp = live_payload [OF ok i p]
  from can_retain_defined [OF inv_arena [OF i] live_in_arena [OF p], of sz] obtain rt b where
    rt: "hplf_realloc_can_retain p sz s = Some rt" "blocks s p = Some b" "rt \<longrightarrow> sz \<le> capacity b" by blast
  consider (big) "sz > PTRDIFF_MAX" | (keep) "\<not> sz > PTRDIFF_MAX" rt | (move) "\<not> sz > PTRDIFF_MAX" "\<not> rt"
    by blast
  then show ?thesis
  proof cases
    case big
    have "refused s A (s\<lparr>errno := ENOMEM\<rparr>) A"
      by (simp add: refused_def live_blocks_def arena_blocks_def small_blocks_def slots_of_def sshape_def)
    with big sz lp inv_errno [OF i, of ENOMEM] show ?thesis
      by (auto simp: hplf_realloc_with_def ENOMEM_def)
  next
    case keep
    with rt have "?R = Some (p + 48, s\<lparr>blocks := (blocks s)(p \<mapsto> b\<lparr>requested_size := sz\<rparr>)\<rparr>)"
      using sz lp by (simp add: hplf_realloc_with_def update_block_def)
    moreover have "sz \<le> capacity b" using keep rt by simp
    ultimately show ?thesis using realloc_retain [OF ok i p sz _ rt(2)] by blast
  next
    case move
    from malloc_contract [OF ok i, of sz] obtain r s1 A1 where m: "malloc env sz s = Some (r, s1)"
      "inv env s1 A1" "r = NULL \<and> (sz \<noteq> 0 \<longrightarrow> errno s1 \<noteq> 0) \<and> refused s A s1 A1 \<or>
        (\<exists>q. r = q + 48 \<and> granted q sz s A s1 A1)" by blast
    show ?thesis
    proof (cases "r = NULL \<and> (sz \<noteq> 0 \<longrightarrow> errno s1 \<noteq> 0) \<and> refused s A s1 A1")
      case True
      with m move sz rt lp show ?thesis by (auto simp: hplf_realloc_with_def)
    next
      case False
      with m(3) obtain q where q: "r = q + 48" "granted q sz s A s1 A1" by blast
      then have "q \<in> live_blocks s1 A1" by (simp add: granted_def)
      note lq = live_payload(1) [OF ok m(2) this]
      have "blocks s1 p = Some b" using q(2) p rt(2) by (simp add: granted_def kept_def)
      moreover have "min (request s p) (unat sz) = unat (if requested_size b < sz then requested_size b else sz)"
        using rt(2) by (simp add: request_def size_t_less_iff)
      moreover obtain t s2 A2 where "mem_copy (q + 48) (p + 48) (min (request s p) (unat sz)) s1 = Some t"
        "free env (p + 48) t = Some s2" "inv env s2 A2" "resized p q sz s A s2 A2"
        using realloc_move [OF ok i p m(2) q(2) refl] by blast
      ultimately show ?thesis using move sz rt lp lq q(1) m(1)
        by (intro exI [of _ r] exI [of _ s2] exI [of _ A2]) (auto simp: hplf_realloc_with_def Let_def)
    qed
  qed
qed

end

end
