(* ===== verification/Client.thy ===== *)
theory Client
  imports Allocator_Api
begin

text \<open>
  A client of the public interface.  It makes any sequence of calls, and of byte stores into the
  buffers it holds, and keeps for every pointer it got the size it asked for and the bytes it may
  rely on: what it stored, zeroes after \<open>hplf_calloc\<close>, the common prefix after \<open>hplf_realloc\<close>.
  Calls on a pointer that it does not hold are outside the contract of the interface and are
  skipped.  This table of separate buffers is the abstract specification of a heap; the theorem
  is that the concrete memory implements it, whatever the sequence and whichever system calls fail.
\<close>

datatype call =
  Malloc size_t
| Calloc size_t size_t
| Realloc addr size_t
| Free addr
| Store addr nat byte

type_synonym buffer = "nat \<times> (nat \<Rightarrow> byte option)"
type_synonym buffers = "addr \<Rightarrow> buffer option"

definition cut :: "nat \<Rightarrow> (nat \<Rightarrow> byte option) \<Rightarrow> nat \<Rightarrow> byte option" where
  "cut n c = (\<lambda>i. if i < n then c i else None)"

fun client_step ::
  "(size_t \<Rightarrow> 'a world_scheme \<Rightarrow> (addr \<times> 'a world_scheme) option) \<Rightarrow>
   (addr \<Rightarrow> 'a world_scheme \<Rightarrow> 'a world_scheme option) \<Rightarrow>
   call \<Rightarrow> 'a world_scheme \<times> buffers \<Rightarrow> ('a world_scheme \<times> buffers) option" where
  "client_step malloc free (Malloc n) (s, bufs) = do {
     (r, s) \<leftarrow> malloc n s;
     Some (s, if r = NULL then bufs else bufs(r \<mapsto> (unat n, \<lambda>i. None)))
   }"
| "client_step malloc free (Calloc c n) (s, bufs) = do {
     (r, s) \<leftarrow> hplf_calloc_with malloc c n s;
     Some (s, if r = NULL then bufs else bufs(r \<mapsto> (unat c * unat n, cut (unat c * unat n) (\<lambda>i. Some 0))))
   }"
| "client_step malloc free (Realloc r n) (s, bufs) = (case bufs r of
     None \<Rightarrow> Some (s, bufs)
   | Some (k, c) \<Rightarrow> do {
       (r', s) \<leftarrow> hplf_realloc_with malloc free r n s;
       Some (s, if n = 0 then bufs(r := None)
                else if r' = NULL then bufs
                else bufs(r := None, r' \<mapsto> (unat n, cut (min k (unat n)) c)))
     })"
| "client_step malloc free (Free r) (s, bufs) = (case bufs r of
     None \<Rightarrow> Some (s, bufs)
   | Some _ \<Rightarrow> do { s \<leftarrow> free r s; Some (s, bufs(r := None)) })"
| "client_step malloc free (Store r i v) (s, bufs) = (case bufs r of
     None \<Rightarrow> Some (s, bufs)
   | Some (k, c) \<Rightarrow>
       if i < k then do {
         s \<leftarrow> mem_set (r + word_of_nat i) v 1 s;
         Some (s, bufs(r \<mapsto> (k, c(i \<mapsto> v))))
       } else Some (s, bufs))"

fun client_run ::
  "(size_t \<Rightarrow> 'a world_scheme \<Rightarrow> (addr \<times> 'a world_scheme) option) \<Rightarrow>
   (addr \<Rightarrow> 'a world_scheme \<Rightarrow> 'a world_scheme option) \<Rightarrow>
   call list \<Rightarrow> 'a world_scheme \<times> buffers \<Rightarrow> ('a world_scheme \<times> buffers) option" where
  "client_run malloc free [] st = Some st"
| "client_run malloc free (c # cs) st = do {
     st \<leftarrow> client_step malloc free c st;
     client_run malloc free cs st
   }"

section \<open>The simulation relation\<close>

text \<open>A live block implements a buffer: it has its size, and its payload holds the known bytes.\<close>

definition implements :: "'a world_scheme \<Rightarrow> addr \<Rightarrow> buffer \<Rightarrow> bool" where
  "implements s p buf \<longleftrightarrow> request s p = fst buf \<and>
     (\<forall>i v. snd buf i = Some v \<longrightarrow> i < fst buf \<and> payload_byte s p i = Some v)"

definition buffers_ok :: "'a world_scheme \<Rightarrow> heap_abs \<Rightarrow> buffers \<Rightarrow> bool" where
  "buffers_ok s A bufs \<longleftrightarrow> (\<forall>r buf. bufs r = Some buf \<longrightarrow> r - 48 \<in> live_blocks s A \<and> implements s (r - 48) buf)"

text \<open>What a client can observe of its buffers.\<close>

definition buffers_sound :: "'a world_scheme \<Rightarrow> buffers \<Rightarrow> bool" where
  "buffers_sound s bufs \<longleftrightarrow> (\<forall>r n c. bufs r = Some (n, c) \<longrightarrow>
     r \<noteq> NULL \<and> 16 dvd unat r \<and> mapped s r n \<and> 0 < n \<and>
     (\<forall>i v. c i = Some v \<longrightarrow> bytes s (r + word_of_nat i) = Some v) \<and>
     (\<forall>r' n' c'. bufs r' = Some (n', c') \<longrightarrow> r' \<noteq> r \<longrightarrow> disjoint_ranges r n r' n'))"

lemma buffers_okD:
  "buffers_ok s A bufs \<Longrightarrow> bufs r = Some buf \<Longrightarrow> r - 48 \<in> live_blocks s A \<and> implements s (r - 48) buf"
  unfolding buffers_ok_def by blast

context allocator
begin

lemma implements_kept:
  assumes ok: "os_ok env" and i: "inv env s A" and p: "p \<in> live_blocks s A" and im: "implements s p buf"
    and k: "kept P s s'" and "p \<in> P"
  shows "implements s' p buf"
proof -
  note lp = live_payload [OF ok i p]
  have "payload_byte s' p j = payload_byte s p j" if "j < fst buf" for j
    using lp(4) im that assms(6)
    by (intro kept_payload [OF ok inv_arena [OF i] live_in_arena [OF p] _ k]) (auto simp: implements_def)
  with im kept_request [OF k assms(6)] show ?thesis by (auto simp: implements_def)
qed

lemma buffers_ok_kept:
  assumes ok: "os_ok env" and i: "inv env s A" and b: "buffers_ok s A bufs"
    and k: "kept P s s'" and dom: "\<And>r buf. bufs r = Some buf \<Longrightarrow> r - 48 \<in> P \<and> r - 48 \<in> live_blocks s' A'"
  shows "buffers_ok s' A' bufs"
  unfolding buffers_ok_def
  using implements_kept [OF ok i _ _ k] buffers_okD [OF b] dom by blast

lemma buffers_ok_granted:
  assumes ok: "os_ok env" and i: "inv env s A" and b: "buffers_ok s A bufs"
    and g: "granted p sz s A s' A'" and "implements s' p buf"
  shows "buffers_ok s' A' (bufs(p + 48 \<mapsto> buf))"
proof -
  have "kept (live_blocks s A) s s'" "live_blocks s' A' = insert p (live_blocks s A)"
    using g by (auto simp: granted_def)
  with buffers_ok_kept [OF ok i b] buffers_okD [OF b] have "buffers_ok s' A' bufs" by blast
  moreover have "p \<in> live_blocks s' A'" using g by (simp add: granted_def)
  ultimately show ?thesis using assms(5) by (auto simp: buffers_ok_def)
qed

lemma buffers_ok_refused:
  "os_ok env \<Longrightarrow> inv env s A \<Longrightarrow> buffers_ok s A bufs \<Longrightarrow> refused s A s' A' \<Longrightarrow> buffers_ok s' A' bufs"
  by (rule buffers_ok_kept [where P = "live_blocks s A"]) (auto simp: refused_def dest: buffers_okD)

lemma buffers_ok_released:
  assumes "os_ok env" and "inv env s A" and b: "buffers_ok s A bufs" and "released (r - 48) s A s' A'"
  shows "buffers_ok s' A' (bufs(r := None))"
proof -
  have b': "buffers_ok s A (bufs(r := None))" using b by (simp add: buffers_ok_def)
  note rel = assms(4) [unfolded released_def]
  have "x - 48 \<in> live_blocks s A - {r - 48} \<and> x - 48 \<in> live_blocks s' A'"
    if "(bufs(r := None)) x = Some buf" for x buf
    using that buffers_okD [OF b, of x buf] rel by (cases "x = r") auto
  with rel show ?thesis by (intro buffers_ok_kept [OF assms(1,2) b']) auto
qed

lemma live_nonnull: "os_ok env \<Longrightarrow> inv env s A \<Longrightarrow> r - 48 \<in> live_blocks s A \<Longrightarrow> r \<noteq> NULL"
  using live_payload(1) [of env s A "r - 48"] by simp

lemma step_malloc:
  assumes ok: "os_ok env" and i: "inv env s A" and b: "buffers_ok s A bufs"
  shows "\<exists>s' bufs' A'. client_step (malloc env) (free env) (Malloc n) (s, bufs) = Some (s', bufs') \<and>
    inv env s' A' \<and> buffers_ok s' A' bufs'"
proof -
  from malloc_contract [OF ok i, of n] obtain r s' A' where m: "malloc env n s = Some (r, s')" "inv env s' A'"
    "r = NULL \<and> refused s A s' A' \<or> (\<exists>p. r = p + 48 \<and> granted p n s A s' A')" by blast
  from m(3) show ?thesis
  proof (elim disjE exE conjE)
    assume "r = NULL" "refused s A s' A'"
    with m buffers_ok_refused [OF ok i b] show ?thesis by auto
  next
    fix p assume r: "r = p + 48" and g: "granted p n s A s' A'"
    then have "p + 48 \<noteq> NULL" using live_payload(1) [OF ok m(2), of p] by (simp add: granted_def)
    moreover have "implements s' p (unat n, \<lambda>i. None)" using granted_request [OF g] by (simp add: implements_def)
    ultimately show ?thesis using m r buffers_ok_granted [OF ok i b g] by auto
  qed
qed

lemma step_calloc:
  assumes ok: "os_ok env" and i: "inv env s A" and b: "buffers_ok s A bufs"
  shows "\<exists>s' bufs' A'. client_step (malloc env) (free env) (Calloc c n) (s, bufs) = Some (s', bufs') \<and>
    inv env s' A' \<and> buffers_ok s' A' bufs'"
proof -
  from calloc_contract [OF ok i, of c n] obtain r s' A' where
    m: "hplf_calloc_with (malloc env) c n s = Some (r, s')" "inv env s' A'"
    "r = NULL \<and> refused s A s' A' \<or> unat c * unat n < SIZE_BOUND \<and> (\<exists>p. r = p + 48 \<and>
       granted p (c * n) s A s' A' \<and> (\<forall>j < unat c * unat n. payload_byte s' p j = Some 0))" by blast
  from m(3) show ?thesis
  proof (elim disjE exE conjE)
    assume "r = NULL" "refused s A s' A'"
    with m buffers_ok_refused [OF ok i b] show ?thesis by auto
  next
    fix p assume lt: "unat c * unat n < SIZE_BOUND" and r: "r = p + 48" and g: "granted p (c * n) s A s' A'"
      and z: "\<forall>j < unat c * unat n. payload_byte s' p j = Some 0"
    then have "p + 48 \<noteq> NULL" using live_payload(1) [OF ok m(2), of p] by (simp add: granted_def)
    moreover have "implements s' p (unat c * unat n, cut (unat c * unat n) (\<lambda>i. Some 0))"
      using granted_request [OF g] z by (auto simp: implements_def cut_def unat_mult_noverflow [OF lt])
    ultimately show ?thesis using m r buffers_ok_granted [OF ok i b g] by auto
  qed
qed

lemma step_free:
  assumes ok: "os_ok env" and i: "inv env s A" and b: "buffers_ok s A bufs"
  shows "\<exists>s' bufs' A'. client_step (malloc env) (free env) (Free r) (s, bufs) = Some (s', bufs') \<and>
    inv env s' A' \<and> buffers_ok s' A' bufs'"
proof (cases "bufs r")
  case None
  with i b show ?thesis by auto
next
  case (Some buf)
  with buffers_okD [OF b] have "r - 48 \<in> live_blocks s A" by blast
  from free_contract [OF ok i this] obtain s' A' where f: "free env r s = Some s'" "inv env s' A'"
    "released (r - 48) s A s' A'" by auto
  with Some buffers_ok_released [OF ok i b f(3)] show ?thesis by auto
qed

lemma buffers_ok_resized:
  assumes ok: "os_ok env" and i: "inv env s A" and b: "buffers_ok s A bufs" and r: "bufs r = Some (k, c)"
    and rs: "resized (r - 48) q n s A s' A'"
  shows "buffers_ok s' A' (bufs(r := None, q + 48 \<mapsto> (unat n, cut (min k (unat n)) c)))"
proof -
  note d = rs [unfolded resized_def] and old = buffers_okD [OF b r]
  have b': "buffers_ok s A (bufs(r := None))" using b by (simp add: buffers_ok_def)
  have "x - 48 \<in> live_blocks s A - {r - 48} \<and> x - 48 \<in> live_blocks s' A'"
    if "(bufs(r := None)) x = Some buf" for x buf
    using that buffers_okD [OF b, of x buf] d by (cases "x = r") auto
  with d have "buffers_ok s' A' (bufs(r := None))" by (intro buffers_ok_kept [OF ok i b']) auto
  moreover have "implements s' q (unat n, cut (min k (unat n)) c)"
    using d old by (auto simp: implements_def cut_def request_def)
  moreover have "q \<in> live_blocks s' A'" using d by auto
  ultimately show ?thesis by (simp add: buffers_ok_def)
qed

lemma step_realloc:
  assumes ok: "os_ok env" and i: "inv env s A" and b: "buffers_ok s A bufs"
  shows "\<exists>s' bufs' A'. client_step (malloc env) (free env) (Realloc r n) (s, bufs) = Some (s', bufs') \<and>
    inv env s' A' \<and> buffers_ok s' A' bufs'"
proof (cases "bufs r")
  case None
  with i b show ?thesis by auto
next
  case (Some buf)
  obtain k c where buf: "bufs r = Some (k, c)" using Some by (cases buf) auto
  with buffers_okD [OF b] have l: "r - 48 \<in> live_blocks s A" by blast
  show ?thesis
  proof (cases "n = 0")
    case True
    from free_contract [OF ok i l] obtain s' A' where f: "free env r s = Some s'" "inv env s' A'"
      "released (r - 48) s A s' A'" by auto
    with buf True live_nonnull [OF ok i l] buffers_ok_released [OF ok i b f(3)] show ?thesis
      by (auto simp: hplf_realloc_with_def)
  next
    case False
    from realloc_contract [OF ok i l False] obtain r' s' A' where
      m: "hplf_realloc_with (malloc env) (free env) r n s = Some (r', s')" "inv env s' A'"
      "r' = NULL \<and> refused s A s' A' \<or> (\<exists>q. r' = q + 48 \<and> resized (r - 48) q n s A s' A')" by auto
    from m(3) show ?thesis
    proof (elim disjE exE conjE)
      assume "r' = NULL" "refused s A s' A'"
      with m buf False buffers_ok_refused [OF ok i b] show ?thesis by auto
    next
      fix q assume q: "r' = q + 48" and rs: "resized (r - 48) q n s A s' A'"
      then have "q + 48 \<noteq> NULL" using live_payload(1) [OF ok m(2), of q] by (auto simp: resized_def)
      with m q buf False buffers_ok_resized [OF ok i b buf rs] show ?thesis by auto
    qed
  qed
qed

lemma store_byte:
  fixes v :: byte
  assumes ok: "os_ok env" and i: "inv env s A" and p: "p \<in> live_blocks s A" and j: "j < request s p"
  defines "t \<equiv> clobber (p + 48 + word_of_nat j) 1 s\<lparr>bytes := (\<lambda>q. if in_range (p + 48 + word_of_nat j) 1 q
    then Some v else bytes s q)\<rparr>"
  shows "mem_set (p + 48 + word_of_nat j) v 1 s = Some t" and "inv env t A"
    and "live_blocks t A = live_blocks s A" and "kept (live_blocks s A - {p}) s t" and "request t p = request s p"
    and "\<And>l. l < request s p \<Longrightarrow> payload_byte t p l = (if l = j then Some v else payload_byte s p l)"
proof -
  let ?x = "p + 48 + word_of_nat j"
  note ar = inv_arena [OF i] and pa = live_in_arena [OF p] and lp = live_payload [OF ok i p]
  have idx: "unat (p + 48 + word_of_nat l) = unat p + 48 + l" if "l < request s p" for l
    using payload_index(1) [OF ok ar pa, of l] that lp(4) by simp
  then have w: "unat p + 48 \<le> unat ?x" "unat ?x + 1 \<le> unat p + extent s p"
    using j lp(4) by auto
  show "mem_set ?x v 1 s = Some t"
    using payload_write(1) [OF ok ar pa w] by (simp add: mem_set_def t_def)
  note st = payload_store [OF ok i p w, of "\<lambda>q. if in_range ?x 1 q then Some v else bytes s q", folded t_def]
  then show "inv env t A" "live_blocks t A = live_blocks s A" "kept (live_blocks s A - {p}) s t" by simp_all
  show "request t p = request s p" using st(3) by (simp add: request_def)
  fix l assume "l < request s p"
  then have "in_range ?x 1 (p + 48 + word_of_nat l) \<longleftrightarrow> l = j" using idx j by (auto simp: in_range_def)
  then show "payload_byte t p l = (if l = j then Some v else payload_byte s p l)"
    by (auto simp: payload_byte_def t_def)
qed

lemma step_store:
  assumes ok: "os_ok env" and i: "inv env s A" and b: "buffers_ok s A bufs"
  shows "\<exists>s' bufs' A'. client_step (malloc env) (free env) (Store r j v) (s, bufs) = Some (s', bufs') \<and>
    inv env s' A' \<and> buffers_ok s' A' bufs'"
proof (cases "\<exists>k c. bufs r = Some (k, c) \<and> j < k")
  case False
  then have "client_step (malloc env) (free env) (Store r j v) (s, bufs) = Some (s, bufs)"
    by (auto split: option.splits)
  with i b show ?thesis by blast
next
  case True
  then obtain k c where r: "bufs r = Some (k, c)" "j < k" by blast
  let ?p = "r - 48"
  from buffers_okD [OF b r(1)] have p: "?p \<in> live_blocks s A" and im: "implements s ?p (k, c)" by auto
  then have k: "request s ?p = k" by (simp add: implements_def)
  with r(2) have j: "j < request s ?p" by simp
  note sb = store_byte [where v = v, OF ok i p j]
  define t where "t = clobber (?p + 48 + word_of_nat j) 1 s\<lparr>bytes := (\<lambda>q. if in_range (?p + 48 + word_of_nat j) 1 q
    then Some v else bytes s q)\<rparr>"
  note sb = sb [folded t_def]
  have b': "buffers_ok s A (bufs(r := None))" using b by (simp add: buffers_ok_def)
  have "x - 48 \<in> live_blocks s A - {r - 48} \<and> x - 48 \<in> live_blocks t A"
    if "(bufs(r := None)) x = Some buf" for x buf
    using that buffers_okD [OF b, of x buf] sb(3) by (cases "x = r") auto
  then have "buffers_ok t A (bufs(r := None))" by (rule buffers_ok_kept [OF ok i b' sb(4)])
  moreover have "implements t ?p (k, c(j \<mapsto> v))"
    using sb(5,6) im k r(2) by (auto simp: implements_def)
  ultimately have "buffers_ok t A (bufs(r \<mapsto> (k, c(j \<mapsto> v))))"
    using p sb(3) by (auto simp: buffers_ok_def split: if_splits)
  with sb(1,2) r show ?thesis by auto
qed

lemma client_step_ok:
  assumes "os_ok env" and "inv env s A" and "buffers_ok s A bufs"
  shows "\<exists>s' bufs' A'. client_step (malloc env) (free env) c (s, bufs) = Some (s', bufs') \<and>
    inv env s' A' \<and> buffers_ok s' A' bufs'"
  using step_malloc [OF assms] step_calloc [OF assms] step_realloc [OF assms] step_free [OF assms]
    step_store [OF assms]
  by (cases c) blast+

lemma buffers_ok_sound:
  assumes ok: "os_ok env" and i: "inv env s A" and b: "buffers_ok s A bufs"
  shows "buffers_sound s bufs"
  unfolding buffers_sound_def
proof (intro allI impI conjI)
  fix r n c assume r: "bufs r = Some (n, c)"
  let ?p = "r - 48"
  from buffers_okD [OF b r] have p: "?p \<in> live_blocks s A" and im: "implements s ?p (n, c)" by auto
  then have n: "request s ?p = n" by (simp add: implements_def)
  note lp = live_payload [OF ok i p]
  show "r \<noteq> NULL" "16 dvd unat r" "mapped s r n" using lp n by auto
  show "0 < n"
    using live_request(2) [OF ok inv_arena [OF i] live_in_arena [OF p] inv_live [OF i p]] n by simp
  show "bytes s (r + word_of_nat j) = Some v" if "c j = Some v" for j v
    using im that by (auto simp: implements_def payload_byte_def)
  show "disjoint_ranges r n r' n'" if r': "bufs r' = Some (n', c')" "r' \<noteq> r" for r' n' c'
  proof -
    from buffers_okD [OF b r'(1)] have "r' - 48 \<in> live_blocks s A" "request s (r' - 48) = n'"
      by (auto simp: implements_def)
    with live_disjoint [OF ok i p, of "r' - 48"] r'(2) n show ?thesis by simp
  qed
qed

theorem client_run_ok:
  assumes "os_ok env" and "inv env s A" and "buffers_ok s A bufs"
  shows "\<exists>s' bufs' A'. client_run (malloc env) (free env) cs (s, bufs) = Some (s', bufs') \<and>
    inv env s' A' \<and> buffers_ok s' A' bufs' \<and> buffers_sound s' bufs'"
  using assms(2,3)
proof (induction cs arbitrary: s A bufs)
  case Nil
  then show ?case using buffers_ok_sound [OF assms(1)] by auto
next
  case (Cons c cs)
  from client_step_ok [OF assms(1) Cons.prems, of c] obtain s1 bufs1 A1 where
    "client_step (malloc env) (free env) c (s, bufs) = Some (s1, bufs1)" "inv env s1 A1" "buffers_ok s1 A1 bufs1"
    by blast
  with Cons.IH [of s1 A1 bufs1] show ?case by auto
qed

end

end
