(* ===== verification/Public_View.thy ===== *)
theory Public_View
  imports Client
begin

text \<open>
  The contracts of the public interface as a caller reads them: in terms of the pointer returned,
  the set of live blocks, the bytes of the payload and \<open>errno\<close>.  They hold for every variant that
  keeps the contract of the locale \<open>allocator\<close>.
\<close>

text \<open>The prefix of a block: the member of the union \<open>owner\<close> that is stored is the one \<open>kind\<close> announces.\<close>

definition prefix_typed :: "'a world_scheme \<Rightarrow> addr \<Rightarrow> hplf_block \<Rightarrow> bool" where
  "prefix_typed s p b \<longleftrightarrow> requested_size b \<noteq> 0 \<and> requested_size b \<le> capacity b \<and>
     (case kind b of
        HPLF_BLOCK_SMALL \<Rightarrow> (\<exists>slab d. owner_small (owner b) = Some slab \<and> slab_objs s slab = Some d \<and>
          unat (class_index d) < 16 \<and> capacity b = size_class_capacities ! unat (class_index d))
      | HPLF_BLOCK_LARGE \<Rightarrow> (\<exists>len. owner_large (owner b) = Some (p, len) \<and> (p, len) \<in> set (mappings s) \<and>
          capacity b = len - 48))"

context allocator
begin

lemma live_typed:
  assumes "inv env s A" and "p \<in> live_blocks s A"
  shows "\<exists>b. blocks s p = Some b \<and> prefix_typed s p b"
proof -
  from inv_live [OF assms] obtain b where b: "blocks s p = Some b" "requested_size b \<noteq> 0" "requested_size b \<le> capacity b"
    by (auto simp: live_ok_def)
  from inv_arena [OF assms(1)] live_in_arena [OF assms(2)] show ?thesis
  proof (cases rule: arena_block_cases)
    case (small a d k)
    then have "owner b = OwnerSmall a" "capacity b = class_capacity d" "kind b = HPLF_BLOCK_SMALL"
      using b(1) by (auto simp: slab_conf_def bshape_def)
    moreover obtain d' where "slab_objs s a = Some d'" "class_index d' = class_index d"
      using small(2) by (auto simp: slab_conf_def sshape_def)
    moreover have "unat (class_index d) < 16" "class_capacity d = size_class_capacities ! unat (class_index d)"
      using small(2) by (auto simp: slab_conf_def slab_ok_def)
    ultimately show ?thesis using b by (auto simp: prefix_typed_def)
  next
    case (large len)
    with b show ?thesis by (auto simp: prefix_typed_def large_conf_def bshape_def)
  qed
qed

lemma granted_view:
  assumes ok: "os_ok env" and i: "inv env s' A'" and g: "granted p sz s A s' A'" and r: "r = p + 48"
  shows "r \<noteq> NULL" and "r - 48 \<notin> live_blocks s A" and "live_blocks s' A' = insert (r - 48) (live_blocks s A)"
    and "request s' (r - 48) = unat sz" and "16 dvd unat r" and "mapped s' r (unat sz)" and "kept (live_blocks s A) s s'"
    and "\<forall>q. q \<in> live_blocks s A \<longrightarrow> disjoint_ranges r (unat sz) (q + 48) (request s' q)"
proof -
  have p: "p \<in> live_blocks s' A'" using g by (simp add: granted_def)
  note lp = live_payload [OF ok i p] and rq = granted_request [OF g]
  show "r \<noteq> NULL" "16 dvd unat r" "mapped s' r (unat sz)" using lp rq r by simp_all
  show "r - 48 \<notin> live_blocks s A" "live_blocks s' A' = insert (r - 48) (live_blocks s A)"
    "request s' (r - 48) = unat sz" "kept (live_blocks s A) s s'"
    using g rq r by (simp_all add: granted_def)
  show "\<forall>q. q \<in> live_blocks s A \<longrightarrow> disjoint_ranges r (unat sz) (q + 48) (request s' q)"
    using live_disjoint [OF ok i p] g r rq by (auto simp: granted_def)
qed

lemma calloc_view:
  assumes ok: "os_ok env" and i: "inv env s A"
  shows "\<exists>r s' A'. hplf_calloc_with (malloc env) c n s = Some (r, s') \<and> inv env s' A' \<and> kept (live_blocks s A) s s' \<and>
    (c \<noteq> 0 \<and> n \<noteq> 0 \<and> unat c * unat n < SIZE_BOUND \<longrightarrow> (\<exists>s1. malloc env (c * n) s = Some (r, s1))) \<and>
    (if r = NULL then live_blocks s' A' = live_blocks s A \<and> (c = 0 \<or> n = 0 \<or> errno s' \<noteq> 0)
     else unat c * unat n < SIZE_BOUND \<and> r - 48 \<notin> live_blocks s A \<and>
       live_blocks s' A' = insert (r - 48) (live_blocks s A) \<and> request s' (r - 48) = unat c * unat n \<and>
       (\<forall>j. j < unat c * unat n \<longrightarrow> bytes s' (r + word_of_nat j) = Some 0))"
proof -
  from calloc_contract [OF assms, of c n] obtain r s' A' where
    m: "hplf_calloc_with (malloc env) c n s = Some (r, s')" "inv env s' A'"
    "r = NULL \<and> (c \<noteq> 0 \<and> n \<noteq> 0 \<longrightarrow> errno s' \<noteq> 0) \<and> refused s A s' A' \<or>
     unat c * unat n < SIZE_BOUND \<and> (\<exists>p. r = p + 48 \<and> granted p (c * n) s A s' A' \<and>
       (\<forall>j < unat c * unat n. payload_byte s' p j = Some 0))" by blast
  have ptr: "\<exists>s1. malloc env (c * n) s = Some (r, s1)" if "c \<noteq> 0 \<and> n \<noteq> 0 \<and> unat c * unat n < SIZE_BOUND"
    using m(1) that by (auto simp: hplf_calloc_with_def hplf_size_multiply_eq bind_eq_Some_conv split: if_splits)
  from m(3) show ?thesis
  proof (elim disjE exE conjE)
    assume "r = NULL" "c \<noteq> 0 \<and> n \<noteq> 0 \<longrightarrow> errno s' \<noteq> 0" "refused s A s' A'"
    with m(1,2) ptr show ?thesis by (intro exI [of _ r] exI [of _ s'] exI [of _ A']) (auto simp: refused_def)
  next
    fix p assume lt: "unat c * unat n < SIZE_BOUND" and r: "r = p + 48" and g: "granted p (c * n) s A s' A'"
      and z: "\<forall>j < unat c * unat n. payload_byte s' p j = Some 0"
    note v = granted_view [OF ok m(2) g r]
    from z r have "\<forall>j. j < unat c * unat n \<longrightarrow> bytes s' (r + word_of_nat j) = Some 0" by (simp add: payload_byte_def)
    with m(1,2) lt ptr v unat_mult_noverflow [OF lt] show ?thesis
      by (intro exI [of _ r] exI [of _ s'] exI [of _ A']) simp
  qed
qed

lemma realloc_view:
  assumes ok: "os_ok env" and i: "inv env s A" and p: "p \<in> live_blocks s A" and sz: "sz \<noteq> 0"
  shows "\<exists>r s' A'. hplf_realloc_with (malloc env) (free env) (p + 48) sz s = Some (r, s') \<and> inv env s' A' \<and>
    kept (live_blocks s A - {p}) s s' \<and>
    (if r = NULL then errno s' \<noteq> 0 \<and> live_blocks s' A' = live_blocks s A \<and> kept {p} s s' \<and>
       (sz > PTRDIFF_MAX \<or> (\<exists>s1. malloc env sz s = Some (NULL, s1)))
     else r - 48 \<in> live_blocks s' A' \<and> r - 48 \<notin> live_blocks s A - {p} \<and> request s' (r - 48) = unat sz \<and>
       live_blocks s A - {p} \<subseteq> live_blocks s' A' \<and>
       (\<forall>j. j < min (request s p) (unat sz) \<longrightarrow>
          bytes s' (r + word_of_nat j) = bytes s (p + 48 + word_of_nat j)))"
proof -
  from realloc_contract [OF assms] obtain r s' A' where
    m: "hplf_realloc_with (malloc env) (free env) (p + 48) sz s = Some (r, s')" "inv env s' A'"
    "r = NULL \<and> errno s' \<noteq> 0 \<and> refused s A s' A' \<or> (\<exists>q. r = q + 48 \<and> resized p q sz s A s' A')" by blast
  from m(3) show ?thesis
  proof (elim disjE exE conjE)
    assume r: "r = NULL" "errno s' \<noteq> 0" and ref: "refused s A s' A'"
    moreover have "kept (live_blocks s A - {p}) s s'" "kept {p} s s'"
      using ref p by (auto simp: refused_def intro: kept_mono)
    moreover have "sz > PTRDIFF_MAX \<or> (\<exists>s1. malloc env sz s = Some (NULL, s1))"
      using m(1) r(1) sz live_payload(1) [OF ok i p]
      by (auto simp: hplf_realloc_with_def Let_def bind_eq_Some_conv split: if_splits)
    ultimately show ?thesis using m(1,2)
      by (intro exI [of _ r] exI [of _ s'] exI [of _ A']) (auto simp: refused_def)
  next
    fix q assume r: "r = q + 48" and rs: "resized p q sz s A s' A'"
    then have q: "q \<in> live_blocks s' A'" by (auto simp: resized_def)
    have "r \<noteq> NULL" using live_payload(1) [OF ok m(2) q] r by simp
    moreover have "request s' q = unat sz" using rs by (auto simp: resized_def request_def)
    ultimately show ?thesis using m(1,2) r rs q
      by (intro exI [of _ r] exI [of _ s'] exI [of _ A']) (auto simp: resized_def payload_byte_def)
  qed
qed

end

end
