(* ===== verification/Trim.thy ===== *)
theory Trim
  imports Allocator_Large
begin

text \<open>
  \<open>hplf_trim_quiescent\<close> and its helpers in \<open>src/allocator.c\<close>: walking the slab registry, finding the
  slabs whose every slot is free, unlinking and unmapping them.  The walk works on an array of
  free-list heads and on the registry head, which both variants provide.  The loops follow links in
  memory and end only on null-terminated chains: they are partial functions, \<open>None\<close> covering the run
  that never ends, and the lemmas show that they return.
\<close>

section \<open>Definitions\<close>

partial_function (option) slab_free_count_loop ::
  "'a world_scheme \<Rightarrow> addr \<Rightarrow> addr \<Rightarrow> size_t \<Rightarrow> size_t option" where
  "slab_free_count_loop s slab block count =
     (if block = NULL then Some count
      else do {
        b \<leftarrow> blocks s block;
        o' \<leftarrow> owner_small (owner b);
        slab_free_count_loop s slab (next_free b) (if o' = slab then count + 1 else count)
      })"

definition hplf_slab_free_count :: "addr \<Rightarrow> addr list \<Rightarrow> 'a world_scheme \<Rightarrow> size_t option" where
  "hplf_slab_free_count slab free_lists s = do {
     d \<leftarrow> slab_objs s slab;
     block \<leftarrow> array_read free_lists (class_index d);
     slab_free_count_loop s slab block 0
   }"

partial_function (option) detach_loop ::
  "addr \<Rightarrow> addr \<Rightarrow> addr \<Rightarrow> addr \<Rightarrow> 'a world_scheme \<Rightarrow> (addr \<times> addr \<times> 'a world_scheme) option" where
  "detach_loop slab block removed remaining s =
     (if block = NULL then Some (removed, remaining, s)
      else do {
        b \<leftarrow> blocks s block;
        o' \<leftarrow> owner_small (owner b);
        s \<leftarrow> set_next_free block (if o' = slab then removed else remaining) s;
        detach_loop slab (next_free b) (if o' = slab then block else removed)
          (if o' = slab then remaining else block) s
      })"

definition hplf_detach_slab_blocks ::
  "addr \<Rightarrow> addr list \<Rightarrow> 'a world_scheme \<Rightarrow> (addr \<times> addr \<times> 'a world_scheme) option" where
  "hplf_detach_slab_blocks slab free_lists s = do {
     d \<leftarrow> slab_objs s slab;
     block \<leftarrow> array_read free_lists (class_index d);
     detach_loop slab block NULL NULL s
   }"

partial_function (option) find_tail :: "'a world_scheme \<Rightarrow> addr \<Rightarrow> addr option" where
  "find_tail s tail' = do {
     b \<leftarrow> blocks s tail';
     if next_free b \<noteq> NULL then find_tail s (next_free b) else Some tail'
   }"

definition hplf_join_free_lists ::
  "addr \<Rightarrow> addr \<Rightarrow> 'a world_scheme \<Rightarrow> (addr \<times> 'a world_scheme) option" where
  "hplf_join_free_lists first second s =
     (if first = NULL then Some (second, s)
      else do {
        tail' \<leftarrow> find_tail s first;
        s \<leftarrow> set_next_free tail' second s;
        Some (first, s)
      })"

text \<open>
  \<open>registry_link\<close> is the address of a link: of the registry head or of some slab's \<open>next\<close>.
\<close>

datatype registry_ref = RegistryHead | NextOf addr

fun load_ref :: "registry_ref \<Rightarrow> addr \<Rightarrow> 'a world_scheme \<Rightarrow> addr option" where
  "load_ref RegistryHead head s = Some head"
| "load_ref (NextOf a) head s = slab_link s a"

fun store_ref :: "registry_ref \<Rightarrow> addr \<Rightarrow> addr \<Rightarrow> 'a world_scheme \<Rightarrow> (addr \<times> 'a world_scheme) option" where
  "store_ref RegistryHead v head s = Some (v, s)"
| "store_ref (NextOf a) v head s = do { s \<leftarrow> set_slab_next a v s; Some (head, s) }"

text \<open>The body of the loop for a slab that is entirely free; the flag says that it was unmapped.\<close>

definition trim_slab ::
  "os_env \<Rightarrow> registry_ref \<Rightarrow> addr \<Rightarrow> size_t \<Rightarrow> addr \<Rightarrow> addr list \<Rightarrow> 'a world_scheme \<Rightarrow>
   (bool \<times> size_t \<times> addr \<times> addr list \<times> 'a world_scheme) option" where
  "trim_slab env ref slab released_total head free_lists s = do {
     d \<leftarrow> slab_objs s slab;
     let next = slab_next d;
     let ci = class_index d;
     (removed, remaining, s) \<leftarrow> hplf_detach_slab_blocks slab free_lists s;
     free_lists \<leftarrow> array_write free_lists ci remaining;
     (head, s) \<leftarrow> store_ref ref next head s;
     (ok, _, released_bytes, s) \<leftarrow> hplf_os_unmap env
       (Some \<lparr>map_base = mapping_base d, map_length = mapping_length d\<rparr>) (Some 0) s;
     (case (ok, released_bytes) of
        (True, Some released_bytes) \<Rightarrow>
          Some (True, case checked (hplf_size_add released_total released_bytes (Some 0)) of
                        Some new_total \<Rightarrow> new_total | None \<Rightarrow> SIZE_MAX,
                head, free_lists, s)
      | _ \<Rightarrow> do {
          (joined, s) \<leftarrow> hplf_join_free_lists removed remaining s;
          free_lists \<leftarrow> array_write free_lists ci joined;
          s \<leftarrow> set_slab_next slab next s;
          (head, s) \<leftarrow> store_ref ref slab head s;
          Some (False, released_total, head, free_lists, s)
        })
   }"

partial_function (option) trim_loop ::
  "os_env \<Rightarrow> registry_ref \<Rightarrow> size_t \<Rightarrow> addr \<Rightarrow> addr list \<Rightarrow> 'a world_scheme \<Rightarrow>
   (size_t \<times> addr \<times> addr list \<times> 'a world_scheme) option" where
  "trim_loop env ref released_total head free_lists s = do {
     slab \<leftarrow> load_ref ref head s;
     if slab = NULL then Some (released_total, head, free_lists, s)
     else do {
       d \<leftarrow> slab_objs s slab;
       n \<leftarrow> hplf_slab_free_count slab free_lists s;
       if n \<noteq> slot_count d then trim_loop env (NextOf slab) released_total head free_lists s
       else do {
         (unmapped, released_total, head, free_lists, s) \<leftarrow>
           trim_slab env ref slab released_total head free_lists s;
         trim_loop env (if unmapped then ref else NextOf slab) released_total head free_lists s
       }
     }
   }"

section \<open>The list helpers\<close>

definition slab_of :: "'a world_scheme \<Rightarrow> addr \<Rightarrow> addr option" where
  "slab_of s p = (case bshape s p of Some (OwnerSmall a, _, _) \<Rightarrow> Some a | _ \<Rightarrow> None)"

lemma slab_of_block: "slab_of s p = Some a \<Longrightarrow> \<exists>b. blocks s p = Some b \<and> owner_small (owner b) = Some a"
  by (auto simp: slab_of_def bshape_def split: option.splits hplf_owner.splits)

lemma slab_of_relinked: "relinked X s s' \<Longrightarrow> slab_of s' = slab_of s"
  by (simp add: relinked_def slab_of_def fun_eq_iff)

lemma free_count_loop:
  assumes "chain (block_next s) p xs" and "\<forall>x \<in> set xs. slab_of s x \<noteq> None"
  shows "slab_free_count_loop s a p n =
    Some (n + word_of_nat (length (filter (\<lambda>x. slab_of s x = Some a) xs)))"
  using assms
proof (induction xs arbitrary: p n)
  case Nil
  then show ?case by (subst slab_free_count_loop.simps) simp
next
  case (Cons x xs)
  then obtain o' where o': "slab_of s x = Some o'" by auto
  then obtain b where b: "blocks s x = Some b" "owner_small (owner b) = Some o'" using slab_of_block by blast
  with Cons.prems have "chain (block_next s) (next_free b) xs" "p = x" "x \<noteq> NULL"
    by (auto simp: block_next_Some)
  with Cons.IH [of "next_free b"] Cons.prems(2) b o' show ?case
    by (subst slab_free_count_loop.simps) (simp add: algebra_simps)
qed

lemma detach_loop_spec:
  assumes "chain (block_next s) p xs" and "chain (block_next s) r rs" and "chain (block_next s) m ms"
    and "set xs \<inter> set rs = {}" and "set xs \<inter> set ms = {}" and "set rs \<inter> set ms = {}"
    and "\<forall>x \<in> set xs. slab_of s x \<noteq> None"
  shows "\<exists>r' m' s'. detach_loop a p r m s = Some (r', m', s') \<and> relinked (set xs) s s' \<and>
    chain (block_next s') r' (rev (filter (\<lambda>x. slab_of s x = Some a) xs) @ rs) \<and>
    chain (block_next s') m' (rev (filter (\<lambda>x. slab_of s x \<noteq> Some a) xs) @ ms)"
  using assms
proof (induction xs arbitrary: p r m rs ms s)
  case Nil
  then show ?case by (subst detach_loop.simps) auto
next
  case (Cons x xs)
  then obtain o' where o': "slab_of s x = Some o'" by auto
  then obtain b where b: "blocks s x = Some b" "owner_small (owner b) = Some o'" using slab_of_block by blast
  let ?own = "o' = a"
  from set_next_defined [OF b(1), of "if ?own then r else m"] obtain s1 where
    s1: "set_next_free x (if ?own then r else m) s = Some s1"
      "block_next s1 = (block_next s)(x \<mapsto> if ?own then r else m)" by blast
  note rl = set_next_relinked [OF s1(1)]
  have x: "p = x" "x \<noteq> NULL" "chain (block_next s) (next_free b) xs"
    using Cons.prems(1) b by (auto simp: block_next_Some)
  have dist: "distinct (x # xs)" by (rule chain_distinct [OF Cons.prems(1)])
  let ?rs = "if ?own then x # rs else rs" and ?ms = "if ?own then ms else x # ms"
  have "\<exists>r' m' s'. detach_loop a (next_free b) (if ?own then x else r) (if ?own then m else x) s1 = Some (r', m', s') \<and>
    relinked (set xs) s1 s' \<and>
    chain (block_next s') r' (rev (filter (\<lambda>x. slab_of s1 x = Some a) xs) @ ?rs) \<and>
    chain (block_next s') m' (rev (filter (\<lambda>x. slab_of s1 x \<noteq> Some a) xs) @ ?ms)"
  proof (rule Cons.IH)
    show "chain (block_next s1) (next_free b) xs" using x dist by (simp add: s1)
    show "chain (block_next s1) (if ?own then x else r) ?rs" "chain (block_next s1) (if ?own then m else x) ?ms"
      using Cons.prems x by (auto simp: s1)
    show "set xs \<inter> set ?rs = {}" "set xs \<inter> set ?ms = {}" "set ?rs \<inter> set ?ms = {}"
      using Cons.prems dist by auto
    show "\<forall>x \<in> set xs. slab_of s1 x \<noteq> None" using Cons.prems(7) slab_of_relinked [OF rl] by simp
  qed
  then obtain r' m' s' where res: "detach_loop a (next_free b) (if ?own then x else r) (if ?own then m else x) s1 = Some (r', m', s')"
    "relinked (set xs) s1 s'" "chain (block_next s') r' (rev (filter (\<lambda>x. slab_of s x = Some a) xs) @ ?rs)"
    "chain (block_next s') m' (rev (filter (\<lambda>x. slab_of s x \<noteq> Some a) xs) @ ?ms)"
    using slab_of_relinked [OF rl] by auto
  have "detach_loop a p r m s = Some (r', m', s')"
    using res(1) s1(1) b x by (subst detach_loop.simps) (auto split: if_splits)
  moreover have "relinked (set (x # xs)) s s'" by (rule relinked_trans [OF rl res(2)]) auto
  ultimately show ?case using res(3,4) o' by auto
qed

lemma find_tail_spec: "chain (block_next s) p (xs @ [l]) \<Longrightarrow> find_tail s p = Some l"
proof (induction xs arbitrary: p)
  case Nil
  then show ?case by (subst find_tail.simps) (auto simp: block_next_def)
next
  case (Cons x xs)
  then obtain b where b: "blocks s p = Some b" "p = x" "chain (block_next s) (next_free b) (xs @ [l])"
    by (auto simp: block_next_Some)
  moreover from b(3) have "next_free b \<noteq> NULL" by (cases xs) auto
  ultimately show ?case using Cons.IH by (subst find_tail.simps) simp
qed

lemma join_free_lists_spec:
  assumes "chain (block_next s) p xs" and "chain (block_next s) q ys" and "set xs \<inter> set ys = {}"
  shows "\<exists>r s'. hplf_join_free_lists p q s = Some (r, s') \<and> chain (block_next s') r (xs @ ys) \<and>
    relinked (set xs) s s'"
proof (cases xs rule: rev_cases)
  case Nil
  with assms show ?thesis by (simp add: hplf_join_free_lists_def)
next
  case (snoc zs l)
  then have "l \<notin> set ys" using assms(3) by auto
  from block_list.splice_front [OF assms(1) [unfolded snoc] assms(2) this] obtain s' where
    s': "set_next_free l q s = Some s'" "chain (block_next s') p (zs @ l # ys)" by blast
  have "find_tail s p = Some l" using assms(1) snoc by (intro find_tail_spec) simp
  moreover have "p \<noteq> NULL" using assms(1) snoc by (cases zs) auto
  moreover have "relinked (set xs) s s'"
    by (rule relinked_trans [OF set_next_relinked [OF s'(1)] relinked_refl]) (auto simp: snoc)
  ultimately show ?thesis using s' snoc by (simp add: hplf_join_free_lists_def)
qed

section \<open>Free lists of a slab\<close>

lemma slab_of_class:
  assumes "arena_ok env s ss L" and "in_class s ss i p"
  obtains a where "a \<in> set ss" "slab_of s p = Some a"
proof -
  from assms obtain a d where "a \<in> set ss" "slab_conf env s a d" "unat (class_index d) = i"
    "bshape s p = Some (OwnerSmall a, class_capacity d, HPLF_BLOCK_SMALL)" by (rule in_class_owner)
  then show ?thesis by (intro that) (simp_all add: slab_of_def)
qed

lemma slab_of_slots: "slab_conf env s a d \<Longrightarrow> p \<in> set (slab_slots a d) \<Longrightarrow> slab_of s p = Some a"
  by (auto simp: in_slab_slots slab_of_def slab_conf_def)

lemma slab_of_slot:
  assumes "arena_ok env s ss L" and "in_class s ss i p" and "slab_conf env s a d"
  shows "slab_of s p = Some a \<longleftrightarrow> p \<in> set (slab_slots a d)"
proof
  assume o: "slab_of s p = Some a"
  from assms(1,2) obtain a' d' k where a': "slab_conf env s a' d'" "k < unat (slot_count d')" "p = slot_at a' d' k"
    by (rule in_class_slot)
  then have "slab_of s p = Some a'" by (simp add: slab_of_def slab_conf_def)
  with o have "a' = a" by simp
  with a' assms(3) have "d' = d" by (simp add: slab_conf_def)
  with a' \<open>a' = a\<close> show "p \<in> set (slab_slots a d)" by (auto simp: in_slab_slots)
next
  assume "p \<in> set (slab_slots a d)"
  with assms(3) show "slab_of s p = Some a" by (rule slab_of_slots)
qed

text \<open>A slab is free when every slot of it is in the free list of its class.\<close>

definition slab_free :: "heap_abs \<Rightarrow> addr \<Rightarrow> hplf_slab \<Rightarrow> bool" where
  "slab_free A a d \<longleftrightarrow> set (slab_slots a d) \<subseteq> free_blocks (abs_free A)"

lemma slots_in_class:
  "a \<in> set ss \<Longrightarrow> slab_conf env s a d \<Longrightarrow> p \<in> set (slab_slots a d) \<Longrightarrow> in_class s ss (unat (class_index d)) p"
  by (auto simp: in_class_def slab_conf_def)

lemma slab_free_iff:
  assumes "arena_ok env s (abs_slabs A) L" and "free_ok s (abs_slabs A) heads (abs_free A)"
    and "a \<in> set (abs_slabs A)" and "slab_conf env s a d"
  shows "slab_free A a d \<longleftrightarrow> set (slab_slots a d) \<subseteq> set (abs_free A ! unat (class_index d))"
proof -
  have ci: "unat (class_index d) < 16" using assms(4) by (simp add: slab_conf_def slab_ok_def)
  have len: "length (abs_free A) = 16" using assms(2) by (simp add: free_ok_def)
  have "p \<in> set (abs_free A ! unat (class_index d))"
    if p: "p \<in> set (slab_slots a d)" and f: "p \<in> free_blocks (abs_free A)" for p
  proof -
    from f len obtain j where j: "j < 16" "p \<in> set (abs_free A ! j)" by (auto simp: free_blocks_iff)
    with free_okD(2) [OF assms(2)] have "in_class s (abs_slabs A) j p" by blast
    then have "j = unat (class_index d)"
      using in_class_unique [OF assms(1)] slots_in_class [OF assms(3,4) p] by blast
    with j show ?thesis by simp
  qed
  moreover have "set (abs_free A ! unat (class_index d)) \<subseteq> free_blocks (abs_free A)"
    using ci len by (auto simp: free_blocks_iff)
  ultimately show ?thesis unfolding slab_free_def by blast
qed

lemma free_count_spec:
  assumes ok: "os_ok env" and h: "heap_lists env s heads A" and a: "a \<in> set (abs_slabs A)"
    and d: "slab_conf env s a d"
  shows "\<exists>n. hplf_slab_free_count a heads s = Some n \<and> (n = slot_count d \<longleftrightarrow> slab_free A a d)"
proof -
  have ar: "arena_ok env s (abs_slabs A) (abs_large A)"
    and fr: "free_ok s (abs_slabs A) heads (abs_free A)" using h by (auto simp: heap_lists_def)
  have ci: "unat (class_index d) < 16" using d by (simp add: slab_conf_def slab_ok_def)
  let ?F = "abs_free A ! unat (class_index d)"
  let ?own = "filter (\<lambda>x. slab_of s x = Some a) ?F"
  note F = free_okD [OF fr ci]
  from d obtain d' where d': "slab_objs s a = Some d'" "class_index d' = class_index d"
    by (auto simp: slab_conf_def sshape_def)
  have "\<forall>x \<in> set ?F. slab_of s x \<noteq> None"
    using F(2) slab_of_class [OF ar] by (metis option.distinct(1))
  then have cnt: "hplf_slab_free_count a heads s = Some (word_of_nat (length ?own))"
    using d' F(1) ci fr free_count_loop [of s _ ?F a 0]
    by (simp add: hplf_slab_free_count_def free_ok_def)
  have own: "set ?own = set ?F \<inter> set (slab_slots a d)"
    using F(2) slab_of_slot [OF ar _ d] by auto
  have "card (set ?own) = length ?own" using F(3) by (intro distinct_card) simp
  moreover have slots: "card (set (slab_slots a d)) = unat (slot_count d)"
    using slab_slots_distinct [OF ok, of a d] d distinct_card by (fastforce simp: slab_conf_def slab_slots_def)
  moreover have "card (set ?own) \<le> card (set (slab_slots a d))" unfolding own by (intro card_mono) auto
  ultimately have le: "length ?own \<le> unat (slot_count d)" by linarith
  then have "length ?own < SIZE_BOUND" using unat_lt_2p64 [of "slot_count d"] by linarith
  then have "word_of_nat (length ?own) = slot_count d \<longleftrightarrow> card (set ?own) = card (set (slab_slots a d))"
    using slots \<open>card (set ?own) = length ?own\<close>
    by (simp add: unat_inj_iff [symmetric] unat_word_of_nat)
  also have "\<dots> \<longleftrightarrow> set ?own = set (slab_slots a d)"
    by (metis List.finite_set card_subset_eq inf_le2 own)
  also have "\<dots> \<longleftrightarrow> slab_free A a d" unfolding slab_free_iff [OF ar fr a d] own by blast
  finally show ?thesis using cnt by blast
qed

text \<open>
  The weaker relation that also allows registry links to change: what a pass over the lists does to
  the heap.
\<close>

definition lists_changed :: "addr set \<Rightarrow> 'a world_scheme \<Rightarrow> 'a world_scheme \<Rightarrow> bool" where
  "lists_changed X s s' \<longleftrightarrow> (\<forall>p. p \<notin> X \<longrightarrow> blocks s' p = blocks s p) \<and> bshape s' = bshape s \<and>
     sshape s' = sshape s \<and> mappings s' = mappings s \<and> bytes s' = bytes s \<and> world.more s' = world.more s"

lemma lists_changed_trans: "lists_changed X s s' \<Longrightarrow> lists_changed X s' s'' \<Longrightarrow> lists_changed X s s''"
  by (simp add: lists_changed_def)

lemma relinked_lists: "relinked X s s' \<Longrightarrow> X \<subseteq> Y \<Longrightarrow> lists_changed Y s s'"
  by (auto simp: relinked_def lists_changed_def sshape_def fun_eq_iff)

lemma same_memory_lists: "same_memory s s' \<Longrightarrow> lists_changed X s s'"
  by (simp add: same_memory_def lists_changed_def bshape_def sshape_def fun_eq_iff)

lemma lists_changed_kept:
  assumes "lists_changed X s s'" and "X \<inter> P = {}" shows "kept P s s'"
  using assms by (auto simp: lists_changed_def kept_def)

text \<open>Reordering one free list.\<close>

lemma heap_relist:
  assumes h: "heap_lists env s heads A" and i: "i < 16" and rl: "lists_changed (set (abs_free A ! i)) s s'"
    and ch: "chain (block_next s') hd' ys" and ys: "set ys = set (abs_free A ! i)"
  defines "A' \<equiv> A\<lparr>abs_free := (abs_free A)[i := ys]\<rparr>"
  shows "heap_lists env s' (heads[i := hd']) A'" and "live_blocks s' A' = live_blocks s A"
proof -
  let ?ss = "abs_slabs A" and ?L = "abs_large A" and ?F = "abs_free A"
  have ar: "arena_ok env s ?ss ?L" and fr: "free_ok s ?ss heads ?F" using h by (auto simp: heap_lists_def)
  have len: "length heads = 16" "length ?F = 16" using fr by (auto simp: free_ok_def)
  note r = rl [unfolded lists_changed_def]
  have as: "arena_same ?ss ?L s s'" using r by (simp add: arena_same_def)
  have sub: "set (?F ! i) \<subseteq> free_blocks ?F" using i len by (auto simp: free_blocks_iff)
  then have fb: "free_blocks (?F[i := ys]) = free_blocks ?F"
    using free_blocks_update [OF ar fr i] ys by auto
  then show lv: "live_blocks s' A' = live_blocks s A"
    by (simp add: live_blocks_def A'_def arena_blocks_same [OF as])
  have "chain (block_next s') (heads[i := hd'] ! j) (?F[i := ys] ! j)" if j: "j < 16" for j
  proof (cases "j = i")
    case True
    then show ?thesis using ch i len by simp
  next
    case False
    have "x \<notin> set (?F ! i)" if "x \<in> set (?F ! j)" for x
      using free_lists_disjoint [OF ar fr i j _ that] False by auto
    then have "chain (block_next s') (heads ! j) (?F ! j) \<longleftrightarrow> chain (block_next s) (heads ! j) (?F ! j)"
      using r by (intro chain_cong) (simp add: block_next_def)
    with False free_okD(1) [OF fr j] show ?thesis by simp
  qed
  moreover have "in_class s' ?ss j q" if "j < 16" "q \<in> set (?F[i := ys] ! j)" for j q
    using that free_okD(2) [OF fr, of j q] ys i len in_class_same [OF as]
    by (auto simp: nth_list_update split: if_splits)
  ultimately have "free_ok s' ?ss (heads[i := hd']) (?F[i := ys])" using len by (simp add: free_ok_def)
  moreover have "arena_ok env s' ?ss ?L" using ar as r by (auto intro: arena_ok_cong)
  ultimately show "heap_lists env s' (heads[i := hd']) A'" by (simp add: heap_lists_def A'_def)
qed

text \<open>Forgetting a slab that is free.\<close>

lemma heap_drop_slab:
  assumes h: "heap_lists env s heads A" and ss: "abs_slabs A = pre @ a # post" and d: "slab_conf env s a d"
    and free: "slab_free A a d" and rl: "lists_changed (set (abs_free A ! unat (class_index d))) s s'"
    and ch: "chain (block_next s') m ys"
    and ys: "set ys = set (abs_free A ! unat (class_index d)) - set (slab_slots a d)"
  defines "A' \<equiv> A\<lparr>abs_slabs := pre @ post, abs_free := (abs_free A)[unat (class_index d) := ys]\<rparr>"
  shows "heap_lists env s' (heads[unat (class_index d) := m]) A'" and "live_blocks s' A' = live_blocks s A"
proof -
  let ?ss = "abs_slabs A" and ?L = "abs_large A" and ?F = "abs_free A" and ?i = "unat (class_index d)"
  have ar: "arena_ok env s ?ss ?L" and fr: "free_ok s ?ss heads ?F" using h by (auto simp: heap_lists_def)
  have i: "?i < 16" using d by (simp add: slab_conf_def slab_ok_def)
  have len: "length heads = 16" "length ?F = 16" using fr by (auto simp: free_ok_def)
  have aa: "a \<in> set ?ss" "a \<notin> set (pre @ post)" using ar ss by (auto simp: arena_ok_def)
  note r = rl [unfolded lists_changed_def]
  have as: "arena_same ?ss ?L s s'" using r by (simp add: arena_same_def)
  have sub: "set (?F ! ?i) \<subseteq> free_blocks ?F" using i len by (auto simp: free_blocks_iff)
  have sl: "set (slab_slots a d) \<subseteq> set (?F ! ?i)" using free slab_free_iff [OF ar fr aa(1) d] by simp
  have small: "small_blocks s ?ss = set (slab_slots a d) \<union> small_blocks s (pre @ post)"
    using slots_of_conf [OF d] ss by (auto simp: small_blocks_def)
  have fb: "free_blocks (?F[?i := ys]) = free_blocks ?F - set (slab_slots a d)"
    using free_blocks_update [OF ar fr i] ys sl sub by auto
  have "small_blocks s' (pre @ post) = small_blocks s (pre @ post)"
    using as ss by (auto simp: small_blocks_def arena_same_def slots_of_def)
  moreover have "set (slab_slots a d) \<inter> small_blocks s (pre @ post) = {}"
  proof (safe)
    fix p assume p: "p \<in> set (slab_slots a d)" "p \<in> small_blocks s (pre @ post)"
    then obtain a' where a': "a' \<in> set (pre @ post)" "p \<in> set (slots_of s a')" by (auto simp: small_blocks_def)
    then have "a' \<in> set ?ss" using ss by auto
    with ar obtain d' where d': "slab_conf env s a' d'" unfolding arena_ok_def by blast
    have "slab_of s p = Some a" "slab_of s p = Some a'"
      using slab_of_slots [OF d p(1)] slab_of_slots [OF d'] a'(2) slots_of_conf [OF d'] by simp_all
    with aa(2) a'(1) show "p \<in> {}" by simp
  qed
  moreover have "set (slab_slots a d) \<inter> ?L = {}"
  proof (safe)
    fix p assume p: "p \<in> set (slab_slots a d)" "p \<in> ?L"
    then obtain l where "large_conf s p l" using ar by (auto simp: arena_ok_def)
    with p(1) d show "p \<in> {}" by (auto simp: large_conf_def slab_conf_def in_slab_slots)
  qed
  ultimately show lv: "live_blocks s' A' = live_blocks s A"
    using sl sub by (auto simp: live_blocks_def A'_def arena_blocks_def fb small)
  have cls: "in_class s' (pre @ post) j q" if j: "j < 16" and q: "q \<in> set (?F[?i := ys] ! j)" for j q
  proof -
    have qF: "q \<in> set (?F ! j)" and nq: "q \<notin> set (slab_slots a d)"
      using q j i len ys sl free_lists_disjoint [OF ar fr i j, of q]
      by (auto simp: nth_list_update split: if_splits)
    from free_okD(2) [OF fr j qF] have c: "in_class s ?ss j q" .
    with nq slab_of_slot [OF ar c d] d have "in_class s (pre @ post) j q"
      unfolding in_class_def ss by (auto simp: slab_conf_def)
    with as ss show ?thesis by (auto simp: in_class_def arena_same_def)
  qed
  have "chain (block_next s') (heads[?i := m] ! j) (?F[?i := ys] ! j)" if j: "j < 16" for j
  proof (cases "j = ?i")
    case True
    then show ?thesis using ch i len by simp
  next
    case False
    have "x \<notin> set (?F ! ?i)" if "x \<in> set (?F ! j)" for x
      using free_lists_disjoint [OF ar fr i j _ that] False by auto
    then have "chain (block_next s') (heads ! j) (?F ! j) \<longleftrightarrow> chain (block_next s) (heads ! j) (?F ! j)"
      using r by (intro chain_cong) (simp add: block_next_def)
    with False free_okD(1) [OF fr j] show ?thesis by simp
  qed
  with cls have "free_ok s' (pre @ post) (heads[?i := m]) (?F[?i := ys])" using len by (simp add: free_ok_def)
  moreover have "arena_ok env s' ?ss ?L" using ar as r by (auto intro: arena_ok_cong)
  then have "arena_ok env s' (pre @ post) ?L" unfolding ss by (auto simp: arena_ok_def)
  ultimately show "heap_lists env s' (heads[?i := m]) A'" by (simp add: heap_lists_def A'_def)
qed

text \<open>Unmapping a range that the heap does not use.\<close>

lemma heap_unmap:
  assumes ok: "os_ok env" and h: "heap_lists env s heads A" and b: "(b, l) \<in> set (mappings s)"
    and nb: "b \<notin> set (abs_slabs A)" "b \<notin> abs_large A" and un: "range_unmapped b l s s'"
  shows "heap_lists env s' heads A" and "live_blocks s' A = live_blocks s A"
    and "objects_same (abs_slabs A) (abs_large A) s s'" and "kept (live_blocks s A) s s'"
proof -
  let ?ss = "abs_slabs A" and ?L = "abs_large A" and ?F = "abs_free A"
  have ar: "arena_ok env s ?ss ?L" and fr: "free_ok s ?ss heads ?F" using h by (auto simp: heap_lists_def)
  have "distinct ?ss" and maps: "maps_ok env (mappings s)" using ar by (auto simp: arena_ok_def)
  with arena_remove [OF ok ar un b, of ?ss ?L] nb
  have new: "objects_same ?ss ?L s s'" "arena_ok env s' ?ss ?L" by auto
  show "objects_same ?ss ?L s s'" by (rule new(1))
  have as: "arena_same ?ss ?L s s'" by (rule objects_same_arena [OF new(1)])
  show lv: "live_blocks s' A = live_blocks s A"
    by (simp add: live_blocks_def arena_blocks_same [OF as])
  have fsub: "free_blocks ?F \<subseteq> arena_blocks s ?ss ?L"
    using free_is_small [OF ar fr] by (auto simp: arena_blocks_def)
  then have "free_ok s' ?ss heads ?F"
    using new(1) by (intro free_ok_blocks_same [OF ar fr as]) (auto simp: objects_same_def block_next_def)
  moreover have bl: "blocks s' q = blocks s q" if "q \<in> live_blocks s A" for q
    using new(1) that by (simp add: objects_same_def live_blocks_def)
  ultimately show "heap_lists env s' heads A" using new(2) by (simp add: heap_lists_def)
  have "bytes_kept (live_blocks s A) s s'"
  proof (rule bytes_kept_outside)
    show "outside_same b (unat l) s s'" using un by (auto simp: range_unmapped_def intro: range_gone_outside)
    fix q assume "q \<in> live_blocks s A"
    then have "q \<in> arena_blocks s ?ss ?L" by (simp add: live_blocks_def)
    with ok ar obtain b' l' where "(b', l') \<in> set (mappings s)" "subrange q (extent s q) b' (unat l')"
      "b' \<noteq> b" using nb by (elim block_base) auto
    then show "disjoint_ranges b (unat l) q (extent s q)"
      using distinct_homes_disjoint [OF maps b, of b' l'] by auto
  qed
  with bl show "kept (live_blocks s A) s s'" by (simp add: keptI)
qed

section \<open>The registry walk\<close>

definition walk_ref :: "addr list \<Rightarrow> registry_ref" where
  "walk_ref pre = (if pre = [] then RegistryHead else NextOf (last pre))"

lemma walk_ref_snoc [simp]: "walk_ref (pre @ [a]) = NextOf a"
  by (simp add: walk_ref_def)

lemma load_walk_ref:
  assumes "chain (slab_link s) head (pre @ post)"
  shows "load_ref (walk_ref pre) head s = Some (case post of [] \<Rightarrow> NULL | a # _ \<Rightarrow> a)"
proof (cases pre rule: rev_cases)
  case Nil
  with assms show ?thesis by (cases post) (auto simp: walk_ref_def)
next
  case (snoc xs x)
  with chain_suffix_unique [of "slab_link s" head xs x post] assms show ?thesis by simp
qed

text \<open>Only the registry links of the slabs in \<open>X\<close> changed.\<close>

definition slabs_relinked :: "addr set \<Rightarrow> 'a world_scheme \<Rightarrow> 'a world_scheme \<Rightarrow> bool" where
  "slabs_relinked X s s' \<longleftrightarrow> (\<forall>a. a \<notin> X \<longrightarrow> slab_objs s' a = slab_objs s a) \<and> sshape s' = sshape s \<and>
     blocks s' = blocks s \<and> mappings s' = mappings s \<and> bytes s' = bytes s \<and> world.more s' = world.more s"

lemma slabs_relinked_refl [simp]: "slabs_relinked X s s"
  by (simp add: slabs_relinked_def)

lemma slabs_relinked_trans:
  "slabs_relinked X s s' \<Longrightarrow> slabs_relinked Y s' s'' \<Longrightarrow> X \<union> Y \<subseteq> Z \<Longrightarrow> slabs_relinked Z s s''"
  unfolding slabs_relinked_def by (metis UnI1 UnI2 subsetD)

lemma set_slab_next_relinked: "set_slab_next a v s = Some s' \<Longrightarrow> slabs_relinked {a} s s'"
  by (auto simp: set_slab_next_def update_slab_def slabs_relinked_def sshape_def fun_eq_iff split: option.splits)

lemma store_walk_ref:
  assumes "chain (slab_link s) head (pre @ old)" and "chain (slab_link s) v new" and "set pre \<inter> set new = {}"
  shows "\<exists>head' s'. store_ref (walk_ref pre) v head s = Some (head', s') \<and>
    chain (slab_link s') head' (pre @ new) \<and> slabs_relinked (set pre) s s'"
proof (cases pre rule: rev_cases)
  case Nil
  with assms show ?thesis by (simp add: walk_ref_def)
next
  case (snoc xs x)
  have c: "chain (slab_link s) head (xs @ x # old)" using assms(1) snoc by simp
  have x: "x \<notin> set new" using assms(3) snoc by auto
  have "slab_link s x \<noteq> None" using chain_nodes [OF c, of x] by simp
  then obtain s' where s': "set_slab_next x v s = Some s'" using slab_list.set_link_defined by blast
  note l = slab_list.set_link_link [OF s']
  have "distinct (xs @ x # old)" by (rule chain_distinct [OF c])
  with c x assms(2) have "chain (slab_link s') head (xs @ x # new)" by (auto simp: l chain_append)
  moreover have "slabs_relinked (set pre) s s'"
    by (rule slabs_relinked_trans [OF set_slab_next_relinked [OF s'] slabs_relinked_refl]) (auto simp: snoc)
  ultimately show ?thesis using s' snoc by (simp add: walk_ref_def)
qed

lemma slabs_relinked_heap:
  assumes "slabs_relinked X s s'"
  shows "heap_lists env s' heads A = heap_lists env s heads A" and "live_blocks s' A = live_blocks s A"
    and "kept P s s'" and "block_next s' = block_next s" and "slab_conf env s' a d = slab_conf env s a d"
proof -
  note r = assms [unfolded slabs_relinked_def]
  have 1: "heap_same s s' A" and 2: "heap_same s' s A" using r by (auto simp: heap_same_def)
  show "heap_lists env s' heads A = heap_lists env s heads A"
    using heap_same_lists(1) [OF _ 1] heap_same_lists(1) [OF _ 2] by blast
  show "live_blocks s' A = live_blocks s A"
    using r by (simp add: live_blocks_def arena_blocks_def small_blocks_def slots_of_def)
  show "kept P s s'" using r by simp
  show "block_next s' = block_next s" using r by (simp add: block_next_def fun_eq_iff)
  show "slab_conf env s' a d = slab_conf env s a d" using r by (simp add: slab_conf_def bshape_def)
qed

lemma slabs_relinked_lists: "slabs_relinked Y s s' \<Longrightarrow> lists_changed X s s'"
  by (simp add: slabs_relinked_def lists_changed_def bshape_def fun_eq_iff)

lemma slab_header:
  assumes "slab_conf env s a d"
  obtains d' where "slab_objs s a = Some d'" "class_index d' = class_index d" "mapping_base d' = a"
    "mapping_length d' = mapping_length d" "slot_count d' = slot_count d"
  using assms by (auto simp: slab_conf_def sshape_def slab_ok_def intro: that)

text \<open>Splitting the free list of a free slab's class.\<close>

lemma detach_slab_spec:
  assumes ok: "os_ok env" and h: "heap_lists env s heads A" and a: "a \<in> set (abs_slabs A)" and d: "slab_conf env s a d"
  defines "F \<equiv> abs_free A ! unat (class_index d)"
  shows "\<exists>removed remaining s' xs ys. hplf_detach_slab_blocks a heads s = Some (removed, remaining, s') \<and>
    chain (block_next s') removed xs \<and> chain (block_next s') remaining ys \<and>
    set xs = set F \<inter> set (slab_slots a d) \<and> set ys = set F - set (slab_slots a d) \<and> relinked (set F) s s'"
proof -
  have ar: "arena_ok env s (abs_slabs A) (abs_large A)"
    and fr: "free_ok s (abs_slabs A) heads (abs_free A)" using h by (auto simp: heap_lists_def)
  have ci: "unat (class_index d) < 16" using d by (simp add: slab_conf_def slab_ok_def)
  note F = free_okD [OF fr ci, folded F_def]
  from d obtain d' where d': "slab_objs s a = Some d'" "class_index d' = class_index d" by (rule slab_header)
  have own: "\<forall>x \<in> set F. slab_of s x \<noteq> None"
    using F(2) slab_of_class [OF ar] by (metis option.distinct(1))
  have mem: "slab_of s x = Some a \<longleftrightarrow> x \<in> set (slab_slots a d)" if "x \<in> set F" for x
    using slab_of_slot [OF ar F(2) [OF that] d] .
  from detach_loop_spec [OF F(1), of NULL "[]" NULL "[]" a] own obtain r m s' where
    "detach_loop a (heads ! unat (class_index d)) NULL NULL s = Some (r, m, s')" "relinked (set F) s s'"
    "chain (block_next s') r (rev (filter (\<lambda>x. slab_of s x = Some a) F))"
    "chain (block_next s') m (rev (filter (\<lambda>x. slab_of s x \<noteq> Some a) F))" by auto
  moreover have "set (rev (filter (\<lambda>x. slab_of s x = Some a) F)) = set F \<inter> set (slab_slots a d)"
    "set (rev (filter (\<lambda>x. slab_of s x \<noteq> Some a) F)) = set F - set (slab_slots a d)"
    using mem by auto
  ultimately show ?thesis
    using d' ci fr by (fastforce simp: hplf_detach_slab_blocks_def free_ok_def)
qed

section \<open>One slab\<close>

definition walk_ok :: "os_env \<Rightarrow> 'a world_scheme \<Rightarrow> addr \<Rightarrow> addr list \<Rightarrow> heap_abs \<Rightarrow> bool" where
  "walk_ok env s head heads A \<longleftrightarrow> heap_lists env s heads A \<and> chain (slab_link s) head (abs_slabs A)"

lemma live_not_listed:
  assumes "heap_lists env s heads A" and "i < 16"
  shows "set (abs_free A ! i) \<inter> live_blocks s A = {}"
  using assms by (auto simp: heap_lists_def free_ok_def live_blocks_def free_blocks_iff)

text \<open>The first half: split the free list and unlink the slab from the registry.\<close>

lemma trim_unlink:
  assumes ok: "os_ok env" and w: "walk_ok env s head heads A" and ss: "abs_slabs A = pre @ a # post"
    and d: "slab_conf env s a d" and hd: "slab_objs s a = Some h"
  defines "i \<equiv> unat (class_index d)"
  obtains removed remaining xs ys s1 head2 s2 where
    "hplf_detach_slab_blocks a heads s = Some (removed, remaining, s1)"
    "store_ref (walk_ref pre) (slab_next h) head s1 = Some (head2, s2)"
    "chain (block_next s2) removed xs" "chain (block_next s2) remaining ys"
    "set xs = set (abs_free A ! i) \<inter> set (slab_slots a d)" "set ys = set (abs_free A ! i) - set (slab_slots a d)"
    "lists_changed (set (abs_free A ! i)) s s2" "chain (slab_link s2) head2 (pre @ post)"
    "chain (slab_link s2) (slab_next h) post" "slab_objs s2 a = Some h"
proof -
  have hp: "heap_lists env s heads A" and c: "chain (slab_link s) head (pre @ a # post)"
    using w ss by (auto simp: walk_ok_def)
  have a: "a \<in> set (abs_slabs A)" using ss by simp
  from detach_slab_spec [OF ok hp a d] obtain removed remaining s1 xs ys where
    s1: "hplf_detach_slab_blocks a heads s = Some (removed, remaining, s1)"
    "chain (block_next s1) removed xs" "chain (block_next s1) remaining ys"
    "set xs = set (abs_free A ! i) \<inter> set (slab_slots a d)" "set ys = set (abs_free A ! i) - set (slab_slots a d)"
    "relinked (set (abs_free A ! i)) s s1" unfolding i_def by blast
  then have l1: "slab_link s1 = slab_link s" by (simp add: relinked_def slab_link_def fun_eq_iff)
  have dist: "distinct (pre @ a # post)" by (rule chain_distinct [OF c])
  have post: "chain (slab_link s) (slab_next h) post"
    using c hd by (auto simp: chain_append slab_link_def)
  from store_walk_ref [of s1 head pre "a # post" "slab_next h" post] c post dist obtain head2 s2 where
    s2: "store_ref (walk_ref pre) (slab_next h) head s1 = Some (head2, s2)"
    "chain (slab_link s2) head2 (pre @ post)" "slabs_relinked (set pre) s1 s2" by (auto simp: l1)
  have eq: "slab_objs s2 x = slab_objs s x" if "x \<notin> set pre" for x
    using s2(3) s1(6) that by (simp add: slabs_relinked_def relinked_def)
  have "x \<notin> set pre" if "x \<in> set post" for x using dist that by auto
  then have "chain (slab_link s2) (slab_next h) post \<longleftrightarrow> chain (slab_link s) (slab_next h) post"
    using eq by (intro chain_cong) (simp add: slab_link_def)
  with post have "chain (slab_link s2) (slab_next h) post" by simp
  moreover have "slab_objs s2 a = Some h" using eq [of a] hd dist by simp
  moreover have "lists_changed (set (abs_free A ! i)) s s2"
    by (rule lists_changed_trans [OF relinked_lists [OF s1(6)] slabs_relinked_lists [OF s2(3)]]) simp
  moreover have "block_next s2 = block_next s1" by (rule slabs_relinked_heap(4) [OF s2(3)])
  ultimately show ?thesis using that s1(1-5) s2(1,2) by simp
qed

text \<open>After a successful \<open>munmap\<close> the heap goes on without the slab.\<close>

lemma trim_dropped:
  assumes ok: "os_ok env" and w: "walk_ok env s head heads A" and ss: "abs_slabs A = pre @ a # post"
    and d: "slab_conf env s a d" and free: "slab_free A a d"
    and m: "chain (block_next s2) remaining ys" "set ys = set (abs_free A ! unat (class_index d)) - set (slab_slots a d)"
    and ch: "lists_changed (set (abs_free A ! unat (class_index d))) s s2"
    and reg: "chain (slab_link s2) head2 (pre @ post)" and un: "range_unmapped a (mapping_length d) s2 s3"
  defines "A' \<equiv> A\<lparr>abs_slabs := pre @ post, abs_free := (abs_free A)[unat (class_index d) := ys]\<rparr>"
  shows "walk_ok env s3 head2 (heads[unat (class_index d) := remaining]) A'"
    and "live_blocks s3 A' = live_blocks s A" and "kept (live_blocks s A) s s3"
    and "\<forall>x \<in> set (pre @ post). sshape s3 x = sshape s x"
proof -
  have hp: "heap_lists env s heads A" using w by (simp add: walk_ok_def)
  have ci: "unat (class_index d) < 16" using d by (simp add: slab_conf_def slab_ok_def)
  note drop = heap_drop_slab [OF hp ss d free ch m, folded A'_def]
  have am: "(a, mapping_length d) \<in> set (mappings s2)"
    using d ch by (simp add: slab_conf_def lists_changed_def)
  have an: "a \<notin> set (abs_slabs A')" "a \<notin> abs_large A'"
    using hp ss by (auto simp: A'_def heap_lists_def arena_ok_def)
  note un' = heap_unmap [OF ok drop(1) am an un]
  have "chain (slab_link s3) head2 (pre @ post) \<longleftrightarrow> chain (slab_link s2) head2 (pre @ post)"
    using un'(3) by (intro chain_cong) (auto simp: objects_same_def slab_link_def A'_def)
  with reg un'(1) show "walk_ok env s3 head2 (heads[unat (class_index d) := remaining]) A'"
    by (simp add: walk_ok_def A'_def)
  show "live_blocks s3 A' = live_blocks s A" using un'(2) drop(2) by simp
  have "kept (live_blocks s A) s s2" by (rule lists_changed_kept [OF ch live_not_listed [OF hp ci]])
  moreover have "kept (live_blocks s A) s2 s3" using un'(4) drop(2) by simp
  ultimately show "kept (live_blocks s A) s s3" by (rule kept_trans)
  show "\<forall>x \<in> set (pre @ post). sshape s3 x = sshape s x"
    using un'(3) ch by (auto simp: A'_def objects_same_def lists_changed_def sshape_def fun_eq_iff)
qed

text \<open>After a failed \<open>munmap\<close> the free list and the registry are put together again.\<close>

lemma trim_restored:
  assumes w: "walk_ok env s head heads A" and ss: "abs_slabs A = pre @ a # post"
    and d: "slab_conf env s a d"
    and x: "chain (block_next s2) removed xs" "set xs = set (abs_free A ! unat (class_index d)) \<inter> set (slab_slots a d)"
    and m: "chain (block_next s2) remaining ys" "set ys = set (abs_free A ! unat (class_index d)) - set (slab_slots a d)"
    and ch: "lists_changed (set (abs_free A ! unat (class_index d))) s s2"
    and reg: "chain (slab_link s2) head2 (pre @ post)" "chain (slab_link s2) next' post" "slab_objs s2 a \<noteq> None"
    and same: "same_memory s2 s3"
  obtains joined s4 s5 head' s6 A' where "hplf_join_free_lists removed remaining s3 = Some (joined, s4)"
    "set_slab_next a next' s4 = Some s5" "store_ref (walk_ref pre) a head2 s5 = Some (head', s6)"
    "walk_ok env s6 head' (heads[unat (class_index d) := joined]) A'" "abs_slabs A' = abs_slabs A"
    "abs_large A' = abs_large A" "live_blocks s6 A' = live_blocks s A" "kept (live_blocks s A) s s6"
    "sshape s6 = sshape s" "mappings s6 = mappings s" "world.more s6 = world.more s"
proof -
  let ?F = "abs_free A ! unat (class_index d)"
  have hp: "heap_lists env s heads A" and c: "chain (slab_link s) head (pre @ a # post)"
    using w ss by (auto simp: walk_ok_def)
  have ci: "unat (class_index d) < 16" using d by (simp add: slab_conf_def slab_ok_def)
  have dist: "distinct (pre @ a # post)" by (rule chain_distinct [OF c])
  have an: "a \<noteq> NULL" using chain_nodes [OF c, of a] by simp
  have eq3: "block_next s3 = block_next s2" "slab_link s3 = slab_link s2"
    using same by (auto simp: same_memory_def block_next_def slab_link_def fun_eq_iff)
  from join_free_lists_spec [of s3 removed xs remaining ys] x m obtain joined s4 where
    s4: "hplf_join_free_lists removed remaining s3 = Some (joined, s4)" "chain (block_next s4) joined (xs @ ys)"
      "relinked (set xs) s3 s4" by (auto simp: eq3)
  have eq4: "slab_link s4 = slab_link s2" using s4(3) by (simp add: relinked_def slab_link_def eq3 [symmetric] fun_eq_iff)
  have "slab_link s4 a \<noteq> None" unfolding eq4 using reg(3) by (simp add: slab_link_def)
  then obtain s5 where s5: "set_slab_next a next' s4 = Some s5" using slab_list.set_link_defined by blast
  note l5 = slab_list.set_link_link [OF s5]
  have "chain (slab_link s5) a (a # post)" using reg(2) dist an by (simp add: l5 eq4)
  moreover have "chain (slab_link s5) head2 (pre @ post)" using reg(1) dist by (simp add: l5 eq4)
  ultimately obtain head' s6 where s6: "store_ref (walk_ref pre) a head2 s5 = Some (head', s6)"
    "chain (slab_link s6) head' (pre @ a # post)" "slabs_relinked (set pre) s5 s6"
    using store_walk_ref [of s5 head2 pre post a "a # post"] dist by auto
  have "lists_changed (set ?F) s2 s6"
    by (rule lists_changed_trans [OF lists_changed_trans [OF lists_changed_trans [OF same_memory_lists [OF same]
      relinked_lists [OF s4(3)]] slabs_relinked_lists [OF set_slab_next_relinked [OF s5]]]
      slabs_relinked_lists [OF s6(3)]]) (use x(2) in auto)
  with ch have all: "lists_changed (set ?F) s s6" by (rule lists_changed_trans)
  have "block_next s6 = block_next s4"
    using slabs_relinked_heap(4) [OF s6(3)] slabs_relinked_heap(4) [OF set_slab_next_relinked [OF s5]] by simp
  then have j6: "chain (block_next s6) joined (xs @ ys)" using s4(2) by simp
  have "set (xs @ ys) = set ?F" using x(2) m(2) by auto
  note hr = heap_relist [OF hp ci all j6 this]
  let ?A = "A\<lparr>abs_free := (abs_free A)[unat (class_index d) := xs @ ys]\<rparr>"
  show ?thesis
  proof (rule that [of joined s4 s5 head' s6 ?A])
    show "walk_ok env s6 head' (heads[unat (class_index d) := joined]) ?A"
      using hr(1) s6(2) ss by (simp add: walk_ok_def)
    show "live_blocks s6 ?A = live_blocks s A" by (rule hr(2))
    show "kept (live_blocks s A) s s6" by (rule lists_changed_kept [OF all live_not_listed [OF hp ci]])
    show "sshape s6 = sshape s" "mappings s6 = mappings s" "world.more s6 = world.more s"
      using all by (simp_all add: lists_changed_def)
  qed (use s4(1) s5 s6(1) in simp_all)
qed

section \<open>The whole walk\<close>

text \<open>A slab none of whose slots is live.\<close>

definition idle :: "'a world_scheme \<Rightarrow> heap_abs \<Rightarrow> addr \<Rightarrow> bool" where
  "idle s A a \<longleftrightarrow> set (slots_of s a) \<inter> live_blocks s A = {}"

lemma slab_free_idle:
  assumes "a \<in> set (abs_slabs A)" and "slab_conf env s a d"
  shows "slab_free A a d \<longleftrightarrow> idle s A a"
proof -
  have "set (slab_slots a d) \<subseteq> arena_blocks s (abs_slabs A) (abs_large A)"
    using assms by (auto simp: arena_blocks_def small_blocks_def slots_of_conf)
  then show ?thesis
    unfolding slab_free_def idle_def slots_of_conf [OF assms(2)] live_blocks_def by blast
qed

definition trimmed ::
  "os_env \<Rightarrow> addr list \<Rightarrow> 'a world_scheme \<Rightarrow> heap_abs \<Rightarrow> 'a world_scheme \<Rightarrow> heap_abs \<Rightarrow> bool" where
  "trimmed env dropped s A s' A' \<longleftrightarrow>
     live_blocks s' A' = live_blocks s A \<and> kept (live_blocks s A) s s' \<and> abs_large A' = abs_large A \<and>
     abs_slabs A' = filter (\<lambda>a. a \<notin> set dropped) (abs_slabs A) \<and>
     (\<forall>a \<in> set (abs_slabs A'). sshape s' a = sshape s a) \<and>
     distinct dropped \<and> set dropped \<subseteq> set (abs_slabs A) \<and> (\<forall>a \<in> set dropped. idle s A a) \<and>
     set (mappings s') = {m \<in> set (mappings s). fst m \<notin> set dropped} \<and> world.more s' = world.more s"

lemma filter_drop_one: "distinct (pre @ a # post) \<Longrightarrow> filter (\<lambda>x. x \<noteq> a) (pre @ a # post) = pre @ post"
proof -
  assume "distinct (pre @ a # post)"
  then have "filter (\<lambda>x. x \<noteq> a) pre = pre" "filter (\<lambda>x. x \<noteq> a) post = post"
    by (auto simp: filter_id_conv)
  then show ?thesis by simp
qed

lemma trimmed_refl: "trimmed env [] s A s A"
  by (auto simp: trimmed_def)

lemma trimmed_idle:
  assumes "trimmed env xs s A s' A'" and "a \<in> set (abs_slabs A')"
  shows "idle s' A' a = idle s A a"
  using assms by (simp add: trimmed_def idle_def slots_of_def)

lemma trimmed_trans:
  assumes 1: "trimmed env xs s A s1 A1" and 2: "trimmed env ys s1 A1 s2 A2"
  shows "trimmed env (xs @ ys) s A s2 A2"
proof -
  note t = 1 [unfolded trimmed_def] 2 [unfolded trimmed_def]
  have "kept (live_blocks s A) s s2" using t by (auto intro: kept_trans)
  moreover have "idle s A a" if "a \<in> set ys" for a
    using that t(2) trimmed_idle [OF 1, of a] by auto
  moreover have "set xs \<inter> set ys = {}" using t by auto
  moreover have "sshape s2 a = sshape s a" if "a \<in> set (abs_slabs A2)" for a using that t by simp
  ultimately show ?thesis using t unfolding trimmed_def by (auto simp: filter_filter conj_commute)
qed

lemma saturating_add:
  "unat (case checked (hplf_size_add x y (Some 0)) of Some t \<Rightarrow> t | None \<Rightarrow> SIZE_MAX) =
     min (SIZE_BOUND - 1) (unat x + unat y)"
  using unat_add_noverflow [of x y] by (auto simp: hplf_size_add_eq)

lemma trim_slab_spec:
  assumes ok: "os_ok env" and w: "walk_ok env s head heads A" and ss: "abs_slabs A = pre @ a # post"
    and d: "slab_conf env s a d" and free: "slab_free A a d"
  shows "(\<exists>head' heads' s' A' tot'. trim_slab env (walk_ref pre) a tot head heads s = Some (True, tot', head', heads', s') \<and>
      walk_ok env s' head' heads' A' \<and> trimmed env [a] s A s' A' \<and>
      unat tot' = min (SIZE_BOUND - 1) (unat tot + unat (mapping_length d))) \<or>
    (\<exists>head' heads' s' A'. trim_slab env (walk_ref pre) a tot head heads s = Some (False, tot, head', heads', s') \<and>
      walk_ok env s' head' heads' A' \<and> trimmed env [] s A s' A' \<and> \<not> unmap_reliable env)"
proof -
  from d obtain h where h: "slab_objs s a = Some h" "class_index h = class_index d" "mapping_base h = a"
    "mapping_length h = mapping_length d" "slot_count h = slot_count d" by (rule slab_header)
  obtain removed remaining xs ys s1 head2 s2 where u:
    "hplf_detach_slab_blocks a heads s = Some (removed, remaining, s1)"
    "store_ref (walk_ref pre) (slab_next h) head s1 = Some (head2, s2)"
    "chain (block_next s2) removed xs" "chain (block_next s2) remaining ys"
    "set xs = set (abs_free A ! unat (class_index d)) \<inter> set (slab_slots a d)"
    "set ys = set (abs_free A ! unat (class_index d)) - set (slab_slots a d)"
    "lists_changed (set (abs_free A ! unat (class_index d))) s s2" "chain (slab_link s2) head2 (pre @ post)"
    "chain (slab_link s2) (slab_next h) post" "slab_objs s2 a = Some h"
    by (rule trim_unlink [OF ok w ss d h(1)])
  have hp: "heap_lists env s heads A" using w by (simp add: walk_ok_def)
  have ci: "unat (class_index d) < length heads"
    using hp d by (simp add: heap_lists_def free_ok_def slab_conf_def slab_ok_def)
  have maps: "maps_ok env (mappings s)" and dist: "distinct (pre @ a # post)"
    using hp ss by (auto simp: heap_lists_def arena_ok_def)
  have am: "(a, mapping_length d) \<in> set (mappings s2)" and ms2: "mappings s2 = mappings s"
    using d u(7) by (auto simp: slab_conf_def lists_changed_def)
  then have an: "a \<noteq> NULL" "mapping_length d \<noteq> 0" using maps_okD(1,2) [OF maps] by auto
  let ?run = "trim_slab env (walk_ref pre) a tot head heads s"
  from am an show ?thesis
  proof (cases rule: os_unmap_cases [where env = env and r = 0])
    case (succeeded s3)
    let ?A = "A\<lparr>abs_slabs := pre @ post, abs_free := (abs_free A)[unat (class_index d) := ys]\<rparr>"
    note dr = trim_dropped [OF ok w ss d free u(4,6,7,8) succeeded(2)]
    have run: "?run = Some (True, case checked (hplf_size_add tot (mapping_length d) (Some 0)) of
        Some t \<Rightarrow> t | None \<Rightarrow> SIZE_MAX, head2, heads[unat (class_index d) := remaining], s3)"
      using u(1,2) h ci succeeded(1) by (simp add: trim_slab_def Let_def)
    have "set (mappings s3) = {m \<in> set (mappings s). fst m \<noteq> a}"
    proof -
      have eq: "set (mappings s3) = set (mappings s) - {(a, mapping_length d)}"
        using succeeded(2) maps by (simp add: range_unmapped_def ms2 maps_ok_def)
      have only: "l = mapping_length d" if "(a, l) \<in> set (mappings s)" for l
        using maps_same_base [OF maps that] am by (simp add: ms2)
      show ?thesis unfolding eq by (auto dest: only)
    qed
    moreover have "filter (\<lambda>x. x \<notin> set [a]) (abs_slabs A) = pre @ post"
      using filter_drop_one [OF dist] by (simp add: ss)
    moreover have "world.more s3 = world.more s"
      using succeeded(2) u(7) by (simp add: range_unmapped_def range_gone_def lists_changed_def)
    ultimately have "trimmed env [a] s A s3 ?A"
      using dr free slab_free_idle [of a A env s d] d ss by (simp add: trimmed_def)
    then show ?thesis using run dr(1) saturating_add by blast
  next
    case (failed s3)
    have "slab_objs s2 a \<noteq> None" using u(10) by simp
    then obtain joined s4 s5 head' s6 A' where t: "hplf_join_free_lists removed remaining s3 = Some (joined, s4)"
      "set_slab_next a (slab_next h) s4 = Some s5" "store_ref (walk_ref pre) a head2 s5 = Some (head', s6)"
      "walk_ok env s6 head' (heads[unat (class_index d) := joined]) A'" "abs_slabs A' = abs_slabs A"
      "abs_large A' = abs_large A" "live_blocks s6 A' = live_blocks s A" "kept (live_blocks s A) s s6"
      "sshape s6 = sshape s" "mappings s6 = mappings s" "world.more s6 = world.more s"
      by (rule trim_restored [OF w ss d u(3,5,4,6,7,8,9) _ failed(2)])
    have "?run = Some (False, tot, head', heads[unat (class_index d) := joined], s6)"
      using u(1,2) h ci failed(1) t(1-3) by (simp add: trim_slab_def Let_def)
    moreover have "trimmed env [] s A s6 A'" using t(5-11) by (auto simp: trimmed_def)
    moreover have "\<not> unmap_reliable env" using os_unmap_reliable [OF _ failed(1)] an by auto
    ultimately show ?thesis using t(4) by blast
  qed
qed

lemma trim_loop_spec:
  assumes ok: "os_ok env" and w: "walk_ok env s head heads A" and ss: "abs_slabs A = pre @ post"
  shows "\<exists>tot' head' heads' s' A' dropped.
    trim_loop env (walk_ref pre) tot head heads s = Some (tot', head', heads', s') \<and>
    walk_ok env s' head' heads' A' \<and> trimmed env dropped s A s' A' \<and>
    unat tot' = min (SIZE_BOUND - 1) (unat tot + length dropped * slab_bytes (sc_pagesize env)) \<and>
    (unmap_reliable env \<longrightarrow> (\<forall>a \<in> set post. idle s A a \<longrightarrow> a \<in> set dropped))"
  using w ss
proof (induction post arbitrary: pre s head heads A tot)
  case Nil
  then have "load_ref (walk_ref pre) head s = Some NULL"
    using load_walk_ref [of s head pre "[]"] by (simp add: walk_ok_def)
  then have "trim_loop env (walk_ref pre) tot head heads s = Some (tot, head, heads, s)"
    by (subst trim_loop.simps) simp
  moreover have "unat tot = min (SIZE_BOUND - 1) (unat tot + length ([] :: addr list) * slab_bytes (sc_pagesize env))"
    using unat_le_size_max [of tot] by simp
  ultimately show ?case using Nil.prems(1) trimmed_refl [of env s A] by (metis empty_iff list.set(1))
next
  case (Cons a post)
  have hp: "heap_lists env s heads A" and c: "chain (slab_link s) head (pre @ a # post)"
    using Cons.prems by (auto simp: walk_ok_def)
  have aA: "a \<in> set (abs_slabs A)" using Cons.prems(2) by simp
  have an: "a \<noteq> NULL" using chain_nodes [OF c, of a] by simp
  have ld: "load_ref (walk_ref pre) head s = Some a" using load_walk_ref [OF c] by simp
  from hp aA obtain d where d: "slab_conf env s a d" by (auto simp: heap_lists_def arena_ok_def)
  then have len: "unat (mapping_length d) = slab_bytes (sc_pagesize env)" by (simp add: slab_conf_def slab_ok_def)
  from d obtain h where h: "slab_objs s a = Some h" "slot_count h = slot_count d" by (rule slab_header)
  from free_count_spec [OF ok hp aA d] obtain n where
    n: "hplf_slab_free_count a heads s = Some n" "n = slot_count d \<longleftrightarrow> slab_free A a d" by blast
  note fi = slab_free_idle [OF aA d]
  have dist: "distinct (pre @ a # post)" by (rule chain_distinct [OF c])
  show ?case
  proof (cases "slab_free A a d")
    case False
    then have "trim_loop env (walk_ref pre) tot head heads s = trim_loop env (walk_ref (pre @ [a])) tot head heads s"
      using ld an h n by (subst trim_loop.simps) simp
    moreover have "\<not> idle s A a" using False fi by simp
    ultimately show ?thesis using Cons.IH [of s head heads A "pre @ [a]" tot] Cons.prems by fastforce
  next
    case True
    have step: "trim_loop env (walk_ref pre) tot head heads s = do {
        (unmapped, tot, head, heads, s) \<leftarrow> trim_slab env (walk_ref pre) a tot head heads s;
        trim_loop env (if unmapped then walk_ref pre else NextOf a) tot head heads s }"
      using ld an h n True by (subst trim_loop.simps) simp
    from trim_slab_spec [OF ok Cons.prems d True, of tot] show ?thesis
    proof (elim disjE exE conjE)
      fix head1 heads1 s1 A1 tot1
      assume run: "trim_slab env (walk_ref pre) a tot head heads s = Some (True, tot1, head1, heads1, s1)"
        and w1: "walk_ok env s1 head1 heads1 A1" and t1: "trimmed env [a] s A s1 A1"
        and tot1: "unat tot1 = min (SIZE_BOUND - 1) (unat tot + unat (mapping_length d))"
      have ss1: "abs_slabs A1 = pre @ post"
        using t1 Cons.prems(2) filter_drop_one [OF dist] by (simp add: trimmed_def)
      from Cons.IH [OF w1 ss1, of tot1] obtain tot' head' heads' s' A' dropped where
        ih: "trim_loop env (walk_ref pre) tot1 head1 heads1 s1 = Some (tot', head', heads', s')"
        "walk_ok env s' head' heads' A'" "trimmed env dropped s1 A1 s' A'"
        "unat tot' = min (SIZE_BOUND - 1) (unat tot1 + length dropped * slab_bytes (sc_pagesize env))"
        "unmap_reliable env \<longrightarrow> (\<forall>a \<in> set post. idle s1 A1 a \<longrightarrow> a \<in> set dropped)" by blast
      have "trimmed env (a # dropped) s A s' A'" using trimmed_trans [OF t1 ih(3)] by simp
      moreover have "unat tot' = min (SIZE_BOUND - 1) (unat tot + length (a # dropped) * slab_bytes (sc_pagesize env))"
        using ih(4) tot1 len by (simp add: min_def)
      moreover have "unmap_reliable env \<longrightarrow> (\<forall>x \<in> set (a # post). idle s A x \<longrightarrow> x \<in> set (a # dropped))"
        using ih(5) trimmed_idle [OF t1] ss1 by auto
      ultimately show ?thesis using step run ih(1,2) by fastforce
    next
      fix head1 heads1 s1 A1
      assume run: "trim_slab env (walk_ref pre) a tot head heads s = Some (False, tot, head1, heads1, s1)"
        and w1: "walk_ok env s1 head1 heads1 A1" and t1: "trimmed env [] s A s1 A1" and nr: "\<not> unmap_reliable env"
      have ss1: "abs_slabs A1 = (pre @ [a]) @ post" using t1 Cons.prems(2) by (simp add: trimmed_def)
      from Cons.IH [OF w1 ss1, of tot] obtain tot' head' heads' s' A' dropped where
        ih: "trim_loop env (NextOf a) tot head1 heads1 s1 = Some (tot', head', heads', s')"
        "walk_ok env s' head' heads' A'" "trimmed env dropped s1 A1 s' A'"
        "unat tot' = min (SIZE_BOUND - 1) (unat tot + length dropped * slab_bytes (sc_pagesize env))"
        by auto
      have "trimmed env dropped s A s' A'" using trimmed_trans [OF t1 ih(3)] by simp
      then show ?thesis using step run ih(1,2,4) nr by fastforce
    qed
  qed
qed

end
