(* ===== verification/Allocator_Locked.thy ===== *)
theory Allocator_Locked
  imports Public_View Trim
begin

text \<open>
  \<open>src/allocator.c\<close> in its default configuration, the locked baseline: one mutex, one free list per
  size class and the slab registry.  \<open>None\<close> is a call that C leaves undefined or that never
  returns; the theorems show that it does not occur.
\<close>

section \<open>Definitions\<close>

record locked_state = world +
  registry_mutex :: bool
  free_lists :: "addr list"
  slabs :: addr

definition registry_lock :: "os_env \<Rightarrow> locked_state \<Rightarrow> (int \<times> locked_state) option" where
  "registry_lock env s = do {
     (e, held, s) \<leftarrow> pthread_mutex_lock env (registry_mutex s) s;
     Some (e, s\<lparr>registry_mutex := held\<rparr>)
   }"

definition registry_unlock :: "os_env \<Rightarrow> locked_state \<Rightarrow> (int \<times> locked_state) option" where
  "registry_unlock env s = do {
     (e, held, s) \<leftarrow> pthread_mutex_unlock env (registry_mutex s) s;
     Some (e, s\<lparr>registry_mutex := held\<rparr>)
   }"

text \<open>
  The branch of \<open>hplf_allocate_small\<close> for an empty free list: \<open>Inl\<close> is the early return, \<open>Inr\<close> the
  first block of the new slab, already published.
\<close>

definition locked_refill ::
  "os_env \<Rightarrow> size_t \<Rightarrow> size_t \<Rightarrow> locked_state \<Rightarrow> (addr \<times> locked_state + addr \<times> locked_state) option" where
  "locked_refill env ci cap s = do {
     (ok, slab, new_free_list, s) \<leftarrow> hplf_slab_create env ci cap (Some NULL) (Some NULL) s;
     (case (ok, slab, new_free_list) of
        (True, Some slab, Some new_free_list) \<Rightarrow> do {
          s \<leftarrow> set_slab_next slab (slabs s) s;
          let s = s\<lparr>slabs := slab\<rparr>;
          lists \<leftarrow> array_write (free_lists s) ci new_free_list;
          Some (Inr (new_free_list, s\<lparr>free_lists := lists\<rparr>))
        }
      | _ \<Rightarrow> do {
          (_, s) \<leftarrow> registry_unlock env s;
          Some (Inl (NULL, s\<lparr>errno := ENOMEM\<rparr>))
        })
   }"

text \<open>The end of \<open>hplf_allocate_small\<close>: unlink the first block and hand it out.\<close>

definition take_head :: "os_env \<Rightarrow> size_t \<Rightarrow> size_t \<Rightarrow> addr \<Rightarrow> locked_state \<Rightarrow> (addr \<times> locked_state) option" where
  "take_head env requested ci block s = do {
     b \<leftarrow> blocks s block;
     lists \<leftarrow> array_write (free_lists s) ci (next_free b);
     s \<leftarrow> set_next_free block NULL (s\<lparr>free_lists := lists\<rparr>);
     s \<leftarrow> update_block block (\<lambda>b. b\<lparr>requested_size := requested\<rparr>) s;
     (e, s) \<leftarrow> registry_unlock env s;
     if e \<noteq> 0 then Some (NULL, s\<lparr>errno := e\<rparr>)
     else Some (hplf_block_payload block, s)
   }"

definition hplf_allocate_small ::
  "os_env \<Rightarrow> size_t \<Rightarrow> size_t \<Rightarrow> size_t \<Rightarrow> locked_state \<Rightarrow> (addr \<times> locked_state) option" where
  "hplf_allocate_small env requested ci cap s = do {
     (e, s) \<leftarrow> registry_lock env s;
     if e \<noteq> 0 then Some (NULL, s\<lparr>errno := e\<rparr>)
     else do {
       block \<leftarrow> array_read (free_lists s) ci;
       r \<leftarrow> (if block = NULL then locked_refill env ci cap s else Some (Inr (block, s)));
       (case r of
          Inl result \<Rightarrow> Some result
        | Inr (block, s) \<Rightarrow> take_head env requested ci block s)
     }
   }"

definition hplf_malloc :: "os_env \<Rightarrow> size_t \<Rightarrow> locked_state \<Rightarrow> (addr \<times> locked_state) option" where
  "hplf_malloc env sz s =
     (if sz = 0 then Some (NULL, s)
      else if sz > PTRDIFF_MAX then Some (NULL, s\<lparr>errno := ENOMEM\<rparr>)
      else case class_of sz of
        Some (ci, cap) \<Rightarrow> hplf_allocate_small env sz ci cap s
      | None \<Rightarrow> hplf_allocate_large env sz s)"

definition hplf_free :: "os_env \<Rightarrow> addr \<Rightarrow> locked_state \<Rightarrow> locked_state option" where
  "hplf_free env pointer s =
     (let saved_errno = errno s in
      if pointer = NULL then Some s
      else do {
        let block = hplf_block_from_payload pointer;
        b \<leftarrow> blocks s block;
        (case kind b of
           HPLF_BLOCK_LARGE \<Rightarrow> do {
             (base, len) \<leftarrow> owner_large (owner b);
             (_, _, _, s) \<leftarrow>
               hplf_os_unmap env (Some \<lparr>map_base = base, map_length = len\<rparr>) (Some 0) s;
             Some (s\<lparr>errno := saved_errno\<rparr>)
           }
         | HPLF_BLOCK_SMALL \<Rightarrow> do {
             slab \<leftarrow> owner_small (owner b);
             d \<leftarrow> slab_objs s slab;
             let ci = class_index d;
             (e, s) \<leftarrow> registry_lock env s;
             s \<leftarrow> (if e = 0 then do {
                    s \<leftarrow> update_block block (\<lambda>b. b\<lparr>requested_size := 0\<rparr>) s;
                    head \<leftarrow> array_read (free_lists s) ci;
                    s \<leftarrow> set_next_free block head s;
                    lists \<leftarrow> array_write (free_lists s) ci block;
                    (_, s) \<leftarrow> registry_unlock env (s\<lparr>free_lists := lists\<rparr>);
                    Some s
                  } else Some s);
             Some (s\<lparr>errno := saved_errno\<rparr>)
           })
      })"

definition hplf_calloc :: "os_env \<Rightarrow> size_t \<Rightarrow> size_t \<Rightarrow> locked_state \<Rightarrow> (addr \<times> locked_state) option" where
  "hplf_calloc env = hplf_calloc_with (hplf_malloc env)"

definition hplf_realloc :: "os_env \<Rightarrow> addr \<Rightarrow> size_t \<Rightarrow> locked_state \<Rightarrow> (addr \<times> locked_state) option" where
  "hplf_realloc env = hplf_realloc_with (hplf_malloc env) (hplf_free env)"

text \<open>The locked baseline has no thread-local cache: flushing does nothing.\<close>

definition hplf_thread_flush :: "locked_state \<Rightarrow> locked_state" where
  "hplf_thread_flush s = s"

definition hplf_trim_quiescent :: "os_env \<Rightarrow> locked_state \<Rightarrow> (size_t \<times> locked_state) option" where
  "hplf_trim_quiescent env s = do {
     (e, s) \<leftarrow> registry_lock env s;
     if e \<noteq> 0 then Some (0, s)
     else do {
       (released_total, head, lists, s) \<leftarrow> trim_loop env RegistryHead 0 (slabs s) (free_lists s) s;
       (_, s) \<leftarrow> registry_unlock env (s\<lparr>slabs := head, free_lists := lists\<rparr>);
       Some (released_total, s)
     }
   }"

text \<open>The statically initialised allocator, before the first call.\<close>

definition locked_init :: "locked_state \<Rightarrow> bool" where
  "locked_init s \<longleftrightarrow> \<not> registry_mutex s \<and> free_lists s = replicate 16 NULL \<and> slabs s = NULL"

section \<open>The invariant\<close>

definition locked_core :: "os_env \<Rightarrow> locked_state \<Rightarrow> heap_abs \<Rightarrow> bool" where
  "locked_core env s A \<longleftrightarrow> heap_ok env s (free_lists s) A \<and> chain (slab_link s) (slabs s) (abs_slabs A)"

definition locked_inv :: "os_env \<Rightarrow> locked_state \<Rightarrow> heap_abs \<Rightarrow> bool" where
  "locked_inv env s A \<longleftrightarrow> locked_core env s A \<and> \<not> registry_mutex s"

lemma quiet_heap [simp]:
  fixes s :: locked_state
  shows "heap_ok env (s\<lparr>errno := e\<rparr>) h A = heap_ok env s h A"
    and "heap_ok env (s\<lparr>ticks := n\<rparr>) h A = heap_ok env s h A"
    and "heap_ok env (s\<lparr>registry_mutex := m\<rparr>) h A = heap_ok env s h A"
    and "heap_ok env (s\<lparr>free_lists := f\<rparr>) h A = heap_ok env s h A"
    and "heap_ok env (s\<lparr>slabs := a\<rparr>) h A = heap_ok env s h A"
  by (rule heap_ok_cong(1), simp, simp, simp)+

lemma quiet_live [simp]:
  fixes s :: locked_state
  shows "live_blocks (s\<lparr>errno := e\<rparr>) A = live_blocks s A"
    and "live_blocks (s\<lparr>ticks := n\<rparr>) A = live_blocks s A"
    and "live_blocks (s\<lparr>registry_mutex := m\<rparr>) A = live_blocks s A"
    and "live_blocks (s\<lparr>free_lists := f\<rparr>) A = live_blocks s A"
    and "live_blocks (s\<lparr>slabs := a\<rparr>) A = live_blocks s A"
  by (rule heap_ok_cong(2), simp, simp, simp)+

lemma quiet_link [simp]:
  fixes s :: locked_state
  shows "slab_link (s\<lparr>errno := e\<rparr>) = slab_link s" and "slab_link (s\<lparr>ticks := n\<rparr>) = slab_link s"
    and "slab_link (s\<lparr>registry_mutex := m\<rparr>) = slab_link s" and "slab_link (s\<lparr>free_lists := f\<rparr>) = slab_link s"
    and "slab_link (s\<lparr>slabs := a\<rparr>) = slab_link s" and "slab_link (s\<lparr>blocks := bs\<rparr>) = slab_link s"
  by (rule ext, simp add: slab_link_def)+

lemma locked_inv_quiet [simp]:
  "locked_inv env (s\<lparr>errno := e\<rparr>) A = locked_inv env s A"
  "locked_inv env (s\<lparr>ticks := n\<rparr>) A = locked_inv env s A"
  by (simp_all add: locked_inv_def locked_core_def)

lemma locked_core_quiet [simp]:
  "locked_core env (s\<lparr>errno := e\<rparr>) A = locked_core env s A"
  "locked_core env (s\<lparr>ticks := n\<rparr>) A = locked_core env s A"
  "locked_core env (s\<lparr>registry_mutex := m\<rparr>) A = locked_core env s A"
  by (simp_all add: locked_core_def)

lemma locked_fields:
  fixes s s' :: locked_state
  assumes "world.more s' = world.more s"
  shows "registry_mutex s' = registry_mutex s" and "free_lists s' = free_lists s" and "slabs s' = slabs s"
  using assms by (cases s; cases s'; simp)+

lemma same_memory_locked:
  fixes s s' :: locked_state
  assumes "same_memory s s'"
  shows "locked_core env s' A = locked_core env s A" and "registry_mutex s' = registry_mutex s"
    and "refused s A s' A"
proof -
  note m = assms [unfolded same_memory_def] and f = locked_fields [of s' s]
  have "heap_ok env s' h A = heap_ok env s h A" "live_blocks s' A = live_blocks s A" for h
    using m by (intro heap_ok_cong; simp)+
  moreover have "slab_link s' = slab_link s" using m by (simp add: slab_link_def fun_eq_iff)
  ultimately show "locked_core env s' A = locked_core env s A" "refused s A s' A"
    "registry_mutex s' = registry_mutex s"
    using m f by (simp_all add: locked_core_def refused_def)
qed

text \<open>Before the first call the ghost state is empty.\<close>

definition empty_abs :: heap_abs where
  "empty_abs = \<lparr>abs_slabs = [], abs_large = {}, abs_free = replicate 16 []\<rparr>"

lemma locked_init_inv:
  assumes "locked_init s" and "maps_ok env (mappings s)"
  shows "locked_inv env s empty_abs" and "live_blocks s empty_abs = {}"
proof -
  show "live_blocks s empty_abs = {}"
    by (simp add: live_blocks_def empty_abs_def arena_blocks_def small_blocks_def)
  moreover have "arena_ok env s [] {}" using assms(2) by (simp add: arena_ok_def)
  moreover have "free_ok s [] (replicate 16 NULL) (replicate 16 [])"
    unfolding free_ok_def by (auto simp: nth_replicate)
  ultimately show "locked_inv env s empty_abs"
    using assms(1) by (simp add: locked_inv_def locked_core_def heap_ok_def locked_init_def empty_abs_def)
qed

section \<open>The mutex\<close>

lemma registry_lock_cases:
  assumes "\<not> registry_mutex s"
  obtains (failed) e where "registry_lock env s = Some (e, s\<lparr>ticks := Suc (ticks s)\<rparr>)" "e \<noteq> 0"
      "lock_result env (ticks s) = e"
  | (succeeded) "registry_lock env s = Some (0, s\<lparr>ticks := Suc (ticks s), registry_mutex := True\<rparr>)"
      "lock_result env (ticks s) = 0"
proof (cases "lock_result env (ticks s) = 0")
  case True
  with assms show ?thesis
    by (intro that(2)) (simp_all add: registry_lock_def pthread_mutex_lock_def Let_def)
next
  case False
  then show ?thesis
    by (intro that(1)) (simp_all add: registry_lock_def pthread_mutex_lock_def Let_def)
qed

lemma registry_unlock_held:
  "os_ok env \<Longrightarrow> registry_mutex s \<Longrightarrow>
     registry_unlock env s = Some (0, s\<lparr>ticks := Suc (ticks s), registry_mutex := False\<rparr>)"
  by (simp add: registry_unlock_def pthread_mutex_unlock_def Let_def)

section \<open>When an allocation succeeds, and how it fails\<close>

text \<open>
  A small request is served when the registry mutex can be taken and its class has a free block or
  a slab can be mapped; a large one when its own mapping can be.
\<close>

definition can_serve :: "os_env \<Rightarrow> locked_state \<Rightarrow> size_t \<Rightarrow> bool" where
  "can_serve env s sz \<longleftrightarrow> sz \<noteq> 0 \<and> sz \<le> PTRDIFF_MAX \<and> (case class_of sz of
     Some (ci, cap) \<Rightarrow> lock_result env (ticks s) = 0 \<and>
       (free_lists s ! unat ci \<noteq> NULL \<or> can_map env s (slab_bytes (sc_pagesize env)))
   | None \<Rightarrow> can_map env s (round_up (48 + unat sz) (unat (sc_pagesize env))))"

definition failure_errno :: "os_env \<Rightarrow> locked_state \<Rightarrow> size_t \<Rightarrow> int" where
  "failure_errno env s sz =
     (if class_of sz \<noteq> None \<and> lock_result env (ticks s) \<noteq> 0 then lock_result env (ticks s) else ENOMEM)"

text \<open>The block that serves a request: one of the request's class, or a mapping of its own.\<close>

definition serves :: "locked_state \<Rightarrow> size_t \<Rightarrow> addr \<Rightarrow> bool" where
  "serves s sz p \<longleftrightarrow> (\<exists>b. blocks s p = Some b \<and> (case class_of sz of
     Some (ci, cap) \<Rightarrow> kind b = HPLF_BLOCK_SMALL \<and> capacity b = cap
   | None \<Rightarrow> kind b = HPLF_BLOCK_LARGE))"

lemma failure_errno_nonzero: "failure_errno env s sz \<noteq> 0"
  by (simp add: failure_errno_def ENOMEM_def)

section \<open>Small allocations\<close>

lemma take_head_granted:
  assumes ok: "os_ok env" and core: "locked_core env s A" and mx: "registry_mutex s"
    and ci: "unat ci < 16" and F: "abs_free A ! unat ci = p # xs"
    and req: "requested \<noteq> 0" "requested \<le> size_class_capacities ! unat ci"
  obtains s' A' where "take_head env requested ci p s = Some (p + 48, s')" "locked_inv env s' A'"
    "granted p requested s A s' A'"
    "\<exists>b. blocks s' p = Some b \<and> kind b = HPLF_BLOCK_SMALL \<and> capacity b = size_class_capacities ! unat ci"
proof -
  have h: "heap_ok env s (free_lists s) A" and ch: "chain (slab_link s) (slabs s) (abs_slabs A)"
    using core by (auto simp: locked_core_def)
  then have ar: "arena_ok env s (abs_slabs A) (abs_large A)" and
    fr: "free_ok s (abs_slabs A) (free_lists s) (abs_free A)" by (auto simp: heap_ok_def)
  have len: "length (free_lists s) = 16" using fr by (simp add: free_ok_def)
  have cl: "in_class s (abs_slabs A) (unat ci) p" using free_okD(2) [OF fr ci] F by simp
  with ar obtain b where b: "blocks s p = Some b" "capacity b = size_class_capacities ! unat ci"
    "kind b = HPLF_BLOCK_SMALL" by (rule free_block_capacity)
  have pn: "p \<noteq> NULL" using free_okD(1) [OF fr ci] F by simp
  let ?b = "b\<lparr>next_free := NULL, requested_size := requested\<rparr>"
  let ?s = "s\<lparr>free_lists := (free_lists s)[unat ci := next_free b], blocks := (blocks s)(p \<mapsto> ?b),
    ticks := Suc (ticks s), registry_mutex := False\<rparr>"
  let ?A = "A\<lparr>abs_free := (abs_free A)[unat ci := xs]\<rparr>"
  have run: "take_head env requested ci p s = Some (p + 48, ?s)"
    using b(1) ci len mx ok pn
    by (simp add: take_head_def set_next_free_def update_block_def registry_unlock_held hplf_block_payload_eq)
  have chg: "block_changed p b ?b s ?s" using b(1) by (simp add: block_changed_def)
  have sz: "requested_size ?b \<noteq> 0" "requested_size ?b \<le> capacity ?b" using req b(2) by simp_all
  note pop = heap_pop [OF h ci F chg sz]
  have link: "slab_link ?s = slab_link s" by (simp add: slab_link_def fun_eq_iff)
  have "locked_inv env ?s ?A"
    using pop(1) ch link by (simp add: locked_inv_def locked_core_def)
  moreover have "kept (live_blocks s A) s ?s" using pop(3) by (auto simp: kept_def)
  ultimately show ?thesis using that [OF run] pop(2,3) b by (simp add: granted_def)
qed

lemma locked_refill_failed:
  assumes ok: "os_ok env" and core: "locked_core env s A" and mx: "registry_mutex s"
    and cr: "hplf_slab_create env ci cap (Some NULL) (Some NULL) s = Some (False, x, y, s1)" "same_memory s s1"
  obtains s' where "locked_refill env ci cap s = Some (Inl (NULL, s'))" "locked_inv env s' A"
    "refused s A s' A" "errno s' = ENOMEM"
proof -
  note sm = same_memory_locked [OF cr(2)]
  let ?s = "s1\<lparr>ticks := Suc (ticks s1), registry_mutex := False, errno := ENOMEM\<rparr>"
  have "registry_unlock env s1 = Some (0, s1\<lparr>ticks := Suc (ticks s1), registry_mutex := False\<rparr>)"
    using ok mx sm(2) by (simp add: registry_unlock_held)
  then have "locked_refill env ci cap s = Some (Inl (NULL, ?s))" using cr(1) by (simp add: locked_refill_def)
  moreover have "locked_inv env ?s A" using core sm(1) by (simp add: locked_inv_def)
  moreover have "refused s A ?s A"
    using sm(3) by (simp add: refused_def kept_def bytes_kept_def)
  ultimately show ?thesis using that by simp
qed

lemma locked_refill_created:
  assumes ok: "os_ok env" and core: "locked_core env s A" and ci: "unat ci < 16"
    and F: "abs_free A ! unat ci = []" and cr: "slab_created env ci a d s s1" "slab_next d = NULL"
    and run: "hplf_slab_create env ci cap (Some NULL) (Some NULL) s =
      Some (True, Some a, Some (slot_at a d (unat (slot_count d) - 1)), s1)"
  obtains p xs s' A' where "locked_refill env ci cap s = Some (Inr (p, s'))" "locked_core env s' A'"
    "registry_mutex s' = registry_mutex s" "abs_free A' ! unat ci = p # xs" "refused s A s' A'"
proof -
  let ?p = "slot_at a d (unat (slot_count d) - 1)" and ?ss = "abs_slabs A"
  let ?A = "A\<lparr>abs_slabs := a # ?ss, abs_free := (abs_free A)[unat ci := rev (slab_slots a d)]\<rparr>"
  have h: "heap_ok env s (free_lists s) A" and ch: "chain (slab_link s) (slabs s) ?ss"
    using core by (auto simp: locked_core_def)
  then have ar: "arena_ok env s ?ss (abs_large A)" and len: "length (abs_free A) = 16" "length (free_lists s) = 16"
    by (auto simp: heap_ok_def free_ok_def)
  note c = cr(1) [unfolded slab_created_def]
  have more: "world.more s1 = world.more s" using c by (simp add: outside_same_def)
  note fs = locked_fields [OF more]
  note new = arena_add_slab [OF ok ar cr] and hn = heap_new_slab [OF ok h ci F cr]
  let ?d = "d\<lparr>slab_next := slabs s\<rparr>"
  let ?s = "s1\<lparr>slab_objs := (slab_objs s1)(a \<mapsto> ?d), slabs := a, free_lists := (free_lists s)[unat ci := ?p]\<rparr>"
  have refill: "locked_refill env ci cap s = Some (Inr (?p, ?s))"
    using run c ci len fs by (simp add: locked_refill_def set_slab_next_def update_slab_def)
  have same: "heap_same s1 ?s ?A" using c by (auto simp: heap_same_def sshape_def)
  have hs: "heap_ok env ?s ((free_lists s)[unat ci := ?p]) ?A" "live_blocks ?s ?A = live_blocks s1 ?A"
    using heap_same_ok [OF hn(1) same] by simp_all
  have "slab_link ?s = (slab_link s1)(a \<mapsto> slabs s)" by (auto simp: slab_link_def fun_eq_iff)
  moreover have "chain (slab_link s1) (slabs s) ?ss \<longleftrightarrow> chain (slab_link s) (slabs s) ?ss"
    using new(1) by (intro chain_cong) (simp add: objects_same_def slab_link_def)
  moreover have "a \<noteq> NULL" using c by (simp add: slab_ok_def)
  ultimately have "chain (slab_link ?s) a (a # ?ss)" using ch new(4) by simp
  with hs have "locked_core env ?s ?A" by (simp add: locked_core_def)
  moreover have "abs_free ?A ! unat ci = ?p # tl (rev (slab_slots a d))"
  proof -
    have "0 < unat (slot_count d)" using c ok slab_ok_count by blast
    then have "slab_slots a d = map (slot_at a d) [0..<unat (slot_count d) - 1] @ [?p]"
      unfolding slab_slots_def by (metis Suc_pred' map_append list.map upt_Suc_append zero_le)
    then show ?thesis using ci len by simp
  qed
  moreover have "kept (live_blocks s A) s ?s"
  proof (rule keptI)
    show "bytes_kept (live_blocks s A) s ?s"
      using bytes_kept_fresh [OF ok h, of a "mapping_length d" s1] c by (simp add: bytes_kept_def)
    show "blocks ?s p = blocks s p" if "p \<in> live_blocks s A" for p
      using new(1) that by (simp add: objects_same_def live_in_arena)
  qed
  then have "refused s A ?s ?A" using hs(2) hn(2) by (simp add: refused_def)
  ultimately show ?thesis using that refill fs(1) by simp
qed

lemma refused_granted:
  assumes "refused s A s1 A1" and "granted p sz s1 A1 s2 A2" shows "granted p sz s A s2 A2"
  using assms by (auto simp: refused_def granted_def intro: kept_trans)

lemma allocate_small_contract:
  assumes ok: "os_ok env" and inv: "locked_inv env s A"
    and cls: "class_of sz = Some (ci, cap)"
  shows "\<exists>r s' A'. hplf_allocate_small env sz ci cap s = Some (r, s') \<and> locked_inv env s' A' \<and>
     (r = NULL \<and> errno s' = failure_errno env s sz \<and> \<not> can_serve env s sz \<and> refused s A s' A' \<or>
      (\<exists>p. r = p + 48 \<and> granted p sz s A s' A' \<and> serves s' sz p))"
proof -
  note cl = class_of_SomeD [OF cls]
  have mx: "\<not> registry_mutex s" and core: "locked_core env s A" using inv by (auto simp: locked_inv_def)
  from mx show ?thesis
  proof (cases rule: registry_lock_cases [where env = env])
    case (failed e)
    have "refused s A (s\<lparr>ticks := Suc (ticks s), errno := e\<rparr>) A" by (rule same_memory_locked(3)) simp
    with failed inv cls show ?thesis
      by (auto simp: hplf_allocate_small_def failure_errno_def can_serve_def)
  next
    case lock: succeeded
    let ?s = "s\<lparr>ticks := Suc (ticks s), registry_mutex := True\<rparr>"
    have core1: "locked_core env ?s A" and mx1: "registry_mutex ?s" using core by simp_all
    have ref1: "refused s A ?s A" by (simp add: refused_def)
    from core1 have fr: "free_ok ?s (abs_slabs A) (free_lists ?s) (abs_free A)"
      by (simp add: locked_core_def heap_ok_def)
    then have len: "length (free_lists s) = 16" by (simp add: free_ok_def)
    note tail = lock len cl(2)
    have le: "sz \<le> size_class_capacities ! unat ci" using cl(3,4) by simp
    show ?thesis
    proof (cases "free_lists s ! unat ci = NULL")
      case False
      with free_okD(1) [OF fr cl(2)] obtain xs where F: "abs_free A ! unat ci = (free_lists s ! unat ci) # xs"
        by (auto dest: chain_nonnull)
      obtain s' A' where
        "take_head env sz ci (free_lists s ! unat ci) ?s = Some ((free_lists s ! unat ci) + 48, s')"
        "locked_inv env s' A'" "granted (free_lists s ! unat ci) sz ?s A s' A'"
        "\<exists>b. blocks s' (free_lists s ! unat ci) = Some b \<and> kind b = HPLF_BLOCK_SMALL \<and>
          capacity b = size_class_capacities ! unat ci"
        by (rule take_head_granted [OF ok core1 mx1 cl(2) F cl(1) le])
      with False tail refused_granted [OF ref1] cls cl(3) show ?thesis
        by (auto simp: hplf_allocate_small_def serves_def)
    next
      case True
      then have F: "abs_free A ! unat ci = []" using free_ok_heads [OF fr cl(2)] by simp
      from ok cl(2,3) show ?thesis
      proof (cases rule: slab_create_cases [where x = NULL and y = NULL and s = ?s])
        case (failed s1)
        have "\<not> can_serve env s sz"
          using failed(3) True cls can_map_same [of ?s s] by (simp add: can_serve_def)
        moreover from locked_refill_failed [OF ok core1 mx1 failed(1,2)] obtain s' where
          "locked_refill env ci cap ?s = Some (Inl (NULL, s'))" "locked_inv env s' A"
          "refused ?s A s' A" "errno s' = ENOMEM" by blast
        ultimately show ?thesis using True tail
          by (auto simp: hplf_allocate_small_def failure_errno_def refused_def kept_def bytes_kept_def extent_def
              bshape_def)
      next
        case (succeeded a d s1)
        obtain p xs s2 A2 where
          r: "locked_refill env ci cap ?s = Some (Inr (p, s2))" "locked_core env s2 A2"
          "registry_mutex s2 = registry_mutex ?s" "abs_free A2 ! unat ci = p # xs" "refused ?s A s2 A2"
          by (rule locked_refill_created [OF ok core1 cl(2) F succeeded(2,3,1)])
        then have mx2: "registry_mutex s2" by simp
        obtain s' A' where
          "take_head env sz ci p s2 = Some (p + 48, s')" "locked_inv env s' A'" "granted p sz s2 A2 s' A'"
          "\<exists>b. blocks s' p = Some b \<and> kind b = HPLF_BLOCK_SMALL \<and> capacity b = size_class_capacities ! unat ci"
          by (rule take_head_granted [OF ok r(2) mx2 cl(2) r(4) cl(1) le])
        moreover from this r(5) have "granted p sz ?s A s' A'" by (blast intro: refused_granted)
        ultimately show ?thesis using True tail r(1) refused_granted [OF ref1] cls cl(3)
          by (auto simp: hplf_allocate_small_def serves_def)
      qed
    qed
  qed
qed

section \<open>Large allocations and \<open>hplf_malloc\<close>\<close>

lemma allocate_large_contract:
  assumes ok: "os_ok env" and inv: "locked_inv env s A" and sz: "sz \<noteq> 0" and cls: "class_of sz = None"
  shows "\<exists>r s' A'. hplf_allocate_large env sz s = Some (r, s') \<and> locked_inv env s' A' \<and>
     (r = NULL \<and> errno s' = failure_errno env s sz \<and> \<not> can_serve env s sz \<and> refused s A s' A' \<or>
      (\<exists>p. r = p + 48 \<and> granted p sz s A s' A' \<and> serves s' sz p))"
  using ok sz
proof (cases rule: allocate_large_cases [where s = s])
  case (failed s')
  with inv same_memory_locked [OF failed(2)] show ?thesis
    by (auto simp: locked_inv_def failure_errno_def can_serve_def cls intro!: exI [of _ A])
next
  case (succeeded p len s')
  have h: "heap_ok env s (free_lists s) A" and ch: "chain (slab_link s) (slabs s) (abs_slabs A)"
    and mx: "\<not> registry_mutex s" using inv by (auto simp: locked_inv_def locked_core_def)
  note c = succeeded(2) [unfolded large_created_def]
  have "world.more s' = world.more s" using c by (simp add: outside_same_def)
  note fs = locked_fields [OF this] and hn = heap_new_large [OF ok h sz succeeded(2)]
  let ?A = "A\<lparr>abs_large := insert p (abs_large A)\<rparr>"
  have "chain (slab_link s') (slabs s) (abs_slabs A) \<longleftrightarrow> chain (slab_link s) (slabs s) (abs_slabs A)"
    using hn(4) by (intro chain_cong) (simp add: objects_same_def slab_link_def)
  then have "locked_inv env s' ?A" using hn(1) ch mx fs by (simp add: locked_inv_def locked_core_def)
  moreover have "kept (live_blocks s A) s s'"
  proof (rule keptI)
    show "bytes_kept (live_blocks s A) s s'" using bytes_kept_fresh [OF ok h, of p len s'] c by simp
    show "blocks s' q = blocks s q" if "q \<in> live_blocks s A" for q
      using hn(4) that by (simp add: objects_same_def live_in_arena)
  qed
  then have "granted p sz s A s' ?A" using hn(2,3) c by (simp add: granted_def)
  moreover have "serves s' sz p" using c cls by (simp add: serves_def)
  ultimately show ?thesis using succeeded(1) by blast
qed

lemma refused_errno: "locked_inv env s A \<Longrightarrow> refused s A (s\<lparr>errno := e\<rparr>) A"
  by (rule same_memory_locked(3)) simp

lemma malloc_locked:
  assumes ok: "os_ok env" and inv: "locked_inv env s A"
  shows "\<exists>r s' A'. hplf_malloc env sz s = Some (r, s') \<and> locked_inv env s' A' \<and>
     (r = NULL \<and> (sz \<noteq> 0 \<longrightarrow> errno s' = failure_errno env s sz) \<and> \<not> can_serve env s sz \<and> refused s A s' A' \<or>
      sz \<noteq> 0 \<and> sz \<le> PTRDIFF_MAX \<and> (\<exists>p. r = p + 48 \<and> granted p sz s A s' A' \<and> serves s' sz p))"
proof -
  consider "sz = 0" | "sz \<noteq> 0" "sz > PTRDIFF_MAX" | "sz \<noteq> 0" "\<not> sz > PTRDIFF_MAX" by blast
  then show ?thesis
  proof cases
    case 1
    then show ?thesis using inv refused_errno [OF inv, of "errno s"] by (auto simp: hplf_malloc_def can_serve_def)
  next
    case 2
    then have "class_of sz = None"
      by (intro class_of_None) (auto simp: size_t_less_iff HPLF_MAX_SMALL_SIZE_def)
    with 2 show ?thesis using inv refused_errno [OF inv, of ENOMEM]
      by (auto simp: hplf_malloc_def failure_errno_def can_serve_def)
  next
    case 3
    show ?thesis
    proof (cases "class_of sz")
      case None
      with 3 allocate_large_contract [OF ok inv, of sz] show ?thesis
        by (auto simp: hplf_malloc_def not_less)
    next
      case (Some c)
      obtain ci cap where c: "c = (ci, cap)" by (cases c)
      with 3 Some allocate_small_contract [OF ok inv, of sz ci cap] show ?thesis
        by (auto simp: hplf_malloc_def not_less)
    qed
  qed
qed

section \<open>\<open>hplf_free\<close>\<close>

lemma free_small_locked:
  assumes ok: "os_ok env" and inv: "locked_inv env s A" and p: "p \<in> live_blocks s A"
    and sm: "a \<in> set (abs_slabs A)" "slab_conf env s a d" "k < unat (slot_count d)" "p = slot_at a d k"
  shows "\<exists>s' A'. hplf_free env (p + 48) s = Some s' \<and> locked_inv env s' A' \<and> released p s A s' A' \<and>
     (lock_result env (ticks s) = 0 \<longrightarrow> p \<notin> live_blocks s' A')"
proof -
  have h: "heap_ok env s (free_lists s) A" and ch: "chain (slab_link s) (slabs s) (abs_slabs A)"
    and mx: "\<not> registry_mutex s" using inv by (auto simp: locked_inv_def locked_core_def)
  then have ar: "arena_ok env s (abs_slabs A) (abs_large A)" and
    fr: "free_ok s (abs_slabs A) (free_lists s) (abs_free A)" by (auto simp: heap_ok_def)
  have len: "length (free_lists s) = 16" using fr by (simp add: free_ok_def)
  have pn: "p + 48 \<noteq> NULL" and fp: "hplf_block_from_payload (p + 48) = p"
    using payload_address [OF ok ar live_in_arena [OF p]] by (auto simp: hplf_block_from_payload_eq)
  from sm(2-4) obtain b where b: "blocks s p = Some b" "owner b = OwnerSmall a" "kind b = HPLF_BLOCK_SMALL"
    by (auto simp: slab_conf_def bshape_def)
  from sm(2) obtain d' where d': "slab_objs s a = Some d'" "class_index d' = class_index d"
    by (auto simp: slab_conf_def sshape_def)
  have ci: "unat (class_index d) < 16" using sm(2) by (simp add: slab_conf_def slab_ok_def)
  have cl: "in_class s (abs_slabs A) (unat (class_index d)) p"
    using sm by (auto simp: in_class_def slab_conf_def in_slab_slots)
  from mx show ?thesis
  proof (cases rule: registry_lock_cases [where env = env])
    case (failed e)
    have "same_memory s (s\<lparr>ticks := Suc (ticks s)\<rparr>)" by simp
    from same_memory_locked(3) [OF this] have "released p s A (s\<lparr>ticks := Suc (ticks s)\<rparr>) A"
      by (auto simp: refused_def released_def intro: kept_mono)
    moreover have "lock_result env (ticks s) \<noteq> 0" using failed by simp
    ultimately show ?thesis
      using failed b d' pn fp inv by (auto simp: hplf_free_def intro!: exI [of _ A])
  next
    case succeeded
    let ?b = "b\<lparr>requested_size := 0, next_free := free_lists s ! unat (class_index d)\<rparr>"
    let ?s = "s\<lparr>ticks := Suc (Suc (ticks s)), registry_mutex := False, blocks := (blocks s)(p \<mapsto> ?b),
      free_lists := (free_lists s)[unat (class_index d) := p]\<rparr>"
    let ?A = "A\<lparr>abs_free := (abs_free A)[unat (class_index d) := p # abs_free A ! unat (class_index d)]\<rparr>"
    have run: "hplf_free env (p + 48) s = Some ?s"
      using succeeded b d' pn fp ci len ok
      by (simp add: hplf_free_def update_block_def set_next_free_def registry_unlock_held Let_def)
    have chg: "block_changed p b ?b s ?s" using b(1) by (simp add: block_changed_def)
    have nx: "next_free ?b = free_lists s ! unat (class_index d)" by simp
    note push = heap_push [OF ok h ci p cl chg nx]
    have "slab_link ?s = slab_link s" by (simp add: slab_link_def fun_eq_iff)
    then have "locked_inv env ?s ?A" using push(1) ch by (simp add: locked_inv_def locked_core_def)
    moreover have "released p s A ?s ?A"
      using push(2) by (auto simp: released_def kept_def)
    ultimately show ?thesis using run push(2) by blast
  qed
qed

lemma free_large_locked:
  assumes ok: "os_ok env" and inv: "locked_inv env s A" and p: "p \<in> live_blocks s A"
    and lg: "p \<in> abs_large A" "large_conf s p len"
  shows "\<exists>s' A'. hplf_free env (p + 48) s = Some s' \<and> locked_inv env s' A' \<and> released p s A s' A' \<and>
     (unmap_reliable env \<longrightarrow> p \<notin> live_blocks s' A')"
proof -
  have h: "heap_ok env s (free_lists s) A" and ch: "chain (slab_link s) (slabs s) (abs_slabs A)"
    and mx: "\<not> registry_mutex s" using inv by (auto simp: locked_inv_def locked_core_def)
  then have ar: "arena_ok env s (abs_slabs A) (abs_large A)" by (simp add: heap_ok_def)
  have pn: "p + 48 \<noteq> NULL" and fp: "hplf_block_from_payload (p + 48) = p"
    using payload_address [OF ok ar live_in_arena [OF p]] by (auto simp: hplf_block_from_payload_eq)
  from lg(2) obtain b where b: "blocks s p = Some b" "owner b = OwnerLarge p len" "kind b = HPLF_BLOCK_LARGE"
    and m: "(p, len) \<in> set (mappings s)" by (auto simp: large_conf_def bshape_def)
  with ar have "p \<noteq> NULL" "len \<noteq> 0" by (auto simp: arena_ok_def dest: maps_okD)
  with m show ?thesis
  proof (cases rule: os_unmap_cases [where env = env and r = 0])
    case (failed s1)
    have run: "hplf_free env (p + 48) s = Some (s1\<lparr>errno := errno s\<rparr>)"
      using failed(1) b pn fp by (simp add: hplf_free_def Let_def)
    have "same_memory s (s1\<lparr>errno := errno s\<rparr>)" using failed(2) by simp
    note sm = same_memory_locked [OF this]
    then have "released p s A (s1\<lparr>errno := errno s\<rparr>) A"
      by (auto simp: refused_def released_def intro: kept_mono)
    moreover have "\<not> unmap_reliable env"
      using os_unmap_reliable [OF _ failed(1)] \<open>p \<noteq> NULL\<close> \<open>len \<noteq> 0\<close> by auto
    ultimately show ?thesis using run sm inv by (auto simp: locked_inv_def)
  next
    case (succeeded s1)
    let ?s = "s1\<lparr>errno := errno s\<rparr>" and ?A = "A\<lparr>abs_large := abs_large A - {p}\<rparr>"
    have run: "hplf_free env (p + 48) s = Some ?s"
      using succeeded(1) b pn fp by (simp add: hplf_free_def Let_def)
    note gone = succeeded(2) [unfolded range_unmapped_def range_gone_def]
    note fs = locked_fields [of s1 s] and drop = heap_drop_large [OF ok h lg succeeded(2)]
    have "chain (slab_link s1) (slabs s) (abs_slabs A) \<longleftrightarrow> chain (slab_link s) (slabs s) (abs_slabs A)"
      using drop(3) by (intro chain_cong) (simp add: objects_same_def slab_link_def)
    then have "locked_inv env ?s ?A" using drop(1) ch mx fs gone by (simp add: locked_inv_def locked_core_def)
    moreover have "kept (live_blocks s A - {p}) s ?s"
    proof (rule keptI)
      fix q assume q: "q \<in> live_blocks s A - {p}"
      then have "q \<in> arena_blocks s (abs_slabs A) (abs_large A - {p})"
        by (auto simp: live_blocks_def arena_blocks_def)
      with drop(3) show "blocks ?s q = blocks s q" by (simp add: objects_same_def)
    next
      have "bytes_kept (live_blocks s A - {p}) s s1"
      proof (rule bytes_kept_outside [of p "unat len"])
        show "outside_same p (unat len) s s1" using gone by (simp add: outside_same_def)
        show "disjoint_ranges p (unat len) q (extent s q)" if "q \<in> live_blocks s A - {p}" for q
          using extents_disjoint [OF ok ar live_in_arena [OF p], of q] that
          by (auto simp: extent_large [OF lg(2)] live_in_arena)
      qed
      then show "bytes_kept (live_blocks s A - {p}) s ?s" by (simp add: bytes_kept_def)
    qed
    ultimately show ?thesis using run drop(2) by (auto simp: released_def)
  qed
qed

lemma free_locked:
  assumes ok: "os_ok env" and inv: "locked_inv env s A" and p: "p \<in> live_blocks s A"
  shows "\<exists>s' A'. hplf_free env (p + 48) s = Some s' \<and> locked_inv env s' A' \<and> released p s A s' A' \<and>
     (lock_result env (ticks s) = 0 \<and> unmap_reliable env \<longrightarrow> p \<notin> live_blocks s' A')"
proof -
  have ar: "arena_ok env s (abs_slabs A) (abs_large A)"
    using inv by (simp add: locked_inv_def locked_core_def heap_ok_def)
  from ar live_in_arena [OF p] show ?thesis
  proof (cases rule: arena_block_cases)
    case (small a d k)
    then show ?thesis using free_small_locked [OF ok inv p] by blast
  next
    case (large len)
    then show ?thesis using free_large_locked [OF ok inv p] by blast
  qed
qed

text \<open>A freed small block becomes the first block of its class, and the next one handed out.\<close>

lemma free_small_head:
  assumes ok: "os_ok env" and inv: "locked_inv env s A" and p: "p \<in> live_blocks s A"
    and b: "blocks s p = Some b" "kind b = HPLF_BLOCK_SMALL" and cls: "class_of sz = Some (ci, capacity b)"
    and lk: "lock_result env (ticks s) = 0"
  shows "\<exists>s' A'. hplf_free env (p + 48) s = Some s' \<and> locked_inv env s' A' \<and> free_lists s' ! unat ci = p"
proof -
  have h: "heap_ok env s (free_lists s) A" and mx: "\<not> registry_mutex s"
    using inv by (auto simp: locked_inv_def locked_core_def)
  then have ar: "arena_ok env s (abs_slabs A) (abs_large A)" and len: "length (free_lists s) = 16"
    by (auto simp: heap_ok_def free_ok_def)
  have pn: "p + 48 \<noteq> NULL" and fp: "hplf_block_from_payload (p + 48) = p"
    using payload_address [OF ok ar live_in_arena [OF p]] by (auto simp: hplf_block_from_payload_eq)
  from ar live_in_arena [OF p] b(2) obtain a d k where
    sm: "a \<in> set (abs_slabs A)" "slab_conf env s a d" "k < unat (slot_count d)" "p = slot_at a d k"
    by (cases rule: arena_block_cases) (auto simp: large_conf_def bshape_def b(1))
  then have own: "owner b = OwnerSmall a" "capacity b = class_capacity d"
    using b(1) by (auto simp: slab_conf_def bshape_def)
  from sm(2) obtain d' where d': "slab_objs s a = Some d'" "class_index d' = class_index d" by (rule slab_header)
  note cl = class_of_SomeD [OF cls]
  have dk: "unat (class_index d) < 16" "class_capacity d = size_class_capacities ! unat (class_index d)"
    using sm(2) by (auto simp: slab_conf_def slab_ok_def)
  have "distinct size_class_capacities" "length size_class_capacities = 16"
    by (simp_all add: size_class_capacities_def)
  then have ci: "class_index d = ci"
    using cl(2,3) dk own(2) by (simp add: nth_eq_iff_index_eq unat_inj_iff)
  from free_small_locked [OF ok inv p sm] obtain s' A' where
    f: "hplf_free env (p + 48) s = Some s'" "locked_inv env s' A'" by blast
  have "free_lists s' ! unat ci = p"
    using f(1) b own(1) d' pn fp ci cl(2) len ok lk mx
    by (auto simp: hplf_free_def Let_def registry_lock_def registry_unlock_def pthread_mutex_lock_def
        pthread_mutex_unlock_def update_block_def set_next_free_def)
  with f show ?thesis by blast
qed

lemma allocate_small_head:
  assumes ok: "os_ok env" and inv: "locked_inv env s A" and cls: "class_of sz = Some (ci, cap)"
    and hd: "free_lists s ! unat ci = p" "p \<noteq> NULL" and lk: "lock_result env (ticks s) = 0"
  shows "\<exists>s' A'. hplf_allocate_small env sz ci cap s = Some (p + 48, s') \<and> locked_inv env s' A'"
proof -
  note cl = class_of_SomeD [OF cls]
  let ?s = "s\<lparr>ticks := Suc (ticks s), registry_mutex := True\<rparr>"
  have core: "locked_core env ?s A" and mx: "registry_mutex ?s" using inv by (simp_all add: locked_inv_def)
  then have fr: "free_ok ?s (abs_slabs A) (free_lists ?s) (abs_free A)"
    by (simp add: locked_core_def heap_ok_def)
  then have len: "length (free_lists s) = 16" by (simp add: free_ok_def)
  have lock: "registry_lock env s = Some (0, ?s)"
    using inv lk by (simp add: registry_lock_def pthread_mutex_lock_def locked_inv_def)
  from free_okD(1) [OF fr cl(2)] hd obtain xs where F: "abs_free A ! unat ci = p # xs"
    by (auto dest: chain_nonnull)
  have "sz \<le> size_class_capacities ! unat ci" using cl(3,4) by simp
  then obtain s' A' where "take_head env sz ci p ?s = Some (p + 48, s')" "locked_inv env s' A'"
    "granted p sz ?s A s' A'"
    "\<exists>b. blocks s' p = Some b \<and> kind b = HPLF_BLOCK_SMALL \<and> capacity b = size_class_capacities ! unat ci"
    by (rule take_head_granted [OF ok core mx cl(2) F cl(1)])
  then show ?thesis using lock hd len cl(2) by (auto simp: hplf_allocate_small_def)
qed

section \<open>The locked baseline is an allocator\<close>

lemma locked_frame:
  fixes s :: locked_state
  assumes "locked_inv env s A"
    and "objects_same (abs_slabs A) (abs_large A) s (s\<lparr>blocks := B, slab_objs := S, bytes := Y\<rparr>)"
  shows "locked_inv env (s\<lparr>blocks := B, slab_objs := S, bytes := Y\<rparr>) A"
proof -
  let ?t = "s\<lparr>blocks := B, slab_objs := S, bytes := Y\<rparr>"
  have h: "heap_ok env s (free_lists s) A" using assms(1) by (simp add: locked_inv_def locked_core_def)
  have "heap_same s ?t A" using assms(2) by (simp add: heap_same_def objects_same_def sshape_def)
  from heap_same_ok(1) [OF h this] have "heap_ok env ?t (free_lists s) A" .
  moreover have "chain (slab_link ?t) (slabs s) (abs_slabs A) \<longleftrightarrow> chain (slab_link s) (slabs s) (abs_slabs A)"
    using assms(2) by (intro chain_cong) (simp add: objects_same_def slab_link_def)
  ultimately show ?thesis using assms(1) by (simp add: locked_inv_def locked_core_def)
qed

lemma locked_resize:
  fixes s :: locked_state
  assumes "locked_inv env s A" and "p \<in> live_blocks s A" and "blocks s p = Some b"
    and "sz \<noteq> 0" and "sz \<le> capacity b"
  shows "locked_inv env (s\<lparr>blocks := (blocks s)(p \<mapsto> b\<lparr>requested_size := sz\<rparr>)\<rparr>) A"
proof -
  have "heap_ok env s (free_lists s) A" using assms(1) by (simp add: locked_inv_def locked_core_def)
  from heap_resize(1) [OF this assms(2), of b "b\<lparr>requested_size := sz\<rparr>"] assms
  show ?thesis by (simp add: locked_inv_def locked_core_def block_changed_def)
qed

interpretation locked: allocator locked_inv hplf_malloc hplf_free
proof (unfold_locales, goal_cases)
  case (1 env s A)
  then show ?case by (simp add: locked_inv_def locked_core_def heap_ok_def)
next
  case (2 env s A p)
  then show ?case by (simp add: locked_inv_def locked_core_def heap_ok_def)
next
  case (3 env s A B S Y)
  then show ?case by (rule locked_frame)
next
  case (4 env s A e)
  then show ?case by simp
next
  case (5 env s A p b sz)
  then show ?case by (rule locked_resize)
next
  case (6 env s A sz)
  then show ?case using malloc_locked [of env s A sz] failure_errno_nonzero [of env s sz] by fastforce
next
  case (7 env s A p)
  then show ?case using free_locked by blast
next
  case (8 env s)
  then show ?case by (simp add: hplf_free_def)
qed

section \<open>Trimming\<close>

lemma trim_locked:
  assumes ok: "os_ok env" and inv: "locked_inv env s A"
  shows "\<exists>n s' A' dropped. hplf_trim_quiescent env s = Some (n, s') \<and> locked_inv env s' A' \<and>
    live_blocks s' A' = live_blocks s A \<and> kept (live_blocks s A) s s' \<and> abs_large A' = abs_large A \<and>
    abs_slabs A' = filter (\<lambda>a. a \<notin> set dropped) (abs_slabs A) \<and> distinct dropped \<and>
    set dropped \<subseteq> set (abs_slabs A) \<and> (\<forall>a \<in> set dropped. idle s A a) \<and>
    set (mappings s') = {m \<in> set (mappings s). fst m \<notin> set dropped} \<and>
    unat n = min (SIZE_BOUND - 1) (length dropped * slab_bytes (sc_pagesize env)) \<and>
    (unmap_reliable env \<and> lock_result env (ticks s) = 0 \<longrightarrow> (\<forall>a \<in> set (abs_slabs A). idle s A a \<longrightarrow> a \<in> set dropped))"
proof -
  have mx: "\<not> registry_mutex s" and core: "locked_core env s A" using inv by (auto simp: locked_inv_def)
  from mx show ?thesis
  proof (cases rule: registry_lock_cases [where env = env])
    case (failed e)
    have "lock_result env (ticks s) \<noteq> 0" using failed by simp
    with failed inv show ?thesis
      by (intro exI [of _ 0] exI [of _ "s\<lparr>ticks := Suc (ticks s)\<rparr>"] exI [of _ A] exI [of _ "[]"])
        (simp add: hplf_trim_quiescent_def)
  next
    case lock: succeeded
    let ?s = "s\<lparr>ticks := Suc (ticks s), registry_mutex := True\<rparr>"
    have core': "locked_core env ?s A" using core by simp
    have "walk_ok env ?s (slabs s) (free_lists s) A"
      using core' unfolding walk_ok_def locked_core_def heap_ok_lists by simp
    from trim_loop_spec [OF ok this, of "[]" "abs_slabs A" 0] obtain n head lists s1 A1 dropped where
      t: "trim_loop env RegistryHead 0 (slabs s) (free_lists s) ?s = Some (n, head, lists, s1)"
      "walk_ok env s1 head lists A1" "trimmed env dropped ?s A s1 A1"
      "unat n = min (SIZE_BOUND - 1) (length dropped * slab_bytes (sc_pagesize env))"
      "unmap_reliable env \<longrightarrow> (\<forall>a \<in> set (abs_slabs A). idle ?s A a \<longrightarrow> a \<in> set dropped)"
      by (auto simp: walk_ref_def)
    note tr = t(3) [unfolded trimmed_def]
    have mx1: "registry_mutex s1" using tr locked_fields(1) [of s1 ?s] by simp
    let ?s1 = "s1\<lparr>slabs := head, free_lists := lists, ticks := Suc (ticks s1), registry_mutex := False\<rparr>"
    have run: "hplf_trim_quiescent env s = Some (n, ?s1)"
      using lock t(1) registry_unlock_held [OF ok, of "s1\<lparr>slabs := head, free_lists := lists\<rparr>"] mx1
      by (simp add: hplf_trim_quiescent_def)
    have "live_ok ?s p" if "p \<in> live_blocks ?s A" for p 
      using core' that unfolding locked_core_def heap_ok_lists by blast
    then have "\<forall>p \<in> live_blocks s1 A1. live_ok s1 p" using tr by (simp add: live_ok_def kept_def)
    then have "heap_ok env s1 lists A1" using t(2) by (simp add: walk_ok_def heap_ok_lists)
    then have "locked_inv env ?s1 A1" using t(2) by (simp add: locked_inv_def locked_core_def walk_ok_def)
    moreover have idle: "idle ?s A a = idle s A a" for a
      by (simp add: idle_def slots_of_def sshape_def)
    moreover have "kept (live_blocks s A) s ?s1"
      using tr by (simp add: kept_def bytes_kept_def extent_def bshape_def)
    ultimately show ?thesis
      using run tr t(4,5) by (intro exI [of _ n] exI [of _ ?s1] exI [of _ A1] exI [of _ dropped]) simp
  qed
qed

end
