(* ===== verification/Demo.thy ===== *)
theory Demo
  imports Allocator_Locked
begin

text \<open>
  A concrete operating system for the witnesses: 4096-byte pages, \<open>mmap\<close> places each mapping at the
  first page boundary above all others, \<open>munmap\<close> and the mutexes always succeed.  It shows that the
  assumptions of \<open>os_ok\<close> can hold, and it runs the model.
\<close>

section \<open>Definitions\<close>

definition demo_top :: "(addr \<times> size_t) list \<Rightarrow> nat" where
  "demo_top ms = round_up (foldr (\<lambda>(b, l) n. max (unat b + unat l) n) ms 4096) 4096"

definition demo_mmap :: "nat \<Rightarrow> (addr \<times> size_t) list \<Rightarrow> size_t \<Rightarrow> int + addr" where
  "demo_mmap t ms len =
     (if demo_top ms + unat len < SIZE_BOUND then Inr (word_of_nat (demo_top ms)) else Inl ENOMEM)"

definition demo_env :: os_env where
  "demo_env = \<lparr>hplf_testing = False, sc_pagesize = 4096, mmap_result = demo_mmap,
     munmap_result = (\<lambda>t b l. 0), lock_result = (\<lambda>t. 0), unlock_result = (\<lambda>t. 0)\<rparr>"

definition no_faults :: hplf_os_fault_state where
  "no_faults = \<lparr>page_query_calls = 0, map_calls = 0, unmap_calls = 0, successful_maps = 0,
     successful_unmaps = 0, fail_page_query_on = 0, fail_map_on = 0, fail_unmap_on = 0\<rparr>"

definition demo_locked :: locked_state where
  "demo_locked = \<lparr>errno = 0, ticks = 0, mappings = [], blocks = (\<lambda>p. None), slab_objs = (\<lambda>p. None),
     bytes = (\<lambda>p. None), fault_state = no_faults, registry_mutex = False,
     free_lists = replicate 16 NULL, slabs = NULL\<rparr>"

section \<open>The assumptions hold\<close>

lemma demo_top_above: "(b, l) \<in> set ms \<Longrightarrow> unat b + unat l \<le> demo_top ms"
proof -
  assume "(b, l) \<in> set ms"
  then have "unat b + unat l \<le> foldr (\<lambda>(b, l) n. max (unat b + unat l) n) ms 4096"
    by (induction ms) auto
  then show ?thesis using round_up_ge [of 4096] by (auto simp: demo_top_def intro: le_trans)
qed

lemma demo_top_page:
  shows "4096 dvd demo_top ms" and "4096 \<le> demo_top ms"
proof -
  have "4096 \<le> foldr (\<lambda>(b, l) n. max (unat b + unat l) n) ms 4096" by (induction ms) auto
  then show "4096 \<le> demo_top ms" using round_up_ge [of 4096] by (auto simp: demo_top_def intro: le_trans)
  show "4096 dvd demo_top ms" by (simp add: demo_top_def)
qed

lemma demo_env_ok: "os_ok demo_env"
proof -
  have "base \<noteq> NULL \<and> 4096 dvd unat base \<and> unat base + unat len \<le> SIZE_BOUND \<and>
      (\<forall>(b, l) \<in> set ms. disjoint_ranges base (unat len) b (unat l))"
    if "demo_mmap t ms len = Inr base" for t ms len base
  proof -
    from that have lt: "demo_top ms + unat len < SIZE_BOUND" and base: "base = word_of_nat (demo_top ms)"
      by (auto simp: demo_mmap_def split: if_splits)
    then have u: "unat base = demo_top ms" by (simp add: unat_word_of_nat)
    have "base \<noteq> NULL" using u demo_top_page(2) [of ms] by auto
    with lt u demo_top_page(1) [of ms] demo_top_above show ?thesis by (auto simp: disjoint_ranges_def)
  qed
  then show ?thesis by (simp add: os_ok_def demo_env_def)
qed

lemma demo_init: "locked_init demo_locked" "maps_ok demo_env (mappings demo_locked)"
  by (simp_all add: locked_init_def demo_locked_def maps_ok_def)

lemmas demo_inv = locked_init_inv [OF demo_init]

lemma demo_can_map: "n \<le> 1048576 \<Longrightarrow> can_map demo_env demo_locked n"
  by (simp add: can_map_def demo_env_def demo_locked_def demo_mmap_def demo_top_def round_up_def unat_word_of_nat)

text \<open>In this system a first request is served, small or large.\<close>

lemma demo_small_served: "can_serve demo_env demo_locked 40"
proof -
  have "class_of 40 \<noteq> None" by (intro class_of_total) (simp_all add: HPLF_MAX_SMALL_SIZE_def)
  moreover have "can_map demo_env demo_locked (slab_bytes (sc_pagesize demo_env))"
    by (rule demo_can_map) (simp add: demo_env_def slab_bytes_def round_up_def)
  ultimately show ?thesis
    by (auto simp: can_serve_def demo_env_def PTRDIFF_MAX_def split: option.splits)
qed

lemma demo_large_served: "can_serve demo_env demo_locked 5000"
proof -
  have "class_of 5000 = None" by (intro class_of_None) (simp add: HPLF_MAX_SMALL_SIZE_def)
  moreover have "can_map demo_env demo_locked (round_up (48 + unat (5000 :: size_t)) (unat (sc_pagesize demo_env)))"
    by (rule demo_can_map) (simp add: demo_env_def round_up_def)
  ultimately show ?thesis by (simp add: can_serve_def PTRDIFF_MAX_def)
qed

text \<open>A state with a live block of a given size.\<close>

lemma demo_live:
  assumes "can_serve demo_env demo_locked sz"
  obtains p s A where "hplf_malloc demo_env sz demo_locked = Some (p + 48, s)" "locked_inv demo_env s A"
    "p \<in> live_blocks s A" "serves s sz p"
  using malloc_locked [OF demo_env_ok demo_inv(1), of sz] assms that by (auto simp: granted_def)

lemma demo_nonnull:
  assumes "can_serve demo_env demo_locked sz" and "hplf_malloc demo_env sz demo_locked = Some (r, s)"
  shows "r \<noteq> NULL"
  using assms(1)
proof (rule demo_live)
  fix p s' A assume "hplf_malloc demo_env sz demo_locked = Some (p + 48, s')" "locked_inv demo_env s' A"
    "p \<in> live_blocks s' A"
  then show ?thesis using assms(2) locked.live_payload(1) [OF demo_env_ok, of s' A p] by simp
qed

end
