(* ===== verification/Transfer_List.thy ===== *)
theory Transfer_List
  imports Arena
begin

text \<open>
  \<open>src/transfer_list.h\<close>: descriptors of block chains, the unit in which blocks change hands between
  threads.
\<close>

section \<open>Definitions\<close>

record hplf_transfer_list =
  tl_first :: addr
  tl_last :: addr
  tl_count :: size_t

definition hplf_transfer_list_clear :: "hplf_transfer_list \<Rightarrow> hplf_transfer_list" where
  "hplf_transfer_list_clear list = list\<lparr>tl_first := NULL, tl_last := NULL, tl_count := 0\<rparr>"

partial_function (option) from_chain_loop ::
  "'a world_scheme \<Rightarrow> addr \<Rightarrow> addr \<Rightarrow> size_t \<Rightarrow> (addr \<times> size_t) option" where
  "from_chain_loop s block last' count =
     (if block = NULL then Some (last', count)
      else do {
        b \<leftarrow> blocks s block;
        from_chain_loop s (next_free b) block (count + 1)
      })"

definition hplf_transfer_list_from_chain :: "addr \<Rightarrow> 'a world_scheme \<Rightarrow> hplf_transfer_list option" where
  "hplf_transfer_list_from_chain first s = do {
     (last', count) \<leftarrow> from_chain_loop s first NULL 0;
     Some \<lparr>tl_first = first, tl_last = last', tl_count = count\<rparr>
   }"

text \<open>\<open>while (--taken != 0) last = last->next_free;\<close> runs \<open>taken - 1\<close> times, the subtraction wrapping.\<close>

fun prefix_walk :: "'a world_scheme \<Rightarrow> nat \<Rightarrow> addr \<Rightarrow> addr option" where
  "prefix_walk s 0 last' = Some last'"
| "prefix_walk s (Suc n) last' = do {
     b \<leftarrow> blocks s last';
     prefix_walk s n (next_free b)
   }"

definition hplf_transfer_list_take_prefix ::
  "hplf_transfer_list \<Rightarrow> size_t \<Rightarrow> hplf_transfer_list \<Rightarrow> 'a world_scheme \<Rightarrow>
   (hplf_transfer_list \<times> hplf_transfer_list \<times> 'a world_scheme) option" where
  "hplf_transfer_list_take_prefix source maximum_count output s =
     (let output = hplf_transfer_list_clear output in
      if tl_first source = NULL \<or> maximum_count = 0 then Some (source, output, s)
      else do {
        let taken = (if tl_count source < maximum_count then tl_count source else maximum_count);
        last' \<leftarrow> prefix_walk s (unat (taken - 1)) (tl_first source);
        let output = output\<lparr>tl_first := tl_first source, tl_last := last', tl_count := taken\<rparr>;
        b \<leftarrow> blocks s last';
        let source = source\<lparr>tl_first := next_free b\<rparr>;
        s \<leftarrow> set_next_free last' NULL s;
        let source = source\<lparr>tl_count := tl_count source - taken\<rparr>;
        Some (if tl_first source = NULL then source\<lparr>tl_last := NULL\<rparr> else source, output, s)
      })"

section \<open>Well-formed descriptors\<close>

definition list_ok :: "'a world_scheme \<Rightarrow> hplf_transfer_list \<Rightarrow> addr list \<Rightarrow> bool" where
  "list_ok s l xs \<longleftrightarrow> chain (block_next s) (tl_first l) xs \<and>
     tl_last l = (if xs = [] then NULL else last xs) \<and> tl_count l = word_of_nat (length xs)"

text \<open>The same without the pointer to the last node, which a thread's cache does not keep.\<close>

definition chain_ok :: "'a world_scheme \<Rightarrow> hplf_transfer_list \<Rightarrow> addr list \<Rightarrow> bool" where
  "chain_ok s l xs \<longleftrightarrow> chain (block_next s) (tl_first l) xs \<and> tl_count l = word_of_nat (length xs)"

lemma list_ok_chain: "list_ok s l xs \<Longrightarrow> chain_ok s l xs"
  by (simp add: list_ok_def chain_ok_def)

lemma clear_ok [simp]: "list_ok s (hplf_transfer_list_clear l) []"
  by (simp add: list_ok_def hplf_transfer_list_clear_def)

lemma list_ok_cong: "block_next s' = block_next s \<Longrightarrow> list_ok s' l xs = list_ok s l xs"
  by (simp add: list_ok_def)

lemma list_ok_frame:
  assumes "list_ok s l xs" and "relinked X s s'" and "X \<inter> set xs = {}"
  shows "list_ok s' l xs"
proof -
  have "chain (block_next s') (tl_first l) xs \<longleftrightarrow> chain (block_next s) (tl_first l) xs"
    using assms(2,3) by (intro chain_cong) (auto simp: relinked_def block_next_def)
  with assms(1) show ?thesis by (simp add: list_ok_def)
qed

lemma chain_first: "chain nx p xs \<Longrightarrow> p = NULL \<longleftrightarrow> xs = []"
  by (cases xs) auto

section \<open>Contracts\<close>

lemma from_chain_loop_spec:
  "chain (block_next s) p xs \<Longrightarrow>
     from_chain_loop s p l n = Some (if xs = [] then l else last xs, n + word_of_nat (length xs))"
proof (induction xs arbitrary: p l n)
  case Nil
  then show ?case by (subst from_chain_loop.simps) simp
next
  case (Cons x xs)
  then obtain b where "blocks s x = Some b" "p = x" "x \<noteq> NULL" "chain (block_next s) (next_free b) xs"
    by (auto simp: block_next_Some)
  with Cons.IH [of "next_free b" x "n + 1"] show ?case
    by (subst from_chain_loop.simps) (simp add: algebra_simps)
qed

lemma from_chain_spec:
  assumes "chain (block_next s) p xs"
  obtains l where "hplf_transfer_list_from_chain p s = Some l" "list_ok s l xs"
  using from_chain_loop_spec [OF assms, of NULL 0] assms that
  by (simp add: hplf_transfer_list_from_chain_def list_ok_def)

lemma prefix_walk_spec:
  "chain (block_next s) p xs \<Longrightarrow> n < length xs \<Longrightarrow> prefix_walk s n p = Some (xs ! n)"
proof (induction n arbitrary: p xs)
  case 0
  then show ?case by (cases xs) auto
next
  case (Suc n)
  then obtain x ys where xs: "xs = x # ys" by (cases xs) auto
  with Suc.prems obtain b where "blocks s x = Some b" "p = x" "chain (block_next s) (next_free b) ys"
    by (auto simp: block_next_Some)
  with Suc.IH [of "next_free b" ys] Suc.prems(2) xs show ?case by simp
qed

lemma take_prefix_spec:
  fixes maximum_count :: size_t
  assumes src: "chain_ok s source xs"
  defines "n \<equiv> unat maximum_count"
  obtains source' output' s' where
    "hplf_transfer_list_take_prefix source maximum_count output s = Some (source', output', s')"
    "list_ok s' output' (take n xs)" "chain_ok s' source' (drop n xs)" "relinked (set (take n xs)) s s'"
    "tl_last source' = (if xs \<noteq> [] \<and> length xs \<le> n \<and> 0 < n then NULL else tl_last source)"
proof (cases "xs = [] \<or> n = 0")
  case True
  then have "tl_first source = NULL \<or> maximum_count = 0"
    using src chain_first by (auto simp: chain_ok_def n_def size_t_eq_0_iff)
  then have "hplf_transfer_list_take_prefix source maximum_count output s =
      Some (source, hplf_transfer_list_clear output, s)"
    by (simp add: hplf_transfer_list_take_prefix_def Let_def)
  then show ?thesis using True src by (intro that) auto
next
  case False
  then have ne: "xs \<noteq> []" "0 < n" by auto
  have c: "chain (block_next s) (tl_first source) xs" and cnt: "tl_count source = word_of_nat (length xs)"
    using src by (auto simp: chain_ok_def)
  have len: "length xs < SIZE_BOUND" by (rule chain_length [OF c])
  define k where "k = min (length xs) n"
  have k: "0 < k" "k \<le> length xs" "k < SIZE_BOUND" using ne len by (auto simp: k_def)
  let ?taken = "if tl_count source < maximum_count then tl_count source else maximum_count"
  have tk: "?taken = word_of_nat k"
    using len by (auto simp: cnt k_def size_t_less_iff unat_word_of_nat n_def min_def)
  have tk1: "unat (word_of_nat k - 1 :: size_t) = k - 1"
    using k by (subst unat_sub_le) (simp_all add: unat_word_of_nat)
  define ys where "ys = take (k - 1) xs"
  define l where "l = xs ! (k - 1)"
  have "take (Suc (k - 1)) xs = take (k - 1) xs @ [xs ! (k - 1)]"
    using k by (intro take_Suc_conv_app_nth) simp
  then have tk': "take k xs = ys @ [l]" using k by (simp add: ys_def l_def)
  then have xs: "xs = ys @ l # drop k xs" by (metis append.assoc append_Cons append_Nil append_take_drop_id)
  have tn: "take n xs = ys @ [l]" "drop n xs = drop k xs"
    using tk' by (auto simp: k_def min_def split: if_splits)
  have walk: "prefix_walk s (k - 1) (tl_first source) = Some l"
    using prefix_walk_spec [OF c, of "k - 1"] k by (simp add: l_def)
  from block_list.detach_after [of s "tl_first source" ys l "drop k xs"] c xs obtain q s' where
    s': "block_next s l = Some q" "set_next_free l NULL s = Some s'"
    "chain (block_next s') (tl_first source) (ys @ [l])" "chain (block_next s') q (drop k xs)" by auto
  then obtain b where b: "blocks s l = Some b" "next_free b = q" by (auto simp: block_next_Some)
  let ?src = "source\<lparr>tl_first := q, tl_count := tl_count source - word_of_nat k\<rparr>"
  let ?src' = "if q = NULL then ?src\<lparr>tl_last := NULL\<rparr> else ?src"
  let ?out = "\<lparr>tl_first = tl_first source, tl_last = l, tl_count = word_of_nat k\<rparr>"
  have nn: "tl_first source \<noteq> NULL" "maximum_count \<noteq> 0"
    using ne chain_first [OF c] by (auto simp: n_def)
  have q: "q = NULL \<longleftrightarrow> length xs \<le> n"
    using chain_first [OF s'(4)] ne by (auto simp: k_def min_def split: if_splits)
  have klen: "k = Suc (length ys)" using k by (simp add: ys_def)
  show ?thesis
  proof (rule that [of ?src' ?out s'])
    show "hplf_transfer_list_take_prefix source maximum_count output s = Some (?src', ?out, s')"
      unfolding hplf_transfer_list_take_prefix_def Let_def tk
      using nn walk tk1 b s'(2) by (simp add: hplf_transfer_list_clear_def)
    show "list_ok s' ?out (take n xs)"
      using s'(3) klen unfolding tn(1) list_ok_def by simp
    have "word_of_nat (length xs) - word_of_nat k = (word_of_nat (length xs - k) :: size_t)"
      using k(2) by simp
    moreover have "tl_first ?src' = q" "tl_count ?src' = tl_count source - word_of_nat k" by simp_all
    ultimately show "chain_ok s' ?src' (drop n xs)"
      unfolding chain_ok_def tn(2) using s'(4) by (simp only: cnt length_drop simp_thms)
    show "relinked (set (take n xs)) s s'"
      by (rule relinked_trans [OF set_next_relinked [OF s'(2)] relinked_refl]) (auto simp: tn)
    show "tl_last ?src' = (if xs \<noteq> [] \<and> length xs \<le> n \<and> 0 < n then NULL else tl_last source)"
      using q ne by simp
  qed
qed

section \<open>The interface of a transfer\<close>

text \<open>Only links of the blocks in \<open>X\<close> changed in the memory.\<close>

definition links_only :: "addr set \<Rightarrow> 'a world_scheme \<Rightarrow> 'a world_scheme \<Rightarrow> bool" where
  "links_only X s s' \<longleftrightarrow> (\<forall>p. p \<notin> X \<longrightarrow> blocks s' p = blocks s p) \<and> bshape s' = bshape s \<and>
     (\<forall>p b b'. blocks s p = Some b \<longrightarrow> blocks s' p = Some b' \<longrightarrow> requested_size b' = requested_size b) \<and>
     slab_objs s' = slab_objs s \<and> mappings s' = mappings s \<and> bytes s' = bytes s \<and> errno s' = errno s"

lemma links_only_refl [simp]: "links_only X s s"
  by (simp add: links_only_def)

lemma links_only_trans:
  assumes "links_only X s s'" and "links_only Y s' s''" and "X \<union> Y \<subseteq> Z"
  shows "links_only Z s s''"
proof -
  have "requested_size b' = requested_size b" if b: "blocks s p = Some b" "blocks s'' p = Some b'" for p b b'
  proof -
    have "bshape s' p = bshape s p" using assms(1) by (simp add: links_only_def)
    with b(1) obtain c where "blocks s' p = Some c" by (auto simp: bshape_def)
    with b assms(1,2) show ?thesis by (metis links_only_def)
  qed
  moreover have "blocks s'' p = blocks s p" if "p \<notin> Z" for p
    using that assms unfolding links_only_def by (metis UnI1 UnI2 subsetD)
  ultimately show ?thesis using assms(1,2) unfolding links_only_def by auto
qed

text \<open>
  What the cached allocator relies on: publishing puts a thread's chain in front of the shared chain
  of its class and leaves the thread an empty list; detaching hands the whole shared chain over.
  \<open>transfers s T\<close> says that the shared chains are \<open>T\<close>, one per size class.
\<close>

locale transfer =
  fixes ready :: "'e \<Rightarrow> bool"
    and transfers :: "'a world_scheme \<Rightarrow> addr list list \<Rightarrow> bool"
    and publish :: "'e \<Rightarrow> size_t \<Rightarrow> hplf_transfer_list \<Rightarrow> 'a world_scheme \<Rightarrow>
      (hplf_transfer_list \<times> 'a world_scheme) option"
    and detach :: "'e \<Rightarrow> size_t \<Rightarrow> 'a world_scheme \<Rightarrow> (hplf_transfer_list \<times> 'a world_scheme) option"
  assumes classes: "transfers s T \<Longrightarrow> length T = 16"
    and publish_contract: "ready env \<Longrightarrow> transfers s T \<Longrightarrow> unat ci < 16 \<Longrightarrow> list_ok s l xs \<Longrightarrow>
      set xs \<inter> set (concat T) = {} \<Longrightarrow>
      \<exists>l' s'. publish env ci l s = Some (l', s') \<and> list_ok s' l' [] \<and>
        transfers s' (T[unat ci := xs @ T ! unat ci]) \<and> links_only (set xs) s s'"
    and detach_contract: "ready env \<Longrightarrow> transfers s T \<Longrightarrow> unat ci < 16 \<Longrightarrow>
      \<exists>l' s'. detach env ci s = Some (l', s') \<and> list_ok s' l' (T ! unat ci) \<and>
        transfers s' (T[unat ci := []]) \<and> links_only {} s s'"
begin

text \<open>Whoever detaches a class next receives the published chain, then what was there before.\<close>

lemma publish_detach:
  assumes "ready env" and "transfers s T" and "unat ci < 16" and "list_ok s l xs"
    and "set xs \<inter> set (concat T) = {}"
  shows "\<exists>l' s' l'' s''. publish env ci l s = Some (l', s') \<and> detach env ci s' = Some (l'', s'') \<and>
    list_ok s'' l'' (xs @ T ! unat ci) \<and> transfers s'' (T[unat ci := []]) \<and> links_only (set xs) s s''"
proof -
  have len: "length T = 16" by (rule classes [OF assms(2)])
  from publish_contract [OF assms] obtain l' s' where p: "publish env ci l s = Some (l', s')"
    "transfers s' (T[unat ci := xs @ T ! unat ci])" "links_only (set xs) s s'" by blast
  from detach_contract [OF assms(1) p(2) assms(3)] len assms(3) obtain l'' s'' where
    "detach env ci s' = Some (l'', s'')" "list_ok s'' l'' (xs @ T ! unat ci)"
    "transfers s'' (T[unat ci := []])" "links_only {} s' s''" by auto
  with p links_only_trans [OF p(3), of "{}" s'' "set xs"] show ?thesis by auto
qed

end

end
