(* ===== verification/Thread_Cache.thy ===== *)
theory Thread_Cache
  imports Transfer_List
begin

text \<open>
  \<open>src/thread_cache.c\<close>: the private cache of a thread, one chain of free blocks per size class with
  its length, and the number of payload bytes in all of them.  The cache belongs to one thread, so
  the functions take it and return it; the blocks are in the shared memory.
\<close>

section \<open>Definitions\<close>

definition HPLF_CACHE_CLASS_BLOCK_LIMIT :: size_t where "HPLF_CACHE_CLASS_BLOCK_LIMIT = 32"
definition HPLF_CACHE_TOTAL_BYTES_LIMIT :: size_t where "HPLF_CACHE_TOTAL_BYTES_LIMIT = 64 * 1024"
definition HPLF_CACHE_REFILL_LIMIT :: size_t where "HPLF_CACHE_REFILL_LIMIT = 16"

record hplf_thread_cache =
  tc_heads :: "addr list"
  tc_counts :: "size_t list"
  total_slot_bytes :: size_t

record hplf_thread_cache_snapshot =
  sn_counts :: "size_t list"
  sn_list_lengths :: "size_t list"
  sn_total_slot_bytes :: size_t
  sn_computed_slot_bytes :: size_t

definition hplf_thread_cache_initialize :: hplf_thread_cache where
  "hplf_thread_cache_initialize =
     \<lparr>tc_heads = replicate 16 NULL, tc_counts = replicate 16 0, total_slot_bytes = 0\<rparr>"

definition hplf_thread_cache_take ::
  "hplf_thread_cache \<Rightarrow> size_t \<Rightarrow> size_t \<Rightarrow> 'a world_scheme \<Rightarrow>
   (addr \<times> hplf_thread_cache \<times> 'a world_scheme) option" where
  "hplf_thread_cache_take cache ci cap s =
     (if ci \<ge> HPLF_SIZE_CLASS_COUNT then Some (NULL, cache, s)
      else do {
        block \<leftarrow> array_read (tc_heads cache) ci;
        if block = NULL then Some (NULL, cache, s)
        else do {
          b \<leftarrow> blocks s block;
          heads \<leftarrow> array_write (tc_heads cache) ci (next_free b);
          s \<leftarrow> set_next_free block NULL s;
          n \<leftarrow> array_read (tc_counts cache) ci;
          counts \<leftarrow> array_write (tc_counts cache) ci (n - 1);
          Some (block, cache\<lparr>tc_heads := heads, tc_counts := counts,
            total_slot_bytes := total_slot_bytes cache - cap\<rparr>, s)
        }
      })"

definition hplf_thread_cache_store ::
  "hplf_thread_cache \<Rightarrow> size_t \<Rightarrow> size_t \<Rightarrow> addr \<Rightarrow> 'a world_scheme \<Rightarrow>
   (hplf_thread_cache \<times> 'a world_scheme) option" where
  "hplf_thread_cache_store cache ci cap block s = do {
     head \<leftarrow> array_read (tc_heads cache) ci;
     s \<leftarrow> set_next_free block head s;
     heads \<leftarrow> array_write (tc_heads cache) ci block;
     n \<leftarrow> array_read (tc_counts cache) ci;
     counts \<leftarrow> array_write (tc_counts cache) ci (n + 1);
     Some (cache\<lparr>tc_heads := heads, tc_counts := counts,
       total_slot_bytes := total_slot_bytes cache + cap\<rparr>, s)
   }"

definition hplf_thread_cache_restore ::
  "hplf_thread_cache \<Rightarrow> size_t \<Rightarrow> size_t \<Rightarrow> hplf_transfer_list \<Rightarrow> 'a world_scheme \<Rightarrow>
   (hplf_thread_cache \<times> hplf_transfer_list \<times> 'a world_scheme) option" where
  "hplf_thread_cache_restore cache ci cap list s =
     (if tl_first list = NULL then Some (cache, list, s)
      else do {
        head \<leftarrow> array_read (tc_heads cache) ci;
        s \<leftarrow> set_next_free (tl_last list) head s;
        heads \<leftarrow> array_write (tc_heads cache) ci (tl_first list);
        n \<leftarrow> array_read (tc_counts cache) ci;
        counts \<leftarrow> array_write (tc_counts cache) ci (n + tl_count list);
        Some (cache\<lparr>tc_heads := heads, tc_counts := counts,
            total_slot_bytes := total_slot_bytes cache + tl_count list * cap\<rparr>,
          hplf_transfer_list_clear list, s)
      })"

definition refill_limit :: "hplf_thread_cache \<Rightarrow> size_t \<Rightarrow> size_t \<Rightarrow> size_t" where
  "refill_limit cache n cap =
     (let class_space = HPLF_CACHE_CLASS_BLOCK_LIMIT - n;
          byte_space = (HPLF_CACHE_TOTAL_BYTES_LIMIT - total_slot_bytes cache) div cap;
          limit = HPLF_CACHE_REFILL_LIMIT;
          limit = (if limit > class_space then class_space else limit)
      in if limit > byte_space then byte_space else limit)"

definition hplf_thread_cache_refill ::
  "hplf_thread_cache \<Rightarrow> size_t \<Rightarrow> size_t \<Rightarrow> hplf_transfer_list \<Rightarrow> 'a world_scheme \<Rightarrow>
   (hplf_thread_cache \<times> hplf_transfer_list \<times> 'a world_scheme) option" where
  "hplf_thread_cache_refill cache ci cap available s = do {
     n \<leftarrow> array_read (tc_counts cache) ci;
     (available, accepted, s) \<leftarrow> hplf_transfer_list_take_prefix available (refill_limit cache n cap)
        \<lparr>tl_first = NULL, tl_last = NULL, tl_count = 0\<rparr> s;
     (cache, _, s) \<leftarrow> hplf_thread_cache_restore cache ci cap accepted s;
     Some (cache, available, s)
   }"

definition hplf_thread_cache_extract_class ::
  "hplf_thread_cache \<Rightarrow> size_t \<Rightarrow> size_t \<Rightarrow> hplf_transfer_list \<Rightarrow> 'a world_scheme \<Rightarrow>
   (bool \<times> hplf_thread_cache \<times> hplf_transfer_list \<times> 'a world_scheme) option" where
  "hplf_thread_cache_extract_class cache ci maximum_count output s =
     (let output = hplf_transfer_list_clear output in
      case checked (hplf_size_class_capacity ci (Some 0)) of
        None \<Rightarrow> Some (False, cache, output, s)
      | Some cap \<Rightarrow>
          if maximum_count = 0 then Some (False, cache, output, s)
          else do {
            head \<leftarrow> array_read (tc_heads cache) ci;
            if head = NULL then Some (False, cache, output, s)
            else do {
              n \<leftarrow> array_read (tc_counts cache) ci;
              (available, output, s) \<leftarrow> hplf_transfer_list_take_prefix
                 \<lparr>tl_first = head, tl_last = NULL, tl_count = n\<rparr> maximum_count output s;
              heads \<leftarrow> array_write (tc_heads cache) ci (tl_first available);
              counts \<leftarrow> array_write (tc_counts cache) ci (n - tl_count output);
              Some (True, cache\<lparr>tc_heads := heads, tc_counts := counts,
                total_slot_bytes := total_slot_bytes cache - tl_count output * cap\<rparr>, output, s)
            }
          })"

text \<open>The \<open>for\<close> loop that looks for a class with blocks.\<close>

fun first_nonempty :: "size_t \<Rightarrow> size_t list \<Rightarrow> size_t option" where
  "first_nonempty i [] = None"
| "first_nonempty i (n # ns) = (if n \<noteq> 0 then Some i else first_nonempty (i + 1) ns)"

definition hplf_thread_cache_extract_eviction ::
  "hplf_thread_cache \<Rightarrow> size_t \<Rightarrow> size_t \<Rightarrow> hplf_transfer_list \<Rightarrow> 'a world_scheme \<Rightarrow>
   (bool \<times> hplf_thread_cache \<times> size_t \<times> hplf_transfer_list \<times> 'a world_scheme) option" where
  "hplf_thread_cache_extract_eviction cache current_class class_output output s = do {
     let output = hplf_transfer_list_clear output;
     n \<leftarrow> array_read (tc_counts cache) current_class;
     if n > HPLF_CACHE_CLASS_BLOCK_LIMIT then do {
       (r, cache, output, s) \<leftarrow> hplf_thread_cache_extract_class cache current_class
          (n - HPLF_CACHE_CLASS_BLOCK_LIMIT) output s;
       Some (r, cache, current_class, output, s)
     }
     else if total_slot_bytes cache \<le> HPLF_CACHE_TOTAL_BYTES_LIMIT
     then Some (False, cache, class_output, output, s)
     else if n \<noteq> 0 then do {
       (r, cache, output, s) \<leftarrow> hplf_thread_cache_extract_class cache current_class n output s;
       Some (r, cache, current_class, output, s)
     }
     else (case first_nonempty 0 (tc_counts cache) of
       None \<Rightarrow> Some (False, cache, class_output, output, s)
     | Some index \<Rightarrow> do {
         k \<leftarrow> array_read (tc_counts cache) index;
         (r, cache, output, s) \<leftarrow> hplf_thread_cache_extract_class cache index k output s;
         Some (r, cache, index, output, s)
       })
   }"

text \<open>The loop of the snapshot; the first argument counts the classes that are left.\<close>

fun snapshot_loop ::
  "nat \<Rightarrow> size_t \<Rightarrow> hplf_thread_cache \<Rightarrow> hplf_thread_cache_snapshot \<Rightarrow> size_t \<Rightarrow> bool \<Rightarrow> 'a world_scheme \<Rightarrow>
   (bool \<times> hplf_thread_cache_snapshot) option" where
  "snapshot_loop 0 index cache snapshot computed_total counts_match s =
     Some (counts_match \<and> computed_total = total_slot_bytes cache,
       snapshot\<lparr>sn_total_slot_bytes := total_slot_bytes cache, sn_computed_slot_bytes := computed_total\<rparr>)"
| "snapshot_loop (Suc k) index cache snapshot computed_total counts_match s =
     (case checked (hplf_size_class_capacity index (Some 0)) of
        None \<Rightarrow> Some (False, snapshot)
      | Some cap \<Rightarrow> do {
          block \<leftarrow> array_read (tc_heads cache) index;
          n \<leftarrow> array_read (tc_counts cache) index;
          counts \<leftarrow> array_write (sn_counts snapshot) index n;
          (_, len) \<leftarrow> from_chain_loop s block NULL 0;
          lens \<leftarrow> array_write (sn_list_lengths snapshot) index len;
          snapshot_loop k (index + 1) cache (snapshot\<lparr>sn_counts := counts, sn_list_lengths := lens\<rparr>)
            (computed_total + len * cap) (if n \<noteq> len then False else counts_match) s
        })"

definition hplf_thread_cache_snapshot_take ::
  "hplf_thread_cache \<Rightarrow> 'a world_scheme \<Rightarrow> (bool \<times> hplf_thread_cache_snapshot) option" where
  "hplf_thread_cache_snapshot_take cache s =
     snapshot_loop 16 0 cache
       \<lparr>sn_counts = replicate 16 0, sn_list_lengths = replicate 16 0,
        sn_total_slot_bytes = 0, sn_computed_slot_bytes = 0\<rparr> 0 True s"

section \<open>The invariant\<close>

definition cache_bytes :: "addr list list \<Rightarrow> nat" where
  "cache_bytes F = (\<Sum>i<16. length (F ! i) * unat (size_class_capacities ! i))"

definition cache_ok :: "'a world_scheme \<Rightarrow> hplf_thread_cache \<Rightarrow> addr list list \<Rightarrow> bool" where
  "cache_ok s c F \<longleftrightarrow> length (tc_heads c) = 16 \<and> length (tc_counts c) = 16 \<and> length F = 16 \<and>
     (\<forall>i<16. chain (block_next s) (tc_heads c ! i) (F ! i) \<and> tc_counts c ! i = word_of_nat (length (F ! i))) \<and>
     total_slot_bytes c = word_of_nat (cache_bytes F) \<and> distinct (concat F)"

text \<open>The limits that the allocator keeps between calls.\<close>

definition within_limits :: "addr list list \<Rightarrow> bool" where
  "within_limits F \<longleftrightarrow> (\<forall>i<16. length (F ! i) \<le> 32) \<and> cache_bytes F \<le> 65536"

lemma cache_bytes_update:
  assumes "i < 16" and "length F = 16"
  shows "cache_bytes (F[i := xs]) + length (F ! i) * unat (size_class_capacities ! i) =
    cache_bytes F + length xs * unat (size_class_capacities ! i)"
proof -
  have "(\<Sum>j \<in> {..<16} - {i}. length (F[i := xs] ! j) * unat (size_class_capacities ! j)) =
      (\<Sum>j \<in> {..<16} - {i}. length (F ! j) * unat (size_class_capacities ! j))"
    by (intro sum.cong) auto
  then show ?thesis
    using assms unfolding cache_bytes_def
    by (simp add: sum.remove [of "{..<16}" i])
qed

lemma cache_total_update:
  assumes "i < 16" and "length F = 16"
  shows "(word_of_nat (cache_bytes (F[i := xs])) :: size_t) = word_of_nat (cache_bytes F) +
    word_of_nat (length xs) * size_class_capacities ! i - word_of_nat (length (F ! i)) * size_class_capacities ! i"
proof -
  have "(word_of_nat (cache_bytes (F[i := xs]) + length (F ! i) * unat (size_class_capacities ! i)) :: size_t) =
      word_of_nat (cache_bytes F + length xs * unat (size_class_capacities ! i))"
    using cache_bytes_update [OF assms] by simp
  then show ?thesis by (simp add: algebra_simps)
qed

lemma cache_init_ok: "cache_ok s hplf_thread_cache_initialize (replicate 16 [])"
proof -
  have "concat (replicate 16 []) = ([] :: addr list)" by (simp add: concat_eq_Nil_conv)
  then show ?thesis
    by (simp add: cache_ok_def hplf_thread_cache_initialize_def cache_bytes_def)
qed

lemma cache_okD:
  assumes "cache_ok s c F" and "i < 16"
  shows "chain (block_next s) (tc_heads c ! i) (F ! i)" and "tc_counts c ! i = word_of_nat (length (F ! i))"
    and "distinct (F ! i)" and "set (F ! i) \<inter> set (concat (F[i := []])) = {}"
    and "length (tc_heads c) = 16" and "length (tc_counts c) = 16" and "length F = 16"
proof -
  have "length F = 16" and "distinct (concat F)" using assms(1) by (auto simp: cache_ok_def)
  then show "set (F ! i) \<inter> set (concat (F[i := []])) = {}"
    using distinct_concat_update [of i F "F ! i"] assms(2) by simp
qed (use assms in \<open>auto simp: cache_ok_def intro: chain_distinct\<close>)

lemma cache_replace:
  assumes c: "cache_ok s c F" and i: "unat i < 16" and rl: "relinked X s s'"
    and X: "X \<inter> set (concat (F[unat i := []])) = {}"
    and xs: "chain (block_next s') h xs" "set xs \<inter> set (concat (F[unat i := []])) = {}"
    and n: "n = word_of_nat (length xs)"
    and b: "b = total_slot_bytes c + word_of_nat (length xs) * size_class_capacities ! unat i -
      word_of_nat (length (F ! unat i)) * size_class_capacities ! unat i"
  shows "cache_ok s' (c\<lparr>tc_heads := (tc_heads c)[unat i := h], tc_counts := (tc_counts c)[unat i := n],
    total_slot_bytes := b\<rparr>) (F[unat i := xs])"
proof -
  note D = cache_okD [OF c] and L = cache_okD(5-7) [OF c i]
  have "distinct (concat F)" using c by (simp add: cache_ok_def)
  then have "distinct (concat (F[unat i := []]))"
    using distinct_concat_update [of "unat i" F "F ! unat i"] i L by simp
  then have "distinct (concat (F[unat i := xs]))"
    using distinct_concat_update [of "unat i" F xs] xs(2) chain_distinct [OF xs(1)] i L by simp
  moreover have "chain (block_next s') ((tc_heads c)[unat i := h] ! j) (F[unat i := xs] ! j) \<and>
      (tc_counts c)[unat i := n] ! j = word_of_nat (length (F[unat i := xs] ! j))" if j: "j < 16" for j
  proof (cases "j = unat i")
    case True
    then show ?thesis using xs(1) n i L by simp
  next
    case False
    then have "set (F ! j) \<inter> X = {}" using other_lists [of j F "unat i"] j X L by auto
    then have "chain (block_next s') (tc_heads c ! j) (F ! j) \<longleftrightarrow> chain (block_next s) (tc_heads c ! j) (F ! j)"
      using rl by (intro chain_cong) (auto simp: relinked_def block_next_def)
    with False D(1,2) [OF j] show ?thesis by simp
  qed
  moreover have "b = word_of_nat (cache_bytes (F[unat i := xs]))"
    using cache_total_update [OF i L(3), of xs] b c by (simp add: cache_ok_def)
  ultimately show ?thesis using L by (simp add: cache_ok_def)
qed

text \<open>Links outside a cache do not matter to it.\<close>

lemma cache_ok_frame:
  assumes c: "cache_ok s c F" and "relinked X s s'" and X: "X \<inter> set (concat F) = {}"
  shows "cache_ok s' c F"
proof -
  have "chain (block_next s') (tc_heads c ! j) (F ! j) \<longleftrightarrow> chain (block_next s) (tc_heads c ! j) (F ! j)" if j: "j < 16" for j
  proof (rule chain_cong)
    fix x assume "x \<in> set (F ! j)"
    then have "x \<notin> X" using X set_concat_self [of j F] cache_okD(7) [OF c j] j by auto
    then show "block_next s' x = block_next s x" using assms(2) by (simp add: relinked_def block_next_def)
  qed
  with c show ?thesis by (simp add: cache_ok_def)
qed

section \<open>Contracts\<close>

lemma class_index_test: "unat i < 16 \<Longrightarrow> \<not> i \<ge> HPLF_SIZE_CLASS_COUNT"
  by (simp add: HPLF_SIZE_CLASS_COUNT_def size_t_le_iff)

lemma cache_take_spec:
  assumes c: "cache_ok s c F" and i: "unat i < 16" and cap: "cap = size_class_capacities ! unat i"
  shows "F ! unat i = [] \<Longrightarrow> hplf_thread_cache_take c i cap s = Some (NULL, c, s)"
    and "F ! unat i = x # xs \<Longrightarrow> \<exists>c' s'. hplf_thread_cache_take c i cap s = Some (x, c', s') \<and>
      cache_ok s' c' (F[unat i := xs]) \<and> relinked {x} s s' \<and> block_next s' x = Some NULL"
proof -
  note D = cache_okD [OF c i] and t = class_index_test [OF i]
  show "hplf_thread_cache_take c i cap s = Some (NULL, c, s)" if "F ! unat i = []"
    using that D i t by (simp add: hplf_thread_cache_take_def)
  assume F: "F ! unat i = x # xs"
  with D(1) obtain b where b: "blocks s x = Some b" "tc_heads c ! unat i = x" "x \<noteq> NULL"
    "chain (block_next s) (next_free b) xs" by (auto simp: block_next_Some)
  from set_next_defined [OF b(1), of NULL] obtain s' where
    s': "set_next_free x NULL s = Some s'" "block_next s' = (block_next s)(x \<mapsto> NULL)" by blast
  let ?c = "c\<lparr>tc_heads := (tc_heads c)[unat i := next_free b], tc_counts := (tc_counts c)[unat i := tc_counts c ! unat i - 1],
    total_slot_bytes := total_slot_bytes c - cap\<rparr>"
  have run: "hplf_thread_cache_take c i cap s = Some (x, ?c, s')"
    using t b D i s'(1) by (simp add: hplf_thread_cache_take_def)
  have "chain (block_next s') (next_free b) xs" using b(4) D(3) F s'(2) by simp
  then have "cache_ok s' ?c (F[unat i := xs])"
    using D F i cap by (intro cache_replace [OF c i set_next_relinked [OF s'(1)]]) (auto simp: algebra_simps)
  with run s' set_next_relinked [OF s'(1)]
  show "\<exists>c' s'. hplf_thread_cache_take c i cap s = Some (x, c', s') \<and>
      cache_ok s' c' (F[unat i := xs]) \<and> relinked {x} s s' \<and> block_next s' x = Some NULL" by auto
qed

lemma cache_store_spec:
  assumes c: "cache_ok s c F" and i: "unat i < 16" and cap: "cap = size_class_capacities ! unat i"
    and x: "blocks s x \<noteq> None" "x \<noteq> NULL" "x \<notin> set (concat F)"
  shows "\<exists>c' s'. hplf_thread_cache_store c i cap x s = Some (c', s') \<and>
      cache_ok s' c' (F[unat i := x # F ! unat i]) \<and> relinked {x} s s'"
proof -
  note D = cache_okD [OF c i]
  have xo: "x \<notin> set (F ! unat i)" "x \<notin> set (concat (F[unat i := []]))"
    using x(3) set_concat_self [of "unat i" F] D(7) i by auto
  from x(1) obtain b where "blocks s x = Some b" by blast
  from set_next_defined [OF this, of "tc_heads c ! unat i"] obtain s' where
    s': "set_next_free x (tc_heads c ! unat i) s = Some s'"
      "block_next s' = (block_next s)(x \<mapsto> tc_heads c ! unat i)" by blast
  let ?c = "c\<lparr>tc_heads := (tc_heads c)[unat i := x], tc_counts := (tc_counts c)[unat i := tc_counts c ! unat i + 1],
    total_slot_bytes := total_slot_bytes c + cap\<rparr>"
  have run: "hplf_thread_cache_store c i cap x s = Some (?c, s')"
    using D i s'(1) by (simp add: hplf_thread_cache_store_def)
  have "chain (block_next s') x (x # F ! unat i)" using D(1) s'(2) x(2) xo by simp
  then have "cache_ok s' ?c (F[unat i := x # F ! unat i])"
    using D xo i cap by (intro cache_replace [OF c i set_next_relinked [OF s'(1)]]) (auto simp: algebra_simps)
  with run set_next_relinked [OF s'(1)] show ?thesis by blast
qed

lemma cache_restore_spec:
  assumes c: "cache_ok s c F" and i: "unat i < 16" and cap: "cap = size_class_capacities ! unat i"
    and l: "list_ok s l xs" and dj: "set xs \<inter> set (concat F) = {}"
  shows "\<exists>c' l' s'. hplf_thread_cache_restore c i cap l s = Some (c', l', s') \<and>
      cache_ok s' c' (F[unat i := xs @ F ! unat i]) \<and> list_ok s' l' [] \<and> relinked (set xs) s s'"
proof (cases xs rule: rev_cases)
  case Nil
  with l have "tl_first l = NULL" "list_ok s l []" by (auto simp: list_ok_def)
  with Nil c show ?thesis by (simp add: hplf_thread_cache_restore_def)
next
  case (snoc ys z)
  note D = cache_okD [OF c i]
  have ch: "chain (block_next s) (tl_first l) (ys @ [z])" and lst: "tl_last l = z"
    and cnt: "tl_count l = word_of_nat (length xs)" using l snoc by (auto simp: list_ok_def)
  have nn: "tl_first l \<noteq> NULL" using chain_first [OF ch] by simp
  have dj': "set xs \<inter> set (F ! unat i) = {}" "set xs \<inter> set (concat (F[unat i := []])) = {}"
    using dj set_concat_self [of "unat i" F] D(7) i by auto
  obtain b where "blocks s z = Some b" using chain_nodes [OF ch, of z] by (auto simp: block_next_def)
  from set_next_defined [OF this, of "tc_heads c ! unat i"] obtain s' where
    s': "set_next_free z (tc_heads c ! unat i) s = Some s'"
      "block_next s' = (block_next s)(z \<mapsto> tc_heads c ! unat i)" by blast
  have rl: "relinked (set xs) s s'"
    by (rule relinked_trans [OF set_next_relinked [OF s'(1)] relinked_refl]) (auto simp: snoc)
  let ?c = "c\<lparr>tc_heads := (tc_heads c)[unat i := tl_first l],
    tc_counts := (tc_counts c)[unat i := tc_counts c ! unat i + tl_count l],
    total_slot_bytes := total_slot_bytes c + tl_count l * cap\<rparr>"
  have run: "hplf_thread_cache_restore c i cap l s = Some (?c, hplf_transfer_list_clear l, s')"
    using D i s'(1) nn lst by (simp add: hplf_thread_cache_restore_def)
  have "z \<notin> set (F ! unat i)" using dj'(1) snoc by auto
  from chain_splice [OF ch D(1) this] have "chain (block_next s') (tl_first l) (xs @ F ! unat i)"
    unfolding s'(2) by (simp add: snoc)
  then have "cache_ok s' ?c (F[unat i := xs @ F ! unat i])"
    using D dj' i cap cnt by (intro cache_replace [OF c i rl]) (auto simp: algebra_simps)
  with run rl show ?thesis by (blast intro: clear_ok)
qed

lemma class_capacity_some:
  "unat i < 16 \<Longrightarrow> checked (hplf_size_class_capacity i (Some v)) = Some (size_class_capacities ! unat i)"
  by (simp add: hplf_size_class_capacity_def HPLF_SIZE_CLASS_COUNT_def size_t_order)

lemma cache_extract_spec:
  assumes c: "cache_ok s c F" and i: "unat i < 16"
  shows "F ! unat i = [] \<or> m = 0 \<Longrightarrow>
      hplf_thread_cache_extract_class c i m out s = Some (False, c, hplf_transfer_list_clear out, s)"
    and "F ! unat i \<noteq> [] \<Longrightarrow> m \<noteq> 0 \<Longrightarrow> \<exists>c' out' s'.
      hplf_thread_cache_extract_class c i m out s = Some (True, c', out', s') \<and>
      list_ok s' out' (take (unat m) (F ! unat i)) \<and> cache_ok s' c' (F[unat i := drop (unat m) (F ! unat i)]) \<and>
      relinked (set (take (unat m) (F ! unat i))) s s'"
proof -
  note D = cache_okD [OF c i] and cp = class_capacity_some [OF i, of 0]
  show "hplf_thread_cache_extract_class c i m out s = Some (False, c, hplf_transfer_list_clear out, s)"
    if "F ! unat i = [] \<or> m = 0"
    using that D i cp by (auto simp: hplf_thread_cache_extract_class_def Let_def)
  assume ne: "F ! unat i \<noteq> []" "m \<noteq> 0"
  let ?src = "\<lparr>tl_first = tc_heads c ! unat i, tl_last = NULL, tl_count = tc_counts c ! unat i\<rparr>"
  have "chain_ok s ?src (F ! unat i)" using D(1,2) by (simp add: chain_ok_def)
  then obtain src' out' s' where t:
    "hplf_transfer_list_take_prefix ?src m (hplf_transfer_list_clear out) s = Some (src', out', s')"
    "list_ok s' out' (take (unat m) (F ! unat i))" "chain_ok s' src' (drop (unat m) (F ! unat i))"
    "relinked (set (take (unat m) (F ! unat i))) s s'"
    "tl_last src' = (if F ! unat i \<noteq> [] \<and> length (F ! unat i) \<le> unat m \<and> 0 < unat m then NULL else tl_last ?src)"
    by (rule take_prefix_spec)
  let ?c = "c\<lparr>tc_heads := (tc_heads c)[unat i := tl_first src'],
    tc_counts := (tc_counts c)[unat i := tc_counts c ! unat i - tl_count out'],
    total_slot_bytes := total_slot_bytes c - tl_count out' * size_class_capacities ! unat i\<rparr>"
  have nn: "tc_heads c ! unat i \<noteq> NULL" using ne chain_first [OF D(1)] by simp
  have run: "hplf_thread_cache_extract_class c i m out s = Some (True, ?c, out', s')"
    using ne D i cp t(1) nn by (simp add: hplf_thread_cache_extract_class_def Let_def)
  have cnt: "tl_count out' = word_of_nat (length (take (unat m) (F ! unat i)))" using t(2) by (simp add: list_ok_def)
  have "length (F ! unat i) = length (take (unat m) (F ! unat i)) + length (drop (unat m) (F ! unat i))" by simp
  then have len: "(word_of_nat (length (F ! unat i)) :: size_t) = tl_count out' + word_of_nat (length (drop (unat m) (F ! unat i)))"
    unfolding cnt by (metis of_nat_add)
  have sub: "set (take (unat m) (F ! unat i)) \<subseteq> set (F ! unat i)" "set (drop (unat m) (F ! unat i)) \<subseteq> set (F ! unat i)"
    by (auto dest: in_set_takeD in_set_dropD)
  have "cache_ok s' ?c (F[unat i := drop (unat m) (F ! unat i)])"
  proof (rule cache_replace [OF c i t(4)])
    show "chain (block_next s') (tl_first src') (drop (unat m) (F ! unat i))" using t(3) by (simp add: chain_ok_def)
    show "set (take (unat m) (F ! unat i)) \<inter> set (concat (F[unat i := []])) = {}"
      "set (drop (unat m) (F ! unat i)) \<inter> set (concat (F[unat i := []])) = {}" using D(4) sub by auto
    show "tc_counts c ! unat i - tl_count out' = word_of_nat (length (drop (unat m) (F ! unat i)))"
      unfolding D(2) len by simp
    show "total_slot_bytes c - tl_count out' * size_class_capacities ! unat i =
      total_slot_bytes c + word_of_nat (length (drop (unat m) (F ! unat i))) * size_class_capacities ! unat i -
      word_of_nat (length (F ! unat i)) * size_class_capacities ! unat i"
      unfolding len by (simp only: algebra_simps)
  qed
  with run t(2,4) show "\<exists>c' out' s'. hplf_thread_cache_extract_class c i m out s = Some (True, c', out', s') \<and>
      list_ok s' out' (take (unat m) (F ! unat i)) \<and> cache_ok s' c' (F[unat i := drop (unat m) (F ! unat i)]) \<and>
      relinked (set (take (unat m) (F ! unat i))) s s'" by blast
qed

text \<open>How many blocks a refill accepts.\<close>

definition refill_count :: "addr list list \<Rightarrow> nat \<Rightarrow> nat" where
  "refill_count F i = min (min 16 (32 - length (F ! i)))
     ((65536 - cache_bytes F) div unat (size_class_capacities ! i))"

lemma within_limits_unat:
  assumes "cache_ok s c F" and "within_limits F" and "i < 16"
  shows "unat (total_slot_bytes c) = cache_bytes F" and "unat (tc_counts c ! i) = length (F ! i)"
  using assms by (auto simp: cache_ok_def within_limits_def unat_word_of_nat)

lemma unat_refill_limit:
  assumes c: "cache_ok s c F" and w: "within_limits F" and i: "unat i < 16"
  shows "unat (refill_limit c (tc_counts c ! unat i) (size_class_capacities ! unat i)) = refill_count F (unat i)"
proof -
  note u = within_limits_unat [OF c w] and W = w [unfolded within_limits_def]
  have cs: "unat (HPLF_CACHE_CLASS_BLOCK_LIMIT - tc_counts c ! unat i) = 32 - length (F ! unat i)"
    using u(2) [OF i] W i by (subst unat_sub_le) (auto simp: HPLF_CACHE_CLASS_BLOCK_LIMIT_def)
  have "unat (HPLF_CACHE_TOTAL_BYTES_LIMIT - total_slot_bytes c) = 65536 - cache_bytes F"
    using u(1) [OF i] W by (subst unat_sub_le) (auto simp: HPLF_CACHE_TOTAL_BYTES_LIMIT_def)
  then have bs: "unat ((HPLF_CACHE_TOTAL_BYTES_LIMIT - total_slot_bytes c) div size_class_capacities ! unat i) =
      (65536 - cache_bytes F) div unat (size_class_capacities ! unat i)" by (simp add: unat_div_size_t)
  show ?thesis
    unfolding refill_limit_def Let_def refill_count_def
    using cs bs by (auto simp: size_t_less_iff HPLF_CACHE_REFILL_LIMIT_def min_def)
qed

lemma cache_refill_spec:
  assumes c: "cache_ok s c F" and w: "within_limits F" and i: "unat i < 16"
    and l: "list_ok s l xs" and dj: "set xs \<inter> set (concat F) = {}"
  defines "k \<equiv> refill_count F (unat i)"
  shows "\<exists>c' l' s'. hplf_thread_cache_refill c i (size_class_capacities ! unat i) l s = Some (c', l', s') \<and>
    cache_ok s' c' (F[unat i := take k xs @ F ! unat i]) \<and> list_ok s' l' (drop k xs) \<and>
    relinked (set (take k xs)) s s' \<and> within_limits (F[unat i := take k xs @ F ! unat i])"
proof -
  let ?cap = "size_class_capacities ! unat i"
  note D = cache_okD [OF c i] and W = w [unfolded within_limits_def]
  have lim: "unat (refill_limit c (tc_counts c ! unat i) ?cap) = k"
    unfolding k_def by (rule unat_refill_limit [OF c w i])
  obtain l1 acc s1 where t: "hplf_transfer_list_take_prefix l (refill_limit c (tc_counts c ! unat i) ?cap)
      \<lparr>tl_first = NULL, tl_last = NULL, tl_count = 0\<rparr> s = Some (l1, acc, s1)"
    "list_ok s1 acc (take k xs)" "chain_ok s1 l1 (drop k xs)" "relinked (set (take k xs)) s s1"
    "tl_last l1 = (if xs \<noteq> [] \<and> length xs \<le> k \<and> 0 < k then NULL else tl_last l)"
    by (rule take_prefix_spec [OF list_ok_chain [OF l], of "refill_limit c (tc_counts c ! unat i) ?cap", unfolded lim])
  have sub: "set (take k xs) \<subseteq> set xs" by (auto dest: in_set_takeD)
  have dj1: "set (take k xs) \<inter> set (concat F) = {}" using dj sub by auto
  have c1: "cache_ok s1 c F" by (rule cache_ok_frame [OF c t(4) dj1])
  from cache_restore_spec [OF c1 i refl t(2) dj1] obtain c' acc' s' where
    r: "hplf_thread_cache_restore c i ?cap acc s1 = Some (c', acc', s')"
    "cache_ok s' c' (F[unat i := take k xs @ F ! unat i])" "relinked (set (take k xs)) s1 s'" by blast
  have run: "hplf_thread_cache_refill c i ?cap l s = Some (c', l1, s')"
    using t(1) r(1) D i by (simp add: hplf_thread_cache_refill_def)
  have "list_ok s1 l1 (drop k xs)"
    using t(3,5) l by (auto simp: list_ok_def chain_ok_def last_drop)
  moreover have "distinct xs" using l by (auto simp: list_ok_def intro: chain_distinct)
  then have "set (take k xs) \<inter> set (drop k xs) = {}" by (rule set_take_disj_set_drop_if_distinct) simp
  ultimately have "list_ok s' l1 (drop k xs)" using list_ok_frame [OF _ r(3)] by blast
  moreover have "within_limits (F[unat i := take k xs @ F ! unat i])"
  proof -
    have k: "length (take k xs) \<le> k" by simp
    then have "length (take k xs) \<le> 32 - length (F ! unat i)" unfolding k_def refill_count_def by simp
    then have len32: "length (F[unat i := take k xs @ F ! unat i] ! j) \<le> 32" if "j < 16" for j
      using W that D(7) i by (cases "j = unat i") auto
    have "k * unat ?cap \<le> 65536 - cache_bytes F"
    proof -
      have "k \<le> (65536 - cache_bytes F) div unat ?cap" by (simp add: k_def refill_count_def)
      then have "k * unat ?cap \<le> (65536 - cache_bytes F) div unat ?cap * unat ?cap" by (rule mult_le_mono1)
      also have "\<dots> \<le> 65536 - cache_bytes F" by (rule div_times_less_eq_dividend)
      finally show ?thesis .
    qed
    moreover have "length (take k xs) * unat ?cap \<le> k * unat ?cap" using k by (rule mult_le_mono1)
    moreover have "cache_bytes (F[unat i := take k xs @ F ! unat i]) = cache_bytes F + length (take k xs) * unat ?cap"
      using cache_bytes_update [OF i D(7), of "take k xs @ F ! unat i"] by (simp add: algebra_simps)
    moreover have "cache_bytes F \<le> 65536" using W by simp
    ultimately have "cache_bytes (F[unat i := take k xs @ F ! unat i]) \<le> 65536" by linarith
    with len32 show ?thesis by (simp add: within_limits_def)
  qed
  moreover have "relinked (set (take k xs)) s s'" by (rule relinked_trans [OF t(4) r(3)]) simp
  ultimately show ?thesis using run r(2) by blast
qed

section \<open>Eviction\<close>

text \<open>
  The state right after a store: only the class of the stored block may exceed its limit, by one
  block, and the bytes may exceed theirs by that block.
\<close>

definition after_store :: "addr list list \<Rightarrow> nat \<Rightarrow> bool" where
  "after_store F i \<longleftrightarrow> (\<forall>j<16. length (F ! j) \<le> (if j = i then 33 else 32)) \<and>
     cache_bytes F \<le> 65536 + unat (size_class_capacities ! i)"

lemma within_after_store: "within_limits F \<Longrightarrow> after_store F i"
  by (auto simp: within_limits_def after_store_def le_SucI)

definition evict_class :: "addr list list \<Rightarrow> nat \<Rightarrow> nat option" where
  "evict_class F i =
     (if length (F ! i) > 32 then Some i else if cache_bytes F \<le> 65536 then None
      else if F ! i \<noteq> [] then Some i else find (\<lambda>j. F ! j \<noteq> []) [0..<16])"

definition evict_count :: "addr list list \<Rightarrow> nat \<Rightarrow> nat \<Rightarrow> nat" where
  "evict_count F i j = (if length (F ! i) > 32 then length (F ! i) - 32 else length (F ! j))"

lemma first_nonempty_find:
  assumes "length ns + k = 16" and "\<forall>j < length ns. ns ! j = word_of_nat (length (F ! (k + j)))"
    and "\<forall>j < 16. length (F ! j) < SIZE_BOUND"
  shows "first_nonempty (word_of_nat k) ns = map_option word_of_nat (find (\<lambda>j. F ! j \<noteq> []) [k..<16])"
  using assms
proof (induction ns arbitrary: k)
  case Nil
  then show ?case by simp
next
  case (Cons n ns)
  then have k: "k < 16" by simp
  have n: "n = word_of_nat (length (F ! k))" using Cons.prems(2) by (auto dest: spec [of _ 0])
  have "n = 0 \<longleftrightarrow> F ! k = []"
    using Cons.prems(3) k by (auto simp: n size_t_eq_0_iff unat_word_of_nat)
  moreover have "first_nonempty (word_of_nat (Suc k)) ns = map_option word_of_nat (find (\<lambda>j. F ! j \<noteq> []) [Suc k..<16])"
    using Cons.prems by (intro Cons.IH) (auto dest: spec [of _ "Suc _"])
  ultimately show ?case using k by (simp add: upt_conv_Cons add.commute)
qed

lemma cache_lengths:
  assumes "cache_ok s c F" and "j < 16" shows "length (F ! j) < SIZE_BOUND"
  using chain_length [OF cache_okD(1) [OF assms]] .

lemma cache_eviction_spec:
  assumes c: "cache_ok s c F" and a: "after_store F (unat i)" and i: "unat i < 16"
  shows "evict_class F (unat i) = None \<Longrightarrow> within_limits F \<and>
      hplf_thread_cache_extract_eviction c i e out s = Some (False, c, e, hplf_transfer_list_clear out, s)"
    and "evict_class F (unat i) = Some j \<Longrightarrow> j < 16 \<and> F ! j \<noteq> [] \<and> 0 < evict_count F (unat i) j \<and> (\<exists>c' out' s'.
      hplf_thread_cache_extract_eviction c i e out s = Some (True, c', word_of_nat j, out', s') \<and>
      list_ok s' out' (take (evict_count F (unat i) j) (F ! j)) \<and>
      cache_ok s' c' (F[j := drop (evict_count F (unat i) j) (F ! j)]) \<and>
      relinked (set (take (evict_count F (unat i) j) (F ! j))) s s')"
proof -
  note D = cache_okD [OF c i] and A = a [unfolded after_store_def]
  have "unat (size_class_capacities ! unat i) \<le> 4096" by (rule capacity_bounds(2) [OF capacity_in_table [OF i]])
  then have "cache_bytes F < SIZE_BOUND" using A by simp
  then have tot: "unat (total_slot_bytes c) = cache_bytes F"
    using c by (simp add: cache_ok_def unat_word_of_nat)
  have cnt: "unat (tc_counts c ! j) = length (F ! j)" if "j < 16" for j
    using cache_okD(2) [OF c that] cache_lengths [OF c that] by (simp add: unat_word_of_nat)
  have T1: "tc_counts c ! unat i > HPLF_CACHE_CLASS_BLOCK_LIMIT \<longleftrightarrow> length (F ! unat i) > 32"
    using cnt [OF i] by (simp add: size_t_less_iff HPLF_CACHE_CLASS_BLOCK_LIMIT_def)
  have T2: "total_slot_bytes c \<le> HPLF_CACHE_TOTAL_BYTES_LIMIT \<longleftrightarrow> cache_bytes F \<le> 65536"
    using tot by (simp add: size_t_le_iff HPLF_CACHE_TOTAL_BYTES_LIMIT_def)
  have T3: "tc_counts c ! unat i \<noteq> 0 \<longleftrightarrow> F ! unat i \<noteq> []" using cnt [OF i] by (auto simp: size_t_eq_0_iff)
  have T4: "first_nonempty 0 (tc_counts c) = map_option word_of_nat (find (\<lambda>j. F ! j \<noteq> []) [0..<16])"
    using first_nonempty_find [of "tc_counts c" 0 F] D c cache_lengths [OF c] by (simp add: cache_ok_def)
  note run = hplf_thread_cache_extract_eviction_def T1 T2 T3 T4
  have allempty: "cache_bytes F = 0" if "find (\<lambda>j. F ! j \<noteq> []) [0..<16] = None"
    using that by (auto simp: find_None_iff cache_bytes_def)
  show "within_limits F \<and>
      hplf_thread_cache_extract_eviction c i e out s = Some (False, c, e, hplf_transfer_list_clear out, s)"
    if n: "evict_class F (unat i) = None"
  proof -
    have small: "\<not> length (F ! unat i) > 32" "cache_bytes F \<le> 65536"
      using n allempty by (auto simp: evict_class_def split: if_splits)
    then have "within_limits F" using A by (auto simp: within_limits_def split: if_splits)
    then show ?thesis using small D(5-7) i by (simp add: run Let_def)
  qed
  assume j: "evict_class F (unat i) = Some j"
  then have jl: "j < 16" "F ! j \<noteq> []" and ji: "length (F ! unat i) > 32 \<Longrightarrow> j = unat i"
    using i by (auto simp: evict_class_def find_Some_iff split: if_splits)
  have uj: "unat (word_of_nat j :: size_t) = j" using jl(1) by (simp add: unat_word_of_nat)
  let ?n = "evict_count F (unat i) j"
  have pos: "0 < ?n" using jl ji by (auto simp: evict_count_def)
  have "?n < SIZE_BOUND"
    using cache_lengths [OF c jl(1)] cache_lengths [OF c i] by (cases "32 < length (F ! unat i)") (auto simp only: evict_count_def if_True if_False intro: le_less_trans [OF diff_le_self])
  then have m: "unat (word_of_nat ?n :: size_t) = ?n" by (rule unat_word_of_nat)
  have m0: "(word_of_nat ?n :: size_t) \<noteq> 0" using m pos by (metis unat_0 less_numeral_extra(3))
  from cache_extract_spec(2) [OF c, of "word_of_nat j" "word_of_nat ?n" "hplf_transfer_list_clear out"] jl m m0 uj
  obtain c' out' s' where x: "hplf_thread_cache_extract_class c (word_of_nat j) (word_of_nat ?n)
      (hplf_transfer_list_clear out) s = Some (True, c', out', s')"
    "list_ok s' out' (take ?n (F ! j))" "cache_ok s' c' (F[j := drop ?n (F ! j)])"
    "relinked (set (take ?n (F ! j))) s s'" by auto
  have "hplf_thread_cache_extract_eviction c i e out s = Some (True, c', word_of_nat j, out', s')"
  proof -
    consider (over) "length (F ! unat i) > 32" | (own) "\<not> length (F ! unat i) > 32" "\<not> cache_bytes F \<le> 65536" "F ! unat i \<noteq> []"
      | (other) "\<not> length (F ! unat i) > 32" "\<not> cache_bytes F \<le> 65536" "F ! unat i = []"
      using j by (auto simp: evict_class_def split: if_splits)
    then show ?thesis
    proof cases
      case over
      have "tc_counts c ! unat i - HPLF_CACHE_CLASS_BLOCK_LIMIT = word_of_nat ?n"
        using over D(2) by (simp add: evict_count_def HPLF_CACHE_CLASS_BLOCK_LIMIT_def)
      then show ?thesis using over ji [OF over] x(1) D(5-7) i by (simp add: run Let_def)
    next
      case own
      then have ji': "j = unat i" using j by (simp add: evict_class_def)
      have e: "word_of_nat ?n = tc_counts c ! unat i" using own D(2) ji' by (simp add: evict_count_def)
      show ?thesis using own ji' x(1) [unfolded e] D(5-7) i T3 by (simp add: run Let_def)
    next
      case other
      then have f: "find (\<lambda>j. F ! j \<noteq> []) [0..<16] = Some j" using j by (simp add: evict_class_def)
      have "tc_counts c ! j = word_of_nat ?n" using other cache_okD(2) [OF c jl(1)] by (simp add: evict_count_def)
      then show ?thesis using other f x(1) D(5-7) i T3 uj jl by (simp add: run Let_def)
    qed
  qed
  with jl pos x(2-4) show "j < 16 \<and> F ! j \<noteq> [] \<and> 0 < evict_count F (unat i) j \<and> (\<exists>c' out' s'.
      hplf_thread_cache_extract_eviction c i e out s = Some (True, c', word_of_nat j, out', s') \<and>
      list_ok s' out' (take (evict_count F (unat i) j) (F ! j)) \<and>
      cache_ok s' c' (F[j := drop (evict_count F (unat i) j) (F ! j)]) \<and>
      relinked (set (take (evict_count F (unat i) j) (F ! j))) s s')" by blast
qed

section \<open>The snapshot\<close>

lemma snapshot_loop_spec:
  assumes "idx + k = 16" and "length (tc_heads c) = 16" and "length (tc_counts c) = 16"
    and "length (sn_counts sn) = 16" and "length (sn_list_lengths sn) = 16"
    and "\<forall>i<16. chain (block_next s) (tc_heads c ! i) (F ! i)"
  defines "sums \<equiv> \<lambda>i. word_of_nat (\<Sum>i = i..<16. length (F ! i) * unat (size_class_capacities ! i)) :: size_t"
  shows "snapshot_loop k (word_of_nat idx) c sn acc m s = Some (
    m \<and> (\<forall>i. idx \<le> i \<and> i < 16 \<longrightarrow> tc_counts c ! i = word_of_nat (length (F ! i))) \<and> acc + sums idx = total_slot_bytes c,
    \<lparr>sn_counts = take idx (sn_counts sn) @ drop idx (tc_counts c),
     sn_list_lengths = take idx (sn_list_lengths sn) @ map (\<lambda>i. word_of_nat (length (F ! i))) [idx..<16],
     sn_total_slot_bytes = total_slot_bytes c, sn_computed_slot_bytes = acc + sums idx\<rparr>)"
  using assms(1-6)
proof (induction k arbitrary: idx sn acc m)
  case 0
  then show ?case by (auto simp: not_less [symmetric] sums_def)
next
  case (Suc k)
  then have idx: "idx < 16" by simp
  have u: "unat (word_of_nat idx :: size_t) = idx" using idx by (simp add: unat_word_of_nat)
  let ?n = "tc_counts c ! idx" and ?len = "word_of_nat (length (F ! idx)) :: size_t"
  let ?sn = "sn\<lparr>sn_counts := (sn_counts sn)[idx := ?n], sn_list_lengths := (sn_list_lengths sn)[idx := ?len]\<rparr>"
  let ?cap = "size_class_capacities ! idx"
  have ch: "chain (block_next s) (tc_heads c ! idx) (F ! idx)" using Suc.prems(6) idx by simp
  have cp: "checked (hplf_size_class_capacity (word_of_nat idx) (Some 0)) = Some ?cap"
    using class_capacity_some [of "word_of_nat idx" 0] u idx by simp
  have step: "snapshot_loop (Suc k) (word_of_nat idx) c sn acc m s =
      snapshot_loop k (word_of_nat (Suc idx)) c ?sn (acc + ?len * ?cap) (if ?n \<noteq> ?len then False else m) s"
    using Suc.prems idx u cp from_chain_loop_spec [OF ch, of NULL 0] by (simp add: add.commute)
  note ih = Suc.IH [of "Suc idx" ?sn "acc + ?len * ?cap" "if ?n \<noteq> ?len then False else m"]
  have all: "(\<forall>i. idx \<le> i \<and> i < 16 \<longrightarrow> tc_counts c ! i = word_of_nat (length (F ! i))) \<longleftrightarrow>
      ?n = ?len \<and> (\<forall>i. Suc idx \<le> i \<and> i < 16 \<longrightarrow> tc_counts c ! i = word_of_nat (length (F ! i)))"
    using idx by (metis Suc_le_eq le_less order_refl)
  have sum: "acc + sums idx = (acc + ?len * ?cap) + sums (Suc idx)"
    unfolding sums_def sum.atLeast_Suc_lessThan [OF idx, of "\<lambda>i. length (F ! i) * unat (size_class_capacities ! i)"]
      of_nat_add of_nat_mult by simp
  have rows: "take (Suc idx) ((sn_counts sn)[idx := ?n]) @ drop (Suc idx) (tc_counts c) = take idx (sn_counts sn) @ drop idx (tc_counts c)"
    "take (Suc idx) ((sn_list_lengths sn)[idx := ?len]) @ map (\<lambda>i. word_of_nat (length (F ! i))) [Suc idx..<16] =
       take idx (sn_list_lengths sn) @ map (\<lambda>i. word_of_nat (length (F ! i))) [idx..<16]"
    using idx Suc.prems(3-5) by (simp_all add: take_Suc_conv_app_nth Cons_nth_drop_Suc upt_conv_Cons)
  have "snapshot_loop k (word_of_nat (Suc idx)) c ?sn (acc + ?len * ?cap) (if ?n \<noteq> ?len then False else m) s = Some (
    (if ?n \<noteq> ?len then False else m) \<and> (\<forall>i. Suc idx \<le> i \<and> i < 16 \<longrightarrow> tc_counts c ! i = word_of_nat (length (F ! i))) \<and>
      acc + sums idx = total_slot_bytes c,
    \<lparr>sn_counts = take idx (sn_counts sn) @ drop idx (tc_counts c),
     sn_list_lengths = take idx (sn_list_lengths sn) @ map (\<lambda>i. word_of_nat (length (F ! i))) [idx..<16],
     sn_total_slot_bytes = total_slot_bytes c, sn_computed_slot_bytes = acc + sums idx\<rparr>)"
    using ih Suc.prems rows sum by (simp add: add.assoc)
  then show ?case unfolding step all by (simp only: simp_thms) (auto split: if_splits)
qed

text \<open>The snapshot copies the counters and reports exactly whether they agree with the chains.\<close>

lemma cache_snapshot_spec:
  assumes "length (tc_heads c) = 16" and "length (tc_counts c) = 16"
    and "\<forall>i<16. chain (block_next s) (tc_heads c ! i) (F ! i)"
  shows "hplf_thread_cache_snapshot_take c s = Some (
    (\<forall>i<16. tc_counts c ! i = word_of_nat (length (F ! i))) \<and> word_of_nat (cache_bytes F) = total_slot_bytes c,
    \<lparr>sn_counts = tc_counts c, sn_list_lengths = map (\<lambda>i. word_of_nat (length (F ! i))) [0..<16],
     sn_total_slot_bytes = total_slot_bytes c, sn_computed_slot_bytes = word_of_nat (cache_bytes F)\<rparr>)"
proof -
  let ?sn = "\<lparr>sn_counts = replicate 16 0, sn_list_lengths = replicate 16 0,
        sn_total_slot_bytes = 0, sn_computed_slot_bytes = 0\<rparr>"
  have "0 + (16 :: nat) = 16" by simp
  from snapshot_loop_spec [OF this assms(1,2) _ _ assms(3), of ?sn 0 True] show ?thesis
    by (simp add: hplf_thread_cache_snapshot_take_def cache_bytes_def lessThan_atLeast0)
qed

end
