(* ===== verification/Transfer_Mutex.thy ===== *)
theory Transfer_Mutex
  imports Transfer_List
begin

text \<open>
  \<open>src/transfer_mutex.c\<close>: one shared chain per size class under one mutex.  Publishing appends a
  thread's private chain in front, detaching takes the whole chain.  The code ignores the results of
  the mutex calls; the lemmas assume that locking this mutex succeeds (\<open>transfer_lock_ok\<close>), as POSIX
  documents for a default mutex the caller does not hold.

  The locale \<open>transfer\<close> is the contract that the cached allocator relies on; it is interpreted here.
\<close>

section \<open>Definitions\<close>

record transfer_state = world +
  transfer_mutex :: bool
  transfer_heads :: "addr list"

definition transfer_lock :: "os_env \<Rightarrow> 'a transfer_state_scheme \<Rightarrow> (int \<times> 'a transfer_state_scheme) option" where
  "transfer_lock env s = do {
     (e, held, s) \<leftarrow> pthread_mutex_lock env (transfer_mutex s) s;
     Some (e, s\<lparr>transfer_mutex := held\<rparr>)
   }"

definition transfer_unlock :: "os_env \<Rightarrow> 'a transfer_state_scheme \<Rightarrow> (int \<times> 'a transfer_state_scheme) option" where
  "transfer_unlock env s = do {
     (e, held, s) \<leftarrow> pthread_mutex_unlock env (transfer_mutex s) s;
     Some (e, s\<lparr>transfer_mutex := held\<rparr>)
   }"

definition hplf_transfer_mutex_publish ::
  "os_env \<Rightarrow> size_t \<Rightarrow> hplf_transfer_list \<Rightarrow> 'a transfer_state_scheme \<Rightarrow>
   (hplf_transfer_list \<times> 'a transfer_state_scheme) option" where
  "hplf_transfer_mutex_publish env ci list s =
     (if tl_first list = NULL then Some (list, s)
      else do {
        (_, s) \<leftarrow> transfer_lock env s;
        head \<leftarrow> array_read (transfer_heads s) ci;
        s \<leftarrow> set_next_free (tl_last list) head s;
        heads \<leftarrow> array_write (transfer_heads s) ci (tl_first list);
        (_, s) \<leftarrow> transfer_unlock env (s\<lparr>transfer_heads := heads\<rparr>);
        Some (hplf_transfer_list_clear list, s)
      })"

definition hplf_transfer_mutex_detach ::
  "os_env \<Rightarrow> size_t \<Rightarrow> 'a transfer_state_scheme \<Rightarrow> (hplf_transfer_list \<times> 'a transfer_state_scheme) option" where
  "hplf_transfer_mutex_detach env ci s = do {
     (_, s) \<leftarrow> transfer_lock env s;
     first \<leftarrow> array_read (transfer_heads s) ci;
     heads \<leftarrow> array_write (transfer_heads s) ci NULL;
     (_, s) \<leftarrow> transfer_unlock env (s\<lparr>transfer_heads := heads\<rparr>);
     list \<leftarrow> hplf_transfer_list_from_chain first s;
     Some (list, s)
   }"

text \<open>The test snapshot: the length of every shared chain.\<close>

fun snapshot_counts :: "addr list \<Rightarrow> 'a world_scheme \<Rightarrow> size_t list option" where
  "snapshot_counts [] s = Some []"
| "snapshot_counts (h # hs) s = do {
     (_, n) \<leftarrow> from_chain_loop s h NULL 0;
     ns \<leftarrow> snapshot_counts hs s;
     Some (n # ns)
   }"

definition hplf_transfer_mutex_snapshot ::
  "os_env \<Rightarrow> 'a transfer_state_scheme \<Rightarrow> (size_t list \<times> 'a transfer_state_scheme) option" where
  "hplf_transfer_mutex_snapshot env s = do {
     (_, s) \<leftarrow> transfer_lock env s;
     counts \<leftarrow> snapshot_counts (transfer_heads s) s;
     (_, s) \<leftarrow> transfer_unlock env s;
     Some (counts, s)
   }"

section \<open>The invariant of the shared chains\<close>

definition transfer_lock_ok :: "os_env \<Rightarrow> bool" where
  "transfer_lock_ok env \<longleftrightarrow> os_ok env \<and> (\<forall>t. lock_result env t = 0)"

definition transfers_ok :: "'a transfer_state_scheme \<Rightarrow> addr list list \<Rightarrow> bool" where
  "transfers_ok s T \<longleftrightarrow> \<not> transfer_mutex s \<and> length (transfer_heads s) = 16 \<and> length T = 16 \<and>
     (\<forall>i < 16. chain (block_next s) (transfer_heads s ! i) (T ! i))"

text \<open>Nothing but links of \<open>X\<close>, the shared heads and the call counter changed.\<close>

definition transfer_step :: "addr set \<Rightarrow> 'a transfer_state_scheme \<Rightarrow> 'a transfer_state_scheme \<Rightarrow> bool" where
  "transfer_step X s s' \<longleftrightarrow> (\<forall>p. p \<notin> X \<longrightarrow> blocks s' p = blocks s p) \<and> bshape s' = bshape s \<and>
     (\<forall>p b b'. blocks s p = Some b \<longrightarrow> blocks s' p = Some b' \<longrightarrow> requested_size b' = requested_size b) \<and>
     slab_objs s' = slab_objs s \<and> mappings s' = mappings s \<and> bytes s' = bytes s \<and> errno s' = errno s \<and>
     transfer_state.more s' = transfer_state.more s"

lemma lock_held:
  "transfer_lock_ok env \<Longrightarrow> \<not> transfer_mutex s \<Longrightarrow>
     transfer_lock env s = Some (0, s\<lparr>ticks := Suc (ticks s), transfer_mutex := True\<rparr>)"
  by (simp add: transfer_lock_def pthread_mutex_lock_def transfer_lock_ok_def)

lemma unlock_held:
  "transfer_lock_ok env \<Longrightarrow> transfer_mutex s \<Longrightarrow>
     transfer_unlock env s = Some (0, s\<lparr>ticks := Suc (ticks s), transfer_mutex := False\<rparr>)"
  by (simp add: transfer_unlock_def pthread_mutex_unlock_def transfer_lock_ok_def)

section \<open>Contracts\<close>

lemma publish_mutex:
  assumes ok: "transfer_lock_ok env" and t: "transfers_ok s T" and ci: "unat ci < 16"
    and l: "list_ok s list xs" and dj: "set xs \<inter> \<Union> (set ` set T) = {}"
  shows "\<exists>list' s'. hplf_transfer_mutex_publish env ci list s = Some (list', s') \<and>
    list_ok s' list' [] \<and> transfers_ok s' (T[unat ci := xs @ T ! unat ci]) \<and> transfer_step (set xs) s s'"
proof (cases xs rule: rev_cases)
  case Nil
  with l have "tl_first list = NULL" "list_ok s list []" by (auto simp: list_ok_def)
  with Nil t show ?thesis
    by (auto simp: hplf_transfer_mutex_publish_def transfer_step_def)
next
  case (snoc ys z)
  let ?i = "unat ci"
  note T = t [unfolded transfers_ok_def]
  have c: "chain (block_next s) (tl_first list) (ys @ [z])" and lst: "tl_last list = z"
    using l snoc by (auto simp: list_ok_def)
  have nn: "tl_first list \<noteq> NULL" using chain_first [OF c] by simp
  have sub: "set (T ! j) \<subseteq> \<Union> (set ` set T)" if "j < 16" for j using that T by (metis Sup_upper image_eqI nth_mem)
  have z: "z \<notin> set (T ! j)" if "j < 16" for j using sub [OF that] dj snoc by auto
  obtain b where b: "blocks s z = Some b" using chain_nodes [OF c, of z] by (auto simp: block_next_def)
  let ?b = "b\<lparr>next_free := transfer_heads s ! ?i\<rparr>"
  let ?s = "s\<lparr>ticks := Suc (Suc (ticks s)), blocks := (blocks s)(z \<mapsto> ?b),
    transfer_heads := (transfer_heads s)[?i := tl_first list], transfer_mutex := False\<rparr>"
  have run: "hplf_transfer_mutex_publish env ci list s = Some (hplf_transfer_list_clear list, ?s)"
    using nn lst b ci T ok
    by (simp add: hplf_transfer_mutex_publish_def lock_held unlock_held set_next_free_def update_block_def)
  have bn: "block_next ?s = (block_next s)(z \<mapsto> transfer_heads s ! ?i)"
    by (auto simp: block_next_def fun_eq_iff)
  have "chain (block_next ?s) (transfer_heads ?s ! j) (T[?i := xs @ T ! ?i] ! j)" if j: "j < 16" for j
  proof (cases "j = ?i")
    case True
    have "chain (block_next s) (transfer_heads s ! ?i) (T ! ?i)" using T ci by simp
    from chain_splice [OF c this z [OF ci]] show ?thesis
      using True ci T unfolding bn by (simp add: snoc)
  next
    case False
    then show ?thesis using T j z [OF j] unfolding bn by simp
  qed
  then have "transfers_ok ?s (T[?i := xs @ T ! ?i])" using T by (simp add: transfers_ok_def)
  moreover have "transfer_step (set xs) s ?s"
    using b snoc by (auto simp: transfer_step_def bshape_def fun_eq_iff)
  ultimately show ?thesis using run clear_ok by blast
qed

lemma detach_mutex:
  assumes ok: "transfer_lock_ok env" and t: "transfers_ok s T" and ci: "unat ci < 16"
  shows "\<exists>list' s'. hplf_transfer_mutex_detach env ci s = Some (list', s') \<and>
    list_ok s' list' (T ! unat ci) \<and> transfers_ok s' (T[unat ci := []]) \<and> transfer_step {} s s'"
proof -
  let ?i = "unat ci"
  note T = t [unfolded transfers_ok_def]
  let ?s = "s\<lparr>transfer_heads := (transfer_heads s)[?i := NULL], ticks := Suc (Suc (ticks s)),
    transfer_mutex := False\<rparr>"
  have bn: "block_next ?s = block_next s" by (simp add: block_next_def fun_eq_iff)
  have "chain (block_next ?s) (transfer_heads s ! ?i) (T ! ?i)" unfolding bn using T ci by simp
  then obtain l where l: "hplf_transfer_list_from_chain (transfer_heads s ! ?i) ?s = Some l"
    "list_ok ?s l (T ! ?i)" by (rule from_chain_spec)
  have run: "hplf_transfer_mutex_detach env ci s = Some (l, ?s)"
    using ci T ok l(1) by (simp add: hplf_transfer_mutex_detach_def lock_held unlock_held)
  have "chain (block_next ?s) (transfer_heads ?s ! j) (T[?i := []] ! j)" if "j < 16" for j
    unfolding bn using T that by (cases "j = ?i") auto
  then have "transfers_ok ?s (T[?i := []])" using T by (simp add: transfers_ok_def)
  moreover have "transfer_step {} s ?s" by (simp add: transfer_step_def bshape_def fun_eq_iff)
  ultimately show ?thesis using run l(2) by blast
qed

lemma snapshot_counts_spec:
  "\<forall>i < length hs. chain (block_next s) (hs ! i) (T ! i) \<Longrightarrow> length T = length hs \<Longrightarrow>
     snapshot_counts hs s = Some (map (\<lambda>xs. word_of_nat (length xs)) T)"
proof (induction hs arbitrary: T)
  case Nil
  then show ?case by simp
next
  case (Cons h hs)
  then obtain xs T' where T: "T = xs # T'" by (cases T) auto
  then have "chain (block_next s) h xs" using Cons.prems(1) by (auto dest: spec [of _ 0])
  moreover have "\<forall>i < length hs. chain (block_next s) (hs ! i) (T' ! i)"
    using Cons.prems(1) T by (auto dest: spec [of _ "Suc _"])
  ultimately show ?case using Cons.IH [of T'] Cons.prems(2) T by (simp add: from_chain_loop_spec)
qed

lemma snapshot_mutex:
  assumes ok: "transfer_lock_ok env" and t: "transfers_ok s T"
  shows "\<exists>s'. hplf_transfer_mutex_snapshot env s = Some (map (\<lambda>xs. word_of_nat (length xs)) T, s') \<and>
    transfers_ok s' T \<and> transfer_step {} s s'"
proof -
  note T = t [unfolded transfers_ok_def]
  let ?s1 = "s\<lparr>ticks := Suc (ticks s), transfer_mutex := True\<rparr>"
  let ?s2 = "s\<lparr>ticks := Suc (Suc (ticks s)), transfer_mutex := False\<rparr>"
  have bn: "block_next ?s1 = block_next s" "block_next ?s2 = block_next s" by (simp_all add: block_next_def fun_eq_iff)
  have "snapshot_counts (transfer_heads s) ?s1 = Some (map (\<lambda>xs. word_of_nat (length xs)) T)"
    using T by (intro snapshot_counts_spec) (simp_all add: bn)
  then have "hplf_transfer_mutex_snapshot env s = Some (map (\<lambda>xs. word_of_nat (length xs)) T, ?s2)"
    using T ok by (simp add: hplf_transfer_mutex_snapshot_def lock_held unlock_held)
  moreover have "transfers_ok ?s2 T" using T by (simp add: transfers_ok_def bn)
  moreover have "transfer_step {} s ?s2" by (simp add: transfer_step_def bshape_def fun_eq_iff)
  ultimately show ?thesis by blast
qed

lemma transfer_step_links: "transfer_step X s s' \<Longrightarrow> links_only X s s'"
  by (simp add: transfer_step_def links_only_def)

interpretation mutex_transfer: transfer transfer_lock_ok transfers_ok hplf_transfer_mutex_publish hplf_transfer_mutex_detach
proof (unfold_locales, goal_cases)
  case (1 s T)
  then show ?case by (simp add: transfers_ok_def)
next
  case (2 env s T ci l xs)
  then have "set xs \<inter> \<Union> (set ` set T) = {}" by simp
  from publish_mutex [OF 2(1-4) this] show ?case by (blast dest: transfer_step_links)
next
  case (3 env s T ci)
  from detach_mutex [OF this] show ?case by (blast dest: transfer_step_links)
qed

end
