(* ===== verification/Thread_Cache_Lifecycle.thy ===== *)
theory Thread_Cache_Lifecycle
  imports Thread_Cache Transfer_Mutex
begin

text \<open>
  \<open>src/thread_cache_lifecycle.c\<close>: a thread's cache lives in a descriptor with a mapping of its own;
  a pthread key makes the descriptor's destructor run at thread exit.  Threads are numbered, and the
  thread-local variables are functions of the number.  Descriptors are a store of their own beside
  blocks and slabs; unmapping a range removes the descriptors in it.

  \<open>pthread_once\<close>, \<open>pthread_key_create\<close> and \<open>pthread_setspecific\<close> are not part of the repository:
  their results are the parameter \<open>pthread_env\<close>, indexed by the number of system calls made so far.
\<close>

section \<open>Definitions\<close>

record hplf_cache_descriptor =
  dc_cache :: hplf_thread_cache
  dc_mapping_base :: addr
  dc_mapping_length :: size_t

definition sizeof_hplf_cache_descriptor :: size_t where
  "sizeof_hplf_cache_descriptor = 280"

datatype hplf_cache_lifecycle_state = HPLF_CACHE_UNINITIALIZED | HPLF_CACHE_ACTIVE | HPLF_CACHE_UNCACHED

record hplf_lifecycle_stats =
  key_create_attempts :: size_t
  descriptor_map_attempts :: size_t
  descriptor_maps :: size_t
  descriptor_unmaps :: size_t
  descriptor_bytes_mapped :: size_t
  descriptor_bytes_unmapped :: size_t
  registration_attempts :: size_t
  registration_failures :: size_t
  destructor_calls :: size_t
  active_descriptors :: size_t
  fail_descriptor_map_at :: size_t
  fail_registration_at :: size_t
  fail_key_create :: bool

record hplf_cache_lifecycle_test_stats =
  ts_key_create_attempts :: size_t
  ts_descriptor_map_attempts :: size_t
  ts_descriptor_maps :: size_t
  ts_descriptor_unmaps :: size_t
  ts_descriptor_bytes_mapped :: size_t
  ts_descriptor_bytes_unmapped :: size_t
  ts_registration_attempts :: size_t
  ts_registration_failures :: size_t
  ts_destructor_calls :: size_t
  ts_active_descriptors :: size_t

record pthread_env =
  once_result :: "nat \<Rightarrow> int"
  key_create_result :: "nat \<Rightarrow> int"
  setspecific_result :: "nat \<Rightarrow> int"

record lifecycle_state = transfer_state +
  cache_key_once :: bool
  cache_key_error :: int
  cache_key_values :: "nat \<Rightarrow> addr"
  current_descriptor :: "nat \<Rightarrow> addr"
  current_state :: "nat \<Rightarrow> hplf_cache_lifecycle_state"
  descriptors :: "addr \<Rightarrow> hplf_cache_descriptor option"
  lc_stats :: hplf_lifecycle_stats

text \<open>\<open>HPLF_TEST_INCREMENT\<close> and \<open>HPLF_TEST_ADD\<close>: the counters of the testing build.\<close>

definition count_stat ::
  "os_env \<Rightarrow> (hplf_lifecycle_stats \<Rightarrow> hplf_lifecycle_stats) \<Rightarrow> 'a lifecycle_state_scheme \<Rightarrow> 'a lifecycle_state_scheme" where
  "count_stat env f s = (if hplf_testing env then s\<lparr>lc_stats := f (lc_stats s)\<rparr> else s)"

text \<open>The loop of \<open>flush_descriptor\<close>; the second argument counts the classes that are left.\<close>

fun flush_loop ::
  "os_env \<Rightarrow> nat \<Rightarrow> size_t \<Rightarrow> addr \<Rightarrow> size_t \<Rightarrow> 'a lifecycle_state_scheme \<Rightarrow>
   (size_t \<times> 'a lifecycle_state_scheme) option" where
  "flush_loop env 0 ci descriptor published s = Some (published, s)"
| "flush_loop env (Suc k) ci descriptor published s = do {
     d \<leftarrow> descriptors s descriptor;
     (extracted, cache, list, s) \<leftarrow> hplf_thread_cache_extract_class (dc_cache d) ci SIZE_MAX
        \<lparr>tl_first = NULL, tl_last = NULL, tl_count = 0\<rparr> s;
     let s = s\<lparr>descriptors := (descriptors s)(descriptor \<mapsto> d\<lparr>dc_cache := cache\<rparr>)\<rparr>;
     if extracted then do {
       let published = published + tl_count list;
       (_, s) \<leftarrow> hplf_transfer_mutex_publish env ci list s;
       flush_loop env k (ci + 1) descriptor published s
     }
     else flush_loop env k (ci + 1) descriptor published s
   }"

definition flush_descriptor ::
  "os_env \<Rightarrow> addr \<Rightarrow> 'a lifecycle_state_scheme \<Rightarrow> (size_t \<times> 'a lifecycle_state_scheme) option" where
  "flush_descriptor env descriptor s = flush_loop env 16 0 descriptor 0 s"

definition drop_descriptors :: "addr \<Rightarrow> size_t \<Rightarrow> 'a lifecycle_state_scheme \<Rightarrow> 'a lifecycle_state_scheme" where
  "drop_descriptors base len s =
     s\<lparr>descriptors := (\<lambda>p. if in_range base (unat len) p then None else descriptors s p)\<rparr>"

definition release_descriptor ::
  "os_env \<Rightarrow> addr \<Rightarrow> bool \<Rightarrow> 'a lifecycle_state_scheme \<Rightarrow> 'a lifecycle_state_scheme option" where
  "release_descriptor env descriptor count_destructor s =
     (if descriptor = NULL then Some s
      else do {
        let s = (if count_destructor
                 then count_stat env (\<lambda>t. t\<lparr>destructor_calls := destructor_calls t + 1\<rparr>) s else s);
        (_, s) \<leftarrow> flush_descriptor env descriptor s;
        d \<leftarrow> descriptors s descriptor;
        let base = dc_mapping_base d;
        let len = dc_mapping_length d;
        (r, s) \<leftarrow> sys_munmap env base len s;
        Some (if r = 0
              then count_stat env (\<lambda>t. t\<lparr>descriptor_unmaps := descriptor_unmaps t + 1,
                     descriptor_bytes_unmapped := descriptor_bytes_unmapped t + len,
                     active_descriptors := active_descriptors t - 1\<rparr>) (drop_descriptors base len s)
              else s)
      })"

definition destroy_descriptor ::
  "os_env \<Rightarrow> nat \<Rightarrow> addr \<Rightarrow> 'a lifecycle_state_scheme \<Rightarrow> 'a lifecycle_state_scheme option" where
  "destroy_descriptor env tid descriptor s =
     (if descriptor = NULL then Some s
      else release_descriptor env descriptor True
        (s\<lparr>current_descriptor := (current_descriptor s)(tid := NULL),
           current_state := (current_state s)(tid := HPLF_CACHE_UNCACHED)\<rparr>))"

text \<open>What the thread library does with the key's value when thread \<open>tid\<close> ends.\<close>

definition thread_exit ::
  "os_env \<Rightarrow> nat \<Rightarrow> 'a lifecycle_state_scheme \<Rightarrow> 'a lifecycle_state_scheme option" where
  "thread_exit env tid s = (let v = cache_key_values s tid in
     if v = NULL then Some s
     else destroy_descriptor env tid v (s\<lparr>cache_key_values := (cache_key_values s)(tid := NULL)\<rparr>))"

definition create_cache_key :: "os_env \<Rightarrow> pthread_env \<Rightarrow> 'a lifecycle_state_scheme \<Rightarrow> 'a lifecycle_state_scheme" where
  "create_cache_key env penv s =
     (let s = count_stat env (\<lambda>t. t\<lparr>key_create_attempts := key_create_attempts t + 1\<rparr>) s in
      if hplf_testing env \<and> fail_key_create (lc_stats s) then s\<lparr>cache_key_error := EAGAIN\<rparr>
      else s\<lparr>cache_key_error := key_create_result penv (ticks s), ticks := Suc (ticks s)\<rparr>)"

text \<open>\<open>pthread_once(&cache_key_once, create_cache_key)\<close>: runs its argument on the first successful call.\<close>

definition once_create_key ::
  "os_env \<Rightarrow> pthread_env \<Rightarrow> 'a lifecycle_state_scheme \<Rightarrow> int \<times> 'a lifecycle_state_scheme" where
  "once_create_key env penv s =
     (let e = once_result penv (ticks s); s = s\<lparr>ticks := Suc (ticks s)\<rparr> in
      if e \<noteq> 0 then (e, s)
      else if cache_key_once s then (0, s)
      else (0, (create_cache_key env penv s)\<lparr>cache_key_once := True\<rparr>))"

definition store_descriptor ::
  "addr \<Rightarrow> hplf_cache_descriptor \<Rightarrow> 'a lifecycle_state_scheme \<Rightarrow> 'a lifecycle_state_scheme option" where
  "store_descriptor p d s =
     (if mapped s p 280 then Some (clobber p 280 s\<lparr>descriptors := (descriptors s)(p \<mapsto> d)\<rparr>) else None)"

definition map_descriptor ::
  "os_env \<Rightarrow> 'a lifecycle_state_scheme \<Rightarrow> (addr \<times> 'a lifecycle_state_scheme) option" where
  "map_descriptor env s =
     (if sint (sc_pagesize env) \<le> 0 then Some (NULL, s)
      else case checked (hplf_size_round_up_multiple sizeof_hplf_cache_descriptor (sc_pagesize env) (Some 0)) of
        None \<Rightarrow> Some (NULL, s)
      | Some len \<Rightarrow>
          let s = count_stat env (\<lambda>t. t\<lparr>descriptor_map_attempts := descriptor_map_attempts t + 1\<rparr>) s in
          if hplf_testing env \<and> descriptor_map_attempts (lc_stats s) = fail_descriptor_map_at (lc_stats s)
          then Some (NULL, s)
          else case sys_mmap env len s of
            (None, s) \<Rightarrow> Some (NULL, s)
          | (Some mapping, s) \<Rightarrow> do {
              s \<leftarrow> store_descriptor mapping
                \<lparr>dc_cache = hplf_thread_cache_initialize, dc_mapping_base = mapping, dc_mapping_length = len\<rparr> s;
              Some (mapping, count_stat env (\<lambda>t. t\<lparr>descriptor_maps := descriptor_maps t + 1,
                descriptor_bytes_mapped := descriptor_bytes_mapped t + len,
                active_descriptors := active_descriptors t + 1\<rparr>) s)
            })"

text \<open>\<open>pthread_setspecific(cache_key, value)\<close>.\<close>

definition set_key_value ::
  "pthread_env \<Rightarrow> nat \<Rightarrow> addr \<Rightarrow> 'a lifecycle_state_scheme \<Rightarrow> int \<times> 'a lifecycle_state_scheme" where
  "set_key_value penv tid v s =
     (let e = setspecific_result penv (ticks s); s = s\<lparr>ticks := Suc (ticks s)\<rparr> in
      (e, if e = 0 then s\<lparr>cache_key_values := (cache_key_values s)(tid := v)\<rparr> else s))"

definition register_descriptor ::
  "os_env \<Rightarrow> pthread_env \<Rightarrow> nat \<Rightarrow> addr \<Rightarrow> 'a lifecycle_state_scheme \<Rightarrow> int \<times> 'a lifecycle_state_scheme" where
  "register_descriptor env penv tid descriptor s =
     (let s = count_stat env (\<lambda>t. t\<lparr>registration_attempts := registration_attempts t + 1\<rparr>) s in
      if hplf_testing env \<and> registration_attempts (lc_stats s) = fail_registration_at (lc_stats s)
      then (EAGAIN, s) else set_key_value penv tid descriptor s)"

definition hplf_cache_acquire ::
  "os_env \<Rightarrow> pthread_env \<Rightarrow> nat \<Rightarrow> 'a lifecycle_state_scheme \<Rightarrow> (addr \<times> 'a lifecycle_state_scheme) option" where
  "hplf_cache_acquire env penv tid s =
     (case current_state s tid of
        HPLF_CACHE_ACTIVE \<Rightarrow> Some (current_descriptor s tid, s)
      | HPLF_CACHE_UNCACHED \<Rightarrow> Some (NULL, s)
      | HPLF_CACHE_UNINITIALIZED \<Rightarrow>
          let (e, s) = once_create_key env penv s in
          if e \<noteq> 0 \<or> cache_key_error s \<noteq> 0
          then Some (NULL, s\<lparr>current_state := (current_state s)(tid := HPLF_CACHE_UNCACHED)\<rparr>)
          else do {
            (descriptor, s) \<leftarrow> map_descriptor env s;
            if descriptor = NULL
            then Some (NULL, s\<lparr>current_state := (current_state s)(tid := HPLF_CACHE_UNCACHED)\<rparr>)
            else let (e, s) = register_descriptor env penv tid descriptor s in
              if e \<noteq> 0 then do {
                let s = count_stat env (\<lambda>t. t\<lparr>registration_failures := registration_failures t + 1\<rparr>) s;
                let s = s\<lparr>current_state := (current_state s)(tid := HPLF_CACHE_UNCACHED)\<rparr>;
                s \<leftarrow> release_descriptor env descriptor False s;
                Some (NULL, s)
              }
              else Some (descriptor, s\<lparr>current_descriptor := (current_descriptor s)(tid := descriptor),
                current_state := (current_state s)(tid := HPLF_CACHE_ACTIVE)\<rparr>)
          })"

text \<open>
  A cache is named by its descriptor: \<open>&descriptor->cache\<close> is the descriptor's own address, since the
  cache is its first member.
\<close>

definition hplf_cache_current :: "nat \<Rightarrow> 'a lifecycle_state_scheme \<Rightarrow> addr" where
  "hplf_cache_current tid s = (if current_state s tid = HPLF_CACHE_ACTIVE then current_descriptor s tid else NULL)"

definition hplf_cache_flush_current ::
  "os_env \<Rightarrow> nat \<Rightarrow> 'a lifecycle_state_scheme \<Rightarrow> (size_t \<times> 'a lifecycle_state_scheme) option" where
  "hplf_cache_flush_current env tid s =
     (if current_state s tid = HPLF_CACHE_ACTIVE then flush_descriptor env (current_descriptor s tid) s
      else Some (0, s))"

definition hplf_cache_state :: "nat \<Rightarrow> 'a lifecycle_state_scheme \<Rightarrow> hplf_cache_lifecycle_state" where
  "hplf_cache_state tid s = current_state s tid"

definition hplf_cache_lifecycle_test_reset :: "'a lifecycle_state_scheme \<Rightarrow> 'a lifecycle_state_scheme" where
  "hplf_cache_lifecycle_test_reset s = s\<lparr>lc_stats := \<lparr>key_create_attempts = 0, descriptor_map_attempts = 0,
     descriptor_maps = 0, descriptor_unmaps = 0, descriptor_bytes_mapped = 0, descriptor_bytes_unmapped = 0,
     registration_attempts = 0, registration_failures = 0, destructor_calls = 0, active_descriptors = 0,
     fail_descriptor_map_at = 0, fail_registration_at = 0, fail_key_create = False\<rparr>\<rparr>"

definition hplf_cache_lifecycle_test_fail_key_create :: "'a lifecycle_state_scheme \<Rightarrow> 'a lifecycle_state_scheme" where
  "hplf_cache_lifecycle_test_fail_key_create s = s\<lparr>lc_stats := (lc_stats s)\<lparr>fail_key_create := True\<rparr>\<rparr>"

definition hplf_cache_lifecycle_test_fail_descriptor_map ::
  "size_t \<Rightarrow> 'a lifecycle_state_scheme \<Rightarrow> 'a lifecycle_state_scheme" where
  "hplf_cache_lifecycle_test_fail_descriptor_map attempt s =
     s\<lparr>lc_stats := (lc_stats s)\<lparr>fail_descriptor_map_at := attempt\<rparr>\<rparr>"

definition hplf_cache_lifecycle_test_fail_registration ::
  "size_t \<Rightarrow> 'a lifecycle_state_scheme \<Rightarrow> 'a lifecycle_state_scheme" where
  "hplf_cache_lifecycle_test_fail_registration attempt s =
     s\<lparr>lc_stats := (lc_stats s)\<lparr>fail_registration_at := attempt\<rparr>\<rparr>"

definition hplf_cache_lifecycle_test_get :: "'a lifecycle_state_scheme \<Rightarrow> hplf_cache_lifecycle_test_stats" where
  "hplf_cache_lifecycle_test_get s = (let t = lc_stats s in
     \<lparr>ts_key_create_attempts = key_create_attempts t, ts_descriptor_map_attempts = descriptor_map_attempts t,
      ts_descriptor_maps = descriptor_maps t, ts_descriptor_unmaps = descriptor_unmaps t,
      ts_descriptor_bytes_mapped = descriptor_bytes_mapped t,
      ts_descriptor_bytes_unmapped = descriptor_bytes_unmapped t,
      ts_registration_attempts = registration_attempts t, ts_registration_failures = registration_failures t,
      ts_destructor_calls = destructor_calls t, ts_active_descriptors = active_descriptors t\<rparr>)"

definition hplf_cache_lifecycle_test_teardown_current ::
  "os_env \<Rightarrow> pthread_env \<Rightarrow> nat \<Rightarrow> 'a lifecycle_state_scheme \<Rightarrow> (bool \<times> 'a lifecycle_state_scheme) option" where
  "hplf_cache_lifecycle_test_teardown_current env penv tid s =
     (let descriptor = current_descriptor s tid in
      if current_state s tid \<noteq> HPLF_CACHE_ACTIVE then Some (False, s)
      else let (e, s) = set_key_value penv tid NULL s in
        if e \<noteq> 0 then Some (False, s)
        else do {
          s \<leftarrow> release_descriptor env descriptor True
            (s\<lparr>current_descriptor := (current_descriptor s)(tid := NULL),
               current_state := (current_state s)(tid := HPLF_CACHE_UNCACHED)\<rparr>);
          Some (True, s)
        })"

section \<open>Flushing a cache\<close>

text \<open>What a flush of the descriptor at \<open>p\<close> leaves alone; \<open>X\<close> are the blocks it hands over.\<close>

definition flush_frame ::
  "addr set \<Rightarrow> addr \<Rightarrow> 'a lifecycle_state_scheme \<Rightarrow> 'a lifecycle_state_scheme \<Rightarrow> bool" where
  "flush_frame X p s s' \<longleftrightarrow> (\<forall>q. q \<notin> X \<longrightarrow> blocks s' q = blocks s q) \<and> bshape s' = bshape s \<and>
     slab_objs s' = slab_objs s \<and> mappings s' = mappings s \<and> bytes s' = bytes s \<and>
     (\<forall>q. q \<noteq> p \<longrightarrow> descriptors s' q = descriptors s q) \<and>
     map_option dc_mapping_base (descriptors s' p) = map_option dc_mapping_base (descriptors s p) \<and>
     map_option dc_mapping_length (descriptors s' p) = map_option dc_mapping_length (descriptors s p) \<and>
     current_state s' = current_state s \<and> current_descriptor s' = current_descriptor s \<and>
     cache_key_values s' = cache_key_values s \<and> cache_key_once s' = cache_key_once s \<and>
     cache_key_error s' = cache_key_error s \<and> lc_stats s' = lc_stats s \<and>
     lifecycle_state.more s' = lifecycle_state.more s"

lemma flush_frame_refl [simp]: "flush_frame X p s s"
  by (simp add: flush_frame_def)

lemma flush_frame_trans:
  "flush_frame X p s s' \<Longrightarrow> flush_frame Y p s' s'' \<Longrightarrow> X \<union> Y \<subseteq> Z \<Longrightarrow> flush_frame Z p s s''"
  unfolding flush_frame_def by (metis UnI1 UnI2 subsetD)

lemma lifecycle_fields:
  fixes s s' :: "'a lifecycle_state_scheme"
  assumes "transfer_state.more s' = transfer_state.more s"
  shows "cache_key_once s' = cache_key_once s" "cache_key_error s' = cache_key_error s"
    "cache_key_values s' = cache_key_values s" "current_descriptor s' = current_descriptor s"
    "current_state s' = current_state s" "descriptors s' = descriptors s" "lc_stats s' = lc_stats s"
    "lifecycle_state.more s' = lifecycle_state.more s"
  using assms by (cases s; cases s'; simp)+

lemma transfer_fields:
  fixes s s' :: "'a transfer_state_scheme"
  assumes "world.more s' = world.more s"
  shows "transfer_mutex s' = transfer_mutex s" "transfer_heads s' = transfer_heads s"
    "transfer_state.more s' = transfer_state.more s"
  using assms by (cases s; cases s'; simp)+

lemma relinked_frame:
  fixes s s' :: "'a lifecycle_state_scheme"
  assumes "relinked X s s'" shows "flush_frame X p s s'"
  using assms transfer_fields [of s' s] lifecycle_fields [of s' s] by (simp add: relinked_def flush_frame_def)

lemma step_frame:
  fixes s s' :: "'a lifecycle_state_scheme"
  assumes "transfer_step X s s'" shows "flush_frame X p s s'"
  using assms lifecycle_fields [of s' s] by (simp add: transfer_step_def flush_frame_def)

lemma descriptor_update [simp]:
  "block_next (s\<lparr>descriptors := D\<rparr>) = block_next s"
  "cache_ok (s\<lparr>descriptors := D\<rparr>) c F = cache_ok s c F"
  "list_ok (s\<lparr>descriptors := D\<rparr>) l xs = list_ok s l xs"
  "transfers_ok (s\<lparr>descriptors := D\<rparr>) T = transfers_ok s T"
proof -
  show bn: "block_next (s\<lparr>descriptors := D\<rparr>) = block_next s" by (simp add: block_next_def fun_eq_iff)
  show "cache_ok (s\<lparr>descriptors := D\<rparr>) c F = cache_ok s c F"
    "list_ok (s\<lparr>descriptors := D\<rparr>) l xs = list_ok s l xs"
    "transfers_ok (s\<lparr>descriptors := D\<rparr>) T = transfers_ok s T"
    by (simp_all add: cache_ok_def list_ok_def transfers_ok_def bn)
qed

lemma transfers_ok_relinked:
  assumes t: "transfers_ok s T" and rl: "relinked X s s'" and X: "X \<inter> set (concat T) = {}"
  shows "transfers_ok s' T"
proof -
  note f = transfer_fields [of s' s] and T = t [unfolded transfers_ok_def]
  have "chain (block_next s') (transfer_heads s ! j) (T ! j) \<longleftrightarrow> chain (block_next s) (transfer_heads s ! j) (T ! j)"
    if "j < 16" for j
  proof (rule chain_cong)
    fix x assume "x \<in> set (T ! j)"
    then have "x \<notin> X" using X T that set_concat_self [of j T] by auto
    then show "block_next s' x = block_next s x" using rl by (simp add: relinked_def block_next_def)
  qed
  with T rl f show ?thesis by (simp add: transfers_ok_def relinked_def)
qed

lemma cache_ok_step:
  assumes c: "cache_ok s c F" and st: "transfer_step X s s'" and X: "X \<inter> set (concat F) = {}"
  shows "cache_ok s' c F"
proof -
  have "chain (block_next s') (tc_heads c ! j) (F ! j) \<longleftrightarrow> chain (block_next s) (tc_heads c ! j) (F ! j)" if j: "j < 16" for j
  proof (rule chain_cong)
    fix x assume "x \<in> set (F ! j)"
    then have "x \<notin> X" using X set_concat_self [of j F] cache_okD(7) [OF c j] j by auto
    then show "block_next s' x = block_next s x" using st by (simp add: transfer_step_def block_next_def)
  qed
  with c show ?thesis by (simp add: cache_ok_def)
qed

lemma unat_SIZE_MAX_take: "cache_ok s c F \<Longrightarrow> i < 16 \<Longrightarrow> take (unat SIZE_MAX) (F ! i) = F ! i \<and> drop (unat SIZE_MAX) (F ! i) = []"
  using cache_lengths [of s c F i] by simp

lemma flush_step:
  assumes ok: "transfer_lock_ok env" and d: "descriptors s p = Some d" and c: "cache_ok s (dc_cache d) F"
    and t: "transfers_ok s T" and dj: "set (concat F) \<inter> set (concat T) = {}" and i: "unat ci < 16"
  obtains s' d' where "flush_loop env (Suc k) ci p n s = flush_loop env k (ci + 1) p (n + word_of_nat (length (F ! unat ci))) s'"
    "descriptors s' p = Some d'" "cache_ok s' (dc_cache d') (F[unat ci := []])"
    "transfers_ok s' (T[unat ci := F ! unat ci @ T ! unat ci])" "flush_frame (set (F ! unat ci)) p s s'"
proof (cases "F ! unat ci = []")
  case True
  let ?c = "hplf_transfer_list_clear \<lparr>tl_first = NULL, tl_last = NULL, tl_count = 0\<rparr>"
  have "hplf_thread_cache_extract_class (dc_cache d) ci SIZE_MAX \<lparr>tl_first = NULL, tl_last = NULL, tl_count = 0\<rparr> s =
      Some (False, dc_cache d, ?c, s)" using True by (intro cache_extract_spec(1) [OF c i]) simp
  moreover have "s\<lparr>descriptors := (descriptors s)(p \<mapsto> d)\<rparr> = s" using d by (simp add: fun_upd_idem)
  ultimately have "flush_loop env (Suc k) ci p n s = flush_loop env k (ci + 1) p n s" using d by simp
  moreover have "F[unat ci := []] = F" "T[unat ci := F ! unat ci @ T ! unat ci] = T"
    using True by (metis list_update_id, simp)
  ultimately show ?thesis using that [of s d] True d c t by simp
next
  case False
  have "(SIZE_MAX :: size_t) \<noteq> 0" by simp
  from cache_extract_spec(2) [OF c i False this, of "\<lparr>tl_first = NULL, tl_last = NULL, tl_count = 0\<rparr>"]
    unat_SIZE_MAX_take [OF c i]
  obtain c1 l s1 where x: "hplf_thread_cache_extract_class (dc_cache d) ci SIZE_MAX
      \<lparr>tl_first = NULL, tl_last = NULL, tl_count = 0\<rparr> s = Some (True, c1, l, s1)"
    "list_ok s1 l (F ! unat ci)" "cache_ok s1 c1 (F[unat ci := []])" "relinked (set (F ! unat ci)) s s1" by auto
  have lenF: "length F = 16" and lenT: "length T = 16"
    using c t by (auto simp: cache_ok_def transfers_ok_def)
  have sub: "set (F ! unat ci) \<subseteq> set (concat F)" using set_concat_self [of "unat ci" F] i lenF by auto
  have t1: "transfers_ok s1 T" using dj sub by (intro transfers_ok_relinked [OF t x(4)]) auto
  have ds: "descriptors s1 = descriptors s"
    using x(4) transfer_fields(3) [of s1 s] lifecycle_fields(6) [of s1 s] by (simp add: relinked_def)
  let ?s2 = "s1\<lparr>descriptors := (descriptors s1)(p \<mapsto> d\<lparr>dc_cache := c1\<rparr>)\<rparr>"
  have "set (F ! unat ci) \<inter> \<Union> (set ` set T) = {}" using dj sub by auto
  from publish_mutex [OF ok, of ?s2 T ci l "F ! unat ci"] t1 x(2) i this obtain l' s3 where
    p: "hplf_transfer_mutex_publish env ci l ?s2 = Some (l', s3)"
    "transfers_ok s3 (T[unat ci := F ! unat ci @ T ! unat ci])" "transfer_step (set (F ! unat ci)) ?s2 s3" by auto
  have f3: "descriptors s3 = descriptors ?s2"
    using p(3) lifecycle_fields(6) [of s3 ?s2] by (simp add: transfer_step_def)
  have "set (F ! unat ci) \<inter> set (concat (F[unat ci := []])) = {}" by (rule cache_okD(4) [OF c i])
  then have c3: "cache_ok s3 c1 (F[unat ci := []])"
    using x(3) by (intro cache_ok_step [OF _ p(3)]) simp_all
  have run: "flush_loop env (Suc k) ci p n s = flush_loop env k (ci + 1) p (n + word_of_nat (length (F ! unat ci))) s3"
    using d x(1,2) p(1) by (simp add: Let_def list_ok_def)
  have fr: "flush_frame (set (F ! unat ci)) p s s3"
  proof -
    have "flush_frame (set (F ! unat ci)) p s s1" by (rule relinked_frame [OF x(4)])
    moreover have "flush_frame {} p s1 ?s2" using d ds by (simp add: flush_frame_def bshape_def fun_eq_iff)
    moreover have "flush_frame (set (F ! unat ci)) p ?s2 s3" by (rule step_frame [OF p(3)])
    ultimately show ?thesis by (meson flush_frame_trans Un_least order_refl empty_subsetI)
  qed
  show ?thesis using that [OF run _ _ p(2) fr] c3 f3 by simp
qed

lemma flush_loop_spec:
  assumes ok: "transfer_lock_ok env" and "descriptors s p = Some d" and "cache_ok s (dc_cache d) F"
    and "transfers_ok s T" and "set (concat F) \<inter> set (concat T) = {}" and "idx + k = 16"
  shows "\<exists>s' d' F' T'. flush_loop env k (word_of_nat idx) p n s =
      Some (n + word_of_nat (\<Sum>j = idx..<16. length (F ! j)), s') \<and>
    descriptors s' p = Some d' \<and> cache_ok s' (dc_cache d') F' \<and> transfers_ok s' T' \<and>
    (\<forall>j<16. F' ! j = (if idx \<le> j then [] else F ! j) \<and> T' ! j = (if idx \<le> j then F ! j @ T ! j else T ! j)) \<and>
    flush_frame (set (concat F)) p s s'"
  using assms(2-6)
proof (induction k arbitrary: idx s d F T n)
  case 0
  have "n + word_of_nat (\<Sum>j = idx..<16. length (F ! j)) = n" using 0(5) by simp
  moreover have "flush_loop env 0 (word_of_nat idx) p n s = Some (n, s)" by simp
  moreover have "\<forall>j<16. F ! j = (if idx \<le> j then [] else F ! j) \<and> T ! j = (if idx \<le> j then F ! j @ T ! j else T ! j)"
    using 0(5) by simp
  ultimately show ?case using 0 flush_frame_refl by metis
next
  case (Suc k)
  then have idx: "idx < 16" and u: "unat (word_of_nat idx :: size_t) = idx" by (simp_all add: unat_word_of_nat)
  have lenF: "length F = 16" and lenT: "length T = 16"
    using Suc.prems by (auto simp: cache_ok_def transfers_ok_def)
  obtain s1 d1 where st:
    "flush_loop env (Suc k) (word_of_nat idx) p n s = flush_loop env k (word_of_nat idx + 1) p (n + word_of_nat (length (F ! idx))) s1"
    "descriptors s1 p = Some d1" "cache_ok s1 (dc_cache d1) (F[idx := []])"
    "transfers_ok s1 (T[idx := F ! idx @ T ! idx])" "flush_frame (set (F ! idx)) p s s1"
    using flush_step [OF ok Suc.prems(1-4), of "word_of_nat idx" k n] idx unfolding u by blast
  have sub: "set (F ! idx) \<subseteq> set (concat F)" using set_concat_self [of idx F] idx lenF by auto
  have subs: "set (concat (F[idx := []])) \<subseteq> set (concat F)" using set_concat_self [of idx F] idx lenF by auto
  have "set (concat (F[idx := []])) \<inter> set (concat (T[idx := F ! idx @ T ! idx])) = {}"
  proof -
    have "set (concat (T[idx := F ! idx @ T ! idx])) = set (F ! idx) \<union> set (concat T)"
      using set_concat_update [of idx T "F ! idx @ T ! idx"] set_concat_self [of idx T] idx lenT by auto
    moreover have "set (F ! idx) \<inter> set (concat (F[idx := []])) = {}" by (rule cache_okD(4) [OF Suc.prems(2) idx])
    ultimately show ?thesis using Suc.prems(4) subs by blast
  qed
  moreover have "Suc idx + k = 16" using Suc.prems(5) by simp
  ultimately obtain s' d' F' T' where ih:
    "flush_loop env k (word_of_nat (Suc idx)) p (n + word_of_nat (length (F ! idx))) s1 =
      Some (n + word_of_nat (length (F ! idx)) + word_of_nat (\<Sum>j = Suc idx..<16. length (F[idx := []] ! j)), s')"
    "descriptors s' p = Some d'" "cache_ok s' (dc_cache d') F'" "transfers_ok s' T'"
    "\<forall>j<16. F' ! j = (if Suc idx \<le> j then [] else F[idx := []] ! j) \<and>
      T' ! j = (if Suc idx \<le> j then F[idx := []] ! j @ T[idx := F ! idx @ T ! idx] ! j else T[idx := F ! idx @ T ! idx] ! j)"
    "flush_frame (set (concat (F[idx := []]))) p s1 s'"
    using Suc.IH [OF st(2-4), of "Suc idx" "n + word_of_nat (length (F ! idx))"] by blast
  have sum: "(\<Sum>j = idx..<16. length (F ! j)) = length (F ! idx) + (\<Sum>j = Suc idx..<16. length (F[idx := []] ! j))"
    using idx by (subst sum.atLeast_Suc_lessThan) (auto intro: sum.cong)
  have "flush_loop env (Suc k) (word_of_nat idx) p n s = Some (n + word_of_nat (\<Sum>j = idx..<16. length (F ! j)), s')"
    unfolding st(1) sum using ih(1) by (simp add: add.commute add.left_commute)
  moreover have "F' ! j = (if idx \<le> j then [] else F ! j) \<and> T' ! j = (if idx \<le> j then F ! j @ T ! j else T ! j)"
    if "j < 16" for j
    using ih(5) that lenF lenT by (cases "j = idx") (auto simp: nth_list_update)
  moreover have "flush_frame (set (concat F)) p s s'"
    by (rule flush_frame_trans [OF st(5) ih(6)]) (use sub subs in blast)
  ultimately show ?case using ih(2-4) by blast
qed

text \<open>
  Flushing a cache publishes every block of it, class by class, in front of the shared chains; it
  returns their number and leaves the cache empty.
\<close>

lemma flush_descriptor_spec:
  assumes "transfer_lock_ok env" and "descriptors s p = Some d" and "cache_ok s (dc_cache d) F"
    and "transfers_ok s T" and "set (concat F) \<inter> set (concat T) = {}"
  shows "\<exists>s' d'. flush_descriptor env p s = Some (word_of_nat (length (concat F)), s') \<and>
    descriptors s' p = Some d' \<and> cache_ok s' (dc_cache d') (replicate 16 []) \<and>
    transfers_ok s' (map2 (@) F T) \<and> flush_frame (set (concat F)) p s s'"
proof -
  have lenF: "length F = 16" and lenT: "length T = 16"
    using assms(3,4) by (auto simp: cache_ok_def transfers_ok_def)
  from flush_loop_spec [OF assms, of 0 16 0] obtain s' d' F' T' where
    f: "flush_loop env 16 0 p 0 s = Some (word_of_nat (\<Sum>j = 0..<16. length (F ! j)), s')"
    "descriptors s' p = Some d'" "cache_ok s' (dc_cache d') F'" "transfers_ok s' T'"
    "\<forall>j<16. F' ! j = [] \<and> T' ! j = F ! j @ T ! j" "flush_frame (set (concat F)) p s s'" by auto
  have "length F' = 16" "length T' = 16" using f(3,4) by (auto simp: cache_ok_def transfers_ok_def)
  then have "F' = replicate 16 []" "T' = map2 (@) F T"
    using f(5) lenF lenT by (auto intro!: nth_equalityI)
  moreover have "length (concat F) = (\<Sum>j = 0..<16. length (F ! j))"
    using lenF by (simp add: length_concat sum_list_sum_nth)
  ultimately show ?thesis using f by (auto simp: flush_descriptor_def)
qed

section \<open>Acquiring a cache\<close>

text \<open>Nothing changed but counters, \<open>errno\<close> and the key's error code.\<close>

definition lc_quiet :: "'a lifecycle_state_scheme \<Rightarrow> 'a lifecycle_state_scheme \<Rightarrow> bool" where
  "lc_quiet s s' \<longleftrightarrow> mappings s' = mappings s \<and> blocks s' = blocks s \<and> slab_objs s' = slab_objs s \<and>
     bytes s' = bytes s \<and> transfer_mutex s' = transfer_mutex s \<and> transfer_heads s' = transfer_heads s \<and>
     cache_key_values s' = cache_key_values s \<and> current_descriptor s' = current_descriptor s \<and>
     current_state s' = current_state s \<and> descriptors s' = descriptors s \<and>
     lifecycle_state.more s' = lifecycle_state.more s"

lemma lc_quiet_refl [simp]: "lc_quiet s s"
  by (simp add: lc_quiet_def)

lemma lc_quiet_trans: "lc_quiet s s' \<Longrightarrow> lc_quiet s' s'' \<Longrightarrow> lc_quiet s s''"
  by (simp add: lc_quiet_def)

lemma count_quiet [simp]: "lc_quiet s (count_stat env f s)"
  by (simp add: lc_quiet_def count_stat_def)

lemma once_quiet: "once_create_key env penv s = (e, s') \<Longrightarrow> lc_quiet s s'"
  by (auto simp: once_create_key_def create_cache_key_def count_stat_def lc_quiet_def Let_def split: if_splits)

lemma register_cases:
  assumes "register_descriptor env penv tid p s = (e, s')"
  shows "lc_quiet (s\<lparr>cache_key_values := (cache_key_values s)(tid := if e = 0 then p else cache_key_values s tid)\<rparr>) s'"
  using assms
  by (auto simp: register_descriptor_def set_key_value_def count_stat_def lc_quiet_def EAGAIN_def Let_def
      split: if_splits)

definition descriptor_created ::
  "os_env \<Rightarrow> addr \<Rightarrow> size_t \<Rightarrow> 'a lifecycle_state_scheme \<Rightarrow> 'a lifecycle_state_scheme \<Rightarrow> bool" where
  "descriptor_created env p len s s' \<longleftrightarrow> p \<noteq> NULL \<and> unat (sc_pagesize env) dvd unat p \<and>
     280 \<le> unat len \<and> unat p + unat len \<le> SIZE_BOUND \<and>
     (\<forall>(b, l) \<in> set (mappings s). disjoint_ranges p (unat len) b (unat l)) \<and>
     mappings s' = (p, len) # mappings s \<and>
     (\<forall>q. disjoint_ranges p (unat len) q 48 \<longrightarrow> blocks s' q = blocks s q) \<and>
     (\<forall>q. disjoint_ranges p (unat len) q 64 \<longrightarrow> slab_objs s' q = slab_objs s q) \<and>
     (\<forall>q. \<not> in_range p (unat len) q \<longrightarrow> bytes s' q = bytes s q) \<and>
     transfer_mutex s' = transfer_mutex s \<and> transfer_heads s' = transfer_heads s \<and>
     cache_key_values s' = cache_key_values s \<and> current_descriptor s' = current_descriptor s \<and>
     current_state s' = current_state s \<and> lifecycle_state.more s' = lifecycle_state.more s \<and>
     descriptors s' = (descriptors s)(p \<mapsto>
       \<lparr>dc_cache = hplf_thread_cache_initialize, dc_mapping_base = p, dc_mapping_length = len\<rparr>)"

lemma lifecycle_world_fields:
  fixes s s' :: "'a lifecycle_state_scheme"
  assumes "world.more s' = world.more s"
  shows "transfer_mutex s' = transfer_mutex s" "transfer_heads s' = transfer_heads s"
    "cache_key_values s' = cache_key_values s" "current_descriptor s' = current_descriptor s"
    "current_state s' = current_state s" "descriptors s' = descriptors s"
    "lifecycle_state.more s' = lifecycle_state.more s"
  using transfer_fields [OF assms] lifecycle_fields [of s' s] by simp_all

lemma map_descriptor_cases:
  assumes ok: "os_ok env"
  obtains (failed) s' where "map_descriptor env s = Some (NULL, s')" "lc_quiet s s'"
  | (succeeded) p len s' where "map_descriptor env s = Some (p, s')" "descriptor_created env p len s s'"
proof -
  have pg: "\<not> sint (sc_pagesize env) \<le> 0" using ok by (simp add: os_ok_def)
  have pz: "sc_pagesize env \<noteq> 0" using os_ok_page(1) [OF ok] .
  show ?thesis
  proof (cases "checked (hplf_size_round_up_multiple sizeof_hplf_cache_descriptor (sc_pagesize env) (Some 0))")
    case None
    with pg show ?thesis by (intro that(1) [of s]) (simp_all add: map_descriptor_def)
  next
    case (Some len)
    then have "unat len = round_up 280 (unat (sc_pagesize env))"
      by (simp add: size_round_up.success_value sizeof_hplf_cache_descriptor_def)
    then have len: "280 \<le> unat len" using round_up_ge [of "unat (sc_pagesize env)" 280] pz by (simp add: unat_gt_0)
    then have lnz: "len \<noteq> 0" by auto
    let ?s = "count_stat env (\<lambda>t. t\<lparr>descriptor_map_attempts := descriptor_map_attempts t + 1\<rparr>) s"
    let ?inj = "hplf_testing env \<and> descriptor_map_attempts (lc_stats ?s) = fail_descriptor_map_at (lc_stats ?s)"
    obtain r s1 where mm: "sys_mmap env len ?s = (r, s1)" by (cases "sys_mmap env len ?s")
    note q = count_quiet [of s env "\<lambda>t. t\<lparr>descriptor_map_attempts := descriptor_map_attempts t + 1\<rparr>"]
    show ?thesis
    proof (cases ?inj)
      case True
      with Some pg q show ?thesis by (intro that(1) [of ?s]) (simp_all add: map_descriptor_def Let_def)
    next
      case inj: False
      from mm show ?thesis
      proof (cases rule: sys_mmap_cases)
        case failed
        have "lc_quiet s s1"
          using failed(2) q lifecycle_world_fields [of s1 ?s] by (simp add: same_memory_def lc_quiet_def)
        with failed Some pg inj mm show ?thesis
          by (intro that(1) [of s1]) (auto simp: map_descriptor_def Let_def)
      next
        case (succeeded p)
        have ms: "mappings ?s = mappings s" using q by (simp add: lc_quiet_def)
        note om = os_ok_mmap [OF ok succeeded(3) lnz, unfolded ms]
        note rm = succeeded(2) [unfolded range_mapped_def range_gone_def]
        note wf = lifecycle_world_fields [of s1 ?s]
        have "mapped s1 p 280" using rm len by (auto simp: mapped_iff subrange_def)
        then obtain s2 where s2: "store_descriptor p \<lparr>dc_cache = hplf_thread_cache_initialize,
            dc_mapping_base = p, dc_mapping_length = len\<rparr> s1 = Some s2"
          "s2 = clobber p 280 s1\<lparr>descriptors := (descriptors s1)(p \<mapsto> \<lparr>dc_cache = hplf_thread_cache_initialize,
            dc_mapping_base = p, dc_mapping_length = len\<rparr>)\<rparr>" by (simp add: store_descriptor_def)
        let ?s3 = "count_stat env (\<lambda>t. t\<lparr>descriptor_maps := descriptor_maps t + 1,
                descriptor_bytes_mapped := descriptor_bytes_mapped t + len,
                active_descriptors := active_descriptors t + 1\<rparr>) s2"
        have run: "map_descriptor env s = Some (p, ?s3)"
          using Some pg inj mm succeeded(1) s2(1) by (auto simp: map_descriptor_def Let_def)
        have cl: "disjoint_ranges p 280 x n" if "disjoint_ranges p (unat len) x n" for x n
          using that len by (auto simp: disjoint_ranges_def)
        have ci: "\<not> in_range p 280 x" if "\<not> in_range p (unat len) x" for x
          using that len by (auto simp: in_range_def)
        have wc: "world.more (clobber p 280 s1) = world.more s1" by simp
        note wf2 = lifecycle_world_fields [OF wc]
        have "descriptor_created env p len s ?s3"
          unfolding descriptor_created_def
          using om len rm wf q wf2 cl ci
          by (auto simp: s2(2) count_stat_def lc_quiet_def ms)
        with run show ?thesis by (rule that(2))
      qed
    qed
  qed
qed

lemma flush_empty_loop:
  assumes "descriptors s p = Some d" and "cache_ok s (dc_cache d) (replicate 16 [])" and "idx + k = 16"
  shows "flush_loop env k (word_of_nat idx) p n s = Some (n, s)"
  using assms(3)
proof (induction k arbitrary: idx)
  case 0
  then show ?case by simp
next
  case (Suc k)
  then have i: "unat (word_of_nat idx :: size_t) < 16" by (simp add: unat_word_of_nat)
  have "replicate 16 [] ! unat (word_of_nat idx :: size_t) = ([] :: addr list)" using i by (rule nth_replicate)
  then have "hplf_thread_cache_extract_class (dc_cache d) (word_of_nat idx) SIZE_MAX
      \<lparr>tl_first = NULL, tl_last = NULL, tl_count = 0\<rparr> s =
      Some (False, dc_cache d, hplf_transfer_list_clear \<lparr>tl_first = NULL, tl_last = NULL, tl_count = 0\<rparr>, s)"
    by (intro cache_extract_spec(1) [OF assms(2) i] disjI1)
  moreover have "s\<lparr>descriptors := (descriptors s)(p \<mapsto> d)\<rparr> = s" using assms(1) by (simp add: fun_upd_idem)
  ultimately show ?case using assms(1) Suc.IH [of "Suc idx"] Suc.prems by (simp add: add.commute)
qed

text \<open>Releasing a descriptor whose cache is empty: its mapping goes, or stays if \<open>munmap\<close> fails.\<close>

definition descriptor_gone ::
  "addr \<Rightarrow> size_t \<Rightarrow> 'a lifecycle_state_scheme \<Rightarrow> 'a lifecycle_state_scheme \<Rightarrow> bool" where
  "descriptor_gone p len s s' \<longleftrightarrow>
     (\<forall>q. disjoint_ranges p (unat len) q 48 \<longrightarrow> blocks s' q = blocks s q) \<and>
     (\<forall>q. disjoint_ranges p (unat len) q 64 \<longrightarrow> slab_objs s' q = slab_objs s q) \<and>
     (\<forall>q. \<not> in_range p (unat len) q \<longrightarrow> bytes s' q = bytes s q) \<and>
     (\<forall>q. \<not> in_range p (unat len) q \<longrightarrow> descriptors s' q = descriptors s q) \<and>
     transfer_mutex s' = transfer_mutex s \<and> transfer_heads s' = transfer_heads s \<and>
     cache_key_values s' = cache_key_values s \<and> current_descriptor s' = current_descriptor s \<and>
     current_state s' = current_state s \<and> lifecycle_state.more s' = lifecycle_state.more s \<and>
     (mappings s' = remove1 (p, len) (mappings s) \<and> descriptors s' p = None \<or>
      mappings s' = mappings s \<and> descriptors s' p = descriptors s p)"

lemma unmap_descriptor:
  fixes s :: "'a lifecycle_state_scheme"
  assumes m: "(p, len) \<in> set (mappings s)" and len: "0 < unat len"
  shows "\<exists>r s1. sys_munmap env p len s = Some (r, s1) \<and>
    descriptor_gone p len s (if r = 0 then count_stat env f (drop_descriptors p len s1) else s1)"
  using m
proof (cases rule: sys_munmap_cases [where env = env])
  case (failed s1)
  then show ?thesis using lifecycle_world_fields [of s1 s]
    by (auto simp: descriptor_gone_def same_memory_def)
next
  case (succeeded s1)
  note g = succeeded(2) [unfolded range_unmapped_def range_gone_def]
  have "in_range p (unat len) p" using len by (simp add: in_range_def)
  with succeeded(1) g lifecycle_world_fields [of s1 s] show ?thesis
    by (auto simp: descriptor_gone_def drop_descriptors_def count_stat_def)
qed

text \<open>Which of the two it is: the mapping stays only where \<open>munmap\<close> can fail.\<close>

lemma unmapped_or_failed:
  fixes s :: "'a lifecycle_state_scheme"
  assumes "sys_munmap env p len s = Some (r, s1)" and "0 < unat len"
  shows "let s' = if r = 0 then count_stat env f (drop_descriptors p len s1) else s1 in
    mappings s' = remove1 (p, len) (mappings s) \<and> descriptors s' p = None \<or>
    mappings s' = mappings s \<and> \<not> (\<forall>t b l. munmap_result env t b l = 0)"
  using assms
  by (auto simp: sys_munmap_def clobber_def count_stat_def drop_descriptors_def in_range_def Let_def split: if_splits)

lemma release_empty:
  assumes d: "descriptors s p = Some d" "dc_mapping_base d = p" "dc_mapping_length d = len"
    and c: "cache_ok s (dc_cache d) (replicate 16 [])" and p: "p \<noteq> NULL"
    and m: "(p, len) \<in> set (mappings s)" and len: "0 < unat len"
  shows "\<exists>s'. release_descriptor env p False s = Some s' \<and> descriptor_gone p len s s'"
proof -
  have "flush_descriptor env p s = Some (0, s)"
    using flush_empty_loop [OF d(1) c, of 0 16] by (simp add: flush_descriptor_def)
  moreover from unmap_descriptor [OF m len] obtain r s1 where "sys_munmap env p len s = Some (r, s1)"
    "descriptor_gone p len s (if r = 0 then count_stat env (\<lambda>t. t\<lparr>descriptor_unmaps := descriptor_unmaps t + 1,
       descriptor_bytes_unmapped := descriptor_bytes_unmapped t + len,
       active_descriptors := active_descriptors t - 1\<rparr>) (drop_descriptors p len s1) else s1)" by blast
  ultimately show ?thesis using d p by (cases "r = 0") (simp_all add: release_descriptor_def Let_def)
qed

text \<open>What acquiring a cache guarantees to every other user of the memory.\<close>

definition others_kept :: "nat \<Rightarrow> 'a lifecycle_state_scheme \<Rightarrow> 'a lifecycle_state_scheme \<Rightarrow> bool" where
  "others_kept tid s s' \<longleftrightarrow>
     (\<forall>q. mapped s q 48 \<longrightarrow> blocks s' q = blocks s q) \<and> (\<forall>q. mapped s q 64 \<longrightarrow> slab_objs s' q = slab_objs s q) \<and>
     (\<forall>q. mapped s q 1 \<longrightarrow> bytes s' q = bytes s q \<and> descriptors s' q = descriptors s q) \<and>
     set (mappings s) \<subseteq> set (mappings s') \<and>
     transfer_mutex s' = transfer_mutex s \<and> transfer_heads s' = transfer_heads s \<and>
     (\<forall>t. t \<noteq> tid \<longrightarrow> current_state s' t = current_state s t \<and> current_descriptor s' t = current_descriptor s t \<and>
        cache_key_values s' t = cache_key_values s t) \<and> lifecycle_state.more s' = lifecycle_state.more s"

lemma lc_quiet_others: "lc_quiet s s' \<Longrightarrow> others_kept tid s s'"
  by (simp add: lc_quiet_def others_kept_def)

lemma mapped_disjoint:
  assumes "\<forall>(b, l) \<in> set (mappings s). disjoint_ranges p n b (unat l)" and "mapped s q m"
  shows "disjoint_ranges p n q m"
  using assms disjoint_subrange [of p n _ _ p n q m] by (fastforce simp: mapped_iff)

lemma mapped_not_in_range: "disjoint_ranges p n q 1 \<Longrightarrow> \<not> in_range p n q"
  by (auto simp: disjoint_ranges_def in_range_def)

lemma created_others:
  assumes "descriptor_created env p len s s'" shows "others_kept tid s s'"
proof -
  note c = assms [unfolded descriptor_created_def]
  have dj: "disjoint_ranges p (unat len) q m" if "mapped s q m" for q m
    using mapped_disjoint [OF _ that] c by blast
  have "q \<noteq> p" if "mapped s q 1" for q
    using dj [OF that] c by (auto simp: disjoint_ranges_def)
  then show ?thesis using c dj mapped_not_in_range [OF dj] by (auto simp: others_kept_def)
qed

text \<open>Only the thread-local variables of one thread, its key value and counters changed.\<close>

definition tls_step :: "nat \<Rightarrow> 'a lifecycle_state_scheme \<Rightarrow> 'a lifecycle_state_scheme \<Rightarrow> bool" where
  "tls_step tid s s' \<longleftrightarrow> mappings s' = mappings s \<and> blocks s' = blocks s \<and> slab_objs s' = slab_objs s \<and>
     bytes s' = bytes s \<and> transfer_mutex s' = transfer_mutex s \<and> transfer_heads s' = transfer_heads s \<and>
     descriptors s' = descriptors s \<and>
     (\<forall>t. t \<noteq> tid \<longrightarrow> current_state s' t = current_state s t \<and> current_descriptor s' t = current_descriptor s t \<and>
        cache_key_values s' t = cache_key_values s t) \<and> lifecycle_state.more s' = lifecycle_state.more s"

lemma tls_step_trans: "tls_step tid s s' \<Longrightarrow> tls_step tid s' s'' \<Longrightarrow> tls_step tid s s''"
  by (simp add: tls_step_def)

lemma lc_quiet_tls: "lc_quiet s s' \<Longrightarrow> tls_step tid s s'"
  by (simp add: lc_quiet_def tls_step_def)

lemma tls_step_others: "tls_step tid s s' \<Longrightarrow> others_kept tid s s'"
  by (simp add: tls_step_def others_kept_def)

lemma mapped_mono: "set (mappings s) \<subseteq> set (mappings s') \<Longrightarrow> mapped s q n \<Longrightarrow> mapped s' q n"
  by (auto simp: mapped_iff)

lemma others_kept_trans:
  assumes 1: "others_kept tid s s'" and 2: "others_kept tid s' s''"
  shows "others_kept tid s s''"
proof -
  have "mapped s' q n" if "mapped s q n" for q n using 1 that mapped_mono by (auto simp: others_kept_def)
  with 1 2 show ?thesis by (auto simp: others_kept_def)
qed

lemma gone_others:
  assumes cr: "descriptor_created env p len s s1" and st: "tls_step tid s1 s2" and g: "descriptor_gone p len s2 s3"
  shows "others_kept tid s s3"
proof -
  note c = cr [unfolded descriptor_created_def] and t = st [unfolded tls_step_def] and d = g [unfolded descriptor_gone_def]
  have dj: "disjoint_ranges p (unat len) q m" if "mapped s q m" for q m
    using mapped_disjoint [OF _ that] c by blast
  have np: "q \<noteq> p" if "mapped s q 1" for q
    using dj [OF that] c by (auto simp: disjoint_ranges_def)
  have "set (mappings s) \<subseteq> set (mappings s3)" using c t d by auto
  then show ?thesis using c t d dj np mapped_not_in_range [OF dj] by (auto simp: others_kept_def)
qed

text \<open>After a new descriptor was registered the thread is active.\<close>

lemma acquire_activated:
  assumes q1: "lc_quiet s s1" and made: "descriptor_created env p len s1 s2" and s3: "register_descriptor env penv tid p s2 = (0, s3)"
    and s': "s' = s3\<lparr>current_descriptor := (current_descriptor s3)(tid := p), current_state := (current_state s3)(tid := HPLF_CACHE_ACTIVE)\<rparr>"
  shows "others_kept tid s s'" and "maps_ok env (mappings s) \<Longrightarrow> maps_ok env (mappings s')"
    and "mappings s' = (p, len) # mappings s" and "cache_key_values s' tid = p" and "p \<noteq> NULL"
    and "descriptors s' p = Some \<lparr>dc_cache = hplf_thread_cache_initialize, dc_mapping_base = p, dc_mapping_length = len\<rparr>"
proof -
  note c = made [unfolded descriptor_created_def] and q3 = register_cases [OF s3, unfolded lc_quiet_def]
  have t3: "tls_step tid s2 s3" using q3 by (simp add: tls_step_def)
  have o2: "others_kept tid s s2" by (rule others_kept_trans [OF lc_quiet_others [OF q1] created_others [OF made]])
  have "tls_step tid s3 s'" by (simp add: s' tls_step_def)
  then show "others_kept tid s s'" using others_kept_trans [OF o2 tls_step_others [OF tls_step_trans [OF t3]]] by blast
  show m: "mappings s' = (p, len) # mappings s" using c q3 q1 by (simp add: s' lc_quiet_def)
  show "maps_ok env (mappings s')" if "maps_ok env (mappings s)"
    unfolding m by (rule maps_ok_new [OF that]) (use c q1 in \<open>auto simp: lc_quiet_def\<close>)
  show "cache_key_values s' tid = p" "p \<noteq> NULL"
    "descriptors s' p = Some \<lparr>dc_cache = hplf_thread_cache_initialize, dc_mapping_base = p, dc_mapping_length = len\<rparr>"
    using c q3 by (simp_all add: s')
qed

text \<open>When the registration fails the new descriptor is released again.\<close>

lemma acquire_withdrawn:
  assumes q1: "lc_quiet s s1" and made: "descriptor_created env p len s1 s2" and s3: "register_descriptor env penv tid p s2 = (f, s3)" "f \<noteq> 0"
    and s4: "s4 = (count_stat env (\<lambda>t. t\<lparr>registration_failures := registration_failures t + 1\<rparr>) s3)
      \<lparr>current_state := (current_state (count_stat env (\<lambda>t. t\<lparr>registration_failures := registration_failures t + 1\<rparr>) s3))(tid := HPLF_CACHE_UNCACHED)\<rparr>"
  obtains s5 where "release_descriptor env p False s4 = Some s5" "others_kept tid s s5" "current_state s5 tid = HPLF_CACHE_UNCACHED"
    "maps_ok env (mappings s) \<Longrightarrow> maps_ok env (mappings s5)" "cache_key_values s5 tid = cache_key_values s tid"
proof -
  note c = made [unfolded descriptor_created_def] and q3 = register_cases [OF s3(1), unfolded lc_quiet_def]
  have t3: "tls_step tid s2 s3" using q3 by (simp add: tls_step_def)
  have dead: "tls_step tid x (x\<lparr>current_state := (current_state x)(tid := HPLF_CACHE_UNCACHED)\<rparr>)" for x by (simp add: tls_step_def)
  have t4: "tls_step tid s2 s4" unfolding s4 using tls_step_trans [OF tls_step_trans [OF t3 lc_quiet_tls [OF count_quiet]] dead] .
  let ?d = "\<lparr>dc_cache = hplf_thread_cache_initialize, dc_mapping_base = p, dc_mapping_length = len\<rparr>"
  have d4: "descriptors s4 p = Some ?d" "(p, len) \<in> set (mappings s4)" using t4 c by (auto simp: tls_step_def)
  have "\<exists>s'. release_descriptor env p False s4 = Some s' \<and> descriptor_gone p len s4 s'"
    using d4 c cache_init_ok by (intro release_empty [of s4 p ?d]) auto
  then obtain s5 where r: "release_descriptor env p False s4 = Some s5" "descriptor_gone p len s4 s5" by blast
  have "others_kept tid s s5" by (rule others_kept_trans [OF lc_quiet_others [OF q1] gone_others [OF made t4 r(2)]])
  moreover have "current_state s5 tid = HPLF_CACHE_UNCACHED" using r(2) by (simp add: s4 descriptor_gone_def)
  moreover have "maps_ok env (mappings s5)" if "maps_ok env (mappings s)"
  proof -
    have m4: "mappings s4 = (p, len) # mappings s" using t4 c q1 by (simp add: tls_step_def lc_quiet_def)
    have "maps_ok env ((p, len) # mappings s)" by (rule maps_ok_new [OF that]) (use c q1 in \<open>auto simp: lc_quiet_def\<close>)
    then have m: "maps_ok env (mappings s4)" unfolding m4 .
    from r(2) [unfolded descriptor_gone_def] have "mappings s5 = remove1 (p, len) (mappings s4) \<or> mappings s5 = mappings s4" by argo
    with m maps_ok_remove1 [OF m] show ?thesis by (elim disjE) simp_all
  qed
  moreover have "cache_key_values s5 tid = cache_key_values s tid"
    using r(2) q3 s3(2) c q1 by (simp add: s4 descriptor_gone_def count_stat_def lc_quiet_def)
  ultimately show thesis using that r(1) by blast
qed

text \<open>
  \<open>hplf_cache_acquire\<close> always returns and decides the thread's state for good: the result is the
  thread's descriptor when it is active and null otherwise; a thread that was active or uncached
  stays as it is; nobody else's memory or variables change.
\<close>

lemma acquire_spec:
  assumes ok: "os_ok env" and act: "current_state s tid = HPLF_CACHE_ACTIVE \<Longrightarrow> current_descriptor s tid \<noteq> NULL"
  shows "\<exists>r s'. hplf_cache_acquire env penv tid s = Some (r, s') \<and> others_kept tid s s' \<and>
    current_state s' tid \<noteq> HPLF_CACHE_UNINITIALIZED \<and> r = hplf_cache_current tid s' \<and>
    (r \<noteq> NULL \<longleftrightarrow> current_state s' tid = HPLF_CACHE_ACTIVE) \<and>
    (maps_ok env (mappings s) \<longrightarrow> maps_ok env (mappings s')) \<and>
    (r = NULL \<longrightarrow> cache_key_values s' tid = cache_key_values s tid) \<and>
    (current_state s tid \<noteq> HPLF_CACHE_UNINITIALIZED \<longrightarrow> s' = s) \<and>
    (current_state s tid = HPLF_CACHE_UNINITIALIZED \<and> r \<noteq> NULL \<longrightarrow> cache_key_values s' tid = r \<and>
      (\<exists>len. mappings s' = (r, len) # mappings s \<and> descriptors s' r =
         Some \<lparr>dc_cache = hplf_thread_cache_initialize, dc_mapping_base = r, dc_mapping_length = len\<rparr>))"
proof (cases "current_state s tid")
  case HPLF_CACHE_ACTIVE
  then show ?thesis using act lc_quiet_others [of s s tid]
    by (auto simp: hplf_cache_acquire_def hplf_cache_current_def)
next
  case HPLF_CACHE_UNCACHED
  then show ?thesis using lc_quiet_others [of s s tid]
    by (auto simp: hplf_cache_acquire_def hplf_cache_current_def)
next
  case un: HPLF_CACHE_UNINITIALIZED
  obtain e s1 where s1: "once_create_key env penv s = (e, s1)" by (cases "once_create_key env penv s")
  note q1 = once_quiet [OF s1]
  let ?dead = "\<lambda>s. s\<lparr>current_state := (current_state s)(tid := HPLF_CACHE_UNCACHED)\<rparr>"
  have dead: "tls_step tid x (?dead x)" for x by (simp add: tls_step_def)
  have give_up: ?thesis if r: "hplf_cache_acquire env penv tid s = Some (NULL, s')" "others_kept tid s s'"
    "current_state s' tid = HPLF_CACHE_UNCACHED" "maps_ok env (mappings s) \<Longrightarrow> maps_ok env (mappings s')"
    "cache_key_values s' tid = cache_key_values s tid" for s'
    using r un by (auto simp: hplf_cache_current_def)
  show ?thesis
  proof (cases "e \<noteq> 0 \<or> cache_key_error s1 \<noteq> 0")
    case True
    then have "hplf_cache_acquire env penv tid s = Some (NULL, ?dead s1)"
      using un s1 by (simp add: hplf_cache_acquire_def)
    moreover have "others_kept tid s (?dead s1)"
      using tls_step_others [OF tls_step_trans [OF lc_quiet_tls [OF q1] dead]] .
    ultimately show ?thesis by (rule give_up) (use q1 in \<open>simp_all add: lc_quiet_def\<close>)
  next
    case go: False
    from ok show ?thesis
    proof (cases rule: map_descriptor_cases [where s = s1])
      case (failed s2)
      then have "hplf_cache_acquire env penv tid s = Some (NULL, ?dead s2)"
        using un s1 go by (simp add: hplf_cache_acquire_def)
      moreover have "others_kept tid s (?dead s2)"
        using tls_step_others [OF tls_step_trans [OF tls_step_trans [OF lc_quiet_tls [OF q1] lc_quiet_tls [OF failed(2)]] dead]] .
      ultimately show ?thesis by (rule give_up) (use q1 failed(2) in \<open>simp_all add: lc_quiet_def\<close>)
    next
      case (succeeded p len s2)
      obtain f s3 where s3: "register_descriptor env penv tid p s2 = (f, s3)"
        by (cases "register_descriptor env penv tid p s2")
      have pn: "p \<noteq> NULL" using succeeded(2) by (simp add: descriptor_created_def)
      show ?thesis
      proof (cases "f = 0")
        case True
        let ?s = "s3\<lparr>current_descriptor := (current_descriptor s3)(tid := p),
          current_state := (current_state s3)(tid := HPLF_CACHE_ACTIVE)\<rparr>"
        note new = acquire_activated [OF q1 succeeded(2) s3 [unfolded True] refl]
        have "hplf_cache_acquire env penv tid s = Some (p, ?s)"
          using un s1 go succeeded(1) s3 True pn by (simp add: hplf_cache_acquire_def)
        moreover have "hplf_cache_current tid ?s = p" "current_state ?s tid = HPLF_CACHE_ACTIVE" by (simp_all add: hplf_cache_current_def)
        ultimately show ?thesis using un new by (intro exI [of _ p] exI [of _ ?s]) simp
      next
        case False
        from acquire_withdrawn [OF q1 succeeded(2) s3 False refl] obtain s5 where r: "release_descriptor env p False
            (?dead (count_stat env (\<lambda>t. t\<lparr>registration_failures := registration_failures t + 1\<rparr>) s3)) = Some s5"
          "others_kept tid s s5" "current_state s5 tid = HPLF_CACHE_UNCACHED"
          "maps_ok env (mappings s) \<Longrightarrow> maps_ok env (mappings s5)" "cache_key_values s5 tid = cache_key_values s tid" by blast
        have "hplf_cache_acquire env penv tid s = Some (NULL, s5)"
          using un s1 go succeeded(1) s3 False pn r(1) by (simp add: hplf_cache_acquire_def Let_def)
        then show ?thesis using r(2-5) by (rule give_up)
      qed
    qed
  qed
qed

section \<open>Thread exit\<close>

lemma transfers_ok_cong:
  assumes "transfers_ok s T" and "transfer_mutex s' = transfer_mutex s" and "transfer_heads s' = transfer_heads s"
    and "\<And>q. q \<in> set (concat T) \<Longrightarrow> blocks s' q = blocks s q"
  shows "transfers_ok s' T"
proof -
  note T = assms(1) [unfolded transfers_ok_def]
  have "chain (block_next s') (transfer_heads s ! j) (T ! j) \<longleftrightarrow> chain (block_next s) (transfer_heads s ! j) (T ! j)"
    if "j < 16" for j
  proof (rule chain_cong)
    fix q assume "q \<in> set (T ! j)"
    then have "q \<in> set (concat T)" using T that by (auto intro!: bexI [of _ "T ! j"])
    then show "block_next s' q = block_next s q" using assms(4) by (simp add: block_next_def)
  qed
  with T assms(2,3) show ?thesis by (simp add: transfers_ok_def)
qed

lemma release_spec:
  fixes s :: "'a lifecycle_state_scheme"
  assumes ok: "transfer_lock_ok env" and d: "descriptors s p = Some d" "dc_mapping_base d = p" "dc_mapping_length d = len"
    and c: "cache_ok s (dc_cache d) F" and t: "transfers_ok s T" and dj: "set (concat F) \<inter> set (concat T) = {}"
    and p: "p \<noteq> NULL" and m: "(p, len) \<in> set (mappings s)" and len: "0 < unat len"
    and away: "\<And>q. q \<in> set (concat F) \<union> set (concat T) \<Longrightarrow> disjoint_ranges p (unat len) q 48"
  shows "\<exists>s'. release_descriptor env p True s = Some s' \<and> transfers_ok s' (map2 (@) F T) \<and>
    current_state s' = current_state s \<and> current_descriptor s' = current_descriptor s \<and>
    cache_key_values s' = cache_key_values s \<and>
    (mappings s' = remove1 (p, len) (mappings s) \<and> descriptors s' p = None \<or> mappings s' = mappings s)"
proof -
  let ?s = "count_stat env (\<lambda>t. t\<lparr>destructor_calls := destructor_calls t + 1\<rparr>) s"
  have q: "lc_quiet s ?s" by simp
  have bn: "block_next ?s = block_next s" using q by (simp add: lc_quiet_def block_next_def fun_eq_iff)
  have "descriptors ?s p = Some d" "cache_ok ?s (dc_cache d) F" "transfers_ok ?s T"
    using d(1) c t q by (simp_all add: lc_quiet_def cache_ok_def transfers_ok_def bn)
  from flush_descriptor_spec [OF ok this dj] obtain s1 d1 where
    f: "flush_descriptor env p ?s = Some (word_of_nat (length (concat F)), s1)" "descriptors s1 p = Some d1"
    "transfers_ok s1 (map2 (@) F T)" "flush_frame (set (concat F)) p ?s s1" by blast
  note fr = f(4) [unfolded flush_frame_def] and qq = q [unfolded lc_quiet_def]
  have d1: "dc_mapping_base d1 = p" "dc_mapping_length d1 = len" using fr f(2) d qq by auto
  have m1: "(p, len) \<in> set (mappings s1)" using fr m qq by simp
  from unmap_descriptor [OF m1 len] obtain r s2 where u: "sys_munmap env p len s1 = Some (r, s2)"
    "descriptor_gone p len s1 (if r = 0 then count_stat env (\<lambda>t. t\<lparr>descriptor_unmaps := descriptor_unmaps t + 1,
       descriptor_bytes_unmapped := descriptor_bytes_unmapped t + len,
       active_descriptors := active_descriptors t - 1\<rparr>) (drop_descriptors p len s2) else s2)" by blast
  let ?s3 = "if r = 0 then count_stat env (\<lambda>t. t\<lparr>descriptor_unmaps := descriptor_unmaps t + 1,
       descriptor_bytes_unmapped := descriptor_bytes_unmapped t + len,
       active_descriptors := active_descriptors t - 1\<rparr>) (drop_descriptors p len s2) else s2"
  have run: "release_descriptor env p True s = Some ?s3"
    using p f(1,2) d1 u(1) by (simp add: release_descriptor_def Let_def)
  note g = u(2) [unfolded descriptor_gone_def]
  have lenFT: "length F = 16" "length T = 16" using c t by (auto simp: cache_ok_def transfers_ok_def)
  have "set (concat (map2 (@) F T)) \<subseteq> set (concat F) \<union> set (concat T)"
    by (auto dest: set_zip_leftD set_zip_rightD)
  then have "transfers_ok ?s3 (map2 (@) F T)"
    using g away by (intro transfers_ok_cong [OF f(3)]) blast+
  moreover have "current_state ?s3 = current_state s" "current_descriptor ?s3 = current_descriptor s"
    "cache_key_values ?s3 = cache_key_values s" using g fr qq by argo+
  moreover have "mappings ?s3 = remove1 (p, len) (mappings s) \<and> descriptors ?s3 p = None \<or>
     mappings ?s3 = mappings s" using g fr qq by argo
  ultimately show ?thesis using run by blast
qed

text \<open>
  When a thread ends, its destructor publishes every block of its cache to the shared chains, marks
  the thread uncached and gives the descriptor's mapping back.
\<close>

lemma thread_exit_spec:
  assumes ok: "transfer_lock_ok env" and v: "cache_key_values s tid = p"
    and d: "descriptors s p = Some d" "dc_mapping_base d = p" "dc_mapping_length d = len"
    and c: "cache_ok s (dc_cache d) F" and t: "transfers_ok s T" and dj: "set (concat F) \<inter> set (concat T) = {}"
    and p: "p \<noteq> NULL" and m: "(p, len) \<in> set (mappings s)" and len: "0 < unat len"
    and away: "\<And>q. q \<in> set (concat F) \<union> set (concat T) \<Longrightarrow> disjoint_ranges p (unat len) q 48"
  shows "\<exists>s'. thread_exit env tid s = Some s' \<and> transfers_ok s' (map2 (@) F T) \<and>
    current_state s' tid = HPLF_CACHE_UNCACHED \<and> current_descriptor s' tid = NULL \<and> cache_key_values s' tid = NULL \<and>
    (mappings s' = remove1 (p, len) (mappings s) \<and> descriptors s' p = None \<or> mappings s' = mappings s)"
proof -
  let ?s = "s\<lparr>cache_key_values := (cache_key_values s)(tid := NULL),
    current_descriptor := (current_descriptor s)(tid := NULL),
    current_state := (current_state s)(tid := HPLF_CACHE_UNCACHED)\<rparr>"
  have run: "thread_exit env tid s = release_descriptor env p True ?s"
    using v p by (simp add: thread_exit_def destroy_descriptor_def Let_def)
  have bn: "block_next ?s = block_next s" by (simp add: block_next_def fun_eq_iff)
  have "descriptors ?s p = Some d" "cache_ok ?s (dc_cache d) F" "transfers_ok ?s T" "(p, len) \<in> set (mappings ?s)"
    using d c t m by (simp_all add: cache_ok_def transfers_ok_def bn)
  from release_spec [OF ok this(1) d(2,3) this(2,3) dj p this(4) len away] show ?thesis
    unfolding run by auto
qed

end
