(* ===== verification/Tables.thy ===== *)
theory Tables
  imports HPLF_Prelude "HOL-Library.Multiset"
begin

text \<open>
  Accounting for the entries of a table of lists: which entries it holds, counted with multiplicity,
  when one of its lists is replaced.
\<close>

lemma mset_concat_update:
  "i < length X \<Longrightarrow> mset (concat (X[i := x])) + mset (X ! i) = mset (concat X) + mset x"
  using concat_update [of i X x] concat_update [of i X "X ! i"] by (simp add: ac_simps)

lemma mset_concat_single:
  "i < 16 \<Longrightarrow> mset (concat ((replicate 16 [])[i := x])) = mset x"
  using mset_concat_update [of i "replicate 16 []" x] by simp

lemma distinct_mset_cong: "mset xs = mset ys \<Longrightarrow> distinct xs \<Longrightarrow> distinct ys"
  by (metis distinct_count_atmost_1 set_mset_mset)

text \<open>Taking entries out of one list of the table, and putting entries in front of one.\<close>

lemma mset_concat_take:
  assumes "i < length F" and "mset (F ! i) = mset ys + mset xs"
  shows "mset (concat F) = mset ys + mset (concat (F[i := xs]))"
proof -
  have "mset (concat (F[i := xs])) + (mset ys + mset xs) = mset (concat F) + mset xs"
    using mset_concat_update [OF assms(1), of xs] assms(2) by simp
  then show ?thesis by (simp add: ac_simps)
qed

lemma mset_concat_put: "i < length F \<Longrightarrow> mset (concat (F[i := ys @ F ! i])) = mset ys + mset (concat F)"
  using mset_concat_update [of i F "ys @ F ! i"] by (simp add: ac_simps)

end
