(* ===== verification/Pools.thy ===== *)
theory Pools
  imports Allocator_Api Transfer_List Tables
begin

text \<open>
  Free blocks that are spread over several owners.  A pool is a table with one list of blocks per
  size class: the shared chains, the cache of a thread, a list in the hands of a running call.  The
  heap is well formed when the pools divide up the free blocks; how a pool is linked in memory is
  its owner's business.
\<close>

section \<open>Pools\<close>

definition class_table :: "'a world_scheme \<Rightarrow> addr list \<Rightarrow> addr list list \<Rightarrow> bool" where
  "class_table s ss F \<longleftrightarrow> length F = 16 \<and> (\<forall>i < 16. \<forall>p \<in> set (F ! i). in_class s ss i p)"

definition pool_blocks :: "addr list list list \<Rightarrow> addr list" where
  "pool_blocks P = concat (concat P)"

definition pool_heap :: "os_env \<Rightarrow> 'a world_scheme \<Rightarrow> heap_abs \<Rightarrow> addr list list list \<Rightarrow> bool" where
  "pool_heap env s A P \<longleftrightarrow> arena_ok env s (abs_slabs A) (abs_large A) \<and>
     (\<forall>F \<in> set P. class_table s (abs_slabs A) F) \<and> distinct (pool_blocks P) \<and> abs_free A = concat P \<and>
     (\<forall>p \<in> live_blocks s A. live_ok s p)"

text \<open>Only blocks of \<open>X\<close> changed, and of these at most the links and the request.\<close>

definition touched :: "addr set \<Rightarrow> 'a world_scheme \<Rightarrow> 'a world_scheme \<Rightarrow> bool" where
  "touched X s s' \<longleftrightarrow> (\<forall>p. p \<notin> X \<longrightarrow> blocks s' p = blocks s p) \<and> bshape s' = bshape s \<and>
     slab_objs s' = slab_objs s \<and> mappings s' = mappings s \<and> bytes s' = bytes s"

abbreviation with_pools :: "heap_abs \<Rightarrow> addr list list list \<Rightarrow> heap_abs" where
  "with_pools A P \<equiv> A\<lparr>abs_free := concat P\<rparr>"

lemma pool_blocks_free: "free_blocks (concat P) = set (pool_blocks P)"
  by (simp add: free_blocks_def pool_blocks_def)

lemma pool_blocks_Cons [simp]: "pool_blocks (F # P) = concat F @ pool_blocks P"
  by (simp add: pool_blocks_def)

lemma pool_blocks_Nil [simp]: "pool_blocks [] = []"
  by (simp add: pool_blocks_def)

lemma pool_blocks_append [simp]: "pool_blocks (P @ Q) = pool_blocks P @ pool_blocks Q"
  by (simp add: pool_blocks_def)

lemma class_table_update:
  "class_table s ss F \<Longrightarrow> (\<And>p. p \<in> set xs \<Longrightarrow> in_class s ss i p) \<Longrightarrow> class_table s ss (F[i := xs])"
  unfolding class_table_def by (metis length_list_update nth_list_update_eq nth_list_update_neq)

lemma class_table_in: "class_table s ss F \<Longrightarrow> i < 16 \<Longrightarrow> p \<in> set (F ! i) \<Longrightarrow> in_class s ss i p"
  by (simp add: class_table_def)

lemma class_table_empty [simp]: "class_table s ss (replicate 16 [])"
  by (simp add: class_table_def)

lemma class_table_same: "arena_same ss L s s' \<Longrightarrow> class_table s' ss F = class_table s ss F"
  by (simp add: class_table_def in_class_same)

lemma class_table_single:
  "(\<And>p. p \<in> set xs \<Longrightarrow> in_class s ss i p) \<Longrightarrow> class_table s ss ((replicate 16 [])[i := xs])"
  by (rule class_table_update) simp_all

lemma class_table_member: "p \<in> set (concat F) \<Longrightarrow> class_table s ss F \<Longrightarrow> \<exists>i < 16. in_class s ss i p"
  unfolding class_table_def by (metis concat_eq_appendD in_set_conv_nth in_set_conv_decomp UN_E set_concat)

lemma pool_small:
  assumes "pool_heap env s A P" and "p \<in> set (pool_blocks P)"
  shows "p \<in> small_blocks s (abs_slabs A)"
proof -
  from assms(2) obtain F where F: "F \<in> set P" "p \<in> set (concat F)" by (auto simp: pool_blocks_def)
  with assms(1) obtain i where "in_class s (abs_slabs A) i p"
    using class_table_member by (fastforce simp: pool_heap_def)
  with assms(1) show ?thesis by (auto simp: pool_heap_def intro: in_class_small)
qed

lemma pool_arena: "pool_heap env s A P \<Longrightarrow> p \<in> set (pool_blocks P) \<Longrightarrow> p \<in> arena_blocks s (abs_slabs A) (abs_large A)"
  using pool_small by (auto simp: arena_blocks_def)

lemma pool_live: "pool_heap env s A P \<Longrightarrow> live_blocks s A = arena_blocks s (abs_slabs A) (abs_large A) - set (pool_blocks P)"
  by (simp add: live_blocks_def pool_heap_def pool_blocks_free)

section \<open>Changes that keep the heap\<close>

lemma touched_refl [simp]: "touched X s s"
  by (simp add: touched_def)

lemma touched_trans: "touched X s s' \<Longrightarrow> touched Y s' s'' \<Longrightarrow> X \<union> Y \<subseteq> Z \<Longrightarrow> touched Z s s''"
  unfolding touched_def by (metis UnI1 UnI2 subsetD)

lemma touched_mono: "touched X s s' \<Longrightarrow> X \<subseteq> Y \<Longrightarrow> touched Y s s'"
  by (auto simp: touched_def)

lemma relinked_touched: "relinked X s s' \<Longrightarrow> touched X s s'"
  by (simp add: relinked_def touched_def)

lemma links_touched: "links_only X s s' \<Longrightarrow> touched X s s'"
  by (simp add: links_only_def touched_def)

lemma touched_arena: "touched X s s' \<Longrightarrow> arena_same ss L s s'"
  by (simp add: touched_def arena_same_def sshape_def)

lemma touched_kept: "touched X s s' \<Longrightarrow> X \<inter> Q = {} \<Longrightarrow> kept Q s s'"
  by (auto simp: touched_def kept_def)

text \<open>Links and owners of free blocks may change at will, as long as the blocks stay free.\<close>

lemma pool_relink:
  assumes h: "pool_heap env s A P" and t: "touched X s s'" and X: "X \<subseteq> set (pool_blocks P)"
    and P': "\<And>F. F \<in> set P' \<Longrightarrow> class_table s (abs_slabs A) F" and m: "mset (pool_blocks P') = mset (pool_blocks P)"
  shows "pool_heap env s' (with_pools A P') P'" and "live_blocks s' (with_pools A P') = live_blocks s A"
    and "kept (live_blocks s A) s s'"
proof -
  let ?ss = "abs_slabs A" and ?L = "abs_large A"
  have ar: "arena_ok env s ?ss ?L" and live: "\<forall>p \<in> live_blocks s A. live_ok s p" and d: "distinct (pool_blocks P)"
    using h by (auto simp: pool_heap_def)
  note as = touched_arena [OF t, of ?ss ?L]
  have set_eq: "set (pool_blocks P') = set (pool_blocks P)" using m by (metis set_mset_mset)
  show lv: "live_blocks s' (with_pools A P') = live_blocks s A"
    unfolding pool_live [OF h]
    by (simp add: live_blocks_def pool_blocks_free set_eq arena_blocks_same [OF as])
  have dj: "X \<inter> live_blocks s A = {}" using X pool_live [OF h] by auto
  show k: "kept (live_blocks s A) s s'" by (rule touched_kept [OF t dj])
  have "arena_ok env s' ?ss ?L" using t by (intro arena_ok_cong [OF ar as]) (simp add: touched_def)
  moreover have "live_ok s' p" if "p \<in> live_blocks s A" for p
    using live k that by (simp add: live_ok_def kept_def)
  moreover have "distinct (pool_blocks P')" using m d distinct_mset_cong by metis
  ultimately show "pool_heap env s' (with_pools A P') P'"
    using P' lv class_table_same [OF as] by (simp add: pool_heap_def)
qed

text \<open>A free block becomes live.\<close>

lemma pool_pop:
  assumes h: "pool_heap env s A P" and ch: "block_changed p b b' s s'" and bt: "bytes s' = bytes s"
    and sz: "requested_size b' \<noteq> 0" "requested_size b' \<le> capacity b'"
    and P': "\<And>F. F \<in> set P' \<Longrightarrow> class_table s (abs_slabs A) F"
    and m: "add_mset p (mset (pool_blocks P')) = mset (pool_blocks P)"
  shows "pool_heap env s' (with_pools A P') P'" and "granted p (requested_size b') s A s' (with_pools A P')"
proof -
  let ?ss = "abs_slabs A" and ?L = "abs_large A"
  have ar: "arena_ok env s ?ss ?L" and live: "\<forall>q \<in> live_blocks s A. live_ok s q" and d: "distinct (pool_blocks P)"
    using h by (auto simp: pool_heap_def)
  note as = block_changed_arena(1) [OF ch, of ?ss ?L]
  have "mset (p # pool_blocks P') = mset (pool_blocks P)" using m by simp
  then have dp: "distinct (p # pool_blocks P')" and st: "set (pool_blocks P) = insert p (set (pool_blocks P'))"
    using d distinct_mset_cong by (metis, metis list.simps(15) set_mset_mset)
  have pa: "p \<in> arena_blocks s ?ss ?L" using pool_arena [OF h, of p] st by simp
  have lv: "live_blocks s' (with_pools A P') = insert p (live_blocks s A)"
    unfolding pool_live [OF h] using dp pa
    by (auto simp: live_blocks_def pool_blocks_free st arena_blocks_same [OF as])
  have np: "p \<notin> live_blocks s A" using pool_live [OF h] st by auto
  have live': "live_ok s' q" if "q \<in> insert p (live_blocks s A)" for q
    using that live ch sz by (auto simp: live_ok_def block_changed_def)
  show "pool_heap env s' (with_pools A P') P'"
    using block_changed_arena_ok [OF ar ch] P' class_table_same [OF as] dp lv live' by (simp add: pool_heap_def)
  have "kept (live_blocks s A) s s'" using np ch bt by (auto simp: kept_def block_changed_def)
  then show "granted p (requested_size b') s A s' (with_pools A P')"
    using lv np ch by (simp add: granted_def block_changed_def)
qed

text \<open>A live small block becomes free.\<close>

lemma pool_push:
  assumes h: "pool_heap env s A P" and p: "p \<in> live_blocks s A" and t: "touched {p} s s'"
    and P': "\<And>F. F \<in> set P' \<Longrightarrow> class_table s (abs_slabs A) F"
    and m: "mset (pool_blocks P') = add_mset p (mset (pool_blocks P))"
  shows "pool_heap env s' (with_pools A P') P'" and "live_blocks s' (with_pools A P') = live_blocks s A - {p}"
    and "kept (live_blocks s A - {p}) s s'"
proof -
  let ?ss = "abs_slabs A" and ?L = "abs_large A"
  have ar: "arena_ok env s ?ss ?L" and live: "\<forall>q \<in> live_blocks s A. live_ok s q" and d: "distinct (pool_blocks P)"
    using h by (auto simp: pool_heap_def)
  note as = touched_arena [OF t, of ?ss ?L]
  have m': "mset (p # pool_blocks P) = mset (pool_blocks P')" using m by simp
  then have st: "set (pool_blocks P') = insert p (set (pool_blocks P))" by (metis list.simps(15) set_mset_mset)
  have "distinct (p # pool_blocks P)" using d p pool_live [OF h] by simp
  then have d': "distinct (pool_blocks P')" using m' distinct_mset_cong by metis
  show lv: "live_blocks s' (with_pools A P') = live_blocks s A - {p}"
    unfolding pool_live [OF h] by (auto simp: live_blocks_def pool_blocks_free st arena_blocks_same [OF as])
  show k: "kept (live_blocks s A - {p}) s s'" by (rule touched_kept [OF t]) simp
  have "arena_ok env s' ?ss ?L" using t by (intro arena_ok_cong [OF ar as]) (simp add: touched_def)
  moreover have "live_ok s' q" if "q \<in> live_blocks s A - {p}" for q
    using live k that by (simp add: live_ok_def kept_def)
  ultimately show "pool_heap env s' (with_pools A P') P'"
    using P' lv d' class_table_same [OF as] by (simp add: pool_heap_def)
qed

text \<open>A live block gets another request.\<close>

lemma pool_resize:
  assumes h: "pool_heap env s A P" and p: "p \<in> live_blocks s A" and ch: "block_changed p b b' s s'"
    and sz: "requested_size b' \<noteq> 0" "requested_size b' \<le> capacity b'"
  shows "pool_heap env s' A P" and "live_blocks s' A = live_blocks s A"
proof -
  let ?ss = "abs_slabs A" and ?L = "abs_large A"
  have ar: "arena_ok env s ?ss ?L" and live: "\<forall>q \<in> live_blocks s A. live_ok s q"
    using h by (auto simp: pool_heap_def)
  note as = block_changed_arena(1) [OF ch, of ?ss ?L]
  show lv: "live_blocks s' A = live_blocks s A" by (simp add: live_blocks_def arena_blocks_same [OF as])
  have "live_ok s' q" if "q \<in> live_blocks s A" for q
    using that live ch sz by (auto simp: live_ok_def block_changed_def)
  then show "pool_heap env s' A P"
    using h block_changed_arena_ok [OF ar ch] class_table_same [OF as] lv by (simp add: pool_heap_def)
qed

section \<open>Growing and shrinking the arena\<close>

text \<open>A change outside the mappings of the arena; other mappings may have come or gone.\<close>

lemma pool_alien:
  assumes h: "pool_heap env s A P" and same: "objects_same (abs_slabs A) (abs_large A) s s'"
    and maps: "maps_ok env (mappings s')"
      "\<And>b l. (b, l) \<in> set (mappings s) \<Longrightarrow> b \<in> set (abs_slabs A) \<or> b \<in> abs_large A \<Longrightarrow> (b, l) \<in> set (mappings s')"
  shows "pool_heap env s' A P" and "live_blocks s' A = live_blocks s A"
proof -
  let ?ss = "abs_slabs A" and ?L = "abs_large A"
  have ar: "arena_ok env s ?ss ?L" and live: "\<forall>q \<in> live_blocks s A. live_ok s q"
    using h by (auto simp: pool_heap_def)
  note as = objects_same_arena [OF same]
  show lv: "live_blocks s' A = live_blocks s A" by (simp add: live_blocks_def arena_blocks_same [OF as])
  have "arena_ok env s' ?ss ?L"
    using maps by (intro arena_ok_same [OF ar as]) (auto simp: slab_conf_def large_conf_def)
  moreover have "live_ok s' q" if "q \<in> live_blocks s A" for q
    using live same that by (simp add: live_ok_def objects_same_def live_blocks_def)
  ultimately show "pool_heap env s' A P"
    using h class_table_same [OF as] lv by (simp add: pool_heap_def)
qed

lemma pool_outside:
  assumes "pool_heap env s A P" and "objects_same (abs_slabs A) (abs_large A) s s'"
    and "maps_ok env (mappings s')" "set (mappings s) \<subseteq> set (mappings s')"
  shows "pool_heap env s' A P" and "live_blocks s' A = live_blocks s A"
proof -
  have "(b, l) \<in> set (mappings s')" if "(b, l) \<in> set (mappings s)" for b l using assms(4) that by blast
  then show "pool_heap env s' A P" "live_blocks s' A = live_blocks s A"
    using pool_alien [OF assms(1-3)] by blast+
qed

lemma pool_bytes_fresh:
  assumes ok: "os_ok env" and h: "pool_heap env s A P" and out: "outside_same b (unat l) s s'"
    and dj: "\<forall>(b', l') \<in> set (mappings s). disjoint_ranges b (unat l) b' (unat l')"
  shows "bytes_kept (live_blocks s A) s s'"
proof (rule bytes_kept_outside [OF out])
  fix p assume "p \<in> live_blocks s A"
  then have "p \<in> arena_blocks s (abs_slabs A) (abs_large A)" by (simp add: live_blocks_def)
  with ok h obtain b' l' where "(b', l') \<in> set (mappings s)" "subrange p (extent s p) b' (unat l')"
    by (auto simp: pool_heap_def elim: block_home)
  with dj show "disjoint_ranges b (unat l) p (extent s p)"
    using disjoint_subrange [OF _ subrange_refl] by fastforce
qed

lemma pool_new_large:
  assumes ok: "os_ok env" and h: "pool_heap env s A P" and req: "requested \<noteq> 0"
    and cr: "large_created env requested p len s s'"
  defines "A' \<equiv> A\<lparr>abs_large := insert p (abs_large A)\<rparr>"
  shows "pool_heap env s' A' P" and "granted p requested s A s' A'"
    and "objects_same (abs_slabs A) (abs_large A) s s'"
proof -
  let ?ss = "abs_slabs A" and ?L = "abs_large A"
  have ar: "arena_ok env s ?ss ?L" and live: "\<forall>q \<in> live_blocks s A. live_ok s q"
    using h by (auto simp: pool_heap_def)
  note c = cr [unfolded large_created_def]
  have "0 < unat requested" using req by (simp add: unat_gt_0)
  then have big: "48 < unat len" using c by linarith
  have "bshape s' p = Some (OwnerLarge p len, len - 48, HPLF_BLOCK_LARGE)" using c by (simp add: bshape_def)
  with arena_add_large [OF ok ar, of p len s'] c big
  have new: "objects_same ?ss ?L s s'" "arena_ok env s' ?ss (insert p ?L)" "p \<notin> arena_blocks s ?ss ?L"
    by auto
  show "objects_same ?ss ?L s s'" by (rule new(1))
  have as: "arena_same ?ss ?L s s'" by (rule objects_same_arena [OF new(1)])
  have np: "p \<notin> live_blocks s A" "p \<notin> set (pool_blocks P)" using new(3) pool_arena [OF h] by (auto simp: live_blocks_def)
  have "arena_blocks s' ?ss (insert p ?L) = insert p (arena_blocks s ?ss ?L)"
    using small_blocks_same [OF as] by (simp add: arena_blocks_def)
  then have lv: "live_blocks s' A' = insert p (live_blocks s A)"
    unfolding pool_live [OF h] using np h by (auto simp: live_blocks_def A'_def pool_heap_def pool_blocks_free)
  have "live_ok s' p" using c req big by (auto simp: live_ok_def size_t_le_iff unat_sub_le)
  then have "live_ok s' q" if "q \<in> insert p (live_blocks s A)" for q
    using that live new(1) by (auto simp: live_ok_def live_blocks_def objects_same_def)
  then show "pool_heap env s' A' P"
    using new(2) h class_table_same [OF as] lv by (simp add: pool_heap_def A'_def)
  have "kept (live_blocks s A) s s'"
    using new(1) pool_bytes_fresh [OF ok h, of p len s'] c
    by (intro keptI) (auto simp: objects_same_def live_blocks_def)
  then show "granted p requested s A s' A'" using lv np c by (simp add: granted_def)
qed

lemma pool_drop_large:
  assumes ok: "os_ok env" and h: "pool_heap env s A P" and p: "p \<in> abs_large A"
    and lc: "large_conf s p len" and un: "range_unmapped p len s s'"
  defines "A' \<equiv> A\<lparr>abs_large := abs_large A - {p}\<rparr>"
  shows "pool_heap env s' A' P" and "live_blocks s' A' = live_blocks s A - {p}"
    and "kept (live_blocks s A - {p}) s s'" and "objects_same (abs_slabs A) (abs_large A - {p}) s s'"
proof -
  let ?ss = "abs_slabs A" and ?L = "abs_large A"
  have ar: "arena_ok env s ?ss ?L" and live: "\<forall>q \<in> live_blocks s A. live_ok s q"
    using h by (auto simp: pool_heap_def)
  have "p \<notin> set ?ss" "distinct ?ss" using ar p by (auto simp: arena_ok_def)
  with arena_remove [OF ok ar un, of ?ss "?L - {p}"] lc
  have new: "objects_same ?ss (?L - {p}) s s'" "arena_ok env s' ?ss (?L - {p})"
    by (auto simp: large_conf_def)
  show "objects_same ?ss (?L - {p}) s s'" by (rule new(1))
  have as: "arena_same ?ss (?L - {p}) s s'" by (rule objects_same_arena [OF new(1)])
  have psmall: "p \<notin> small_blocks s ?ss"
  proof
    assume "p \<in> small_blocks s ?ss"
    with ar obtain a d k where "slab_conf env s a d" "k < unat (slot_count d)" "p = slot_at a d k"
      by (auto elim!: small_in_class simp: in_slab_slots)
    with lc show False by (simp add: large_conf_def slab_conf_def)
  qed
  have "arena_blocks s' ?ss (?L - {p}) = arena_blocks s ?ss ?L - {p}"
    using small_blocks_same [OF as] psmall by (auto simp: arena_blocks_def)
  then show lv: "live_blocks s' A' = live_blocks s A - {p}" by (auto simp: live_blocks_def A'_def)
  have blk: "blocks s' q = blocks s q" if "q \<in> live_blocks s A - {p}" for q
    using that new(1) by (auto simp: objects_same_def live_blocks_def arena_blocks_def)
  then have "live_ok s' q" if "q \<in> live_blocks s A - {p}" for q using that live by (simp add: live_ok_def)
  then show "pool_heap env s' A' P"
    using new(2) h class_table_same [OF as] lv by (simp add: pool_heap_def A'_def)
  have pa: "p \<in> arena_blocks s ?ss ?L" using p by (simp add: arena_blocks_def)
  show "kept (live_blocks s A - {p}) s s'"
  proof (rule keptI [OF bytes_kept_outside [of p "unat len"] blk])
    show "outside_same p (unat len) s s'"
      using un by (simp add: range_unmapped_def range_gone_def outside_same_def)
    show "disjoint_ranges p (unat len) q (extent s q)" if "q \<in> live_blocks s A - {p}" for q
      using extents_disjoint [OF ok ar pa, of q] that
      by (auto simp: extent_large [OF lc] live_blocks_def)
  qed
qed

text \<open>A new slab: its slots join a pool, in the order in which they are linked.\<close>

lemma pool_new_slab:
  assumes ok: "os_ok env" and h: "pool_heap env s A P" and ci: "unat ci < 16"
    and cr: "slab_created env ci a d s s'" and nx: "slab_next d = NULL"
    and P': "\<And>F. F \<in> set P' \<Longrightarrow> F \<in> set P \<or> F = (replicate 16 [])[unat ci := rev (slab_slots a d)]"
    and m: "mset (pool_blocks P') = mset (slab_slots a d) + mset (pool_blocks P)"
  defines "A' \<equiv> A\<lparr>abs_slabs := a # abs_slabs A, abs_free := concat P'\<rparr>"
  shows "pool_heap env s' A' P'" and "live_blocks s' A' = live_blocks s A" and "kept (live_blocks s A) s s'"
    and "chain (block_next s') (slot_at a d (unat (slot_count d) - 1)) (rev (slab_slots a d))"
    and "objects_same (abs_slabs A) (abs_large A) s s'" and "a \<notin> set (abs_slabs A)"
proof -
  let ?ss = "abs_slabs A" and ?L = "abs_large A"
  have ar: "arena_ok env s ?ss ?L" and live: "\<forall>q \<in> live_blocks s A. live_ok s q" and d: "distinct (pool_blocks P)"
    using h by (auto simp: pool_heap_def)
  note new = arena_add_slab [OF ok ar cr nx] and c = cr [unfolded slab_created_def]
  show "objects_same ?ss ?L s s'" "a \<notin> set ?ss" by (rule new(1), rule new(4))
  note as = objects_same_arena [OF new(1)]
  show "chain (block_next s') (slot_at a d (unat (slot_count d) - 1)) (rev (slab_slots a d))"
    using fresh_chain [OF ok, of a d s' "unat (slot_count d)"] c slab_ok_count [OF ok, of a d]
    by (auto simp: slab_slots_def split: if_splits)
  have small: "small_blocks s' (a # ?ss) = set (slab_slots a d) \<union> small_blocks s ?ss"
    using small_blocks_Cons [OF new(3)] small_blocks_same [OF as] by simp
  have m': "mset (slab_slots a d @ pool_blocks P) = mset (pool_blocks P')" using m by simp
  then have st: "set (pool_blocks P') = set (slab_slots a d) \<union> set (pool_blocks P)" by (metis set_append set_mset_mset)
  have dj: "set (slab_slots a d) \<inter> set (pool_blocks P) = {}" using new(5) pool_arena [OF h] by blast
  have "distinct (slab_slots a d @ pool_blocks P)" using d dj slab_slots_distinct [OF ok, of a d] c by simp
  then have d': "distinct (pool_blocks P')" using m' distinct_mset_cong by metis
  show lv: "live_blocks s' A' = live_blocks s A"
    unfolding pool_live [OF h] using new(5) by (auto simp: live_blocks_def A'_def pool_blocks_free st arena_blocks_def small)
  have "in_class s' (a # ?ss) (unat ci) p" if "p \<in> set (slab_slots a d)" for p
    using that new(3) c by (auto simp: in_class_def slab_conf_def)
  then have "class_table s' (a # ?ss) ((replicate 16 [])[unat ci := rev (slab_slots a d)])"
    by (intro class_table_single) simp
  moreover have "class_table s' (a # ?ss) F" if "F \<in> set P" for F
  proof -
    have "class_table s' ?ss F" using h that class_table_same [OF as] by (simp add: pool_heap_def)
    then show ?thesis by (auto simp: class_table_def in_class_def)
  qed
  ultimately have cls: "class_table s' (a # ?ss) F" if "F \<in> set P'" for F using P' [OF that] by blast
  have blk: "blocks s' q = blocks s q" if "q \<in> live_blocks s A" for q
    using new(1) that by (simp add: objects_same_def live_blocks_def)
  then have "live_ok s' q" if "q \<in> live_blocks s A" for q using live that by (simp add: live_ok_def)
  then show "pool_heap env s' A' P'" using new(2) cls d' lv by (simp add: pool_heap_def A'_def)
  show "kept (live_blocks s A) s s'"
    using pool_bytes_fresh [OF ok h, of a "mapping_length d" s'] c blk by (intro keptI) auto
qed

end
