(* ===== verification/Allocator_Cached.thy ===== *)
theory Allocator_Cached
  imports Thread_Cache_Lifecycle Pools Public_View
begin

text \<open>
  \<open>src/allocator.c\<close> with \<open>HPLF_VARIANT_CACHED_MUTEX\<close>: every thread keeps free blocks in a private
  cache (\<open>thread_cache.c\<close>), caches exchange blocks through the shared chains (\<open>transfer_mutex.c\<close>), and
  the registry mutex only guards the slab registry.  A call names the thread that makes it.

  Locking is assumed to succeed (\<open>transfer_lock_ok\<close>, part of the invariant): \<open>transfer_mutex.c\<close> goes
  on after a failed lock and would then unlock a mutex it does not hold.
\<close>

section \<open>Definitions\<close>

record hplf_cached_test_stats =
  local_hits :: size_t
  shared_refills :: size_t
  slab_misses :: size_t
  published_blocks :: size_t

record cached_state = lifecycle_state +
  c_registry_mutex :: bool
  c_slabs :: addr
  cached_test_stats :: "nat \<Rightarrow> hplf_cached_test_stats"

definition cached_lock :: "os_env \<Rightarrow> cached_state \<Rightarrow> (int \<times> cached_state) option" where
  "cached_lock env s = do {
     (e, held, s) \<leftarrow> pthread_mutex_lock env (c_registry_mutex s) s;
     Some (e, s\<lparr>c_registry_mutex := held\<rparr>)
   }"

definition cached_unlock :: "os_env \<Rightarrow> cached_state \<Rightarrow> (int \<times> cached_state) option" where
  "cached_unlock env s = do {
     (e, held, s) \<leftarrow> pthread_mutex_unlock env (c_registry_mutex s) s;
     Some (e, s\<lparr>c_registry_mutex := held\<rparr>)
   }"

text \<open>The counters of the testing build, one set per thread.\<close>

definition count_cached ::
  "os_env \<Rightarrow> nat \<Rightarrow> (hplf_cached_test_stats \<Rightarrow> hplf_cached_test_stats) \<Rightarrow> cached_state \<Rightarrow> cached_state" where
  "count_cached env tid f s =
     (if hplf_testing env
      then s\<lparr>cached_test_stats := (cached_test_stats s)(tid := f (cached_test_stats s tid))\<rparr> else s)"

text \<open>The calls on \<open>cache\<close>, which is a member of the descriptor at that address.\<close>

definition on_cache_take :: "addr \<Rightarrow> size_t \<Rightarrow> size_t \<Rightarrow> cached_state \<Rightarrow> (addr \<times> cached_state) option" where
  "on_cache_take cache ci cap s = do {
     d \<leftarrow> descriptors s cache;
     (block, c, s) \<leftarrow> hplf_thread_cache_take (dc_cache d) ci cap s;
     Some (block, s\<lparr>descriptors := (descriptors s)(cache \<mapsto> d\<lparr>dc_cache := c\<rparr>)\<rparr>)
   }"

definition on_cache_refill ::
  "addr \<Rightarrow> size_t \<Rightarrow> size_t \<Rightarrow> hplf_transfer_list \<Rightarrow> cached_state \<Rightarrow> (hplf_transfer_list \<times> cached_state) option" where
  "on_cache_refill cache ci cap available s = do {
     d \<leftarrow> descriptors s cache;
     (c, available, s) \<leftarrow> hplf_thread_cache_refill (dc_cache d) ci cap available s;
     Some (available, s\<lparr>descriptors := (descriptors s)(cache \<mapsto> d\<lparr>dc_cache := c\<rparr>)\<rparr>)
   }"

definition on_cache_store :: "addr \<Rightarrow> size_t \<Rightarrow> size_t \<Rightarrow> addr \<Rightarrow> cached_state \<Rightarrow> cached_state option" where
  "on_cache_store cache ci cap block s = do {
     d \<leftarrow> descriptors s cache;
     (c, s) \<leftarrow> hplf_thread_cache_store (dc_cache d) ci cap block s;
     Some (s\<lparr>descriptors := (descriptors s)(cache \<mapsto> d\<lparr>dc_cache := c\<rparr>)\<rparr>)
   }"

definition on_cache_evict ::
  "addr \<Rightarrow> size_t \<Rightarrow> size_t \<Rightarrow> hplf_transfer_list \<Rightarrow> cached_state \<Rightarrow>
   (bool \<times> size_t \<times> hplf_transfer_list \<times> cached_state) option" where
  "on_cache_evict cache ci eviction_class eviction s = do {
     d \<leftarrow> descriptors s cache;
     (r, c, eviction_class, eviction, s) \<leftarrow>
        hplf_thread_cache_extract_eviction (dc_cache d) ci eviction_class eviction s;
     Some (r, eviction_class, eviction, s\<lparr>descriptors := (descriptors s)(cache \<mapsto> d\<lparr>dc_cache := c\<rparr>)\<rparr>)
   }"

text \<open>
  The branch of \<open>hplf_allocate_small\<close> for an empty shared chain: \<open>Inl\<close> is an early return, \<open>Inr\<close> the
  list of blocks that the recheck or a new slab gave.
\<close>

definition cached_miss ::
  "os_env \<Rightarrow> nat \<Rightarrow> size_t \<Rightarrow> size_t \<Rightarrow> cached_state \<Rightarrow>
   (addr \<times> cached_state + hplf_transfer_list \<times> cached_state) option" where
  "cached_miss env tid ci cap s = do {
     (e, s) \<leftarrow> cached_lock env s;
     if e \<noteq> 0 then Some (Inl (NULL, s\<lparr>errno := e\<rparr>))
     else do {
       (available, s) \<leftarrow> hplf_transfer_mutex_detach env ci s;
       if tl_first available = NULL then do {
         (ok, slab, new_free_list, s) \<leftarrow> hplf_slab_create env ci cap (Some NULL) (Some NULL) s;
         (case (ok, slab, new_free_list) of
            (True, Some slab, Some new_free_list) \<Rightarrow> do {
              s \<leftarrow> set_slab_next slab (c_slabs s) s;
              let s = s\<lparr>c_slabs := slab\<rparr>;
              available \<leftarrow> hplf_transfer_list_from_chain new_free_list s;
              let s = count_cached env tid (\<lambda>t. t\<lparr>slab_misses := slab_misses t + 1\<rparr>) s;
              (_, s) \<leftarrow> cached_unlock env s;
              Some (Inr (available, s))
            }
          | _ \<Rightarrow> do {
              (_, s) \<leftarrow> cached_unlock env s;
              Some (Inl (NULL, s\<lparr>errno := ENOMEM\<rparr>))
            })
       }
       else do {
         let s = count_cached env tid (\<lambda>t. t\<lparr>shared_refills := shared_refills t + 1\<rparr>) s;
         (_, s) \<leftarrow> cached_unlock env s;
         Some (Inr (available, s))
       }
     }
   }"

text \<open>The end of \<open>hplf_allocate_small\<close>: fill the cache, take one block, publish what is left.\<close>

definition cached_serve ::
  "os_env \<Rightarrow> nat \<Rightarrow> size_t \<Rightarrow> size_t \<Rightarrow> size_t \<Rightarrow> addr \<Rightarrow> hplf_transfer_list \<Rightarrow> cached_state \<Rightarrow>
   (addr \<times> cached_state) option" where
  "cached_serve env tid requested ci cap cache available s = do {
     (block, available, s) \<leftarrow>
        (if cache \<noteq> NULL then do {
           (available, s) \<leftarrow> on_cache_refill cache ci cap available s;
           (block, s) \<leftarrow> on_cache_take cache ci cap s;
           Some (block, available, s)
         } else Some (NULL, available, s));
     (block, available, s) \<leftarrow>
        (if block = NULL then do {
           (available, direct, s) \<leftarrow> hplf_transfer_list_take_prefix available 1
              \<lparr>tl_first = NULL, tl_last = NULL, tl_count = 0\<rparr> s;
           Some (tl_first direct, available, s)
         } else Some (block, available, s));
     if block = NULL then do {
       (_, s) \<leftarrow> hplf_transfer_mutex_publish env ci available s;
       Some (NULL, s\<lparr>errno := ENOMEM\<rparr>)
     }
     else do {
       let s = count_cached env tid (\<lambda>t. t\<lparr>published_blocks := published_blocks t + tl_count available\<rparr>) s;
       (_, s) \<leftarrow> hplf_transfer_mutex_publish env ci available s;
       s \<leftarrow> update_block block (\<lambda>b. b\<lparr>requested_size := requested\<rparr>) s;
       Some (hplf_block_payload block, s)
     }
   }"

definition cached_allocate_small ::
  "os_env \<Rightarrow> pthread_env \<Rightarrow> nat \<Rightarrow> size_t \<Rightarrow> size_t \<Rightarrow> size_t \<Rightarrow> cached_state \<Rightarrow> (addr \<times> cached_state) option" where
  "cached_allocate_small env penv tid requested ci cap s = do {
     (cache, s) \<leftarrow> hplf_cache_acquire env penv tid s;
     (block, s) \<leftarrow> (if cache \<noteq> NULL then on_cache_take cache ci cap s else Some (NULL, s));
     if block \<noteq> NULL then do {
       let s = count_cached env tid (\<lambda>t. t\<lparr>local_hits := local_hits t + 1\<rparr>) s;
       s \<leftarrow> update_block block (\<lambda>b. b\<lparr>requested_size := requested\<rparr>) s;
       Some (hplf_block_payload block, s)
     }
     else do {
       (available, s) \<leftarrow> hplf_transfer_mutex_detach env ci s;
       r \<leftarrow> (if tl_first available = NULL then cached_miss env tid ci cap s
            else Some (Inr (available,
              count_cached env tid (\<lambda>t. t\<lparr>shared_refills := shared_refills t + 1\<rparr>) s)));
       (case r of
          Inl result \<Rightarrow> Some result
        | Inr (available, s) \<Rightarrow> cached_serve env tid requested ci cap cache available s)
     }
   }"

definition cached_malloc ::
  "os_env \<Rightarrow> pthread_env \<Rightarrow> nat \<Rightarrow> size_t \<Rightarrow> cached_state \<Rightarrow> (addr \<times> cached_state) option" where
  "cached_malloc env penv tid sz s =
     (if sz = 0 then Some (NULL, s)
      else if sz > PTRDIFF_MAX then Some (NULL, s\<lparr>errno := ENOMEM\<rparr>)
      else case class_of sz of
        Some (ci, cap) \<Rightarrow> cached_allocate_small env penv tid sz ci cap s
      | None \<Rightarrow> hplf_allocate_large env sz s)"

text \<open>The loop that publishes evicted lists until the cache is within its limits.\<close>

partial_function (option) evict_loop ::
  "os_env \<Rightarrow> nat \<Rightarrow> addr \<Rightarrow> size_t \<Rightarrow> size_t \<Rightarrow> hplf_transfer_list \<Rightarrow> cached_state \<Rightarrow> cached_state option" where
  "evict_loop env tid cache ci eviction_class eviction s = do {
     (more, eviction_class, eviction, s) \<leftarrow> on_cache_evict cache ci eviction_class eviction s;
     if more then do {
       let s = count_cached env tid (\<lambda>t. t\<lparr>published_blocks := published_blocks t + tl_count eviction\<rparr>) s;
       (eviction, s) \<leftarrow> hplf_transfer_mutex_publish env eviction_class eviction s;
       evict_loop env tid cache ci eviction_class eviction s
     }
     else Some s
   }"

definition cached_free_small ::
  "os_env \<Rightarrow> pthread_env \<Rightarrow> nat \<Rightarrow> addr \<Rightarrow> size_t \<Rightarrow> cached_state \<Rightarrow> cached_state option" where
  "cached_free_small env penv tid block ci s = do {
     (cache, s) \<leftarrow> hplf_cache_acquire env penv tid s;
     b \<leftarrow> blocks s block;
     let cap = capacity b;
     s \<leftarrow> update_block block (\<lambda>b. b\<lparr>requested_size := 0\<rparr>) s;
     if cache = NULL then do {
       s \<leftarrow> set_next_free block NULL s;
       let s = count_cached env tid (\<lambda>t. t\<lparr>published_blocks := published_blocks t + 1\<rparr>) s;
       (_, s) \<leftarrow> hplf_transfer_mutex_publish env ci \<lparr>tl_first = block, tl_last = block, tl_count = 1\<rparr> s;
       Some s
     }
     else do {
       s \<leftarrow> on_cache_store cache ci cap block s;
       evict_loop env tid cache ci 0 \<lparr>tl_first = NULL, tl_last = NULL, tl_count = 0\<rparr> s
     }
   }"

definition cached_free :: "os_env \<Rightarrow> pthread_env \<Rightarrow> nat \<Rightarrow> addr \<Rightarrow> cached_state \<Rightarrow> cached_state option" where
  "cached_free env penv tid pointer s =
     (let saved_errno = errno s in
      if pointer = NULL then Some s
      else do {
        let block = hplf_block_from_payload pointer;
        b \<leftarrow> blocks s block;
        (case kind b of
           HPLF_BLOCK_LARGE \<Rightarrow> do {
             (base, len) \<leftarrow> owner_large (owner b);
             (_, _, _, s) \<leftarrow>
               hplf_os_unmap env (Some \<lparr>map_base = base, map_length = len\<rparr>) (Some 0) s;
             Some (s\<lparr>errno := saved_errno\<rparr>)
           }
         | HPLF_BLOCK_SMALL \<Rightarrow> do {
             slab \<leftarrow> owner_small (owner b);
             d \<leftarrow> slab_objs s slab;
             s \<leftarrow> cached_free_small env penv tid block (class_index d) s;
             Some (s\<lparr>errno := saved_errno\<rparr>)
           })
      })"

definition cached_calloc ::
  "os_env \<Rightarrow> pthread_env \<Rightarrow> nat \<Rightarrow> size_t \<Rightarrow> size_t \<Rightarrow> cached_state \<Rightarrow> (addr \<times> cached_state) option" where
  "cached_calloc env penv tid = hplf_calloc_with (cached_malloc env penv tid)"

definition cached_realloc ::
  "os_env \<Rightarrow> pthread_env \<Rightarrow> nat \<Rightarrow> addr \<Rightarrow> size_t \<Rightarrow> cached_state \<Rightarrow> (addr \<times> cached_state) option" where
  "cached_realloc env penv tid = hplf_realloc_with (cached_malloc env penv tid) (cached_free env penv tid)"

definition cached_thread_flush :: "os_env \<Rightarrow> nat \<Rightarrow> cached_state \<Rightarrow> cached_state option" where
  "cached_thread_flush env tid s = do {
     (published, s) \<leftarrow> hplf_cache_flush_current env tid s;
     Some (count_cached env tid (\<lambda>t. t\<lparr>published_blocks := published_blocks t + published\<rparr>) s)
   }"

definition hplf_cached_test_stats_reset :: "nat \<Rightarrow> cached_state \<Rightarrow> cached_state" where
  "hplf_cached_test_stats_reset tid s = s\<lparr>cached_test_stats := (cached_test_stats s)(tid :=
     \<lparr>local_hits = 0, shared_refills = 0, slab_misses = 0, published_blocks = 0\<rparr>)\<rparr>"

definition hplf_cached_test_stats_get :: "nat \<Rightarrow> cached_state \<Rightarrow> hplf_cached_test_stats" where
  "hplf_cached_test_stats_get tid s = cached_test_stats s tid"

text \<open>The statically initialised program, before the first call.\<close>

definition cached_init :: "cached_state \<Rightarrow> bool" where
  "cached_init s \<longleftrightarrow> \<not> c_registry_mutex s \<and> c_slabs s = NULL \<and> \<not> transfer_mutex s \<and>
     transfer_heads s = replicate 16 NULL \<and>
     (\<forall>t. current_state s t = HPLF_CACHE_UNINITIALIZED \<and> cache_key_values s t = NULL)"

section \<open>The invariant\<close>

definition descriptor_at :: "cached_state \<Rightarrow> heap_abs \<Rightarrow> addr \<Rightarrow> addr list list \<Rightarrow> bool" where
  "descriptor_at s A p F \<longleftrightarrow> p \<noteq> NULL \<and> p \<notin> set (abs_slabs A) \<and> p \<notin> abs_large A \<and>
     (\<exists>d. descriptors s p = Some d \<and> dc_mapping_base d = p \<and> (p, dc_mapping_length d) \<in> set (mappings s) \<and>
        cache_ok s (dc_cache d) F)"

text \<open>The thread-local variables: an active thread has a descriptor of its own, registered with the key.\<close>

definition threads_ok :: "cached_state \<Rightarrow> addr list \<Rightarrow> bool" where
  "threads_ok s D \<longleftrightarrow>
     (\<forall>t. current_state s t = HPLF_CACHE_ACTIVE \<longrightarrow>
        current_descriptor s t \<in> set D \<and> cache_key_values s t = current_descriptor s t) \<and>
     (\<forall>t. current_state s t \<noteq> HPLF_CACHE_ACTIVE \<longrightarrow> cache_key_values s t = NULL) \<and>
     (\<forall>t u. current_state s t = HPLF_CACHE_ACTIVE \<longrightarrow> current_state s u = HPLF_CACHE_ACTIVE \<longrightarrow>
        current_descriptor s t = current_descriptor s u \<longrightarrow> t = u)"

text \<open>
  The shared chains are \<open>T\<close>, the running call holds \<open>H\<close>, and the cache of the descriptor at \<open>p\<close>, one
  of \<open>D\<close>, holds \<open>cc p\<close>: together they are the free blocks, each in one place.
\<close>

definition cached_core ::
  "os_env \<Rightarrow> cached_state \<Rightarrow> heap_abs \<Rightarrow> addr list list \<Rightarrow> addr list list \<Rightarrow> addr list \<Rightarrow> (addr \<Rightarrow> addr list list) \<Rightarrow> bool" where
  "cached_core env s A T H D cc \<longleftrightarrow> transfer_lock_ok env \<and> pool_heap env s A (T # H # map cc D) \<and>
     transfers_ok s T \<and> distinct D \<and> (\<forall>p \<in> set D. descriptor_at s A p (cc p)) \<and>
     chain (slab_link s) (c_slabs s) (abs_slabs A) \<and> threads_ok s D"

abbreviation empty_table :: "addr list list" where
  "empty_table \<equiv> replicate 16 []"

definition cached_inv :: "os_env \<Rightarrow> cached_state \<Rightarrow> heap_abs \<Rightarrow> bool" where
  "cached_inv env s A \<longleftrightarrow> \<not> c_registry_mutex s \<and> (\<exists>T D cc. cached_core env s A T empty_table D cc \<and>
     (\<forall>p \<in> set D. within_limits (cc p)))"

lemma coreD:
  assumes "cached_core env s A T H D cc"
  shows "transfer_lock_ok env" "os_ok env" "pool_heap env s A (T # H # map cc D)" "transfers_ok s T" "distinct D"
    "\<And>p. p \<in> set D \<Longrightarrow> descriptor_at s A p (cc p)" "chain (slab_link s) (c_slabs s) (abs_slabs A)" "threads_ok s D"
    "arena_ok env s (abs_slabs A) (abs_large A)" "length T = 16" "length H = 16"
    "\<And>F. F \<in> set (T # H # map cc D) \<Longrightarrow> class_table s (abs_slabs A) F"
    "distinct (concat T @ concat H @ pool_blocks (map cc D))"
  using assms by (auto simp: cached_core_def transfer_lock_ok_def pool_heap_def class_table_def)

text \<open>Caches are replaced one at a time.\<close>

lemma pools_update:
  assumes "distinct D" and "p \<in> set D" and "mset (concat (cc p)) + a = mset (concat F) + b"
  shows "mset (pool_blocks (map cc D)) + a = mset (pool_blocks (map (cc(p := F)) D)) + b"
proof -
  from assms(2) obtain B C where D: "D = B @ p # C" by (auto simp: in_set_conv_decomp)
  with assms(1) have "p \<notin> set B" "p \<notin> set C" by auto
  then have "map (cc(p := F)) D = map cc B @ F # map cc C" unfolding D by (auto simp: map_fun_upd)
  then have "mset (pool_blocks (map (cc(p := F)) D)) + b =
      (mset (concat F) + b) + mset (pool_blocks (map cc B)) + mset (pool_blocks (map cc C))"
    by (simp add: ac_simps)
  also have "\<dots> = mset (pool_blocks (map cc D)) + a"
    unfolding assms(3) [symmetric] by (simp add: D ac_simps)
  finally show ?thesis ..
qed

lemma set_pool_map: "set (pool_blocks (map cc D)) = (\<Union>p \<in> set D. set (concat (cc p)))"
  by (auto simp: pool_blocks_def)

lemma caches_disjoint:
  assumes "distinct (pool_blocks (map cc D))" and "distinct D" and "p \<in> set D" and "q \<in> set D" and "p \<noteq> q"
  shows "set (concat (cc p)) \<inter> set (concat (cc q)) = {}"
  using assms
proof (induction D)
  case (Cons r D)
  have sub: "set (concat (cc x)) \<subseteq> set (pool_blocks (map cc D))" if "x \<in> set D" for x
    using that unfolding set_pool_map by blast
  have dj: "set (concat (cc r)) \<inter> set (pool_blocks (map cc D)) = {}" using Cons.prems(1) by simp
  have IH: "p \<in> set D \<Longrightarrow> q \<in> set D \<Longrightarrow> ?case" using Cons by simp
  show ?case using Cons.prems(3-5) IH sub dj by (cases "p = r"; cases "q = r") auto
qed simp

lemma core_disjoint:
  assumes "cached_core env s A T H D cc"
  shows "set (concat T) \<inter> set (concat H) = {}"
    and "p \<in> set D \<Longrightarrow> set (concat T) \<inter> set (concat (cc p)) = {} \<and> set (concat H) \<inter> set (concat (cc p)) = {}"
    and "p \<in> set D \<Longrightarrow> q \<in> set D \<Longrightarrow> p \<noteq> q \<Longrightarrow> set (concat (cc p)) \<inter> set (concat (cc q)) = {}"
proof -
  note d = coreD(13) [OF assms]
  show "set (concat T) \<inter> set (concat H) = {}" using d by auto
  show "set (concat T) \<inter> set (concat (cc p)) = {} \<and> set (concat H) \<inter> set (concat (cc p)) = {}" if "p \<in> set D"
  proof -
    have "set (concat (cc p)) \<subseteq> set (pool_blocks (map cc D))" using that unfolding set_pool_map by blast
    moreover have "set (concat T) \<inter> set (pool_blocks (map cc D)) = {}" "set (concat H) \<inter> set (pool_blocks (map cc D)) = {}"
      using d by auto
    ultimately show ?thesis by blast
  qed
  show "set (concat (cc p)) \<inter> set (concat (cc q)) = {}" if "p \<in> set D" "q \<in> set D" "p \<noteq> q"
    using caches_disjoint [OF _ coreD(5) [OF assms] that] d by simp
qed

text \<open>A descriptor does not depend on the blocks of other pools.\<close>

lemma cache_ok_blocks:
  assumes c: "cache_ok s c F" and "\<And>x. x \<in> set (concat F) \<Longrightarrow> blocks s' x = blocks s x"
  shows "cache_ok s' c F"
proof -
  have "chain (block_next s') (tc_heads c ! j) (F ! j) \<longleftrightarrow> chain (block_next s) (tc_heads c ! j) (F ! j)" if j: "j < 16" for j
  proof (rule chain_cong)
    fix x assume "x \<in> set (F ! j)"
    then have "x \<in> set (concat F)" using set_concat_self [of j F] cache_okD(7) [OF c j] j by auto
    then show "block_next s' x = block_next s x" using assms(2) by (simp add: block_next_def)
  qed
  with c show ?thesis by (simp add: cache_ok_def)
qed

lemma descriptor_at_frame:
  assumes "descriptor_at s A p F" and "\<And>x. x \<in> set (concat F) \<Longrightarrow> blocks s' x = blocks s x"
    and "descriptors s' p = descriptors s p" and "set (mappings s) \<subseteq> set (mappings s')"
    and "abs_slabs A' = abs_slabs A" and "abs_large A' = abs_large A"
  shows "descriptor_at s' A' p F"
proof -
  from assms(1) obtain d where d: "p \<noteq> NULL" "p \<notin> set (abs_slabs A)" "p \<notin> abs_large A" "descriptors s p = Some d"
    "dc_mapping_base d = p" "(p, dc_mapping_length d) \<in> set (mappings s)" "cache_ok s (dc_cache d) F"
    by (auto simp: descriptor_at_def)
  moreover have "cache_ok s' (dc_cache d) F" by (rule cache_ok_blocks [OF d(7) assms(2)])
  ultimately show ?thesis using assms(3-6) by (auto simp: descriptor_at_def)
qed

lemma threads_ok_same:
  "threads_ok s D \<Longrightarrow> current_state s' = current_state s \<Longrightarrow> current_descriptor s' = current_descriptor s \<Longrightarrow>
     cache_key_values s' = cache_key_values s \<Longrightarrow> threads_ok s' D"
  by (simp add: threads_ok_def)

text \<open>
  One step of a call: blocks move between the pools, links of free blocks change, and nothing that a
  client can see does.
\<close>

lemma core_step:
  assumes core: "cached_core env s A T H D cc" and t: "touched X s s'"
    and X: "X \<subseteq> set (pool_blocks (T # H # map cc D))"
    and tr: "transfers_ok s' T'" and ds: "\<And>p. p \<in> set D \<Longrightarrow> descriptor_at s' A p (cc' p)"
    and vars: "c_slabs s' = c_slabs s" "current_state s' = current_state s"
      "current_descriptor s' = current_descriptor s" "cache_key_values s' = cache_key_values s"
    and cls: "\<And>F. F \<in> set (T' # H' # map cc' D) \<Longrightarrow> class_table s (abs_slabs A) F"
    and m: "mset (pool_blocks (T' # H' # map cc' D)) = mset (pool_blocks (T # H # map cc D))"
  defines "A' \<equiv> with_pools A (T' # H' # map cc' D)"
  shows "cached_core env s' A' T' H' D cc'" and "refused s A s' A'"
proof -
  note C = coreD [OF core]
  note r = pool_relink [OF C(3) t X, of "T' # H' # map cc' D", OF cls m, folded A'_def]
  have sl: "slab_link s' = slab_link s" using t by (simp add: touched_def slab_link_def fun_eq_iff)
  have "descriptor_at s' A' p (cc' p)" if "p \<in> set D" for p
    using ds [OF that] by (simp add: descriptor_at_def A'_def)
  then show "cached_core env s' A' T' H' D cc'"
    using C r(1) tr sl vars threads_ok_same [OF C(8), of s'] by (simp add: cached_core_def A'_def)
  show "refused s A s' A'" using r(2,3) by (simp add: refused_def)
qed

lemma world_more_fields:
  fixes s s' :: cached_state
  assumes "world.more s' = world.more s"
  shows "transfer_mutex s' = transfer_mutex s" "transfer_heads s' = transfer_heads s"
    "cache_key_values s' = cache_key_values s" "current_descriptor s' = current_descriptor s"
    "current_state s' = current_state s" "descriptors s' = descriptors s" "c_slabs s' = c_slabs s"
    "c_registry_mutex s' = c_registry_mutex s"
  using assms by (cases s; cases s'; simp)+

lemma transfer_more_fields:
  fixes s s' :: cached_state
  assumes "transfer_state.more s' = transfer_state.more s"
  shows "cache_key_values s' = cache_key_values s" "current_descriptor s' = current_descriptor s"
    "current_state s' = current_state s" "descriptors s' = descriptors s" "c_slabs s' = c_slabs s"
    "c_registry_mutex s' = c_registry_mutex s"
  using assms by (cases s; cases s'; simp)+

lemma lifecycle_more_fields:
  fixes s s' :: cached_state
  assumes "lifecycle_state.more s' = lifecycle_state.more s"
  shows "c_slabs s' = c_slabs s" "c_registry_mutex s' = c_registry_mutex s"
  using assms by (cases s; cases s'; simp)+

section \<open>Steps of a call\<close>

text \<open>An operation of the cache at \<open>p\<close> that exchanges blocks with the running call.\<close>

lemma core_cache_step:
  fixes s s1 :: cached_state
  assumes core: "cached_core env s A T H D cc" and p: "p \<in> set D" and d: "descriptors s p = Some d"
    and rl: "relinked X s s1" and X: "X \<subseteq> set (concat (cc p)) \<union> set (concat H)" and c: "cache_ok s1 c F"
    and cls: "class_table s (abs_slabs A) F" "class_table s (abs_slabs A) H'"
    and m: "mset (concat F) + mset (concat H') = mset (concat (cc p)) + mset (concat H)"
  defines "s' \<equiv> s1\<lparr>descriptors := (descriptors s1)(p \<mapsto> d\<lparr>dc_cache := c\<rparr>)\<rparr>"
    and "A' \<equiv> with_pools A (T # H' # map (cc(p := F)) D)"
  shows "cached_core env s' A' T H' D (cc(p := F))" and "refused s A s' A'"
    and "c_registry_mutex s' = c_registry_mutex s"
proof -
  note C = coreD [OF core] and dj = core_disjoint [OF core]
  have "world.more s1 = world.more s" using rl by (simp add: relinked_def)
  note f = world_more_fields [OF this]
  have blk: "blocks s' x = blocks s x" if "x \<notin> X" for x using rl that by (simp add: relinked_def s'_def)
  have t: "touched X s s'" using rl by (simp add: relinked_def touched_def s'_def bshape_def fun_eq_iff)
  have "set (concat (cc p)) \<subseteq> set (pool_blocks (map cc D))" using p unfolding set_pool_map by blast
  with X have X': "X \<subseteq> set (pool_blocks (T # H # map cc D))" by auto
  have "x \<notin> X" if "x \<in> set (concat T)" for x using dj(1) dj(2) [OF p] X that by blast
  then have tr: "transfers_ok s' T"
    by (intro transfers_ok_cong [OF C(4)] blk) (simp_all add: s'_def f del: set_concat)
  have maps: "mappings s' = mappings s" using rl by (simp add: relinked_def s'_def)
  have ds: "descriptor_at s' A q ((cc(p := F)) q)" if q: "q \<in> set D" for q
  proof (cases "q = p")
    case True
    have "cache_ok s' c F" using c by (rule cache_ok_blocks) (simp add: s'_def)
    then show ?thesis using True C(6) [OF p] d maps by (auto simp: descriptor_at_def s'_def)
  next
    case False
    have "x \<notin> X" if "x \<in> set (concat (cc q))" for x using dj(2) [OF q] dj(3) [OF p q] False X that by blast
    then have "descriptor_at s' A q (cc q)"
      using False maps
      by (intro descriptor_at_frame [OF C(6) [OF q]] blk) (simp_all add: s'_def f del: set_concat)
    with False show ?thesis by simp
  qed
  have "mset (pool_blocks (map cc D)) + mset (concat H) = mset (pool_blocks (map (cc(p := F)) D)) + mset (concat H')"
    using m by (intro pools_update [OF C(5) p]) simp
  then have ms: "mset (pool_blocks (T # H' # map (cc(p := F)) D)) = mset (pool_blocks (T # H # map cc D))"
    by (simp add: ac_simps)
  have "class_table s (abs_slabs A) G" if "G \<in> set (T # H' # map (cc(p := F)) D)" for G
    using that C(12) cls by (auto split: if_splits)
  note st = core_step [OF core t X' tr ds _ _ _ _ this ms]
  from st show "cached_core env s' A' T H' D (cc(p := F))" "refused s A s' A'"
    unfolding A'_def by (simp_all add: s'_def f)
  show "c_registry_mutex s' = c_registry_mutex s" by (simp add: s'_def f)
qed

text \<open>An operation on the shared chains that exchanges blocks with the running call.\<close>

lemma core_transfer_step:
  fixes s s' :: cached_state
  assumes core: "cached_core env s A T H D cc" and st: "transfer_step X s s'" and X: "X \<subseteq> set (concat H)"
    and tr: "transfers_ok s' T'" and cls: "class_table s (abs_slabs A) T'" "class_table s (abs_slabs A) H'"
    and m: "mset (concat T') + mset (concat H') = mset (concat T) + mset (concat H)"
  defines "A' \<equiv> with_pools A (T' # H' # map cc D)"
  shows "cached_core env s' A' T' H' D cc" and "refused s A s' A'" and "c_registry_mutex s' = c_registry_mutex s"
proof -
  note C = coreD [OF core] and dj = core_disjoint [OF core]
  note f = transfer_more_fields [of s' s] and s = st [unfolded transfer_step_def]
  have t: "touched X s s'" using s by (simp add: touched_def)
  have "descriptor_at s' A q (cc q)" if q: "q \<in> set D" for q
  proof (rule descriptor_at_frame [OF C(6) [OF q]])
    fix x assume "x \<in> set (concat (cc q))"
    then have "x \<notin> X" using dj(2) [OF q] X by blast
    then show "blocks s' x = blocks s x" using s by simp
  qed (use s f in simp_all)
  moreover have "class_table s (abs_slabs A) G" if "G \<in> set (T' # H' # map cc D)" for G
    using that C(12) cls by auto
  moreover have "mset (pool_blocks (T' # H' # map cc D)) = mset (pool_blocks (T # H # map cc D))"
    using m by (simp add: add.assoc [symmetric])
  ultimately show "cached_core env s' A' T' H' D cc" "refused s A s' A'"
    unfolding A'_def using X s f by (intro core_step [OF core t _ tr]; auto)+
  show "c_registry_mutex s' = c_registry_mutex s" using s f by simp
qed

text \<open>Only counters, the call number, \<open>errno\<close> and the registry mutex changed.\<close>

definition cached_quiet :: "cached_state \<Rightarrow> cached_state \<Rightarrow> bool" where
  "cached_quiet s s' \<longleftrightarrow> mappings s' = mappings s \<and> blocks s' = blocks s \<and> slab_objs s' = slab_objs s \<and>
     bytes s' = bytes s \<and> transfer_mutex s' = transfer_mutex s \<and> transfer_heads s' = transfer_heads s \<and>
     descriptors s' = descriptors s \<and> c_slabs s' = c_slabs s \<and> current_state s' = current_state s \<and>
     current_descriptor s' = current_descriptor s \<and> cache_key_values s' = cache_key_values s"

lemma core_quiet:
  assumes "cached_quiet s s'"
  shows "cached_core env s A T H D cc \<Longrightarrow> cached_core env s' A T H D cc" and "refused s A s' A"
proof -
  note q = assms [unfolded cached_quiet_def]
  have t: "touched {} s s'" using q by (simp add: touched_def bshape_def fun_eq_iff)
  show "refused s A s' A" using q by (simp add: refused_def live_blocks_def arena_blocks_same [OF touched_arena [OF t]])
  assume core: "cached_core env s A T H D cc"
  note C = coreD [OF core]
  have A: "with_pools A (T # H # map cc D) = A" using C(3) by (simp add: pool_heap_def)
  have "transfers_ok s' T" using q by (intro transfers_ok_cong [OF C(4)]) auto
  moreover have "descriptor_at s' A p (cc p)" if "p \<in> set D" for p
    using q by (intro descriptor_at_frame [OF C(6) [OF that]]) auto
  ultimately show "cached_core env s' A T H D cc"
    using core_step(1) [OF core t, of T cc H] C(12) q unfolding A by auto
qed

lemma quiet_simps [simp]:
  "cached_quiet s s" "cached_quiet s (s'\<lparr>errno := e\<rparr>) = cached_quiet s s'" "cached_quiet s (s'\<lparr>ticks := n\<rparr>) = cached_quiet s s'"
  "cached_quiet s (s'\<lparr>c_registry_mutex := b\<rparr>) = cached_quiet s s'" "cached_quiet s (count_cached env tid g s') = cached_quiet s s'"
  by (simp_all add: cached_quiet_def count_cached_def)

lemma count_cached_mutex [simp]: "c_registry_mutex (count_cached env tid g s) = c_registry_mutex s"
  by (simp add: count_cached_def)

lemma refused_trans: "refused s A s1 A1 \<Longrightarrow> refused s1 A1 s2 A2 \<Longrightarrow> refused s A s2 A2"
  by (auto simp: refused_def intro: kept_trans)

lemma refused_granted_trans: "refused s A s1 A1 \<Longrightarrow> granted p sz s1 A1 s2 A2 \<Longrightarrow> granted p sz s A s2 A2"
  by (auto simp: refused_def granted_def intro: kept_trans)

lemma refused_refl [simp]: "refused s A s A"
  by (simp add: refused_def)

text \<open>The blocks of one class in the hands of the running call.\<close>

definition hand :: "nat \<Rightarrow> addr list \<Rightarrow> addr list list" where
  "hand i xs = empty_table[i := xs]"

lemma hand_Nil [simp]: "hand i [] = empty_table"
proof (cases "i < 16")
  case True
  then show ?thesis using list_update_id [of empty_table i] by (simp add: hand_def)
qed (simp add: hand_def list_update_beyond)

lemma concat_empty [simp]: "concat (empty_table :: addr list list) = []"
  by (simp add: concat_eq_Nil_conv)

lemma concat_hand [simp]: "i < 16 \<Longrightarrow> concat (hand i xs) = xs"
proof -
  assume i: "i < 16"
  have "concat (take i empty_table) = ([] :: addr list)" "concat (drop (Suc i) empty_table) = ([] :: addr list)"
    by (auto simp: concat_eq_Nil_conv dest: in_set_takeD in_set_dropD)
  with i show ?thesis by (simp add: hand_def concat_update)
qed

lemma hand_class: "(\<And>p. p \<in> set xs \<Longrightarrow> in_class s ss i p) \<Longrightarrow> class_table s ss (hand i xs)"
  unfolding hand_def by (rule class_table_single)

lemma hand_nth: "i < 16 \<Longrightarrow> hand i xs ! i = xs"
  by (simp add: hand_def)

lemma core_classes:
  assumes "cached_core env s A T (hand i ys) D cc" and "i < 16"
  shows "x \<in> set ys \<Longrightarrow> in_class s (abs_slabs A) i x" and "x \<in> set (T ! i) \<Longrightarrow> in_class s (abs_slabs A) i x"
    and "p \<in> set D \<Longrightarrow> x \<in> set (cc p ! i) \<Longrightarrow> in_class s (abs_slabs A) i x"
    and "j < 16 \<Longrightarrow> p \<in> set D \<Longrightarrow> x \<in> set (cc p ! j) \<Longrightarrow> in_class s (abs_slabs A) j x"
proof -
  note c = coreD(12) [OF assms(1)]
  have "class_table s (abs_slabs A) (hand i ys)" "class_table s (abs_slabs A) T"
    "\<And>p. p \<in> set D \<Longrightarrow> class_table s (abs_slabs A) (cc p)" using c by auto
  then show "x \<in> set ys \<Longrightarrow> in_class s (abs_slabs A) i x" "x \<in> set (T ! i) \<Longrightarrow> in_class s (abs_slabs A) i x"
    "p \<in> set D \<Longrightarrow> x \<in> set (cc p ! i) \<Longrightarrow> in_class s (abs_slabs A) i x"
    "j < 16 \<Longrightarrow> p \<in> set D \<Longrightarrow> x \<in> set (cc p ! j) \<Longrightarrow> in_class s (abs_slabs A) j x"
    using class_table_in assms(2) hand_nth [OF assms(2), of ys] by (metis, metis, metis, metis)
qed

lemma core_descriptor:
  assumes "cached_core env s A T H D cc" and "p \<in> set D"
  obtains d where "descriptors s p = Some d" "cache_ok s (dc_cache d) (cc p)" "length (cc p) = 16"
  using coreD(6) [OF assms] by (auto simp: descriptor_at_def cache_ok_def)

lemma core_take:
  assumes core: "cached_core env s A T (hand (unat ci) ys) D cc" and p: "p \<in> set D" and ci: "unat ci < 16"
    and cap: "cap = size_class_capacities ! unat ci"
  shows "cc p ! unat ci = [] \<Longrightarrow> on_cache_take p ci cap s = Some (NULL, s)"
    and "cc p ! unat ci = x # xs \<Longrightarrow> \<exists>s' A'. on_cache_take p ci cap s = Some (x, s') \<and>
      cached_core env s' A' T (hand (unat ci) (x # ys)) D (cc(p := (cc p)[unat ci := xs])) \<and> refused s A s' A' \<and>
      c_registry_mutex s' = c_registry_mutex s \<and> (\<forall>y. y \<noteq> x \<longrightarrow> blocks s' y = blocks s y)"
proof -
  from core p obtain d where d: "descriptors s p = Some d" "cache_ok s (dc_cache d) (cc p)" "length (cc p) = 16"
    by (rule core_descriptor)
  note t = cache_take_spec [OF d(2) ci cap]
  show "on_cache_take p ci cap s = Some (NULL, s)" if "cc p ! unat ci = []"
  proof -
    have "(descriptors s)(p \<mapsto> d) = descriptors s" using d(1) by auto
    then show ?thesis using t(1) [OF that] d(1) by (simp add: on_cache_take_def)
  qed
  assume x: "cc p ! unat ci = x # xs"
  from t(2) [OF this] obtain c s1 where r: "hplf_thread_cache_take (dc_cache d) ci cap s = Some (x, c, s1)"
    "cache_ok s1 c ((cc p)[unat ci := xs])" "relinked {x} s s1" by blast
  let ?s = "s1\<lparr>descriptors := (descriptors s1)(p \<mapsto> d\<lparr>dc_cache := c\<rparr>)\<rparr>"
  have "world.more s1 = world.more s" using r(3) by (simp add: relinked_def)
  note f = world_more_fields [OF this]
  have run: "on_cache_take p ci cap s = Some (x, ?s)" using d(1) r(1) f by (simp add: on_cache_take_def)
  have "x \<in> set (cc p ! unat ci)" using x by simp
  then have X: "{x} \<subseteq> set (concat (cc p)) \<union> set (concat (hand (unat ci) ys))"
    using ci d(3) set_concat_self [of "unat ci" "cc p"] by auto
  note cls = core_classes [OF core ci]
  have tF: "class_table s (abs_slabs A) ((cc p)[unat ci := xs])"
    using coreD(12) [OF core] p cls(3) [OF p] x by (intro class_table_update) auto
  have tH: "class_table s (abs_slabs A) (hand (unat ci) (x # ys))"
    using cls(1) cls(3) [OF p] x by (intro hand_class) auto
  have "mset (concat (cc p)) = mset [x] + mset (concat ((cc p)[unat ci := xs]))"
    using ci d(3) x by (intro mset_concat_take) simp_all
  then have m: "mset (concat ((cc p)[unat ci := xs])) + mset (concat (hand (unat ci) (x # ys))) =
      mset (concat (cc p)) + mset (concat (hand (unat ci) ys))" using ci by simp
  from core_cache_step [OF core p d(1) r(3) X r(2) tF tH m] run r(3)
  show "\<exists>s' A'. on_cache_take p ci cap s = Some (x, s') \<and>
      cached_core env s' A' T (hand (unat ci) (x # ys)) D (cc(p := (cc p)[unat ci := xs])) \<and> refused s A s' A' \<and>
      c_registry_mutex s' = c_registry_mutex s \<and> (\<forall>y. y \<noteq> x \<longrightarrow> blocks s' y = blocks s y)"
    by (fastforce simp: relinked_def)
qed

lemma core_refill:
  assumes core: "cached_core env s A T (hand (unat ci) xs) D cc" and p: "p \<in> set D" and ci: "unat ci < 16"
    and cap: "cap = size_class_capacities ! unat ci" and w: "within_limits (cc p)" and l: "list_ok s l xs"
  defines "k \<equiv> refill_count (cc p) (unat ci)"
  shows "\<exists>l' s' A'. on_cache_refill p ci cap l s = Some (l', s') \<and>
      cached_core env s' A' T (hand (unat ci) (drop k xs)) D (cc(p := (cc p)[unat ci := take k xs @ cc p ! unat ci])) \<and>
      refused s A s' A' \<and> list_ok s' l' (drop k xs) \<and> within_limits ((cc p)[unat ci := take k xs @ cc p ! unat ci]) \<and>
      c_registry_mutex s' = c_registry_mutex s"
proof -
  from core p obtain d where d: "descriptors s p = Some d" "cache_ok s (dc_cache d) (cc p)" "length (cc p) = 16"
    by (rule core_descriptor)
  let ?F = "(cc p)[unat ci := take k xs @ cc p ! unat ci]"
  have dj: "set xs \<inter> set (concat (cc p)) = {}" using core_disjoint(2) [OF core p] ci by simp
  from cache_refill_spec [OF d(2) w ci l dj] cap obtain c l' s1 where r:
    "hplf_thread_cache_refill (dc_cache d) ci cap l s = Some (c, l', s1)" "cache_ok s1 c ?F" "list_ok s1 l' (drop k xs)"
    "relinked (set (take k xs)) s s1" "within_limits ?F" unfolding k_def by blast
  let ?s = "s1\<lparr>descriptors := (descriptors s1)(p \<mapsto> d\<lparr>dc_cache := c\<rparr>)\<rparr>"
  have "world.more s1 = world.more s" using r(4) by (simp add: relinked_def)
  note f = world_more_fields [OF this]
  have run: "on_cache_refill p ci cap l s = Some (l', ?s)" using d(1) r(1) f by (simp add: on_cache_refill_def)
  have X: "set (take k xs) \<subseteq> set (concat (cc p)) \<union> set (concat (hand (unat ci) xs))"
    using ci set_take_subset [of k xs] by auto
  note cls = core_classes [OF core ci]
  have tF: "class_table s (abs_slabs A) ?F"
    using coreD(12) [OF core] p cls(1) cls(3) [OF p] set_take_subset [of k xs] by (intro class_table_update) auto
  have tH: "class_table s (abs_slabs A) (hand (unat ci) (drop k xs))"
    using cls(1) set_drop_subset [of k xs] by (intro hand_class) auto
  have "mset (take k xs) + mset (drop k xs) = mset xs" by (metis append_take_drop_id mset_append)
  then have m: "mset (concat ?F) + mset (concat (hand (unat ci) (drop k xs))) =
      mset (concat (cc p)) + mset (concat (hand (unat ci) xs))"
    using ci d(3) by (simp add: mset_concat_put ac_simps)
  have "list_ok ?s l' (drop k xs)" using r(3) by (simp add: list_ok_def block_next_def)
  with core_cache_step [OF core p d(1) r(4) X r(2) tF tH m] run r(5) show ?thesis by blast
qed

lemma core_detach:
  assumes core: "cached_core env s A T empty_table D cc" and ci: "unat ci < 16"
  shows "\<exists>l s' A'. hplf_transfer_mutex_detach env ci s = Some (l, s') \<and>
      cached_core env s' A' (T[unat ci := []]) (hand (unat ci) (T ! unat ci)) D cc \<and> refused s A s' A' \<and>
      list_ok s' l (T ! unat ci) \<and> c_registry_mutex s' = c_registry_mutex s \<and> mappings s' = mappings s"
proof -
  note C = coreD [OF core]
  from detach_mutex [OF C(1,4) ci] obtain l s' where r: "hplf_transfer_mutex_detach env ci s = Some (l, s')"
    "list_ok s' l (T ! unat ci)" "transfers_ok s' (T[unat ci := []])" "transfer_step {} s s'" by blast
  have cT: "class_table s (abs_slabs A) T" using C(12) by simp
  have t: "class_table s (abs_slabs A) (T[unat ci := []])" "class_table s (abs_slabs A) (hand (unat ci) (T ! unat ci))"
    using cT ci by (auto intro!: class_table_update hand_class intro: class_table_in)
  have "mset (concat T) = mset (T ! unat ci) + mset (concat (T[unat ci := []]))"
    using C(10) ci by (intro mset_concat_take) simp_all
  then have m: "mset (concat (T[unat ci := []])) + mset (concat (hand (unat ci) (T ! unat ci))) =
      mset (concat T) + mset (concat (empty_table :: addr list list))" using ci by simp
  moreover have "mappings s' = mappings s" using r(4) by (simp add: transfer_step_def)
  ultimately show ?thesis using core_transfer_step [OF core r(4) _ r(3) t] r(1,2) by blast
qed

lemma core_publish:
  assumes core: "cached_core env s A T (hand (unat ci) (zs @ xs)) D cc" and ci: "unat ci < 16" and l: "list_ok s l xs"
  shows "\<exists>l' s' A'. hplf_transfer_mutex_publish env ci l s = Some (l', s') \<and>
      cached_core env s' A' (T[unat ci := xs @ T ! unat ci]) (hand (unat ci) zs) D cc \<and> refused s A s' A' \<and>
      c_registry_mutex s' = c_registry_mutex s \<and> (\<forall>y. y \<notin> set xs \<longrightarrow> blocks s' y = blocks s y)"
proof -
  note C = coreD [OF core]
  have dj: "set xs \<inter> \<Union> (set ` set T) = {}" using core_disjoint(1) [OF core] ci by auto
  from publish_mutex [OF C(1,4) ci l dj] obtain l' s' where r: "hplf_transfer_mutex_publish env ci l s = Some (l', s')"
    "transfers_ok s' (T[unat ci := xs @ T ! unat ci])" "transfer_step (set xs) s s'" by blast
  note cls = core_classes [OF core ci]
  have cT: "class_table s (abs_slabs A) T" using C(12) by simp
  have t: "class_table s (abs_slabs A) (T[unat ci := xs @ T ! unat ci])" "class_table s (abs_slabs A) (hand (unat ci) zs)"
    using cT cls(1,2) by (auto intro!: class_table_update hand_class)
  have m: "mset (concat (T[unat ci := xs @ T ! unat ci])) + mset (concat (hand (unat ci) zs)) =
      mset (concat T) + mset (concat (hand (unat ci) (zs @ xs)))" using ci C(10) by (simp add: mset_concat_put ac_simps)
  have X: "set xs \<subseteq> set (concat (hand (unat ci) (zs @ xs)))" using ci by simp
  from core_transfer_step [OF core r(3) X r(2) t m] r(1,3) show ?thesis by (fastforce simp: transfer_step_def)
qed

text \<open>Links of the blocks in hand change.\<close>

lemma core_hand:
  fixes s s' :: cached_state
  assumes core: "cached_core env s A T H D cc" and rl: "relinked X s s'" and X: "X \<subseteq> set (concat H)"
  shows "cached_core env s' A T H D cc" and "refused s A s' A" and "c_registry_mutex s' = c_registry_mutex s"
proof -
  note C = coreD [OF core] and dj = core_disjoint [OF core]
  have "world.more s' = world.more s" using rl by (simp add: relinked_def)
  note f = world_more_fields [OF this]
  have blk: "blocks s' x = blocks s x" if "x \<notin> X" for x using rl that by (simp add: relinked_def)
  have "x \<notin> X" if "x \<in> set (concat T)" for x using dj(1) X that by blast
  then have tr: "transfers_ok s' T"
    by (intro transfers_ok_cong [OF C(4)] blk) (simp_all add: f del: set_concat)
  have ds: "descriptor_at s' A q (cc q)" if q: "q \<in> set D" for q
  proof -
    have "x \<notin> X" if "x \<in> set (concat (cc q))" for x using dj(2) [OF q] X that by blast
    then show ?thesis using rl
      by (intro descriptor_at_frame [OF C(6) [OF q]] blk) (simp_all add: f relinked_def del: set_concat)
  qed
  have A: "with_pools A (T # H # map cc D) = A" using C(3) by (simp add: pool_heap_def)
  have X': "X \<subseteq> set (pool_blocks (T # H # map cc D))" using X by auto
  note st = core_step [OF core relinked_touched [OF rl] X' tr ds f(7,5,4,3) C(12) refl, unfolded A]
  show "cached_core env s' A T H D cc" "refused s A s' A" using st by blast+
  show "c_registry_mutex s' = c_registry_mutex s" by (rule f)
qed

text \<open>The block in hand is given to the client.\<close>

lemma core_pop:
  assumes core: "cached_core env s A T (hand (unat ci) (x # ys)) D cc" and ci: "unat ci < 16"
    and req: "requested \<noteq> 0" "requested \<le> size_class_capacities ! unat ci"
  shows "\<exists>s' A'. update_block x (\<lambda>b. b\<lparr>requested_size := requested\<rparr>) s = Some s' \<and> hplf_block_payload x = x + 48 \<and>
      cached_core env s' A' T (hand (unat ci) ys) D cc \<and> granted x requested s A s' A' \<and>
      c_registry_mutex s' = c_registry_mutex s \<and>
      (\<exists>b. blocks s' x = Some b \<and> kind b = HPLF_BLOCK_SMALL \<and> capacity b = size_class_capacities ! unat ci)"
proof -
  note C = coreD [OF core] and cls = core_classes [OF core ci]
  have "in_class s (abs_slabs A) (unat ci) x" using cls(1) by simp
  with C(9) obtain b where b: "blocks s x = Some b" "capacity b = size_class_capacities ! unat ci" "kind b = HPLF_BLOCK_SMALL"
    by (rule free_block_capacity)
  let ?b = "b\<lparr>requested_size := requested\<rparr>"
  let ?s = "s\<lparr>blocks := (blocks s)(x \<mapsto> ?b)\<rparr>" and ?P = "T # hand (unat ci) ys # map cc D"
  have ch: "block_changed x b ?b s ?s" using b(1) by (simp add: block_changed_def)
  have tb: "class_table s (abs_slabs A) F" if "F \<in> set ?P" for F
    using that C(12) hand_class [of ys s "abs_slabs A" "unat ci"] cls(1) by auto
  have m: "add_mset x (mset (pool_blocks ?P)) = mset (pool_blocks (T # hand (unat ci) (x # ys) # map cc D))" using ci by simp
  have sz: "requested_size ?b \<noteq> 0" "requested_size ?b \<le> capacity ?b" and bt: "bytes ?s = bytes s" using req b by simp_all
  note pop = pool_pop [OF C(3) ch bt sz, of ?P, OF tb m]
  have "distinct (pool_blocks (T # hand (unat ci) (x # ys) # map cc D))" using C(3) by (simp add: pool_heap_def)
  then have nx: "x \<notin> set (concat T)" "x \<notin> set (pool_blocks (map cc D))" using ci by auto
  have "transfers_ok ?s T" using nx(1) by (intro transfers_ok_cong [OF C(4)]) auto
  moreover have "descriptor_at ?s (with_pools A ?P) q (cc q)" if q: "q \<in> set D" for q
    using nx(2) q unfolding set_pool_map by (intro descriptor_at_frame [OF C(6) [OF q]]) auto
  moreover have "slab_link ?s = slab_link s" by (simp add: slab_link_def fun_eq_iff)
  ultimately have "cached_core env ?s (with_pools A ?P) T (hand (unat ci) ys) D cc"
    using C(1,5,7,8) pop(1) by (simp add: cached_core_def threads_ok_def)
  moreover have "x \<noteq> NULL"
    using pool_arena [OF C(3), of x] block_facts(1) [OF C(2,9)] ci by simp
  ultimately show ?thesis using b pop(2) by (auto simp: update_block_def hplf_block_payload_eq)
qed

text \<open>A block of the client comes into the hands of the running call.\<close>

lemma core_push:
  fixes s s' :: cached_state
  assumes core: "cached_core env s A T empty_table D cc" and x: "x \<in> live_blocks s A" and i: "i < 16"
    and cl: "in_class s (abs_slabs A) i x" and t: "touched {x} s s'" and more: "world.more s' = world.more s"
  defines "A' \<equiv> with_pools A (T # hand i [x] # map cc D)"
  shows "cached_core env s' A' T (hand i [x]) D cc" and "live_blocks s' A' = live_blocks s A - {x}"
    and "kept (live_blocks s A - {x}) s s'"
proof -
  note C = coreD [OF core] and f = world_more_fields [OF more]
  let ?P = "T # hand i [x] # map cc D"
  have tb: "class_table s (abs_slabs A) F" if "F \<in> set ?P" for F
    using that C(12) cl hand_class [of "[x]" s "abs_slabs A" i] by auto
  have m: "mset (pool_blocks ?P) = add_mset x (mset (pool_blocks (T # empty_table # map cc D)))" using i by simp
  note push = pool_push [OF C(3) x t, of ?P, OF tb m, folded A'_def]
  show "live_blocks s' A' = live_blocks s A - {x}" "kept (live_blocks s A - {x}) s s'" using push(2,3) by blast+
  have nx: "x \<notin> set (concat T)" "x \<notin> set (pool_blocks (map cc D))" using x pool_live [OF C(3)] by auto
  have blk: "blocks s' y = blocks s y" if "y \<noteq> x" for y using t that by (simp add: touched_def)
  have "transfers_ok s' T" using nx(1) by (intro transfers_ok_cong [OF C(4)] blk) (auto simp: f)
  moreover have "descriptor_at s' A' q (cc q)" if q: "q \<in> set D" for q
    using nx(2) q t unfolding set_pool_map
    by (intro descriptor_at_frame [OF C(6) [OF q]] blk) (auto simp: f touched_def A'_def)
  moreover have "slab_link s' = slab_link s" using t by (simp add: touched_def slab_link_def fun_eq_iff)
  ultimately show "cached_core env s' A' T (hand i [x]) D cc"
    using C(1,5,7,8) push(1) f by (simp add: cached_core_def threads_ok_def A'_def)
qed

lemma cached_lock_ok:
  "transfer_lock_ok env \<Longrightarrow> \<not> c_registry_mutex s \<Longrightarrow>
     cached_lock env s = Some (0, s\<lparr>ticks := Suc (ticks s), c_registry_mutex := True\<rparr>)"
  by (simp add: cached_lock_def pthread_mutex_lock_def transfer_lock_ok_def)

lemma cached_unlock_ok:
  "os_ok env \<Longrightarrow> c_registry_mutex s \<Longrightarrow>
     cached_unlock env s = Some (0, s\<lparr>ticks := Suc (ticks s), c_registry_mutex := False\<rparr>)"
  by (simp add: cached_unlock_def pthread_mutex_unlock_def)

text \<open>A mapping that leaves the arena: new slabs and the changes around them.\<close>

lemma core_new_slab:
  fixes s s1 :: cached_state
  assumes core: "cached_core env s A T empty_table D cc" and ci: "unat ci < 16"
    and cr: "slab_created env ci a d s s1" and nx: "slab_next d = NULL"
  defines "s' \<equiv> s1\<lparr>slab_objs := (slab_objs s1)(a \<mapsto> d\<lparr>slab_next := c_slabs s\<rparr>), c_slabs := a\<rparr>"
    and "xs \<equiv> rev (slab_slots a d)"
  defines "A' \<equiv> A\<lparr>abs_slabs := a # abs_slabs A, abs_free := concat (T # hand (unat ci) xs # map cc D)\<rparr>"
  shows "cached_core env s' A' T (hand (unat ci) xs) D cc" and "refused s A s' A'"
    and "chain (block_next s') (slot_at a d (unat (slot_count d) - 1)) xs" and "xs \<noteq> []"
proof -
  note C = coreD [OF core] and c = cr [unfolded slab_created_def]
  have more: "world.more s1 = world.more s" using c by (simp add: outside_same_def)
  note f = world_more_fields [OF more]
  let ?P = "T # hand (unat ci) xs # map cc D"
  have P: "F \<in> set (T # empty_table # map cc D) \<or> F = empty_table[unat ci := rev (slab_slots a d)]" if "F \<in> set ?P" for F
    using that by (auto simp: hand_def xs_def)
  have m: "mset (pool_blocks ?P) = mset (slab_slots a d) + mset (pool_blocks (T # empty_table # map cc D))"
    using ci by (simp add: xs_def ac_simps)
  note ps = pool_new_slab [OF C(2,3) ci cr nx, of ?P, OF P m]
  have A': "A' = A\<lparr>abs_slabs := a # abs_slabs A, abs_free := concat ?P\<rparr>" by (simp add: A'_def)
  have obj1: "slab_objs s1 a = Some d" using c by simp
  have same: "arena_same (a # abs_slabs A) (abs_large A) s1 s'"
    using obj1 by (auto simp: arena_same_def s'_def sshape_def bshape_def)
  have lv: "live_blocks s' A' = live_blocks s1 A'"
    unfolding A' by (simp add: live_blocks_def arena_blocks_same [OF same])
  have h: "pool_heap env s' A' ?P"
    using ps(1) arena_ok_cong [OF _ same] class_table_same [OF same] lv
    unfolding A' by (simp add: pool_heap_def s'_def live_ok_def)
  have blk: "blocks s' x = blocks s x" if "x \<in> arena_blocks s (abs_slabs A) (abs_large A)" for x
    using ps(5) that by (simp add: objects_same_def s'_def)
  have in_arena: "x \<in> arena_blocks s (abs_slabs A) (abs_large A)" if "x \<in> set (pool_blocks (T # empty_table # map cc D))" for x
    using pool_arena [OF C(3) that] .
  have "transfers_ok s' T"
    using in_arena by (intro transfers_ok_cong [OF C(4)] blk) (auto simp: s'_def f)
  moreover have "descriptor_at s' A' q (cc q)" if q: "q \<in> set D" for q
  proof -
    have "set (concat (cc q)) \<subseteq> set (pool_blocks (map cc D))" using q unfolding set_pool_map by blast
    then have "descriptor_at s' A q (cc q)"
      using in_arena c by (intro descriptor_at_frame [OF C(6) [OF q]] blk) (auto simp: s'_def f)
    moreover have "q \<noteq> a"
    proof
      assume "q = a"
      with C(6) [OF q] obtain l where l: "(a, l) \<in> set (mappings s)" by (auto simp: descriptor_at_def)
      then have "disjoint_ranges a (unat (mapping_length d)) a (unat l)" using c by fastforce
      moreover have "0 < unat l" using maps_okD(2) [OF _ l, of env] C(9) by (simp add: arena_ok_def unat_gt_0)
      moreover have "0 < unat (mapping_length d)" using slots_end [OF C(2), of a d] c by auto
      ultimately show False by (simp add: disjoint_ranges_def)
    qed
    ultimately show ?thesis by (simp add: descriptor_at_def A')
  qed
  moreover have "chain (slab_link s') (c_slabs s') (abs_slabs A')"
  proof -
    have "slab_link s' = (slab_link s1)(a \<mapsto> c_slabs s)" by (auto simp: slab_link_def s'_def fun_eq_iff)
    moreover have "chain (slab_link s1) (c_slabs s) (abs_slabs A) \<longleftrightarrow> chain (slab_link s) (c_slabs s) (abs_slabs A)"
      using ps(5) by (intro chain_cong) (simp add: objects_same_def slab_link_def)
    moreover have "a \<noteq> NULL" using c by (simp add: slab_ok_def)
    ultimately show ?thesis using C(7) ps(6) by (simp add: s'_def A')
  qed
  ultimately show "cached_core env s' A' T (hand (unat ci) xs) D cc"
    using C(1,5,8) h f by (simp add: cached_core_def threads_ok_def s'_def)
  have "kept (live_blocks s A) s s'" using ps(3) by (simp add: kept_def bytes_kept_def s'_def)
  then show "refused s A s' A'" using ps(2) lv unfolding A' by (simp add: refused_def)
  show "chain (block_next s') (slot_at a d (unat (slot_count d) - 1)) xs"
  proof -
    have "block_next s' = block_next s1" by (simp add: s'_def block_next_def fun_eq_iff)
    with ps(4) show ?thesis by (simp add: xs_def)
  qed
  show "xs \<noteq> []" using slab_ok_count [OF C(2), of a d] c by (simp add: xs_def slab_slots_def)
qed

section \<open>Acquiring a cache\<close>

lemma others_arena:
  assumes ok: "os_ok env" and ar: "arena_ok env s ss L" and o: "others_kept tid s s'"
  shows "objects_same ss L s s'" and "kept (arena_blocks s ss L) s s'"
proof -
  have home: "\<exists>b l. (b, l) \<in> set (mappings s) \<and> subrange p (extent s p) b (unat l)" if "p \<in> arena_blocks s ss L" for p
    using ok ar that by (rule block_home) blast
  have inside: "mapped s q n" if p: "p \<in> arena_blocks s ss L" and sub: "subrange q n p (extent s p)" for p q n
    using home [OF p] subrange_trans [OF sub] by (fastforce simp: mapped_iff)
  have blk: "blocks s' p = blocks s p" if p: "p \<in> arena_blocks s ss L" for p
  proof -
    have "subrange p 48 p (extent s p)" using block_facts(3) [OF ok ar p] by (simp add: subrange_def)
    with inside [OF p] o show ?thesis by (simp add: others_kept_def)
  qed
  have "slab_objs s' a = slab_objs s a" if "a \<in> set ss" for a
  proof -
    from ar that obtain d where d: "slab_conf env s a d" by (auto simp: arena_ok_def)
    then have "subrange a 64 a (unat (mapping_length d))" "(a, mapping_length d) \<in> set (mappings s)"
      using slots_end [OF ok, of a d] by (auto simp: subrange_def slab_conf_def)
    then have "mapped s a 64" by (auto simp: mapped_iff)
    with o show ?thesis by (simp add: others_kept_def)
  qed
  with blk show "objects_same ss L s s'" by (simp add: objects_same_def)
  have "bytes s' q = bytes s q" if p: "p \<in> arena_blocks s ss L" and q: "in_range p (extent s p) q" for p q
  proof -
    have "subrange q 1 p (extent s p)" using q by (auto simp: subrange_def in_range_def)
    with inside [OF p] o show ?thesis by (simp add: others_kept_def)
  qed
  with blk show "kept (arena_blocks s ss L) s s'" by (simp add: kept_def bytes_kept_def)
qed

lemma descriptor_mapped:
  assumes "maps_ok env (mappings s)" and "descriptor_at s A p F" shows "mapped s p 1"
proof -
  from assms(2) obtain l where l: "(p, l) \<in> set (mappings s)" by (auto simp: descriptor_at_def)
  then have "0 < unat l" using maps_okD(2) [OF assms(1) l] by (simp add: unat_gt_0)
  with l show ?thesis by (auto simp: mapped_iff subrange_def intro!: bexI [OF _ l])
qed

lemma core_others:
  fixes s s' :: cached_state
  assumes core: "cached_core env s A T empty_table D cc" and o: "others_kept tid s s'" and maps: "maps_ok env (mappings s')"
    and th: "threads_ok s' D"
  shows "cached_core env s' A T empty_table D cc" and "refused s A s' A" and "c_registry_mutex s' = c_registry_mutex s"
proof -
  note C = coreD [OF core] and oa = others_arena [OF coreD(2,9) [OF core] o] and O = o [unfolded others_kept_def]
  have f: "c_slabs s' = c_slabs s" "c_registry_mutex s' = c_registry_mutex s"
    using lifecycle_more_fields [of s' s] O by simp_all
  then show "c_registry_mutex s' = c_registry_mutex s" by simp
  note po = pool_outside [OF C(3) oa(1) maps]
  have k: "kept (live_blocks s A) s s'" by (rule kept_mono [OF oa(2)]) (auto simp: live_blocks_def)
  with po(2) O show "refused s A s' A" by (simp add: refused_def)
  have blk: "blocks s' x = blocks s x" if "x \<in> set (pool_blocks (T # empty_table # map cc D))" for x
    using oa(2) pool_arena [OF C(3) that] by (simp add: kept_def)
  have "transfers_ok s' T" using O by (intro transfers_ok_cong [OF C(4)] blk) auto
  moreover have "descriptor_at s' A p (cc p)" if p: "p \<in> set D" for p
  proof -
    have "maps_ok env (mappings s)" using C(9) by (simp add: arena_ok_def)
    from descriptor_mapped [OF this C(6) [OF p]] O have d: "descriptors s' p = descriptors s p" by simp
    have "set (concat (cc p)) \<subseteq> set (pool_blocks (map cc D))" using p unfolding set_pool_map by blast
    with d O show ?thesis by (intro descriptor_at_frame [OF C(6) [OF p]] blk) auto
  qed
  moreover have "chain (slab_link s') (c_slabs s') (abs_slabs A)"
  proof -
    have "chain (slab_link s') (c_slabs s) (abs_slabs A) \<longleftrightarrow> chain (slab_link s) (c_slabs s) (abs_slabs A)"
      using oa(1) by (intro chain_cong) (simp add: objects_same_def slab_link_def)
    with C(7) f show ?thesis by simp
  qed
  ultimately show "cached_core env s' A T empty_table D cc"
    using C(1,5) th po(1) O by (simp add: cached_core_def)
qed

text \<open>A cache that was just created joins the pools, empty.\<close>

lemma core_add_cache:
  assumes core: "cached_core env s A T empty_table D cc" and p: "p \<notin> set D" "descriptor_at s A p empty_table"
    and th: "threads_ok s' (p # D)" and eq: "s' = s\<lparr>current_descriptor := cd, current_state := cs, cache_key_values := kv\<rparr>"
  defines "A' \<equiv> with_pools A (T # empty_table # map (cc(p := empty_table)) (p # D))"
  shows "cached_core env s' A' T empty_table (p # D) (cc(p := empty_table))" and "refused s A s' A'"
proof -
  note C = coreD [OF core]
  let ?P = "T # empty_table # map (cc(p := empty_table)) (p # D)"
  have mp: "map (cc(p := empty_table)) (p # D) = empty_table # map cc D" using p(1) by auto
  have t: "touched {} s s'" unfolding eq by (simp add: touched_def bshape_def fun_eq_iff)
  have cls: "class_table s (abs_slabs A) F" if "F \<in> set ?P" for F using that C(12) unfolding mp by auto
  have m: "mset (pool_blocks ?P) = mset (pool_blocks (T # empty_table # map cc D))" unfolding mp by simp
  note r = pool_relink [OF C(3) t _ , of ?P, OF _ cls m, folded A'_def]
  have "descriptor_at s' A' q ((cc(p := empty_table)) q)" if "q \<in> set (p # D)" for q
  proof -
    have "descriptor_at s A q ((cc(p := empty_table)) q)" using that p(2) C(6) by (cases "q = p") auto
    then show ?thesis unfolding eq by (rule descriptor_at_frame) (simp_all add: A'_def)
  qed
  moreover have "transfers_ok s' T" unfolding eq by (rule transfers_ok_cong [OF C(4)]) simp_all
  moreover have "slab_link s' = slab_link s" unfolding eq by (simp add: slab_link_def fun_eq_iff)
  ultimately show "cached_core env s' A' T empty_table (p # D) (cc(p := empty_table))"
    using C(1,5,7) th r(1) p(1) by (simp add: cached_core_def A'_def eq)
  show "refused s A s' A'" using r(2,3) by (simp add: refused_def)
qed

end
