(* ===== verification/Cached_Calls.thy ===== *)
theory Cached_Calls
  imports Allocator_Cached
begin

text \<open>
  What the calls of the cached allocator guarantee: the contract of the public interface
  (the locale \<open>allocator\<close>), the bounds of the caches, and that every call returns.
\<close>

section \<open>Acquiring a cache\<close>

lemma threads_ok_add:
  assumes th: "threads_ok s D" and r: "r \<notin> set D"
    and new: "current_state s' tid = HPLF_CACHE_ACTIVE" "current_descriptor s' tid = r" "cache_key_values s' tid = r"
    and others: "\<forall>t. t \<noteq> tid \<longrightarrow> current_state s' t = current_state s t \<and> current_descriptor s' t = current_descriptor s t \<and>
      cache_key_values s' t = cache_key_values s t"
  shows "threads_ok s' (r # D)"
proof -
  have old: "current_state s t = HPLF_CACHE_ACTIVE \<Longrightarrow> current_descriptor s t \<in> set D \<and> cache_key_values s t = current_descriptor s t"
    "current_state s t \<noteq> HPLF_CACHE_ACTIVE \<Longrightarrow> cache_key_values s t = NULL" for t
    using th unfolding threads_ok_def by blast+
  have uniq: "current_state s t = HPLF_CACHE_ACTIVE \<Longrightarrow> current_state s u = HPLF_CACHE_ACTIVE \<Longrightarrow>
    current_descriptor s t = current_descriptor s u \<Longrightarrow> t = u" for t u using th unfolding threads_ok_def by blast
  have "current_descriptor s' t \<in> set (r # D) \<and> cache_key_values s' t = current_descriptor s' t"
    if "current_state s' t = HPLF_CACHE_ACTIVE" for t
    using that new others old(1) [of t] by (cases "t = tid") simp_all
  moreover have "cache_key_values s' t = NULL" if "current_state s' t \<noteq> HPLF_CACHE_ACTIVE" for t
    using that new others old(2) [of t] by (cases "t = tid") simp_all
  moreover have "t = u" if "current_state s' t = HPLF_CACHE_ACTIVE" "current_state s' u = HPLF_CACHE_ACTIVE"
    "current_descriptor s' t = current_descriptor s' u" for t u
    using that new others old(1) [of t] old(1) [of u] uniq [of t u] r by (cases "t = tid"; cases "u = tid") auto
  ultimately show ?thesis unfolding threads_ok_def by blast
qed

text \<open>The client sees nothing of the call that created, found or failed to create a cache.\<close>

lemma core_acquire:
  fixes s :: cached_state
  assumes core: "cached_core env s A T empty_table D cc" and lim: "\<forall>p \<in> set D. within_limits (cc p)"
  shows "\<exists>r s' A' D' cc'. hplf_cache_acquire env penv tid s = Some (r, s') \<and>
    cached_core env s' A' T empty_table D' cc' \<and> (\<forall>p \<in> set D'. within_limits (cc' p)) \<and> refused s A s' A' \<and>
    c_registry_mutex s' = c_registry_mutex s \<and> (r \<noteq> NULL \<longrightarrow> r \<in> set D') \<and>
    abs_slabs A' = abs_slabs A \<and> objects_same (abs_slabs A) (abs_large A) s s'"
proof -
  note C = coreD [OF core] and th = coreD(8) [OF core, unfolded threads_ok_def]
  have nn: "p \<noteq> NULL" if "p \<in> set D" for p using C(6) [OF that] by (simp add: descriptor_at_def)
  have mok: "maps_ok env (mappings s)" using C(9) by (simp add: arena_ok_def)
  have "current_descriptor s tid \<noteq> NULL" if "current_state s tid = HPLF_CACHE_ACTIVE" using th nn that by blast
  from acquire_spec [OF C(2) this, of penv] obtain r s' where run: "hplf_cache_acquire env penv tid s = Some (r, s')"
    and o: "others_kept tid s s'" and st: "current_state s' tid \<noteq> HPLF_CACHE_UNINITIALIZED" "r = hplf_cache_current tid s'"
      "r \<noteq> NULL \<longleftrightarrow> current_state s' tid = HPLF_CACHE_ACTIVE"
    and m: "maps_ok env (mappings s')" and kv: "r = NULL \<longrightarrow> cache_key_values s' tid = cache_key_values s tid"
    and old: "current_state s tid \<noteq> HPLF_CACHE_UNINITIALIZED \<longrightarrow> s' = s"
    and new: "current_state s tid = HPLF_CACHE_UNINITIALIZED \<and> r \<noteq> NULL \<longrightarrow> cache_key_values s' tid = r \<and>
      (\<exists>len. mappings s' = (r, len) # mappings s \<and> descriptors s' r =
         Some \<lparr>dc_cache = hplf_thread_cache_initialize, dc_mapping_base = r, dc_mapping_length = len\<rparr>)"
    using mok by blast
  note O = o [unfolded others_kept_def] and os = others_arena(1) [OF C(2,9) o]
  have oth: "\<forall>t. t \<noteq> tid \<longrightarrow> current_state s' t = current_state s t \<and> current_descriptor s' t = current_descriptor s t \<and>
        cache_key_values s' t = cache_key_values s t" using O by blast
  consider (same) "current_state s tid \<noteq> HPLF_CACHE_UNINITIALIZED"
    | (none) "current_state s tid = HPLF_CACHE_UNINITIALIZED" "r = NULL"
    | (created) "current_state s tid = HPLF_CACHE_UNINITIALIZED" "r \<noteq> NULL" by blast
  then show ?thesis
  proof cases
    case same
    with old have s': "s' = s" by blast
    have "r \<in> set D" if "r \<noteq> NULL" using that st th s' by (simp add: hplf_cache_current_def)
    with run s' core lim os show ?thesis by (intro exI [of _ r] exI [of _ s] exI [of _ A] exI [of _ D] exI [of _ cc]) simp
  next
    case none
    have "cache_key_values s' tid = NULL" "current_state s' tid \<noteq> HPLF_CACHE_ACTIVE"
      using kv none th st by simp_all
    then have "threads_ok s' D" using th oth unfolding threads_ok_def by metis
    with core_others [OF core o m] run none lim os show ?thesis by blast
  next
    case created
    then obtain len where n: "mappings s' = (r, len) # mappings s" "cache_key_values s' tid = r"
      "descriptors s' r = Some \<lparr>dc_cache = hplf_thread_cache_initialize, dc_mapping_base = r, dc_mapping_length = len\<rparr>"
      using new by blast
    let ?s0 = "s'\<lparr>current_descriptor := current_descriptor s, current_state := current_state s,
      cache_key_values := cache_key_values s\<rparr>"
    have o0: "others_kept tid s ?s0" using O by (simp add: others_kept_def)
    have t0: "threads_ok ?s0 D" using C(8) by (simp add: threads_ok_def)
    note c0 = core_others [OF core o0 _ t0]
    have fresh: "(r, l) \<notin> set (mappings s)" for l
    proof
      assume l: "(r, l) \<in> set (mappings s)"
      with m n(1) have "l = len" by (intro maps_same_base [OF m, of r]) auto
      with l m n(1) show False by (simp add: maps_ok_def)
    qed
    have rD: "r \<notin> set D" using C(6) fresh by (auto simp: descriptor_at_def)
    have "r \<notin> set (abs_slabs A)" "r \<notin> abs_large A"
      using C(9) fresh by (auto simp: arena_ok_def slab_conf_def large_conf_def)
    with created n have da: "descriptor_at ?s0 A r empty_table" by (simp add: descriptor_at_def cache_init_ok)
    have th': "threads_ok s' (r # D)"
      using st created n(2) by (intro threads_ok_add [OF C(8) rD _ _ _ oth]) (simp_all add: hplf_cache_current_def)
    have eq: "s' = ?s0\<lparr>current_descriptor := current_descriptor s', current_state := current_state s',
      cache_key_values := cache_key_values s'\<rparr>" by simp
    have m0: "maps_ok env (mappings ?s0)" using m by simp
    note ac = core_add_cache [OF c0(1) [OF m0] rD da th' eq]
    have "refused s A ?s0 A" "c_registry_mutex ?s0 = c_registry_mutex s" using c0(2,3) [OF m0] by blast+
    moreover have "\<forall>p \<in> set (r # D). within_limits ((cc(r := empty_table)) p)"
      using lim by (simp add: within_limits_def cache_bytes_def)
    ultimately show ?thesis using run ac os refused_trans
      by (intro exI [of _ r] exI [of _ s'] exI [of _ "with_pools A (T # empty_table # map (cc(r := empty_table)) (r # D))"]
          exI [of _ "r # D"] exI [of _ "cc(r := empty_table)"]) auto
  qed
qed

lemma list_ok_blocks:
  assumes "list_ok s l xs" and "\<And>x. x \<in> set xs \<Longrightarrow> blocks s' x = blocks s x" shows "list_ok s' l xs"
proof -
  have "chain (block_next s') (tl_first l) xs \<longleftrightarrow> chain (block_next s) (tl_first l) xs"
    using assms(2) by (intro chain_cong) (simp add: block_next_def)
  with assms(1) show ?thesis by (simp add: list_ok_def)
qed

lemma within_limits_tl:
  assumes "within_limits F" and "F ! i = x # xs" and "i < 16" and "length F = 16"
  shows "within_limits (F[i := xs])"
proof -
  have "cache_bytes (F[i := xs]) \<le> cache_bytes F" using cache_bytes_update [OF assms(3,4), of xs] assms(2) by simp
  moreover have "length (F[i := xs] ! j) \<le> 32" if "j < 16" for j
    using assms that by (cases "j = i") (auto simp: within_limits_def)
  ultimately show ?thesis using assms(1) by (simp add: within_limits_def)
qed

section \<open>Allocating a small block\<close>

text \<open>A summary of a step: the heap and the caches stay well formed, and the client sees nothing.\<close>

definition goes_on ::
  "os_env \<Rightarrow> cached_state \<Rightarrow> heap_abs \<Rightarrow> cached_state \<Rightarrow> heap_abs \<Rightarrow> addr list list \<Rightarrow> addr list list \<Rightarrow> addr list \<Rightarrow>
   (addr \<Rightarrow> addr list list) \<Rightarrow> bool" where
  "goes_on env s A s' A' T H D cc \<longleftrightarrow> cached_core env s' A' T H D cc \<and> refused s A s' A' \<and>
     c_registry_mutex s' = c_registry_mutex s"

lemma goes_on_trans: "goes_on env s A s1 A1 T1 H1 D1 cc1 \<Longrightarrow> goes_on env s1 A1 s2 A2 T2 H2 D2 cc2 \<Longrightarrow> goes_on env s A s2 A2 T2 H2 D2 cc2"
  using refused_trans by (auto simp: goes_on_def)

lemma goes_on_refl: "cached_core env s A T H D cc \<Longrightarrow> goes_on env s A s A T H D cc"
  by (simp add: goes_on_def)

lemma goes_on_quiet:
  "cached_core env s A T H D cc \<Longrightarrow> cached_quiet s s' \<Longrightarrow> c_registry_mutex s' = c_registry_mutex s \<Longrightarrow> goes_on env s A s' A T H D cc"
  using core_quiet by (auto simp: goes_on_def)

lemma memory_quiet:
  fixes s s' :: cached_state
  assumes "same_memory s s'" shows "cached_quiet s s'" and "c_registry_mutex s' = c_registry_mutex s"
  using assms world_more_fields [of s' s] by (simp_all add: same_memory_def cached_quiet_def)

lemma cached_miss_spec:
  assumes core: "cached_core env s A T empty_table D cc" and free: "\<not> c_registry_mutex s" and ci: "unat ci < 16"
    and cap: "cap = size_class_capacities ! unat ci"
  shows "(\<exists>s' A'. cached_miss env tid ci cap s = Some (Inl (NULL, s')) \<and> goes_on env s A s' A' T empty_table D cc \<and> errno s' = ENOMEM \<and>
      \<not> can_map env s (slab_bytes (sc_pagesize env))) \<or>
    (\<exists>l xs s' A' T'. cached_miss env tid ci cap s = Some (Inr (l, s')) \<and> goes_on env s A s' A' T' (hand (unat ci) xs) D cc \<and>
       list_ok s' l xs \<and> xs \<noteq> [])"
proof -
  note C = coreD [OF core]
  let ?s1 = "s\<lparr>ticks := Suc (ticks s), c_registry_mutex := True\<rparr>"
  note lk = cached_lock_ok [OF C(1) free]
  have c1: "cached_core env ?s1 A T empty_table D cc" "refused s A ?s1 A"
    using core_quiet [of s ?s1] core by simp_all
  have un: "cached_unlock env x = Some (0, x\<lparr>ticks := Suc (ticks x), c_registry_mutex := False\<rparr>)" if "c_registry_mutex x" for x
    using cached_unlock_ok [OF C(2)] that by blast
  from core_detach [OF c1(1) ci] obtain l s2 A2 where r2: "hplf_transfer_mutex_detach env ci ?s1 = Some (l, s2)"
    "cached_core env s2 A2 (T[unat ci := []]) (hand (unat ci) (T ! unat ci)) D cc" "refused ?s1 A s2 A2"
    "list_ok s2 l (T ! unat ci)" "c_registry_mutex s2" "mappings s2 = mappings s" by auto
  have ref2: "refused s A s2 A2" by (rule refused_trans [OF c1(2) r2(3)])
  have first: "tl_first l = NULL \<longleftrightarrow> T ! unat ci = []" using r2(4) chain_first by (auto simp: list_ok_def)
  show ?thesis
  proof (cases "T ! unat ci = []")
    case False
    let ?s = "(count_cached env tid (\<lambda>t. t\<lparr>shared_refills := shared_refills t + 1\<rparr>) s2)"
    let ?s3 = "?s\<lparr>ticks := Suc (ticks ?s), c_registry_mutex := False\<rparr>"
    have q: "cached_quiet s2 ?s3" by simp
    have "cached_miss env tid ci cap s = Some (Inr (l, ?s3))"
      using lk r2(1,5) first False un [of ?s] by (simp add: cached_miss_def Let_def)
    moreover have "list_ok ?s3 l (T ! unat ci)"
    proof -
      have "block_next ?s3 = block_next s2" using q by (simp add: cached_quiet_def block_next_def fun_eq_iff)
      with r2(4) show ?thesis by (simp add: list_ok_def)
    qed
    moreover have "goes_on env s A ?s3 A2 (T[unat ci := []]) (hand (unat ci) (T ! unat ci)) D cc"
      using core_quiet [OF q] r2(2) refused_trans [OF ref2] free by (simp add: goes_on_def)
    ultimately show ?thesis using False by blast
  next
    case True
    then have T: "T[unat ci := []] = T" using list_update_id [of T "unat ci"] by simp
    from C(2) ci cap show ?thesis
    proof (cases rule: slab_create_cases [where x = NULL and y = NULL and s = s2])
      case (failed s3)
      let ?s4 = "s3\<lparr>ticks := Suc (ticks s3), c_registry_mutex := False, errno := ENOMEM\<rparr>"
      note q3 = memory_quiet [OF failed(2)]
      have q: "cached_quiet s2 ?s4" using q3(1) by simp
      have "cached_miss env tid ci cap s = Some (Inl (NULL, ?s4))"
        using lk r2(1,5) first True failed(1) un [of s3] q3(2) by (simp add: cached_miss_def Let_def)
      moreover have "goes_on env s A ?s4 A2 T empty_table D cc"
        using core_quiet [OF q] r2(2) refused_trans [OF ref2] free True T by (simp add: goes_on_def)
      moreover have "\<not> can_map env s (slab_bytes (sc_pagesize env))"
        using failed(3) can_map_same [OF r2(6)] by simp
      ultimately show ?thesis by (intro disjI1 exI [of _ ?s4] exI [of _ A2]) simp
    next
      case (succeeded a d s3)
      have core2: "cached_core env s2 A2 T empty_table D cc" using r2(2) True T by simp
      let ?s4 = "s3\<lparr>slab_objs := (slab_objs s3)(a \<mapsto> d\<lparr>slab_next := c_slabs s2\<rparr>), c_slabs := a\<rparr>"
      note ns = core_new_slab [OF core2 ci succeeded(2,3)]
      let ?A3 = "A2\<lparr>abs_slabs := a # abs_slabs A2, abs_free := concat (T # hand (unat ci) (rev (slab_slots a d)) # map cc D)\<rparr>"
      from from_chain_spec [OF ns(3)] obtain l' where l': "hplf_transfer_list_from_chain (slot_at a d (unat (slot_count d) - 1)) ?s4 = Some l'"
        "list_ok ?s4 l' (rev (slab_slots a d))" by blast
      have "world.more s3 = world.more s2" and obj: "slab_objs s3 a = Some d"
        using succeeded(2) by (simp_all add: slab_created_def outside_same_def)
      note f = world_more_fields [OF this(1)]
      let ?s = "count_cached env tid (\<lambda>t. t\<lparr>slab_misses := slab_misses t + 1\<rparr>) ?s4"
      let ?s5 = "?s\<lparr>ticks := Suc (ticks ?s), c_registry_mutex := False\<rparr>"
      have q: "cached_quiet ?s4 ?s5" by simp
      have "cached_miss env tid ci cap s = Some (Inr (l', ?s5))"
        using lk r2(1,5) first True succeeded(1) obj f l'(1) un [of ?s]
        by (simp add: cached_miss_def Let_def set_slab_next_def update_slab_def)
      moreover have "list_ok ?s5 l' (rev (slab_slots a d))"
      proof -
        have "block_next ?s5 = block_next ?s4" using q by (simp add: cached_quiet_def block_next_def fun_eq_iff)
        with l'(2) show ?thesis by (simp add: list_ok_def)
      qed
      moreover have "goes_on env s A ?s5 ?A3 T (hand (unat ci) (rev (slab_slots a d))) D cc"
        using core_quiet [OF q] ns(1) refused_trans [OF refused_trans [OF ref2 ns(2)]] free unfolding goes_on_def by simp
      ultimately show ?thesis using ns(4) by blast
    qed
  qed
qed

lemma list_ok_quiet: "cached_quiet s s' \<Longrightarrow> list_ok s l xs \<Longrightarrow> list_ok s' l xs"
  by (rule list_ok_blocks) (simp_all add: cached_quiet_def)

text \<open>Both ways of finding a block end alike: what is left is published, and the block goes to the client.\<close>

lemma serve_tail:
  assumes core: "cached_core env s A T (hand (unat ci) (x # ys)) D cc" and ci: "unat ci < 16" and l: "list_ok s l ys"
    and req: "requested \<noteq> 0" "requested \<le> size_class_capacities ! unat ci"
  shows "x \<noteq> NULL \<and> (\<exists>l' s1 s' A'. hplf_transfer_mutex_publish env ci l (count_cached env tid g s) = Some (l', s1) \<and>
    update_block x (\<lambda>b. b\<lparr>requested_size := requested\<rparr>) s1 = Some s' \<and> hplf_block_payload x = x + 48 \<and>
    cached_core env s' A' (T[unat ci := ys @ T ! unat ci]) empty_table D cc \<and> granted x requested s A s' A' \<and>
    c_registry_mutex s' = c_registry_mutex s)"
proof -
  note C = coreD [OF core]
  let ?s = "count_cached env tid g s"
  have q: "cached_quiet s ?s" by simp
  note cq = core_quiet(1) [OF q core] core_quiet(2) [OF q, of A]
  from core_publish [of env ?s A T ci "[x]" ys D cc, OF _ ci list_ok_quiet [OF q l]] cq(1)
  obtain l' s1 A1 where p: "hplf_transfer_mutex_publish env ci l ?s = Some (l', s1)"
    "cached_core env s1 A1 (T[unat ci := ys @ T ! unat ci]) (hand (unat ci) [x]) D cc" "refused ?s A s1 A1"
    "c_registry_mutex s1 = c_registry_mutex s" by auto
  from core_pop [OF p(2) ci req] obtain s' A' where "update_block x (\<lambda>b. b\<lparr>requested_size := requested\<rparr>) s1 = Some s'"
    "hplf_block_payload x = x + 48" "cached_core env s' A' (T[unat ci := ys @ T ! unat ci]) empty_table D cc"
    "granted x requested s1 A1 s' A'" "c_registry_mutex s' = c_registry_mutex s1" by auto
  moreover have "x \<noteq> NULL" using pool_arena [OF C(3), of x] block_facts(1) [OF C(2,9)] ci by simp
  ultimately show ?thesis using p(1,4) refused_granted_trans [OF refused_trans [OF cq(2) p(3)]] by auto
qed

lemma take_one:
  assumes l: "list_ok s l (x # xs)"
  shows "\<exists>l' direct s'. hplf_transfer_list_take_prefix l 1 out s = Some (l', direct, s') \<and> tl_first direct = x \<and>
    list_ok s' l' xs \<and> relinked {x} s s'"
proof -
  have c: "chain_ok s l (x # xs)" using l by (simp add: list_ok_def chain_ok_def)
  from take_prefix_spec [OF c, of 1 out] obtain l' direct s' where t: "hplf_transfer_list_take_prefix l 1 out s = Some (l', direct, s')"
    "list_ok s' direct [x]" "chain_ok s' l' xs" "relinked {x} s s'" "tl_last l' = (if length (x # xs) \<le> 1 then NULL else tl_last l)"
    by auto
  then have "tl_first direct = x" "list_ok s' l' xs" using l by (auto simp: list_ok_def chain_ok_def)
  with t show ?thesis by blast
qed

text \<open>No block came out of the cache: the first block of the list is taken directly.\<close>

lemma serve_direct:
  assumes first: "(if cache \<noteq> NULL then do {
         (available, s) \<leftarrow> on_cache_refill cache ci cap l s;
         (block, s) \<leftarrow> on_cache_take cache ci cap s;
         Some (block, available, s)
       } else Some (NULL, l, s)) = Some (NULL, l1, s1)" and g: "goes_on env s A s1 A1 T (hand (unat ci) xs) D cc1"
    and l1: "list_ok s1 l1 xs" "xs \<noteq> []" and ci: "unat ci < 16" and cap: "cap = size_class_capacities ! unat ci"
    and req: "requested \<noteq> 0" "requested \<le> cap"
  shows "\<exists>x s' A' T'. cached_serve env tid requested ci cap cache l s = Some (x + 48, s') \<and>
    cached_core env s' A' T' empty_table D cc1 \<and> granted x requested s A s' A' \<and> c_registry_mutex s' = c_registry_mutex s"
proof -
  from l1(2) obtain x ys where xs: "xs = x # ys" by (cases xs) auto
  from take_one [OF l1(1) [unfolded xs]] obtain l2 direct s2 where t:
    "hplf_transfer_list_take_prefix l1 1 \<lparr>tl_first = NULL, tl_last = NULL, tl_count = 0\<rparr> s1 = Some (l2, direct, s2)"
    "tl_first direct = x" "list_ok s2 l2 ys" "relinked {x} s1 s2" by blast
  have core1: "cached_core env s1 A1 T (hand (unat ci) (x # ys)) D cc1" using g xs by (simp add: goes_on_def)
  have X: "{x} \<subseteq> set (concat (hand (unat ci) (x # ys)))" using ci by simp
  note h = core_hand [OF core1 t(4) X]
  have req': "requested \<le> size_class_capacities ! unat ci" using req cap by simp
  from serve_tail [OF h(1) ci t(3) req(1) req', of tid "\<lambda>t. t\<lparr>published_blocks := published_blocks t + tl_count l2\<rparr>"]
  obtain l3 s3 s' A' where st: "x \<noteq> NULL" "hplf_transfer_mutex_publish env ci l2
      (count_cached env tid (\<lambda>t. t\<lparr>published_blocks := published_blocks t + tl_count l2\<rparr>) s2) = Some (l3, s3)"
    "update_block x (\<lambda>b. b\<lparr>requested_size := requested\<rparr>) s3 = Some s'" "hplf_block_payload x = x + 48"
    "cached_core env s' A' (T[unat ci := ys @ T ! unat ci]) empty_table D cc1" "granted x requested s2 A1 s' A'"
    "c_registry_mutex s' = c_registry_mutex s2" by blast
  have "cached_serve env tid requested ci cap cache l s = Some (x + 48, s')"
    unfolding cached_serve_def first using t(1,2) st by (simp add: Let_def)
  moreover have "refused s A s2 A1" "c_registry_mutex s2 = c_registry_mutex s"
    using g h(2,3) refused_trans by (auto simp: goes_on_def)
  ultimately show ?thesis using st(5,7) refused_granted_trans [OF _ st(6)]
    by (intro exI [of _ x] exI [of _ s'] exI [of _ A'] exI [of _ "T[unat ci := ys @ T ! unat ci]"]) simp
qed

lemma cached_serve_spec:
  assumes core: "cached_core env s A T (hand (unat ci) xs) D cc" and ci: "unat ci < 16" and cap: "cap = size_class_capacities ! unat ci"
    and l: "list_ok s l xs" "xs \<noteq> []" and lim: "\<forall>p \<in> set D. within_limits (cc p)" and cache: "cache \<noteq> NULL \<longrightarrow> cache \<in> set D"
    and req: "requested \<noteq> 0" "requested \<le> cap"
  shows "\<exists>x s' A' T' cc'. cached_serve env tid requested ci cap cache l s = Some (x + 48, s') \<and>
    cached_core env s' A' T' empty_table D cc' \<and> (\<forall>p \<in> set D. within_limits (cc' p)) \<and> granted x requested s A s' A' \<and>
    c_registry_mutex s' = c_registry_mutex s"
proof -
  show ?thesis
  proof (cases "cache = NULL")
    case True
    then have "\<exists>x s' A' T'. cached_serve env tid requested ci cap cache l s = Some (x + 48, s') \<and>
        cached_core env s' A' T' empty_table D cc \<and> granted x requested s A s' A' \<and> c_registry_mutex s' = c_registry_mutex s"
      using goes_on_refl [OF core] l ci cap req by (intro serve_direct [where ?l1.0 = l and ?s1.0 = s and ?A1.0 = A]) simp_all
    with lim show ?thesis by blast
  next
    case False
    with cache have p: "cache \<in> set D" by blast
    let ?k = "refill_count (cc cache) (unat ci)"
    let ?F = "(cc cache)[unat ci := take ?k xs @ cc cache ! unat ci]"
    have w: "within_limits (cc cache)" using lim p by blast
    from core_refill [OF core p ci cap w l(1)] obtain l1 s1 A1 where r: "on_cache_refill cache ci cap l s = Some (l1, s1)"
      "cached_core env s1 A1 T (hand (unat ci) (drop ?k xs)) D (cc(cache := ?F))" "refused s A s1 A1"
      "list_ok s1 l1 (drop ?k xs)" "within_limits ?F" "c_registry_mutex s1 = c_registry_mutex s" by blast
    have lim1: "\<forall>q \<in> set D. within_limits ((cc(cache := ?F)) q)" using lim r(5) by simp
    have len: "length (cc cache) = 16" using core_descriptor [OF core p] by blast
    note tk = core_take [OF r(2) p ci cap]
    show ?thesis
    proof (cases "?F ! unat ci")
      case Nil
      then have k: "take ?k xs = []" using len ci by simp
      then have "?k = 0" using l(2) by simp
      then have dk: "drop ?k xs = xs" by simp
      have "on_cache_take cache ci cap s1 = Some (NULL, s1)" using tk(1) Nil by simp
      then have "\<exists>x s' A' T'. cached_serve env tid requested ci cap cache l s = Some (x + 48, s') \<and>
          cached_core env s' A' T' empty_table D (cc(cache := ?F)) \<and> granted x requested s A s' A' \<and>
          c_registry_mutex s' = c_registry_mutex s"
        using False r dk l ci cap req by (intro serve_direct [where ?l1.0 = l1 and ?s1.0 = s1 and ?A1.0 = A1]) (simp_all add: goes_on_def)
      with lim1 show ?thesis by blast
    next
      case (Cons x rest)
      from tk(2) [of x rest] Cons obtain s2 A2 where t: "on_cache_take cache ci cap s1 = Some (x, s2)"
        "cached_core env s2 A2 T (hand (unat ci) (x # drop ?k xs)) D ((cc(cache := ?F))(cache := ?F[unat ci := rest]))"
        "refused s1 A1 s2 A2" "c_registry_mutex s2 = c_registry_mutex s1" "\<forall>y. y \<noteq> x \<longrightarrow> blocks s2 y = blocks s1 y" by auto
      have "x \<notin> set (drop ?k xs)" using coreD(13) [OF t(2)] ci by simp
      then have l2: "list_ok s2 l1 (drop ?k xs)" using t(5) by (intro list_ok_blocks [OF r(4)]) auto
      have req': "requested \<le> size_class_capacities ! unat ci" using req cap by simp
      from serve_tail [OF t(2) ci l2 req(1) req', of tid "\<lambda>t. t\<lparr>published_blocks := published_blocks t + tl_count l1\<rparr>"]
      obtain l3 s3 s' A' where st: "x \<noteq> NULL" "hplf_transfer_mutex_publish env ci l1
          (count_cached env tid (\<lambda>t. t\<lparr>published_blocks := published_blocks t + tl_count l1\<rparr>) s2) = Some (l3, s3)"
        "update_block x (\<lambda>b. b\<lparr>requested_size := requested\<rparr>) s3 = Some s'" "hplf_block_payload x = x + 48"
        "cached_core env s' A' (T[unat ci := drop ?k xs @ T ! unat ci]) empty_table D ((cc(cache := ?F))(cache := ?F[unat ci := rest]))"
        "granted x requested s2 A2 s' A'" "c_registry_mutex s' = c_registry_mutex s2" by blast
      have "cached_serve env tid requested ci cap cache l s = Some (x + 48, s')"
        unfolding cached_serve_def using False r(1) t(1) st by (simp add: Let_def)
      moreover have "granted x requested s A s' A'" using refused_granted_trans [OF refused_trans [OF r(3) t(3)] st(6)] .
      moreover have "within_limits (?F[unat ci := rest])" using len ci by (intro within_limits_tl [OF r(5) Cons]) simp_all
      ultimately show ?thesis using st(5,7) t(4) r(6) lim
        by (intro exI [of _ x] exI [of _ s'] exI [of _ A'] exI [of _ "T[unat ci := drop ?k xs @ T ! unat ci]"]
            exI [of _ "(cc(cache := ?F))(cache := ?F[unat ci := rest])"]) auto
    qed
  qed
qed

lemma cached_invI:
  "cached_core env s A T empty_table D cc \<Longrightarrow> \<forall>p \<in> set D. within_limits (cc p) \<Longrightarrow> \<not> c_registry_mutex s \<Longrightarrow> cached_inv env s A"
  by (auto simp: cached_inv_def)

text \<open>
  A small request is refused only when its shared chain is empty and, with the caller's cache in
  place, no slab can be mapped; a large one only when its mapping cannot be made.
\<close>

definition cached_can_serve :: "os_env \<Rightarrow> pthread_env \<Rightarrow> nat \<Rightarrow> cached_state \<Rightarrow> size_t \<Rightarrow> bool" where
  "cached_can_serve env penv tid s sz \<longleftrightarrow> sz \<noteq> 0 \<and> sz \<le> PTRDIFF_MAX \<and> (case class_of sz of
     Some (ci, cap) \<Rightarrow> transfer_heads s ! unat ci \<noteq> NULL \<or> (case hplf_cache_acquire env penv tid s of
         Some (_, s1) \<Rightarrow> can_map env s1 (slab_bytes (sc_pagesize env)) | None \<Rightarrow> False)
   | None \<Rightarrow> can_map env s (round_up (48 + unat sz) (unat (sc_pagesize env))))"

text \<open>A block from the caller's own cache.\<close>

lemma allocate_hit:
  assumes core: "cached_core env s A T empty_table D cc" and lim: "\<forall>p \<in> set D. within_limits (cc p)" and p: "cache \<in> set D"
    and x: "cc cache ! unat ci = x # xs" and ci: "unat ci < 16" and cap: "cap = size_class_capacities ! unat ci"
    and req: "requested \<noteq> 0" "requested \<le> cap"
  obtains s1 s' A' cc' where "on_cache_take cache ci cap s = Some (x, s1)" "x \<noteq> NULL" "hplf_block_payload x = x + 48"
    "update_block x (\<lambda>b. b\<lparr>requested_size := requested\<rparr>) (count_cached env tid g s1) = Some s'"
    "cached_core env s' A' T empty_table D cc'" "\<forall>q \<in> set D. within_limits (cc' q)" "granted x requested s A s' A'"
    "c_registry_mutex s' = c_registry_mutex s"
proof -
  let ?cc = "cc(cache := (cc cache)[unat ci := xs])"
  have req': "requested \<le> size_class_capacities ! unat ci" using req cap by simp
  have core': "cached_core env s A T (hand (unat ci) []) D cc" using core by simp
  from core_take(2) [OF core' p ci cap x] obtain s1 A1 where t: "on_cache_take cache ci cap s = Some (x, s1)"
    "cached_core env s1 A1 T (hand (unat ci) [x]) D ?cc" "refused s A s1 A1" "c_registry_mutex s1 = c_registry_mutex s" by auto
  let ?s2 = "count_cached env tid g s1"
  have q: "cached_quiet s1 ?s2" by simp
  from core_pop [OF core_quiet(1) [OF q t(2)] ci req(1) req'] obtain s' A' where
    pop: "update_block x (\<lambda>b. b\<lparr>requested_size := requested\<rparr>) ?s2 = Some s'" "hplf_block_payload x = x + 48"
    "cached_core env s' A' T empty_table D ?cc" "granted x requested ?s2 A1 s' A'"
    "c_registry_mutex s' = c_registry_mutex ?s2" by auto
  have xn: "x \<noteq> NULL" using pool_arena [OF coreD(3) [OF t(2)], of x] block_facts(1) [OF coreD(2,9) [OF t(2)]] ci by simp
  have "length (cc cache) = 16" using core_descriptor [OF core p] by blast
  then have "\<forall>q \<in> set D. within_limits (?cc q)" using lim within_limits_tl [OF _ x ci] p by simp
  moreover have "granted x requested s A s' A'" by (rule refused_granted_trans [OF refused_trans [OF t(3) core_quiet(2) [OF q]] pop(4)])
  ultimately show thesis using that t(1,4) xn pop(1-3,5) by simp
qed

lemma cached_allocate_small_spec:
  assumes inv: "cached_inv env s A" and ci: "unat ci < 16" and cap: "cap = size_class_capacities ! unat ci"
    and req: "requested \<noteq> 0" "requested \<le> cap"
  shows "\<exists>r s' A'. cached_allocate_small env penv tid requested ci cap s = Some (r, s') \<and> cached_inv env s' A' \<and>
    (r = NULL \<and> errno s' = ENOMEM \<and> refused s A s' A' \<and> transfer_heads s ! unat ci = NULL \<and>
       (\<exists>cache s1. hplf_cache_acquire env penv tid s = Some (cache, s1) \<and> \<not> can_map env s1 (slab_bytes (sc_pagesize env))) \<or>
     (\<exists>x. r = x + 48 \<and> granted x requested s A s' A'))"
proof -
  from inv obtain T D0 cc0 where i: "\<not> c_registry_mutex s" "cached_core env s A T empty_table D0 cc0"
    "\<forall>p \<in> set D0. within_limits (cc0 p)" by (auto simp: cached_inv_def)
  from core_acquire [OF i(2,3), of penv tid] obtain cache s1 A1 D cc where
    a: "hplf_cache_acquire env penv tid s = Some (cache, s1)" "cached_core env s1 A1 T empty_table D cc"
    "\<forall>p \<in> set D. within_limits (cc p)" "refused s A s1 A1" "c_registry_mutex s1 = c_registry_mutex s"
    "cache \<noteq> NULL \<longrightarrow> cache \<in> set D" by blast
  have req': "requested \<le> size_class_capacities ! unat ci" using req cap by simp
  note run = cached_allocate_small_def a(1)
  show ?thesis
  proof (cases "cache \<noteq> NULL \<and> cc cache ! unat ci \<noteq> []")
    case True
    then obtain x xs where x: "cc cache ! unat ci = x # xs" and p: "cache \<in> set D"
      using a(6) by (cases "cc cache ! unat ci") auto
    from allocate_hit [OF a(2,3) p x ci cap req, of tid "\<lambda>t. t\<lparr>local_hits := local_hits t + 1\<rparr>"] obtain s2 s' A' cc' where
      h: "on_cache_take cache ci cap s1 = Some (x, s2)" "x \<noteq> NULL" "hplf_block_payload x = x + 48"
      "update_block x (\<lambda>b. b\<lparr>requested_size := requested\<rparr>) (count_cached env tid (\<lambda>t. t\<lparr>local_hits := local_hits t + 1\<rparr>) s2) = Some s'"
      "cached_core env s' A' T empty_table D cc'" "\<forall>q \<in> set D. within_limits (cc' q)" "granted x requested s1 A1 s' A'"
      "c_registry_mutex s' = c_registry_mutex s1" .
    have "cached_inv env s' A'" using cached_invI [OF h(5,6)] h(8) a(5) i(1) by simp
    moreover have "cached_allocate_small env penv tid requested ci cap s = Some (x + 48, s')"
      unfolding run using True h(1-4) by (simp add: Let_def)
    ultimately show ?thesis using refused_granted_trans [OF a(4) h(7)] by blast
  next
    case False
    have block: "(if cache \<noteq> NULL then on_cache_take cache ci cap s1 else Some (NULL, s1)) = Some (NULL, s1)"
      using core_take(1) [of env s1 A1 T ci "[]" D cc cache cap] a(2,6) ci cap False by auto
    from core_detach [OF a(2) ci] obtain l s2 A2 where d: "hplf_transfer_mutex_detach env ci s1 = Some (l, s2)"
      "cached_core env s2 A2 (T[unat ci := []]) (hand (unat ci) (T ! unat ci)) D cc" "refused s1 A1 s2 A2"
      "list_ok s2 l (T ! unat ci)" "c_registry_mutex s2 = c_registry_mutex s1" "mappings s2 = mappings s1" by blast
    have ref: "refused s A s2 A2" by (rule refused_trans [OF a(4) d(3)])
    have free: "\<not> c_registry_mutex s2" using d(5) a(5) i(1) by simp
    have first: "tl_first l = NULL \<longleftrightarrow> T ! unat ci = []" using d(4) chain_first by (auto simp: list_ok_def)
    have served: ?thesis if r: "(if tl_first l = NULL then cached_miss env tid ci cap s2
            else Some (Inr (l, count_cached env tid (\<lambda>t. t\<lparr>shared_refills := shared_refills t + 1\<rparr>) s2))) = Some (Inr (l3, s3))"
        and g: "goes_on env s2 A2 s3 A3 T3 (hand (unat ci) ys) D cc" and ys: "list_ok s3 l3 ys" "ys \<noteq> []" for l3 s3 A3 T3 ys
    proof -
      have core3: "cached_core env s3 A3 T3 (hand (unat ci) ys) D cc" "refused s2 A2 s3 A3" "c_registry_mutex s3 = c_registry_mutex s2"
        using g by (auto simp: goes_on_def)
      from cached_serve_spec [OF core3(1) ci cap ys a(3,6) req, of tid] obtain x s' A' T' cc' where
        sv: "cached_serve env tid requested ci cap cache l3 s3 = Some (x + 48, s')" "cached_core env s' A' T' empty_table D cc'"
        "\<forall>p \<in> set D. within_limits (cc' p)" "granted x requested s3 A3 s' A'" "c_registry_mutex s' = c_registry_mutex s3" by blast
      have "cached_allocate_small env penv tid requested ci cap s = Some (x + 48, s')"
        unfolding run using block d(1) r sv(1) by simp
      moreover have "cached_inv env s' A'" using sv(2,3,5) core3(3) free by (intro cached_invI) simp_all
      ultimately show ?thesis using refused_granted_trans [OF refused_trans [OF ref core3(2)] sv(4)] by blast
    qed
    show ?thesis
    proof (cases "T ! unat ci = []")
      case False
      let ?s3 = "count_cached env tid (\<lambda>t. t\<lparr>shared_refills := shared_refills t + 1\<rparr>) s2"
      have q: "cached_quiet s2 ?s3" by simp
      show ?thesis using first False goes_on_quiet [OF d(2) q] list_ok_quiet [OF q d(4)]
        by (intro served [of l ?s3 A2]) simp_all
    next
      case True
      then have core2: "cached_core env s2 A2 (T[unat ci := []]) empty_table D cc" using d(2) by simp
      from cached_miss_spec [OF core2 free ci cap, of tid] show ?thesis
      proof (elim disjE exE conjE)
        fix s3 A3 assume m: "cached_miss env tid ci cap s2 = Some (Inl (NULL, s3))"
          "goes_on env s2 A2 s3 A3 (T[unat ci := []]) empty_table D cc" "errno s3 = ENOMEM"
          "\<not> can_map env s2 (slab_bytes (sc_pagesize env))"
        have "cached_allocate_small env penv tid requested ci cap s = Some (NULL, s3)"
          unfolding run using block d(1) first True m(1) by simp
        moreover have "cached_inv env s3 A3" using m(2) a(3) free by (intro cached_invI) (auto simp: goes_on_def)
        moreover have "refused s A s3 A3" using m(2) refused_trans [OF ref] by (simp add: goes_on_def)
        moreover have "\<not> can_map env s1 (slab_bytes (sc_pagesize env))" using m(4) can_map_same [OF d(6)] by simp
        moreover have "transfer_heads s ! unat ci = NULL"
        proof -
          have "chain (block_next s) (transfer_heads s ! unat ci) (T ! unat ci)"
            using coreD(4) [OF i(2)] ci by (simp add: transfers_ok_def)
          with True show ?thesis by simp
        qed
        ultimately show ?thesis using m(3) a(1) by blast
      next
        fix l3 ys s3 A3 T3 assume "cached_miss env tid ci cap s2 = Some (Inr (l3, s3))"
          "goes_on env s2 A2 s3 A3 T3 (hand (unat ci) ys) D cc" "list_ok s3 l3 ys" "ys \<noteq> []"
        with first True show ?thesis by (intro served [of l3 s3 A3 T3 ys]) simp_all
      qed
    qed
  qed
qed

section \<open>Large blocks\<close>

lemma core_new_large:
  assumes core: "cached_core env s A T H D cc" and req: "requested \<noteq> 0" and cr: "large_created env requested p len s s'"
  defines "A' \<equiv> A\<lparr>abs_large := insert p (abs_large A)\<rparr>"
  shows "cached_core env s' A' T H D cc" and "granted p requested s A s' A'" and "c_registry_mutex s' = c_registry_mutex s"
proof -
  note C = coreD [OF core] and c = cr [unfolded large_created_def]
  note pl = pool_new_large [OF C(2,3) req cr, folded A'_def]
  have more: "world.more s' = world.more s" using c by (simp add: outside_same_def)
  note f = world_more_fields [OF more]
  show "granted p requested s A s' A'" "c_registry_mutex s' = c_registry_mutex s" using pl(2) f by simp_all
  have blk: "blocks s' x = blocks s x" if "x \<in> set (pool_blocks (T # H # map cc D))" for x
    using pl(3) pool_arena [OF C(3) that] by (simp add: objects_same_def)
  have "transfers_ok s' T" using f by (intro transfers_ok_cong [OF C(4)] blk) auto
  moreover have "descriptor_at s' A' q (cc q)" if q: "q \<in> set D" for q
  proof -
    have "set (concat (cc q)) \<subseteq> set (pool_blocks (map cc D))" using q unfolding set_pool_map by blast
    then have "descriptor_at s' A q (cc q)"
      using c by (intro descriptor_at_frame [OF C(6) [OF q]] blk) (auto simp: f)
    moreover have "q \<noteq> p"
    proof
      assume "q = p"
      with C(6) [OF q] obtain l where l: "(p, l) \<in> set (mappings s)" by (auto simp: descriptor_at_def)
      then have "disjoint_ranges p (unat len) p (unat l)" using c by fastforce
      moreover have "0 < unat l" using maps_okD(2) [OF _ l, of env] C(9) by (simp add: arena_ok_def unat_gt_0)
      moreover have "0 < unat len" using c by linarith
      ultimately show False by (simp add: disjoint_ranges_def)
    qed
    ultimately show ?thesis by (simp add: descriptor_at_def A'_def)
  qed
  moreover have "chain (slab_link s') (c_slabs s') (abs_slabs A')"
  proof -
    have "chain (slab_link s') (c_slabs s) (abs_slabs A) \<longleftrightarrow> chain (slab_link s) (c_slabs s) (abs_slabs A)"
      using pl(3) by (intro chain_cong) (simp add: objects_same_def slab_link_def)
    with C(7) f show ?thesis by (simp add: A'_def)
  qed
  ultimately show "cached_core env s' A' T H D cc"
    using C(1,5,8) pl(1) f by (simp add: cached_core_def threads_ok_def)
qed

lemma cached_quiet_inv: "cached_inv env s A \<Longrightarrow> cached_quiet s s' \<Longrightarrow> c_registry_mutex s' = c_registry_mutex s \<Longrightarrow> cached_inv env s' A"
  unfolding cached_inv_def by (elim conjE exE) (intro conjI exI, simp, erule (1) core_quiet(1), assumption)

lemma cached_malloc_contract:
  assumes ok: "os_ok env" and inv: "cached_inv env s A"
  shows "\<exists>r s' A'. cached_malloc env penv tid sz s = Some (r, s') \<and> cached_inv env s' A' \<and>
    (r = NULL \<and> (sz \<noteq> 0 \<longrightarrow> errno s' = ENOMEM) \<and> refused s A s' A' \<and> \<not> cached_can_serve env penv tid s sz \<or>
     sz \<noteq> 0 \<and> sz \<le> PTRDIFF_MAX \<and> (\<exists>p. r = p + 48 \<and> granted p sz s A s' A'))"
proof -
  consider (zero) "sz = 0" | (huge) "sz \<noteq> 0" "sz > PTRDIFF_MAX"
    | (small) ci cap where "sz \<noteq> 0" "sz \<le> PTRDIFF_MAX" "class_of sz = Some (ci, cap)"
    | (large) "sz \<noteq> 0" "sz \<le> PTRDIFF_MAX" "class_of sz = None"
    by (cases "class_of sz"; cases "sz = 0"; cases "sz \<le> PTRDIFF_MAX") (auto simp: not_le)
  then show ?thesis
  proof cases
    case zero
    with inv show ?thesis
      by (intro exI [of _ NULL] exI [of _ s] exI [of _ A]) (simp add: cached_malloc_def cached_can_serve_def)
  next
    case huge
    have "cached_quiet s (s\<lparr>errno := ENOMEM\<rparr>)" by simp
    with huge inv cached_quiet_inv [OF inv, of "s\<lparr>errno := ENOMEM\<rparr>"] core_quiet(2) [of s "s\<lparr>errno := ENOMEM\<rparr>" A] show ?thesis
      by (intro exI [of _ NULL] exI [of _ "s\<lparr>errno := ENOMEM\<rparr>"] exI [of _ A])
        (auto simp: cached_malloc_def cached_can_serve_def)
  next
    case (small ci cap)
    note cl = class_of_SomeD [OF small(3)]
    from cached_allocate_small_spec [OF inv cl(2,3,1,4), of penv tid] small show ?thesis
      by (auto simp: cached_malloc_def cached_can_serve_def)
  next
    case large
    from inv obtain T D cc where i: "\<not> c_registry_mutex s" "cached_core env s A T empty_table D cc"
      "\<forall>p \<in> set D. within_limits (cc p)" by (auto simp: cached_inv_def)
    from ok large(1) show ?thesis
    proof (cases rule: allocate_large_cases [where s = s])
      case (failed s')
      note q = memory_quiet [OF failed(2)]
      from failed large cached_quiet_inv [OF inv q] core_quiet(2) [OF q(1), of A] show ?thesis
        by (intro exI [of _ NULL] exI [of _ s'] exI [of _ A]) (simp add: cached_malloc_def cached_can_serve_def)
    next
      case (succeeded p len s')
      note n = core_new_large [OF i(2) large(1) succeeded(2)]
      have "cached_inv env s' (A\<lparr>abs_large := insert p (abs_large A)\<rparr>)"
        using cached_invI [OF n(1) i(3)] n(3) i(1) by simp
      with succeeded(1) large n(2) show ?thesis by (auto simp: cached_malloc_def)
    qed
  qed
qed

section \<open>Freeing a large block\<close>

lemma core_drop_large:
  assumes core: "cached_core env s A T H D cc" and p: "p \<in> abs_large A" "large_conf s p len" and un: "range_unmapped p len s s'"
  defines "A' \<equiv> A\<lparr>abs_large := abs_large A - {p}\<rparr>"
  shows "cached_core env s' A' T H D cc" and "live_blocks s' A' = live_blocks s A - {p}"
    and "kept (live_blocks s A - {p}) s s'" and "c_registry_mutex s' = c_registry_mutex s"
proof -
  note C = coreD [OF core] and g = un [unfolded range_unmapped_def range_gone_def]
  note pd = pool_drop_large [OF C(2,3) p un, folded A'_def]
  have more: "world.more s' = world.more s" using g by simp
  note f = world_more_fields [OF more]
  show "live_blocks s' A' = live_blocks s A - {p}" "kept (live_blocks s A - {p}) s s'" "c_registry_mutex s' = c_registry_mutex s"
    using pd(2,3) f by simp_all
  have blk: "blocks s' x = blocks s x" if "x \<in> set (pool_blocks (T # H # map cc D))" for x
    using pd(4) pool_small [OF C(3) that] by (simp add: objects_same_def arena_blocks_def)
  have "transfers_ok s' T" using f by (intro transfers_ok_cong [OF C(4)] blk) auto
  moreover have "descriptor_at s' A' q (cc q)" if q: "q \<in> set D" for q
  proof -
    have sub: "set (concat (cc q)) \<subseteq> set (pool_blocks (map cc D))" using q unfolding set_pool_map by blast
    from C(6) [OF q] obtain d where d: "q \<noteq> NULL" "q \<notin> set (abs_slabs A)" "q \<notin> abs_large A" "descriptors s q = Some d"
      "dc_mapping_base d = q" "(q, dc_mapping_length d) \<in> set (mappings s)" "cache_ok s (dc_cache d) (cc q)"
      by (auto simp: descriptor_at_def)
    have "cache_ok s' (dc_cache d) (cc q)" using sub by (intro cache_ok_blocks [OF d(7)] blk) auto
    moreover have "(q, dc_mapping_length d) \<in> set (mappings s')"
    proof -
      have "(q, dc_mapping_length d) \<noteq> (p, len)" using d(3) p(1) by blast
      then show ?thesis using d(6) g by (simp add: in_set_remove1)
    qed
    ultimately show ?thesis using d f by (simp add: descriptor_at_def A'_def)
  qed
  moreover have "chain (slab_link s') (c_slabs s') (abs_slabs A')"
  proof -
    have "chain (slab_link s') (c_slabs s) (abs_slabs A) \<longleftrightarrow> chain (slab_link s) (c_slabs s) (abs_slabs A)"
      using pd(4) by (intro chain_cong) (simp add: objects_same_def slab_link_def)
    with C(7) f show ?thesis by (simp add: A'_def)
  qed
  ultimately show "cached_core env s' A' T H D cc"
    using C(1,5,8) pd(1) f by (simp add: cached_core_def threads_ok_def)
qed

lemma cached_free_large:
  assumes inv: "cached_inv env s A" and p: "p \<in> live_blocks s A" and lg: "p \<in> abs_large A" "large_conf s p len"
  shows "\<exists>s' A'. cached_free env penv tid (p + 48) s = Some s' \<and> cached_inv env s' A' \<and> released p s A s' A' \<and>
     (unmap_reliable env \<longrightarrow> p \<notin> live_blocks s' A')"
proof -
  from inv obtain T D cc where i: "\<not> c_registry_mutex s" "cached_core env s A T empty_table D cc"
    "\<forall>p \<in> set D. within_limits (cc p)" by (auto simp: cached_inv_def)
  note C = coreD [OF i(2)]
  have pn: "p + 48 \<noteq> NULL" and fp: "hplf_block_from_payload (p + 48) = p"
    using payload_address [OF C(2,9) live_in_arena [OF p]] by (auto simp: hplf_block_from_payload_eq)
  from lg(2) obtain b where b: "blocks s p = Some b" "owner b = OwnerLarge p len" "kind b = HPLF_BLOCK_LARGE"
    and m: "(p, len) \<in> set (mappings s)" by (auto simp: large_conf_def bshape_def)
  with C(9) have nn: "p \<noteq> NULL" "len \<noteq> 0" by (auto simp: arena_ok_def dest: maps_okD)
  with m show ?thesis
  proof (cases rule: os_unmap_cases [where env = env and r = 0])
    case (failed s1)
    have run: "cached_free env penv tid (p + 48) s = Some (s1\<lparr>errno := errno s\<rparr>)"
      using failed(1) b pn fp by (simp add: cached_free_def Let_def)
    have "same_memory s (s1\<lparr>errno := errno s\<rparr>)" using failed(2) by simp
    note q = memory_quiet [OF this]
    from core_quiet(2) [OF q(1), of A] have "released p s A (s1\<lparr>errno := errno s\<rparr>) A"
      by (auto simp: refused_def released_def intro: kept_mono)
    moreover have "\<not> unmap_reliable env" using os_unmap_reliable [OF _ failed(1)] nn by auto
    ultimately show ?thesis using run cached_quiet_inv [OF inv q] by blast
  next
    case (succeeded s1)
    let ?s = "s1\<lparr>errno := errno s\<rparr>" and ?A = "A\<lparr>abs_large := abs_large A - {p}\<rparr>"
    have run: "cached_free env penv tid (p + 48) s = Some ?s"
      using succeeded(1) b pn fp by (simp add: cached_free_def Let_def)
    note d = core_drop_large [OF i(2) lg succeeded(2)]
    have q: "cached_quiet s1 ?s" by simp
    have "cached_inv env ?s ?A" using cached_invI [OF core_quiet(1) [OF q d(1)] i(3)] d(4) i(1) by simp
    moreover have "live_blocks ?s ?A = live_blocks s A - {p}" "kept (live_blocks s A - {p}) s ?s"
      using core_quiet(2) [OF q, of ?A] d(2,3) by (simp_all add: refused_def kept_def bytes_kept_def)
    ultimately show ?thesis using run by (auto simp: released_def)
  qed
qed

section \<open>Freeing a small block\<close>

lemma core_store:
  assumes core: "cached_core env s A T (hand (unat ci) [x]) D cc" and p: "p \<in> set D" and ci: "unat ci < 16"
    and cap: "cap = size_class_capacities ! unat ci" and x: "blocks s x \<noteq> None"
  shows "\<exists>s' A'. on_cache_store p ci cap x s = Some s' \<and>
    goes_on env s A s' A' T empty_table D (cc(p := (cc p)[unat ci := x # cc p ! unat ci]))"
proof -
  from core p obtain d where d: "descriptors s p = Some d" "cache_ok s (dc_cache d) (cc p)" "length (cc p) = 16"
    by (rule core_descriptor)
  let ?F = "(cc p)[unat ci := x # cc p ! unat ci]"
  note C = coreD [OF core] and cls = core_classes [OF core ci]
  have xn: "x \<noteq> NULL" using pool_arena [OF C(3), of x] block_facts(1) [OF C(2,9)] ci by simp
  have xo: "x \<notin> set (concat (cc p))" using core_disjoint(2) [OF core p] ci by (simp del: set_concat)
  from cache_store_spec [OF d(2) ci cap x xn xo] obtain c s1 where r: "hplf_thread_cache_store (dc_cache d) ci cap x s = Some (c, s1)"
    "cache_ok s1 c ?F" "relinked {x} s s1" by blast
  let ?s = "s1\<lparr>descriptors := (descriptors s1)(p \<mapsto> d\<lparr>dc_cache := c\<rparr>)\<rparr>"
  have "world.more s1 = world.more s" using r(3) by (simp add: relinked_def)
  note f = world_more_fields [OF this]
  have run: "on_cache_store p ci cap x s = Some ?s" using d(1) r(1) f by (simp add: on_cache_store_def)
  have X: "{x} \<subseteq> set (concat (cc p)) \<union> set (concat (hand (unat ci) [x]))" using ci by simp
  have tF: "class_table s (abs_slabs A) ?F"
    using C(12) p cls(1) cls(3) [OF p] by (intro class_table_update) auto
  have tH: "class_table s (abs_slabs A) empty_table" by simp
  have m: "mset (concat ?F) + mset (concat (empty_table :: addr list list)) = mset (concat (cc p)) + mset (concat (hand (unat ci) [x]))"
    using ci d(3) mset_concat_put [of "unat ci" "cc p" "[x]"] by simp
  from core_cache_step [OF core p d(1) r(3) X r(2) tF tH m] run show ?thesis unfolding goes_on_def by blast
qed

lemma core_evict:
  assumes core: "cached_core env s A T empty_table D cc" and p: "p \<in> set D" and ci: "unat ci < 16"
    and as: "after_store (cc p) (unat ci)"
  shows "evict_class (cc p) (unat ci) = None \<Longrightarrow> within_limits (cc p) \<and>
      on_cache_evict p ci e out s = Some (False, e, hplf_transfer_list_clear out, s)"
    and "evict_class (cc p) (unat ci) = Some j \<Longrightarrow> j < 16 \<and> cc p ! j \<noteq> [] \<and> 0 < evict_count (cc p) (unat ci) j \<and> (\<exists>out' s' A'.
      on_cache_evict p ci e out s = Some (True, word_of_nat j, out', s') \<and>
      list_ok s' out' (take (evict_count (cc p) (unat ci) j) (cc p ! j)) \<and>
      goes_on env s A s' A' T (hand j (take (evict_count (cc p) (unat ci) j) (cc p ! j))) D
        (cc(p := (cc p)[j := drop (evict_count (cc p) (unat ci) j) (cc p ! j)])))"
proof -
  from core p obtain d where d: "descriptors s p = Some d" "cache_ok s (dc_cache d) (cc p)" "length (cc p) = 16"
    by (rule core_descriptor)
  note ev = cache_eviction_spec [OF d(2) as ci] and C = coreD [OF core]
  show "within_limits (cc p) \<and> on_cache_evict p ci e out s = Some (False, e, hplf_transfer_list_clear out, s)"
    if "evict_class (cc p) (unat ci) = None"
  proof -
    have "(descriptors s)(p \<mapsto> d) = descriptors s" using d(1) by auto
    then show ?thesis using ev(1) [OF that] d(1) by (simp add: on_cache_evict_def)
  qed
  assume j: "evict_class (cc p) (unat ci) = Some j"
  let ?n = "evict_count (cc p) (unat ci) j"
  let ?F = "(cc p)[j := drop ?n (cc p ! j)]" and ?ys = "take ?n (cc p ! j)"
  from ev(2) [OF j, of e out] obtain c out' s1 where r: "j < 16" "cc p ! j \<noteq> []" "0 < ?n"
    "hplf_thread_cache_extract_eviction (dc_cache d) ci e out s = Some (True, c, word_of_nat j, out', s1)"
    "list_ok s1 out' ?ys" "cache_ok s1 c ?F" "relinked (set ?ys) s s1" by blast
  let ?s = "s1\<lparr>descriptors := (descriptors s1)(p \<mapsto> d\<lparr>dc_cache := c\<rparr>)\<rparr>"
  have "world.more s1 = world.more s" using r(7) by (simp add: relinked_def)
  note f = world_more_fields [OF this]
  have run: "on_cache_evict p ci e out s = Some (True, word_of_nat j, out', ?s)" using d(1) r(4) f by (simp add: on_cache_evict_def)
  have "set ?ys \<subseteq> set (cc p ! j)" by (rule set_take_subset)
  then have X: "set ?ys \<subseteq> set (concat (cc p)) \<union> set (concat (empty_table :: addr list list))"
    using set_concat_self [of j "cc p"] r(1) d(3) by (auto simp del: set_concat)
  have cT: "class_table s (abs_slabs A) (cc p)" using C(12) p by simp
  have tF: "class_table s (abs_slabs A) ?F"
    using cT r(1) by (intro class_table_update) (auto intro: class_table_in dest: in_set_dropD)
  have tH: "class_table s (abs_slabs A) (hand j ?ys)"
    using cT r(1) by (intro hand_class) (auto intro: class_table_in dest: in_set_takeD)
  have "mset (concat (cc p)) = mset ?ys + mset (concat ?F)"
    using r(1) d(3) by (intro mset_concat_take) (simp_all add: mset_append [symmetric] del: mset_append)
  then have m: "mset (concat ?F) + mset (concat (hand j ?ys)) = mset (concat (cc p)) + mset (concat (empty_table :: addr list list))"
    using r(1) by simp
  have "list_ok ?s out' ?ys" using r(5) by (rule list_ok_blocks) simp
  with core_cache_step [OF core p d(1) r(7) X r(6) tF tH m] run r(1-3)
  show "j < 16 \<and> cc p ! j \<noteq> [] \<and> 0 < ?n \<and> (\<exists>out' s' A'.
      on_cache_evict p ci e out s = Some (True, word_of_nat j, out', s') \<and> list_ok s' out' ?ys \<and>
      goes_on env s A s' A' T (hand j ?ys) D (cc(p := ?F)))"
    unfolding goes_on_def by blast
qed

lemma after_store_drop:
  assumes "after_store F i" and "j < 16" and "length F = 16" shows "after_store (F[j := drop n (F ! j)]) i"
proof -
  have "cache_bytes (F[j := drop n (F ! j)]) \<le> cache_bytes F"
  proof -
    have "(length (F ! j) - n) * unat (size_class_capacities ! j) \<le> length (F ! j) * unat (size_class_capacities ! j)"
      by (rule mult_le_mono1) simp
    then show ?thesis using cache_bytes_update [OF assms(2,3), of "drop n (F ! j)"] unfolding length_drop by linarith
  qed
  moreover have "length (F[j := drop n (F ! j)] ! k) \<le> length (F ! k)" if "k < 16" for k
    using assms that by (cases "k = j") auto
  ultimately show ?thesis using assms(1) unfolding after_store_def by (meson le_trans)
qed

text \<open>
  The eviction loop ends, since every round takes at least one block out of the cache, and then the
  cache is within its limits.
\<close>

lemma evict_loop_spec:
  assumes "cached_core env s A T empty_table D cc" and "p \<in> set D" and "unat ci < 16" and "after_store (cc p) (unat ci)"
  shows "\<exists>s' A' T' F. evict_loop env tid p ci e out s = Some s' \<and> goes_on env s A s' A' T' empty_table D (cc(p := F)) \<and>
    within_limits F"
  using assms
proof (induction "length (concat (cc p))" arbitrary: s A T cc e out rule: less_induct)
  case less
  note core = less.prems(1) and p = less.prems(2) and ci = less.prems(3) and as = less.prems(4)
  have len: "length (cc p) = 16" using core_descriptor [OF core p] by blast
  show ?case
  proof (cases "evict_class (cc p) (unat ci)")
    case None
    note e = core_evict(1) [OF core p ci as None, of e out]
    have "evict_loop env tid p ci e out s = Some s" using e by (subst evict_loop.simps) simp
    moreover have "cc(p := cc p) = cc" by simp
    ultimately show ?thesis using e goes_on_refl [OF core] by (metis (no_types))
  next
    case (Some j)
    let ?n = "evict_count (cc p) (unat ci) j"
    let ?F = "(cc p)[j := drop ?n (cc p ! j)]" and ?ys = "take ?n (cc p ! j)" and ?j = "word_of_nat j :: size_t"
    from core_evict(2) [OF core p ci as Some, of e out] obtain out1 s1 A1 where e: "j < 16" "cc p ! j \<noteq> []" "0 < ?n"
      "on_cache_evict p ci e out s = Some (True, ?j, out1, s1)" "list_ok s1 out1 ?ys"
      "goes_on env s A s1 A1 T (hand j ?ys) D (cc(p := ?F))" by blast
    have uj: "unat ?j = j" using e(1) by (simp add: unat_word_of_nat)
    let ?s2 = "count_cached env tid (\<lambda>t. t\<lparr>published_blocks := published_blocks t + tl_count out1\<rparr>) s1"
    have q: "cached_quiet s1 ?s2" by simp
    have core2: "cached_core env ?s2 A1 T (hand (unat ?j) ([] @ ?ys)) D (cc(p := ?F))"
      using core_quiet(1) [OF q] e(6) uj by (simp add: goes_on_def)
    from core_publish [OF core2 _ list_ok_quiet [OF q e(5)]] e(1) uj obtain out3 s3 A3 T3 where
      pb: "hplf_transfer_mutex_publish env ?j out1 ?s2 = Some (out3, s3)" "cached_core env s3 A3 T3 empty_table D (cc(p := ?F))"
      "refused ?s2 A1 s3 A3" "c_registry_mutex s3 = c_registry_mutex ?s2" by auto
    have "mset (concat (cc p)) = mset ?ys + mset (concat ?F)" using e(1) len by (intro mset_concat_take) (simp_all add: mset_append [symmetric] del: mset_append)
    then have "size (mset (concat (cc p))) = size (mset ?ys + mset (concat ?F))" by (rule arg_cong)
    then have "length (concat (cc p)) = length ?ys + length (concat ?F)" by (simp only: size_union size_mset)
    moreover have "0 < length ?ys" using e(2,3) by simp
    ultimately have less': "length (concat ((cc(p := ?F)) p)) < length (concat (cc p))" by simp
    have "after_store ((cc(p := ?F)) p) (unat ci)" using after_store_drop [OF as e(1) len] by simp
    from less.hyps [OF less' pb(2) p ci this, of ?j out3] obtain s' A' T' F where
      ih: "evict_loop env tid p ci ?j out3 s3 = Some s'" "goes_on env s3 A3 s' A' T' empty_table D ((cc(p := ?F))(p := F))"
      "within_limits F" by blast
    have "evict_loop env tid p ci e out s = Some s'"
      using e(4) pb(1) ih(1) by (subst evict_loop.simps) (simp add: Let_def)
    moreover have "goes_on env s A s' A' T' empty_table D (cc(p := F))"
    proof -
      have "goes_on env s1 A1 s3 A3 T3 empty_table D (cc(p := ?F))"
        using pb(2,4) refused_trans [OF core_quiet(2) [OF q] pb(3)] by (simp add: goes_on_def)
      from goes_on_trans [OF goes_on_trans [OF e(6) this] ih(2)] show ?thesis by simp
    qed
    ultimately show ?thesis using ih(3) by blast
  qed
qed

lemma after_store_put:
  assumes "within_limits F" and "i < 16" and "length F = 16" shows "after_store (F[i := x # F ! i]) i"
proof -
  have "cache_bytes (F[i := x # F ! i]) \<le> 65536 + unat (size_class_capacities ! i)"
    using cache_bytes_update [OF assms(2,3), of "x # F ! i"] assms(1) by (simp add: within_limits_def)
  moreover have "length (F[i := x # F ! i] ! k) \<le> (if k = i then 33 else 32)" if "k < 16" for k
    using assms that by (auto simp: within_limits_def nth_list_update)
  ultimately show ?thesis by (simp add: after_store_def)
qed

text \<open>Without a cache the block is published on its own.\<close>

lemma free_direct:
  assumes core: "cached_core env s A T (hand (unat ci) [p]) D cc" and ci: "unat ci < 16" and b: "blocks s p = Some b" and pn: "p \<noteq> NULL"
  obtains s1 l' s' A' T' where "set_next_free p NULL s = Some s1"
    "hplf_transfer_mutex_publish env ci \<lparr>tl_first = p, tl_last = p, tl_count = 1\<rparr> (count_cached env tid g s1) = Some (l', s')"
    "goes_on env s A s' A' T' empty_table D cc"
proof -
  from set_next_defined [OF b, of NULL] obtain s1 where s1: "set_next_free p NULL s = Some s1"
    "block_next s1 = (block_next s)(p \<mapsto> NULL)" by blast
  have X: "{p} \<subseteq> set (concat (hand (unat ci) [p]))" using ci by simp
  note h = core_hand [OF core set_next_relinked [OF s1(1)] X]
  let ?s2 = "count_cached env tid g s1" and ?l = "\<lparr>tl_first = p, tl_last = p, tl_count = 1\<rparr>"
  have q: "cached_quiet s1 ?s2" by simp
  have "list_ok s1 ?l [p]" using s1(2) pn by (simp add: list_ok_def)
  note l = list_ok_quiet [OF q this]
  have core2: "cached_core env ?s2 A T (hand (unat ci) ([] @ [p])) D cc" using core_quiet(1) [OF q h(1)] by simp
  from core_publish [OF core2 ci l] obtain l' s' A' where pb: "hplf_transfer_mutex_publish env ci ?l ?s2 = Some (l', s')"
    "cached_core env s' A' (T[unat ci := [p] @ T ! unat ci]) empty_table D cc" "refused ?s2 A s' A'"
    "c_registry_mutex s' = c_registry_mutex ?s2" by auto
  have "goes_on env s A s' A' (T[unat ci := [p] @ T ! unat ci]) empty_table D cc"
    using pb(2,4) h(3) refused_trans [OF refused_trans [OF h(2) core_quiet(2) [OF q]] pb(3)] by (simp add: goes_on_def)
  with s1(1) pb(1) that show thesis by blast
qed

lemma cached_free_small_spec:
  assumes inv: "cached_inv env s A" and p: "p \<in> live_blocks s A" and ci: "unat ci < 16"
    and cl: "in_class s (abs_slabs A) (unat ci) p"
  shows "\<exists>s' A'. cached_free_small env penv tid p ci s = Some s' \<and> cached_inv env s' A' \<and>
    live_blocks s' A' = live_blocks s A - {p} \<and> kept (live_blocks s A - {p}) s s'"
proof -
  from inv obtain T D0 cc0 where i: "\<not> c_registry_mutex s" "cached_core env s A T empty_table D0 cc0"
    "\<forall>p \<in> set D0. within_limits (cc0 p)" by (auto simp: cached_inv_def)
  from core_acquire [OF i(2,3), of penv tid] obtain cache s1 A1 D cc where
    a: "hplf_cache_acquire env penv tid s = Some (cache, s1)" "cached_core env s1 A1 T empty_table D cc"
    "\<forall>p \<in> set D. within_limits (cc p)" "refused s A s1 A1" "c_registry_mutex s1 = c_registry_mutex s"
    "cache \<noteq> NULL \<longrightarrow> cache \<in> set D" "abs_slabs A1 = abs_slabs A" "objects_same (abs_slabs A) (abs_large A) s s1" by blast
  have p1: "p \<in> live_blocks s1 A1" and lv1: "live_blocks s1 A1 = live_blocks s A" using a(4) p by (auto simp: refused_def)
  have cl1: "in_class s1 (abs_slabs A1) (unat ci) p"
    using cl in_class_same [OF objects_same_arena [OF a(8)]] a(7) by simp
  from coreD(9) [OF a(2)] cl1 obtain b where b: "blocks s1 p = Some b" "capacity b = size_class_capacities ! unat ci"
    by (rule free_block_capacity)
  let ?s2 = "s1\<lparr>blocks := (blocks s1)(p \<mapsto> b\<lparr>requested_size := 0\<rparr>)\<rparr>"
  have t: "touched {p} s1 ?s2" using b(1) by (simp add: touched_def bshape_def fun_eq_iff)
  have more: "world.more ?s2 = world.more s1" by simp
  let ?A2 = "with_pools A1 (T # hand (unat ci) [p] # map cc D)"
  note pu = core_push [OF a(2) p1 ci cl1 t more]
  have mx2: "c_registry_mutex ?s2 = c_registry_mutex s" using a(5) by simp
  have k2: "kept (live_blocks s A - {p}) s ?s2"
  proof -
    have "kept (live_blocks s A - {p}) s s1" using a(4) by (auto simp: refused_def intro: kept_mono)
    with pu(3) lv1 show ?thesis using kept_trans by auto
  qed
  have finish: ?thesis if run: "cached_free_small env penv tid p ci s = Some s'"
      and g: "goes_on env ?s2 ?A2 s' A' T' empty_table D cc'" and lim: "\<forall>q \<in> set D. within_limits (cc' q)" for s' A' T' cc'
  proof -
    have g': "cached_core env s' A' T' empty_table D cc'" "refused ?s2 ?A2 s' A'" "c_registry_mutex s' = c_registry_mutex s"
      using g mx2 by (simp_all add: goes_on_def)
    have "cached_inv env s' A'" using cached_invI [OF g'(1) lim] g'(3) i(1) by simp
    moreover have "live_blocks s' A' = live_blocks s A - {p}" "kept (live_blocks s A - {p}) s s'"
      using g'(2) pu(2) lv1 kept_trans [OF k2] by (auto simp: refused_def)
    ultimately show ?thesis using run by blast
  qed
  note run = cached_free_small_def a(1) b
  show ?thesis
  proof (cases "cache = NULL")
    case True
    have b2: "blocks ?s2 p = Some (b\<lparr>requested_size := 0\<rparr>)" by simp
    have pn: "p \<noteq> NULL" using block_facts(1) [OF coreD(2,9) [OF a(2)] live_in_arena [OF p1]] .
    from free_direct [OF pu(1) ci b2 pn, of tid "\<lambda>t. t\<lparr>published_blocks := published_blocks t + 1\<rparr>"] obtain s3 l' s' A' T' where
      f: "set_next_free p NULL ?s2 = Some s3" "hplf_transfer_mutex_publish env ci \<lparr>tl_first = p, tl_last = p, tl_count = 1\<rparr>
        (count_cached env tid (\<lambda>t. t\<lparr>published_blocks := published_blocks t + 1\<rparr>) s3) = Some (l', s')"
      "goes_on env ?s2 ?A2 s' A' T' empty_table D cc" .
    have "cached_free_small env penv tid p ci s = Some s'"
      unfolding run using True b f(1,2) by (simp add: run update_block_def Let_def)
    then show ?thesis using f(3) a(3) by (rule finish)
  next
    case False
    with a(6) have cD: "cache \<in> set D" by blast
    have len: "length (cc cache) = 16" using core_descriptor [OF a(2) cD] by blast
    let ?F = "(cc cache)[unat ci := p # cc cache ! unat ci]"
    from core_store [OF pu(1) cD ci refl] obtain s3 A3 where st:
      "on_cache_store cache ci (size_class_capacities ! unat ci) p ?s2 = Some s3"
      "goes_on env ?s2 ?A2 s3 A3 T empty_table D (cc(cache := ?F))" by auto
    have core3: "cached_core env s3 A3 T empty_table D (cc(cache := ?F))" using st(2) by (simp add: goes_on_def)
    have "after_store ((cc(cache := ?F)) cache) (unat ci)" using after_store_put [OF _ ci len] a(3) cD by simp
    from evict_loop_spec [OF core3 cD ci this, of tid 0 "\<lparr>tl_first = NULL, tl_last = NULL, tl_count = 0\<rparr>"] obtain s' A' T' F where
      ev: "evict_loop env tid cache ci 0 \<lparr>tl_first = NULL, tl_last = NULL, tl_count = 0\<rparr> s3 = Some s'"
      "goes_on env s3 A3 s' A' T' empty_table D ((cc(cache := ?F))(cache := F))" "within_limits F" by blast
    have "cached_free_small env penv tid p ci s = Some s'"
      using False b st(1) ev(1) by (simp add: run update_block_def Let_def)
    moreover have "\<forall>q \<in> set D. within_limits (((cc(cache := ?F))(cache := F)) q)" using a(3) ev(3) by simp
    ultimately show ?thesis by (intro finish [OF _ goes_on_trans [OF st(2) ev(2)]])
  qed
qed

lemma cached_free_contract:
  assumes inv: "cached_inv env s A" and p: "p \<in> live_blocks s A"
  shows "\<exists>s' A'. cached_free env penv tid (p + 48) s = Some s' \<and> cached_inv env s' A' \<and> released p s A s' A' \<and>
     (unmap_reliable env \<or> p \<notin> abs_large A \<longrightarrow> p \<notin> live_blocks s' A')"
proof -
  from inv obtain T D cc where i: "cached_core env s A T empty_table D cc" by (auto simp: cached_inv_def)
  note C = coreD [OF i]
  from C(9) live_in_arena [OF p] show ?thesis
  proof (cases rule: arena_block_cases)
    case (large len)
    with cached_free_large [OF inv p] show ?thesis by blast
  next
    case sm: (small a d k)
    have pn: "p + 48 \<noteq> NULL" and fp: "hplf_block_from_payload (p + 48) = p"
      using payload_address [OF C(2,9) live_in_arena [OF p]] by (auto simp: hplf_block_from_payload_eq)
    from sm(2-4) obtain b where b: "blocks s p = Some b" "owner b = OwnerSmall a" "kind b = HPLF_BLOCK_SMALL"
      by (auto simp: slab_conf_def bshape_def)
    from sm(2) obtain d' where d': "slab_objs s a = Some d'" "class_index d' = class_index d"
      by (auto simp: slab_conf_def sshape_def)
    have ci: "unat (class_index d) < 16" using sm(2) by (simp add: slab_conf_def slab_ok_def)
    have cl: "in_class s (abs_slabs A) (unat (class_index d)) p"
      using sm by (auto simp: in_class_def slab_conf_def in_slab_slots)
    from cached_free_small_spec [OF inv p ci cl, of penv tid] obtain s' A' where
      f: "cached_free_small env penv tid p (class_index d) s = Some s'" "cached_inv env s' A'"
      "live_blocks s' A' = live_blocks s A - {p}" "kept (live_blocks s A - {p}) s s'" by blast
    let ?s = "s'\<lparr>errno := errno s\<rparr>"
    have q: "cached_quiet s' ?s" by simp
    have "cached_free env penv tid (p + 48) s = Some ?s"
      using pn fp b d' f(1) by (simp add: cached_free_def Let_def)
    moreover have "cached_inv env ?s A'" by (rule cached_quiet_inv [OF f(2) q]) simp
    moreover have "live_blocks ?s A' = live_blocks s A - {p}" "kept (live_blocks s A - {p}) s ?s"
      using core_quiet(2) [OF q, of A'] f(3,4) by (simp_all add: refused_def kept_def bytes_kept_def)
    ultimately show ?thesis by (auto simp: released_def)
  qed
qed

section \<open>The interface\<close>

lemma cached_frame:
  fixes s :: cached_state
  assumes inv: "cached_inv env s A"
    and same: "objects_same (abs_slabs A) (abs_large A) s (s\<lparr>blocks := B, slab_objs := S, bytes := Y\<rparr>)"
  shows "cached_inv env (s\<lparr>blocks := B, slab_objs := S, bytes := Y\<rparr>) A"
proof -
  let ?s = "s\<lparr>blocks := B, slab_objs := S, bytes := Y\<rparr>"
  from inv obtain T D cc where i: "\<not> c_registry_mutex s" "cached_core env s A T empty_table D cc"
    "\<forall>p \<in> set D. within_limits (cc p)" by (auto simp: cached_inv_def)
  note C = coreD [OF i(2)]
  have maps: "maps_ok env (mappings ?s)" "set (mappings s) \<subseteq> set (mappings ?s)" using C(9) by (simp_all add: arena_ok_def)
  note po = pool_outside [OF C(3) same maps]
  have blk: "blocks ?s x = blocks s x" if "x \<in> set (pool_blocks (T # empty_table # map cc D))" for x
    using same pool_arena [OF C(3) that] by (simp add: objects_same_def)
  have "transfers_ok ?s T" by (intro transfers_ok_cong [OF C(4)] blk) auto
  moreover have "descriptor_at ?s A q (cc q)" if q: "q \<in> set D" for q
  proof -
    have "set (concat (cc q)) \<subseteq> set (pool_blocks (map cc D))" using q unfolding set_pool_map by blast
    then show ?thesis by (intro descriptor_at_frame [OF C(6) [OF q]] blk) auto
  qed
  moreover have "chain (slab_link ?s) (c_slabs s) (abs_slabs A)"
    using C(7) same chain_cong [of "abs_slabs A" "slab_link ?s" "slab_link s"] by (simp add: objects_same_def slab_link_def)
  ultimately have "cached_core env ?s A T empty_table D cc"
    using C(1,5,8) po(1) by (simp add: cached_core_def threads_ok_def)
  then show ?thesis by (rule cached_invI) (use i in simp_all)
qed

lemma cached_resize:
  fixes s :: cached_state
  assumes inv: "cached_inv env s A" and p: "p \<in> live_blocks s A" and b: "blocks s p = Some b" and sz: "sz \<noteq> 0" "sz \<le> capacity b"
  shows "cached_inv env (s\<lparr>blocks := (blocks s)(p \<mapsto> b\<lparr>requested_size := sz\<rparr>)\<rparr>) A"
proof -
  let ?s = "s\<lparr>blocks := (blocks s)(p \<mapsto> b\<lparr>requested_size := sz\<rparr>)\<rparr>"
  from inv obtain T D cc where i: "\<not> c_registry_mutex s" "cached_core env s A T empty_table D cc"
    "\<forall>p \<in> set D. within_limits (cc p)" by (auto simp: cached_inv_def)
  note C = coreD [OF i(2)]
  have "block_changed p b (b\<lparr>requested_size := sz\<rparr>) s ?s" using b by (simp add: block_changed_def)
  note pr = pool_resize [OF C(3) p this]
  have out: "x \<noteq> p" if "x \<in> set (pool_blocks (T # empty_table # map cc D))" for x
    using p pool_live [OF C(3)] that by auto
  have "transfers_ok ?s T" using out by (intro transfers_ok_cong [OF C(4)]) auto
  moreover have "descriptor_at ?s A q (cc q)" if q: "q \<in> set D" for q
  proof -
    have "set (concat (cc q)) \<subseteq> set (pool_blocks (map cc D))" using q unfolding set_pool_map by blast
    then show ?thesis using out by (intro descriptor_at_frame [OF C(6) [OF q]]) auto
  qed
  moreover have "slab_link ?s = slab_link s" by (simp add: slab_link_def fun_eq_iff)
  ultimately have "cached_core env ?s A T empty_table D cc"
    using C(1,5,7,8) pr(1) sz by (simp add: cached_core_def threads_ok_def)
  then show ?thesis by (rule cached_invI) (use i in simp_all)
qed

interpretation cached: allocator cached_inv "\<lambda>env. cached_malloc env penv tid" "\<lambda>env. cached_free env penv tid" for penv tid
proof (unfold_locales, goal_cases)
  case (1 env s A)
  then show ?case by (auto simp: cached_inv_def cached_core_def pool_heap_def)
next
  case (2 env s A p)
  then show ?case by (auto simp: cached_inv_def cached_core_def pool_heap_def)
next
  case (3 env s A B S Y)
  then show ?case by (rule cached_frame)
next
  case (4 env s A e)
  then show ?case by (rule cached_quiet_inv) simp_all
next
  case (5 env s A p b sz)
  then show ?case by (rule cached_resize)
next
  case (6 env s A sz)
  then show ?case using cached_malloc_contract [of env s A penv tid sz] by (fastforce simp: ENOMEM_def)
next
  case (7 env s A p)
  then show ?case using cached_free_contract by blast
next
  case (8 env s)
  then show ?case by (simp add: cached_free_def)
qed

end
