(* ===== verification/Cached_Threads.thy ===== *)
theory Cached_Threads
  imports Cached_Calls
begin

text \<open>
  The cached allocator with many threads: flushing a cache, the end of a thread, and the runs of a
  program whose threads call the allocator in any order.
\<close>

section \<open>Flushing\<close>

lemma mset_concat_map2:
  "length F = length T \<Longrightarrow> mset (concat (map2 (@) F T)) = mset (concat F) + mset (concat T)"
  by (induction F T rule: list_induct2) (simp_all add: ac_simps)

lemma class_table_map2:
  assumes "class_table s ss F" and "class_table s ss T" shows "class_table s ss (map2 (@) F T)"
  using assms by (auto simp: class_table_def)

text \<open>The blocks of a flushed cache are in the shared chains, in front of the others.\<close>

lemma core_flush:
  assumes core: "cached_core env s A T empty_table D cc" and p: "p \<in> set D"
  shows "\<exists>s' A'. flush_descriptor env p s = Some (word_of_nat (length (concat (cc p))), s') \<and>
    goes_on env s A s' A' (map2 (@) (cc p) T) empty_table D (cc(p := empty_table)) \<and> mappings s' = mappings s \<and>
    map_option dc_mapping_length (descriptors s' p) = map_option dc_mapping_length (descriptors s p) \<and>
    current_state s' = current_state s \<and> current_descriptor s' = current_descriptor s \<and> cache_key_values s' = cache_key_values s"
proof -
  note C = coreD [OF core]
  from C(6) [OF p] obtain d where d: "descriptors s p = Some d" "dc_mapping_base d = p" "(p, dc_mapping_length d) \<in> set (mappings s)"
    "cache_ok s (dc_cache d) (cc p)" by (auto simp: descriptor_at_def)
  have len: "length (cc p) = 16" using d(4) by (simp add: cache_ok_def)
  have dj: "set (concat (cc p)) \<inter> set (concat T) = {}" using core_disjoint(2) [OF core p] by blast
  from flush_descriptor_spec [OF C(1) d(1,4) C(4) dj] obtain s' d' where
    f: "flush_descriptor env p s = Some (word_of_nat (length (concat (cc p))), s')" "descriptors s' p = Some d'"
    "cache_ok s' (dc_cache d') empty_table" "transfers_ok s' (map2 (@) (cc p) T)" "flush_frame (set (concat (cc p))) p s s'" by blast
  note fr = f(5) [unfolded flush_frame_def]
  have m: "c_slabs s' = c_slabs s" "c_registry_mutex s' = c_registry_mutex s" using lifecycle_more_fields [of s' s] fr by blast+
  have t: "touched (set (concat (cc p))) s s'" using fr unfolding touched_def by blast
  have "set (concat (cc p)) \<subseteq> set (pool_blocks (map cc D))" using p unfolding set_pool_map by blast
  then have X: "set (concat (cc p)) \<subseteq> set (pool_blocks (T # empty_table # map cc D))" by auto
  have ds: "descriptor_at s' A q ((cc(p := empty_table)) q)" if q: "q \<in> set D" for q
  proof (cases "q = p")
    case True
    have "dc_mapping_base d' = p" "dc_mapping_length d' = dc_mapping_length d" using fr f(2) d by auto
    then show ?thesis using True C(6) [OF p] d f(2,3) fr by (auto simp: descriptor_at_def)
  next
    case False
    have blk: "blocks s' x = blocks s x" if "x \<in> set (concat (cc q))" for x
      using core_disjoint(3) [OF core p q] False that fr by blast
    have "descriptors s' q = descriptors s q" "mappings s' = mappings s" using fr False by blast+
    then have "descriptor_at s' A q (cc q)" by (intro descriptor_at_frame [OF C(6) [OF q] blk]) simp_all
    with False show ?thesis by simp
  qed
  have "mset (pool_blocks (map cc D)) + {#} = mset (pool_blocks (map (cc(p := empty_table)) D)) + mset (concat (cc p))"
    by (rule pools_update [OF C(5) p]) simp
  then have ms: "mset (pool_blocks (map2 (@) (cc p) T # empty_table # map (cc(p := empty_table)) D)) =
      mset (pool_blocks (T # empty_table # map cc D))"
    using len C(10) by (simp add: mset_concat_map2 ac_simps)
  have cls: "class_table s (abs_slabs A) G" if "G \<in> set (map2 (@) (cc p) T # empty_table # map (cc(p := empty_table)) D)" for G
    using that C(12) p by (auto intro!: class_table_map2 split: if_splits)
  have vars: "current_state s' = current_state s" "current_descriptor s' = current_descriptor s" "cache_key_values s' = cache_key_values s"
    using fr by blast+
  note st = core_step [OF core t X f(4) ds m(1) vars cls ms]
  have "mappings s' = mappings s" "map_option dc_mapping_length (descriptors s' p) = map_option dc_mapping_length (descriptors s p)"
    using fr by blast+
  with f(1) st m(2) vars show ?thesis unfolding goes_on_def by blast
qed

lemma within_limits_empty [simp]: "within_limits empty_table"
  by (simp add: within_limits_def cache_bytes_def)

lemma cached_flush_spec:
  assumes inv: "cached_inv env s A"
  shows "\<exists>s' A'. cached_thread_flush env tid s = Some s' \<and> cached_inv env s' A' \<and> refused s A s' A' \<and>
    (current_state s tid = HPLF_CACHE_ACTIVE \<longrightarrow>
      (\<exists>d. descriptors s' (current_descriptor s tid) = Some d \<and> cache_ok s' (dc_cache d) empty_table))"
proof -
  from inv obtain T D cc where i: "\<not> c_registry_mutex s" "cached_core env s A T empty_table D cc"
    "\<forall>p \<in> set D. within_limits (cc p)" by (auto simp: cached_inv_def)
  show ?thesis
  proof (cases "current_state s tid = HPLF_CACHE_ACTIVE")
    case False
    let ?s = "count_cached env tid (\<lambda>t. t\<lparr>published_blocks := published_blocks t + 0\<rparr>) s"
    have "cached_thread_flush env tid s = Some ?s" using False by (simp add: cached_thread_flush_def hplf_cache_flush_current_def)
    moreover have q: "cached_quiet s ?s" by simp
    moreover have "cached_inv env ?s A" by (rule cached_quiet_inv [OF inv q]) simp
    ultimately show ?thesis using False core_quiet(2) by blast
  next
    case True
    let ?p = "current_descriptor s tid"
    have p: "?p \<in> set D" using True coreD(8) [OF i(2)] by (simp add: threads_ok_def)
    from core_flush [OF i(2) p] obtain s1 A1 where
      f: "flush_descriptor env ?p s = Some (word_of_nat (length (concat (cc ?p))), s1)"
      "goes_on env s A s1 A1 (map2 (@) (cc ?p) T) empty_table D (cc(?p := empty_table))" by blast
    let ?s = "count_cached env tid (\<lambda>t. t\<lparr>published_blocks := published_blocks t + word_of_nat (length (concat (cc ?p)))\<rparr>) s1"
    have q: "cached_quiet s1 ?s" by simp
    have g: "goes_on env s A ?s A1 (map2 (@) (cc ?p) T) empty_table D (cc(?p := empty_table))"
      using f(2) by (intro goes_on_trans [OF f(2) goes_on_quiet [OF _ q]]) (simp_all add: goes_on_def)
    have "cached_thread_flush env tid s = Some ?s"
      using True f(1) by (simp add: cached_thread_flush_def hplf_cache_flush_current_def)
    moreover have "cached_inv env ?s A1"
      by (rule cached_invI [of _ _ _ "map2 (@) (cc ?p) T" D "cc(?p := empty_table)"]) (use g i in \<open>simp_all add: goes_on_def\<close>)
    moreover have "\<exists>d. descriptors ?s ?p = Some d \<and> cache_ok ?s (dc_cache d) empty_table"
    proof -
      have "cached_core env ?s A1 (map2 (@) (cc ?p) T) empty_table D (cc(?p := empty_table))" using g by (simp add: goes_on_def)
      from core_descriptor [OF this p] show ?thesis by auto
    qed
    ultimately show ?thesis using g unfolding goes_on_def by blast
  qed
qed

section \<open>The end of a thread\<close>

text \<open>The mapping of a descriptor overlaps no mapping of the arena and no other descriptor.\<close>

lemma gone_memory:
  assumes core: "cached_core env s A T empty_table D cc" and p: "p \<in> set D"
    and d: "descriptors s p = Some d" "dc_mapping_length d = len" and g: "descriptor_gone p len s s'"
  shows "\<And>b l. (b, l) \<in> set (mappings s) \<Longrightarrow> b \<noteq> p \<Longrightarrow> disjoint_ranges p (unat len) b (unat l) \<and> (b, l) \<in> set (mappings s')"
    and "objects_same (abs_slabs A) (abs_large A) s s'" and "kept (live_blocks s A) s s'"
    and "pool_heap env s' A (T # empty_table # map cc D)" and "live_blocks s' A = live_blocks s A"
proof -
  note C = coreD [OF core] and G = g [unfolded descriptor_gone_def]
  let ?ss = "abs_slabs A" and ?L = "abs_large A"
  have maps: "maps_ok env (mappings s)" using C(9) by (simp add: arena_ok_def)
  from C(6) [OF p] d have pm: "(p, len) \<in> set (mappings s)" "p \<notin> set ?ss" "p \<notin> ?L" by (auto simp: descriptor_at_def)
  have away: "disjoint_ranges p (unat len) b (unat l)" if "(b, l) \<in> set (mappings s)" "b \<noteq> p" for b l
    using maps_okD(5) [OF maps pm(1) that(1)] that(2) by blast
  let ?t = "s\<lparr>blocks := blocks s', slab_objs := slab_objs s', bytes := bytes s'\<rparr>"
  have out: "outside_same p (unat len) s ?t" using G by (simp add: outside_same_def)
  have "objects_same ?ss ?L s ?t"
    using pm(2,3) by (intro objects_same_outside [OF C(2,9) out] away) (auto simp: slab_conf_def large_conf_def)
  then show same: "objects_same ?ss ?L s s'" by (simp add: objects_same_def)
  have maps': "maps_ok env (mappings s')" using G maps maps_ok_remove1 [OF maps] by metis
  have ms: "(b, l) \<in> set (mappings s')" if "(b, l) \<in> set (mappings s)" "b \<noteq> p" for b l
    using G that in_set_remove1 [of "(b, l)" "(p, len)" "mappings s"] by auto
  with away show "disjoint_ranges p (unat len) b (unat l) \<and> (b, l) \<in> set (mappings s')" if "(b, l) \<in> set (mappings s)" "b \<noteq> p" for b l
    using that by blast
  note po = pool_alien [OF C(3) same maps' ms]
  show "pool_heap env s' A (T # empty_table # map cc D)" and "live_blocks s' A = live_blocks s A" using po pm(2,3) by blast+
  show "kept (live_blocks s A) s s'"
  proof (rule keptI)
    have "disjoint_ranges p (unat len) q (extent s q)" if "q \<in> live_blocks s A" for q
    proof -
      from C(2,9) live_in_arena [OF that] obtain b l where "(b, l) \<in> set (mappings s)" "subrange q (extent s q) b (unat l)" "b \<noteq> p"
        using pm(2,3) by (rule_tac block_base) blast+
      with away disjoint_subrange [OF _ subrange_refl] show ?thesis by blast
    qed
    from bytes_kept_outside [OF out this] show "bytes_kept (live_blocks s A) s s'" by (simp add: bytes_kept_def)
    show "blocks s' q = blocks s q" if "q \<in> live_blocks s A" for q using same live_in_arena [OF that] by (simp add: objects_same_def)
  qed
qed

lemma core_gone:
  assumes core: "cached_core env s A T empty_table D cc" and p: "p \<in> set D" "cc p = empty_table"
    and d: "descriptors s p = Some d" "dc_mapping_length d = len" and g: "descriptor_gone p len s s'"
    and cur: "\<And>t. current_state s t = HPLF_CACHE_ACTIVE \<Longrightarrow> current_descriptor s t \<noteq> p"
  shows "\<exists>A'. goes_on env s A s' A' T empty_table (remove1 p D) cc"
proof -
  note C = coreD [OF core] and G = g [unfolded descriptor_gone_def] and M = gone_memory [OF core p(1) d g]
  have m: "c_slabs s' = c_slabs s" "c_registry_mutex s' = c_registry_mutex s" using lifecycle_more_fields [of s' s] G by blast+
  let ?D = "remove1 p D"
  let ?P = "T # empty_table # map cc ?D" and ?A = "with_pools A (T # empty_table # map cc (remove1 p D))"
  have dD: "distinct ?D" using C(5) by (simp add: distinct_remove1)
  have sub: "q \<in> set D \<and> q \<noteq> p" if "q \<in> set ?D" for q using that C(5) by (simp add: set_remove1_eq)
  from p(1) obtain B E where D: "D = B @ p # E" "p \<notin> set B" by (blast dest: split_list_first)
  then have mp: "mset (pool_blocks (map cc D)) = mset (pool_blocks (map cc ?D))" using p(2) by (simp add: remove1_append)
  have "\<forall>F \<in> set (T # empty_table # map cc D). class_table s' (abs_slabs A) F" using M(4) unfolding pool_heap_def by blast
  moreover have "set ?P \<subseteq> set (T # empty_table # map cc D)" using set_remove1_subset [of p D] by auto
  ultimately have cls: "class_table s' (abs_slabs A) F" if "F \<in> set ?P" for F using that by blast
  have pl: "pool_heap env s' ?A ?P" "live_blocks s' ?A = live_blocks s' A"
    using pool_relink(1,2) [OF M(4) touched_refl [of "{}"], of ?P, OF _ cls] mp by simp_all
  have blk: "blocks s' x = blocks s x" if "x \<in> set (pool_blocks (T # empty_table # map cc D))" for x
    using M(2) pool_arena [OF C(3) that] by (simp add: objects_same_def)
  have "transfers_ok s' T" using G by (intro transfers_ok_cong [OF C(4)] blk) auto
  moreover have "descriptor_at s' ?A q (cc q)" if q: "q \<in> set ?D" for q
  proof -
    from sub [OF q] have qD: "q \<in> set D" "q \<noteq> p" by auto
    have sb: "set (concat (cc q)) \<subseteq> set (pool_blocks (map cc D))" using qD unfolding set_pool_map by blast
    from C(6) [OF qD(1)] obtain e where e: "q \<noteq> NULL" "q \<notin> set (abs_slabs A)" "q \<notin> abs_large A" "descriptors s q = Some e"
      "dc_mapping_base e = q" "(q, dc_mapping_length e) \<in> set (mappings s)" "cache_ok s (dc_cache e) (cc q)"
      by (auto simp: descriptor_at_def)
    have "maps_ok env (mappings s)" using C(9) by (simp add: arena_ok_def)
    then have "0 < unat (dc_mapping_length e)" using maps_okD(2) e(6) by (simp add: unat_gt_0)
    with M(1) [OF e(6) qD(2)] have "\<not> in_range p (unat len) q" by (auto simp: disjoint_ranges_def in_range_def)
    then have "descriptors s' q = Some e" using G e(4) by simp
    moreover have "cache_ok s' (dc_cache e) (cc q)" using sb by (intro cache_ok_blocks [OF e(7)] blk) auto
    ultimately show ?thesis using e M(1) [OF e(6) qD(2)] by (simp add: descriptor_at_def)
  qed
  moreover have "chain (slab_link s') (c_slabs s') (abs_slabs A)"
  proof -
    have "chain (slab_link s') (c_slabs s) (abs_slabs A) \<longleftrightarrow> chain (slab_link s) (c_slabs s) (abs_slabs A)"
      using M(2) by (intro chain_cong) (simp add: objects_same_def slab_link_def)
    with C(7) m show ?thesis by simp
  qed
  moreover have "threads_ok s' ?D"
  proof -
    have v: "current_state s' = current_state s" "current_descriptor s' = current_descriptor s" "cache_key_values s' = cache_key_values s"
      using G by blast+
    have "current_descriptor s t \<in> set ?D" if "current_state s t = HPLF_CACHE_ACTIVE" for t
      using C(8) cur [OF that] that C(5) by (simp add: threads_ok_def set_remove1_eq)
    with C(8) v show ?thesis by (simp add: threads_ok_def)
  qed
  ultimately have "cached_core env s' ?A T empty_table ?D cc" using C(1) pl(1) dD by (simp add: cached_core_def)
  moreover have "refused s A s' ?A" using M(3,5) pl(2) by (simp add: refused_def)
  ultimately show ?thesis using m(2) unfolding goes_on_def by blast
qed

lemma core_leave:
  fixes s :: cached_state and tid :: nat
  assumes core: "cached_core env s A T empty_table D cc"
  defines "s' \<equiv> s\<lparr>cache_key_values := (cache_key_values s)(tid := NULL), current_descriptor := (current_descriptor s)(tid := NULL),
      current_state := (current_state s)(tid := HPLF_CACHE_UNCACHED)\<rparr>"
  shows "goes_on env s A s' A T empty_table D cc"
proof -
  note C = coreD [OF core]
  have t: "touched {} s s'" by (simp add: touched_def bshape_def fun_eq_iff s'_def)
  have A: "with_pools A (T # empty_table # map cc D) = A" using C(3) by (simp add: pool_heap_def)
  note r = pool_relink [OF C(3) t _ C(12) refl, unfolded A]
  have "transfers_ok s' T" by (intro transfers_ok_cong [OF C(4)]) (simp_all add: s'_def)
  moreover have "descriptor_at s' A q (cc q)" if "q \<in> set D" for q
    by (intro descriptor_at_frame [OF C(6) [OF that]]) (simp_all add: s'_def)
  moreover have "slab_link s' = slab_link s" by (simp add: slab_link_def fun_eq_iff s'_def)
  moreover have "threads_ok s' D" using C(8) by (simp add: threads_ok_def s'_def)
  moreover have "c_slabs s' = c_slabs s" "c_registry_mutex s' = c_registry_mutex s" by (simp_all add: s'_def)
  ultimately show ?thesis using C(1,5,7) r by (simp add: goes_on_def cached_core_def refused_def)
qed

text \<open>
  When a thread ends, the blocks of its cache are at the front of the shared chains, its descriptor and
  the mapping of it are gone unless the system refuses to unmap, and the program's buffers stay as they
  are.  A thread without a cache changes nothing.
\<close>

definition cache_given_back :: "os_env \<Rightarrow> nat \<Rightarrow> cached_state \<Rightarrow> cached_state \<Rightarrow> bool" where
  "cache_given_back env tid s s' \<longleftrightarrow> (\<exists>d F T. descriptors s (current_descriptor s tid) = Some d \<and>
     (current_descriptor s tid, dc_mapping_length d) \<in> set (mappings s) \<and> cache_ok s (dc_cache d) F \<and> transfers_ok s T \<and>
     transfers_ok s' (map2 (@) F T) \<and>
     (mappings s' = remove1 (current_descriptor s tid, dc_mapping_length d) (mappings s) \<and>
        descriptors s' (current_descriptor s tid) = None \<or>
      mappings s' = mappings s \<and> \<not> (\<forall>t b l. munmap_result env t b l = 0)))"

lemma cached_exit_spec:
  fixes s :: cached_state
  assumes inv: "cached_inv env s A"
  shows "\<exists>s' A'. thread_exit env tid s = Some s' \<and> cached_inv env s' A' \<and> refused s A s' A' \<and>
    current_state s' tid \<noteq> HPLF_CACHE_ACTIVE \<and> (current_state s tid \<noteq> HPLF_CACHE_ACTIVE \<longrightarrow> s' = s) \<and>
    (current_state s tid = HPLF_CACHE_ACTIVE \<longrightarrow> cache_given_back env tid s s' \<and> cache_key_values s' tid = NULL \<and>
      current_state s' = (current_state s)(tid := HPLF_CACHE_UNCACHED) \<and> current_descriptor s' = (current_descriptor s)(tid := NULL))"
proof -
  from inv obtain T D cc where i: "\<not> c_registry_mutex s" "cached_core env s A T empty_table D cc"
    "\<forall>p \<in> set D. within_limits (cc p)" by (auto simp: cached_inv_def)
  note C = coreD [OF i(2)] and th = coreD(8) [OF i(2), unfolded threads_ok_def]
  show ?thesis
  proof (cases "current_state s tid = HPLF_CACHE_ACTIVE")
    case False
    then have "thread_exit env tid s = Some s" using th by (simp add: thread_exit_def)
    with False inv show ?thesis by (intro exI [of _ s] exI [of _ A]) simp
  next
    case True
    let ?p = "current_descriptor s tid"
    have p: "?p \<in> set D" "cache_key_values s tid = ?p" using th True by blast+
    have pn: "?p \<noteq> NULL" using C(6) [OF p(1)] by (simp add: descriptor_at_def)
    let ?s1 = "s\<lparr>cache_key_values := (cache_key_values s)(tid := NULL), current_descriptor := (current_descriptor s)(tid := NULL),
      current_state := (current_state s)(tid := HPLF_CACHE_UNCACHED)\<rparr>"
    let ?s2 = "count_stat env (\<lambda>t. t\<lparr>destructor_calls := destructor_calls t + 1\<rparr>) ?s1"
    note g1 = core_leave [OF i(2), of tid]
    have "lc_quiet ?s1 ?s2" by simp
    then have q: "cached_quiet ?s1 ?s2" "c_registry_mutex ?s2 = c_registry_mutex ?s1"
      using lifecycle_more_fields [of ?s2 ?s1] by (simp_all add: cached_quiet_def lc_quiet_def)
    have core1: "cached_core env ?s1 A T empty_table D cc" using g1 by (simp add: goes_on_def)
    note g2 = goes_on_quiet [OF core1 q]
    have core2: "cached_core env ?s2 A T empty_table D cc" using g2 by (simp add: goes_on_def)
    from core_flush [OF core2 p(1)] obtain s3 A3 where f: "flush_descriptor env ?p ?s2 = Some (word_of_nat (length (concat (cc ?p))), s3)"
      "goes_on env ?s2 A s3 A3 (map2 (@) (cc ?p) T) empty_table D (cc(?p := empty_table))"
      "mappings s3 = mappings ?s2"
      "map_option dc_mapping_length (descriptors s3 ?p) = map_option dc_mapping_length (descriptors ?s2 ?p)"
      "current_state s3 = current_state ?s2" "current_descriptor s3 = current_descriptor ?s2" "cache_key_values s3 = cache_key_values ?s2" by blast
    have core3: "cached_core env s3 A3 (map2 (@) (cc ?p) T) empty_table D (cc(?p := empty_table))" using f(2) by (simp add: goes_on_def)
    from coreD(6) [OF core3 p(1)] obtain d where d: "descriptors s3 ?p = Some d" "dc_mapping_base d = ?p"
      "(?p, dc_mapping_length d) \<in> set (mappings s3)" by (auto simp: descriptor_at_def)
    have "maps_ok env (mappings s3)" using coreD(9) [OF core3] by (simp add: arena_ok_def)
    from maps_okD(2) [OF this d(3)] have len: "0 < unat (dc_mapping_length d)" by (simp add: unat_gt_0)
    from unmap_descriptor [OF d(3) len] obtain r s4 where u: "sys_munmap env ?p (dc_mapping_length d) s3 = Some (r, s4)"
      "descriptor_gone ?p (dc_mapping_length d) s3 (if r = 0 then count_stat env (\<lambda>t. t\<lparr>descriptor_unmaps := descriptor_unmaps t + 1,
         descriptor_bytes_unmapped := descriptor_bytes_unmapped t + dc_mapping_length d,
         active_descriptors := active_descriptors t - 1\<rparr>) (drop_descriptors ?p (dc_mapping_length d) s4) else s4)" by blast
    let ?s5 = "if r = 0 then count_stat env (\<lambda>t. t\<lparr>descriptor_unmaps := descriptor_unmaps t + 1,
         descriptor_bytes_unmapped := descriptor_bytes_unmapped t + dc_mapping_length d,
         active_descriptors := active_descriptors t - 1\<rparr>) (drop_descriptors ?p (dc_mapping_length d) s4) else s4"
    have run: "thread_exit env tid s = Some ?s5"
      using p(2) pn f(1) d u(1) by (simp add: thread_exit_def destroy_descriptor_def release_descriptor_def Let_def)
    have vars: "current_state s3 = (current_state s)(tid := HPLF_CACHE_UNCACHED)" "current_descriptor s3 = (current_descriptor s)(tid := NULL)"
      "cache_key_values s3 tid = NULL" "mappings s3 = mappings s"
      using f(3,5-7) by (simp_all add: count_stat_def)
    have cur: "current_descriptor s3 t \<noteq> ?p" if "current_state s3 t = HPLF_CACHE_ACTIVE" for t
      using that th True unfolding vars by (auto split: if_splits)
    from core_gone [OF core3 p(1) _ d(1) refl u(2) cur] obtain A5 where
      g5: "goes_on env s3 A3 ?s5 A5 (map2 (@) (cc ?p) T) empty_table (remove1 ?p D) (cc(?p := empty_table))" by auto
    note g = goes_on_trans [OF goes_on_trans [OF goes_on_trans [OF g1 g2] f(2)] g5]
    have "cached_inv env ?s5 A5"
    proof (rule cached_invI)
      show "cached_core env ?s5 A5 (map2 (@) (cc ?p) T) empty_table (remove1 ?p D) (cc(?p := empty_table))"
        using g unfolding goes_on_def by blast
      show "\<forall>q \<in> set (remove1 ?p D). within_limits ((cc(?p := empty_table)) q)"
        using i(3) set_remove1_subset [of ?p D] by auto
      show "\<not> c_registry_mutex ?s5" using g i(1) unfolding goes_on_def by blast
    qed
    moreover have "current_state ?s5 = (current_state s)(tid := HPLF_CACHE_UNCACHED)"
      "current_descriptor ?s5 = (current_descriptor s)(tid := NULL)" "cache_key_values ?s5 tid = NULL"
      using u(2) vars unfolding descriptor_gone_def by argo+
    moreover have "cache_given_back env tid s ?s5"
    proof -
      from C(6) [OF p(1)] obtain d0 where d0: "descriptors s ?p = Some d0" "(?p, dc_mapping_length d0) \<in> set (mappings s)"
        "cache_ok s (dc_cache d0) (cc ?p)" by (auto simp: descriptor_at_def)
      have dl: "dc_mapping_length d = dc_mapping_length d0" using f(4) d(1) d0(1) by (simp add: count_stat_def split: if_splits)
      have "transfers_ok ?s5 (map2 (@) (cc ?p) T)" using g5 coreD(4) unfolding goes_on_def by blast
      then show ?thesis using d0 C(4) unmapped_or_failed [OF u(1) len, unfolded Let_def vars(4) dl]
        unfolding cache_given_back_def dl by blast
    qed
    moreover have "refused s A ?s5 A5" using g unfolding goes_on_def by blast
    ultimately show ?thesis using run True by (intro exI [of _ ?s5] exI [of _ A5]) simp
  qed
qed

end
