(* ===== verification/Cached_Trim.thy ===== *)
theory Cached_Trim
  imports Cached_Calls Trim
begin

text \<open>
  \<open>hplf_trim_quiescent\<close> of the cached variant: the shared chains are detached, the walk of
  \<open>Trim\<close> runs over them as its free lists, and what is left is published again.  Blocks in the
  caches of threads count as used: their slabs stay.
\<close>

section \<open>Definitions\<close>

text \<open>The loops over the size classes; the second argument counts the classes that are left.\<close>

fun detach_all ::
  "os_env \<Rightarrow> nat \<Rightarrow> size_t \<Rightarrow> 'a transfer_state_scheme \<Rightarrow> (hplf_transfer_list list \<times> 'a transfer_state_scheme) option" where
  "detach_all env 0 ci s = Some ([], s)"
| "detach_all env (Suc k) ci s = do {
     (list, s) \<leftarrow> hplf_transfer_mutex_detach env ci s;
     (ls, s) \<leftarrow> detach_all env k (ci + 1) s;
     Some (list # ls, s)
   }"

fun republish_all ::
  "os_env \<Rightarrow> nat \<Rightarrow> size_t \<Rightarrow> addr list \<Rightarrow> 'a transfer_state_scheme \<Rightarrow> 'a transfer_state_scheme option" where
  "republish_all env 0 ci free_lists s = Some s"
| "republish_all env (Suc k) ci free_lists s = do {
     first \<leftarrow> array_read free_lists ci;
     list \<leftarrow> hplf_transfer_list_from_chain first s;
     (_, s) \<leftarrow> hplf_transfer_mutex_publish env ci list s;
     republish_all env k (ci + 1) free_lists s
   }"

definition cached_trim_quiescent :: "os_env \<Rightarrow> cached_state \<Rightarrow> (size_t \<times> cached_state) option" where
  "cached_trim_quiescent env s = do {
     (e, s) \<leftarrow> cached_lock env s;
     if e \<noteq> 0 then Some (0, s)
     else do {
       (detached, s) \<leftarrow> detach_all env 16 0 s;
       (released_total, head, free_lists, s) \<leftarrow>
         trim_loop env RegistryHead 0 (c_slabs s) (map tl_first detached) s;
       s \<leftarrow> republish_all env 16 0 free_lists (s\<lparr>c_slabs := head\<rparr>);
       (_, s) \<leftarrow> cached_unlock env s;
       Some (released_total, s)
     }
   }"

section \<open>The loops over the classes\<close>

lemma transfer_step_refl [simp]: "transfer_step X s s"
  by (simp add: transfer_step_def)

lemma transfer_step_trans:
  assumes "transfer_step X s s'" and "transfer_step Y s' s''" and "X \<union> Y \<subseteq> Z" shows "transfer_step Z s s''"
proof -
  note l = links_only_trans [OF transfer_step_links [OF assms(1)] transfer_step_links [OF assms(2)] assms(3)]
  show ?thesis using l assms(1,2) by (simp add: transfer_step_def links_only_def)
qed

lemma word_index: "idx < 16 \<Longrightarrow> unat (word_of_nat idx :: size_t) = idx"
  by (simp add: unat_word_of_nat)

lemma detach_all_loop:
  assumes "transfer_lock_ok env" and "transfers_ok s T" and "idx + k = 16"
  shows "\<exists>ls s'. detach_all env k (word_of_nat idx) s = Some (ls, s') \<and> length ls = k \<and>
    (\<forall>j < k. list_ok s' (ls ! j) (T ! (idx + j))) \<and> transfers_ok s' (take idx T @ replicate k []) \<and> transfer_step {} s s'"
  using assms
proof (induction k arbitrary: idx s T)
  case 0
  then show ?case by (simp add: transfers_ok_def)
next
  case (Suc k)
  have u: "unat (word_of_nat idx :: size_t) = idx" using Suc.prems(3) by (intro word_index) simp
  have len: "length T = 16" using Suc.prems(2) by (simp add: transfers_ok_def)
  from detach_mutex [OF Suc.prems(1,2), of "word_of_nat idx"] u Suc.prems(3) obtain l s1 where
    d: "hplf_transfer_mutex_detach env (word_of_nat idx) s = Some (l, s1)" "list_ok s1 l (T ! idx)"
    "transfers_ok s1 (T[idx := []])" "transfer_step {} s s1" by auto
  from Suc.IH [OF Suc.prems(1) d(3), of "Suc idx"] Suc.prems(3) obtain ls s' where
    r: "detach_all env k (word_of_nat (Suc idx)) s1 = Some (ls, s')" "length ls = k"
    "\<forall>j < k. list_ok s' (ls ! j) (T[idx := []] ! (Suc idx + j))" "transfers_ok s' (take (Suc idx) (T[idx := []]) @ replicate k [])"
    "transfer_step {} s1 s'" by auto
  have "list_ok s' l (T ! idx)" using r(5) by (intro list_ok_blocks [OF d(2)]) (simp add: transfer_step_def)
  then have "\<forall>j < Suc k. list_ok s' ((l # ls) ! j) (T ! (idx + j))"
    using r(3) by (auto simp: less_Suc_eq_0_disj)
  moreover have "take (Suc idx) (T[idx := []]) @ replicate k [] = take idx T @ replicate (Suc k) []"
    using len Suc.prems(3) by (simp add: take_Suc_conv_app_nth)
  moreover have "detach_all env (Suc k) (word_of_nat idx) s = Some (l # ls, s')" using d(1) r(1) by (simp add: add.commute)
  ultimately show ?case using r(2,4) transfer_step_trans [OF d(4) r(5)] by auto
qed

lemma detach_all_spec:
  assumes "transfer_lock_ok env" and "transfers_ok s T"
  shows "\<exists>ls s'. detach_all env 16 0 s = Some (ls, s') \<and> length ls = 16 \<and>
    (\<forall>j < 16. list_ok s' (ls ! j) (T ! j)) \<and> transfers_ok s' (replicate 16 []) \<and> transfer_step {} s s'"
  using detach_all_loop [OF assms, of 0 16] by simp

text \<open>One round of publishing the lists \<open>F\<close> again: class \<open>idx\<close> moves, the later lists are untouched.\<close>

lemma publish_next:
  assumes ok: "transfer_lock_ok env" and F: "length F = 16" "distinct (concat F)" and k: "idx + Suc k = 16"
    and tr: "transfers_ok s (take idx F @ replicate (Suc k) [])" and l: "list_ok s l (F ! idx)"
  shows "\<exists>l' s'. hplf_transfer_mutex_publish env (word_of_nat idx) l s = Some (l', s') \<and>
    transfers_ok s' (take (Suc idx) F @ replicate k []) \<and> transfer_step (set (concat F)) s s' \<and>
    (\<forall>j x. idx < j \<longrightarrow> j < 16 \<longrightarrow> x \<in> set (F ! j) \<longrightarrow> blocks s' x = blocks s x)"
proof -
  let ?T = "take idx F @ replicate (Suc k) []"
  have i: "idx < 16" using k by simp
  then have u: "unat (word_of_nat idx :: size_t) = idx" by (rule word_index)
  have others: "set (F ! idx) \<inter> set (F ! j) = {}" if "j < 16" "j \<noteq> idx" for j
    using distinct_lists_disjoint [of F idx j] F i that by auto
  have "set ys \<inter> set (F ! idx) = {}" if "ys \<in> set (take idx F)" for ys
  proof -
    from that obtain j where "j < idx" "ys = F ! j" using i F(1) by (auto simp: in_set_conv_nth)
    then show ?thesis using others [of j] i by auto
  qed
  then have "set (F ! idx) \<inter> \<Union> (set ` set ?T) = {}" by auto
  from publish_mutex [OF ok tr _ l this, of "word_of_nat idx"] u i obtain l1 s1 where
    p: "hplf_transfer_mutex_publish env (word_of_nat idx) l s = Some (l1, s1)"
    "transfers_ok s1 (?T[idx := F ! idx @ ?T ! idx])" "transfer_step (set (F ! idx)) s s1" by auto
  have T: "?T[idx := F ! idx @ ?T ! idx] = take (Suc idx) F @ replicate k []"
    using F(1) i by (simp add: list_update_append nth_append take_Suc_conv_app_nth)
  have "blocks s1 x = blocks s x" if "idx < j" "j < 16" "x \<in> set (F ! j)" for j x
  proof -
    have "x \<notin> set (F ! idx)" using others [of j] that by auto
    then show ?thesis using p(3) by (simp add: transfer_step_def)
  qed
  moreover have "set (F ! idx) \<subseteq> set (concat F)" using set_concat_self [of idx F] F(1) i by auto
  then have "transfer_step (set (concat F)) s s1" using transfer_step_trans [OF p(3) transfer_step_refl, of "set (F ! idx)"] by blast
  ultimately show ?thesis using p(1,2) T by (intro exI [of _ l1] exI [of _ s1]) simp
qed

lemma republish_all_loop:
  assumes "transfer_lock_ok env" and "length F = 16" and "distinct (concat F)" and "length heads = 16"
    and "transfers_ok s (take idx F @ replicate k [])" and "idx + k = 16"
    and "\<And>j. idx \<le> j \<Longrightarrow> j < 16 \<Longrightarrow> chain (block_next s) (heads ! j) (F ! j)"
  shows "\<exists>s'. republish_all env k (word_of_nat idx) heads s = Some s' \<and> transfers_ok s' F \<and>
    transfer_step (set (concat F)) s s'"
  using assms(5-)
proof (induction k arbitrary: idx s)
  case 0
  then show ?case using assms(2) by simp
next
  case (Suc k)
  have i: "idx < 16" using Suc.prems(2) by simp
  from from_chain_spec [OF Suc.prems(3) [OF order_refl i]] obtain l where
    l: "hplf_transfer_list_from_chain (heads ! idx) s = Some l" "list_ok s l (F ! idx)" by blast
  from publish_next [OF assms(1-3) Suc.prems(2,1) l(2)] obtain l1 s1 where
    p: "hplf_transfer_mutex_publish env (word_of_nat idx) l s = Some (l1, s1)" "transfers_ok s1 (take (Suc idx) F @ replicate k [])"
    "transfer_step (set (concat F)) s s1" "\<forall>j x. idx < j \<longrightarrow> j < 16 \<longrightarrow> x \<in> set (F ! j) \<longrightarrow> blocks s1 x = blocks s x" by blast
  have "chain (block_next s1) (heads ! j) (F ! j)" if j: "Suc idx \<le> j" "j < 16" for j
  proof -
    have "chain (block_next s1) (heads ! j) (F ! j) \<longleftrightarrow> chain (block_next s) (heads ! j) (F ! j)"
      using p(4) j by (intro chain_cong) (simp add: block_next_def Suc_le_eq)
    with Suc.prems(3) j show ?thesis by simp
  qed
  from Suc.IH [OF p(2) _ this] Suc.prems(2) obtain s' where
    r: "republish_all env k (word_of_nat (Suc idx)) heads s1 = Some s'" "transfers_ok s' F"
    "transfer_step (set (concat F)) s1 s'" by auto
  have "republish_all env (Suc k) (word_of_nat idx) heads s = Some s'"
    using assms(4) i word_index [OF i] l(1) p(1) r(1) by (simp add: array_read_def add.commute)
  then show ?case using r(2) transfer_step_trans [OF p(3) r(3), of "set (concat F)"] by auto
qed

lemma republish_all_spec:
  assumes "transfer_lock_ok env" and "length F = 16" and "distinct (concat F)" and "length heads = 16"
    and "transfers_ok s (replicate 16 [])" and "\<And>j. j < 16 \<Longrightarrow> chain (block_next s) (heads ! j) (F ! j)"
  shows "\<exists>s'. republish_all env 16 0 heads s = Some s' \<and> transfers_ok s' F \<and> transfer_step (set (concat F)) s s'"
  using republish_all_loop [OF assms(1-4), of s 0 16] assms(5,6) by simp

section \<open>Trimming\<close>

lemma free_ok_distinct:
  assumes ar: "arena_ok env s ss L" and fr: "free_ok s ss heads F" shows "distinct (concat F)"
proof -
  have len: "length F = 16" using fr by (simp add: free_ok_def)
  have d: "distinct (F ! i)" if "i < 16" for i using chain_distinct [OF free_okD(1) [OF fr that]] .
  have dj: "set (F ! i) \<inter> set (F ! j) = {}" if "i < 16" "j < 16" "i \<noteq> j" for i j
    using free_lists_disjoint [OF ar fr that(1,2)] that(3) by blast
  have "distinct (concat (take n F))" if "n \<le> 16" for n
    using that
  proof (induction n)
    case (Suc n)
    have "set ys \<inter> set (F ! n) = {}" if "ys \<in> set (take n F)" for ys
    proof -
      from that obtain j where "j < n" "ys = F ! j" using Suc.prems len by (auto simp: in_set_conv_nth)
      then show ?thesis using dj [of j n] Suc.prems by simp
    qed
    then have "set (concat (take n F)) \<inter> set (F ! n) = {}" by auto
    with Suc d [of n] len show ?case by (simp add: take_Suc_conv_app_nth)
  qed simp
  from this [of 16] len show ?thesis by simp
qed

text \<open>What a walk over the shared chains leaves alone: the client's blocks and those of the caches.\<close>

lemma trimmed_kept:
  fixes s s3 :: cached_state
  assumes core: "cached_core env s A T empty_table D cc" and same: "transfer_step {} s s2"
    and tr: "trimmed env dropped s2 (A\<lparr>abs_free := T\<rparr>) s3 A3"
  shows "live_blocks s3 A3 = live_blocks s A \<union> set (pool_blocks (map cc D))"
    and "live_blocks s A \<inter> set (pool_blocks (map cc D)) = {}"
    and "\<And>x. x \<in> live_blocks s A \<union> set (pool_blocks (map cc D)) \<Longrightarrow> blocks s3 x = blocks s x"
    and "kept (live_blocks s A) s s3" and "\<And>a. a \<in> set dropped \<Longrightarrow> set (slots_of s a) \<subseteq> set (concat T)"
proof -
  note C = coreD [OF core] and S = same [unfolded transfer_step_def] and t = tr [unfolded trimmed_def]
  let ?B = "A\<lparr>abs_free := T\<rparr>" and ?cached = "set (pool_blocks (map cc D))"
  have as: "arena_same ss L s s2" for ss L using S by (simp add: arena_same_def sshape_def)
  have blk2: "blocks s2 = blocks s" using S by (simp add: fun_eq_iff)
  have lv2: "live_blocks s2 ?B = arena_blocks s (abs_slabs A) (abs_large A) - set (concat T)"
    by (simp add: live_blocks_def arena_blocks_same [OF as] free_blocks_def)
  have sub: "?cached \<subseteq> arena_blocks s (abs_slabs A) (abs_large A)" using pool_arena [OF C(3)] by auto
  have dj: "?cached \<inter> set (concat T) = {}" using C(13) by auto
  have "live_blocks s A = arena_blocks s (abs_slabs A) (abs_large A) - (set (concat T) \<union> ?cached)"
    using pool_live [OF C(3)] by auto
  with sub dj lv2 have lvB: "live_blocks s2 ?B = live_blocks s A \<union> ?cached" and out: "live_blocks s A \<inter> ?cached = {}" by blast+
  show "live_blocks s A \<inter> ?cached = {}" by (rule out)
  show "live_blocks s3 A3 = live_blocks s A \<union> ?cached" using t lvB by simp
  show "blocks s3 x = blocks s x" if "x \<in> live_blocks s A \<union> ?cached" for x
    using t that unfolding lvB blk2 [symmetric] by (simp add: kept_def)
  have "kept (live_blocks s A) s2 s3" using t kept_mono [of "live_blocks s2 ?B" s2 s3 "live_blocks s A"] lvB by blast
  then show "kept (live_blocks s A) s s3" using kept_trans [of "live_blocks s A" s s2 s3] S blk2 by simp
  have slots: "slots_of s2 a = slots_of s a" for a using S by (simp add: slots_of_def sshape_def)
  show "set (slots_of s a) \<subseteq> set (concat T)" if "a \<in> set dropped" for a
  proof -
    from that t have a: "a \<in> set (abs_slabs A)" "set (slots_of s a) \<inter> live_blocks s2 ?B = {}" by (auto simp: idle_def slots)
    have "set (slots_of s a) \<subseteq> arena_blocks s (abs_slabs A) (abs_large A)"
      using a(1) by (auto simp: arena_blocks_def small_blocks_def)
    with a(2) lv2 show ?thesis by blast
  qed
qed

text \<open>The caches are tables of the slabs that are left.\<close>

lemma trimmed_tables:
  fixes s s3 :: cached_state
  assumes core: "cached_core env s A T empty_table D cc" and same: "transfer_step {} s s2"
    and tr: "trimmed env dropped s2 (A\<lparr>abs_free := T\<rparr>) s3 A3" and p: "p \<in> set D"
  shows "class_table s3 (abs_slabs A3) (cc p)"
proof -
  note C = coreD [OF core] and S = same [unfolded transfer_step_def] and t = tr [unfolded trimmed_def]
  let ?cached = "set (pool_blocks (map cc D))"
  have cls: "in_class s3 (abs_slabs A3) i x" if "in_class s (abs_slabs A) i x" "x \<in> ?cached" for i x
  proof -
    from that(1) obtain a d where a: "a \<in> set (abs_slabs A)" "sshape s a = Some d" "unat (class_index d) = i" "x \<in> set (slab_slots a d)"
      by (auto simp: in_class_def)
    have "x \<in> set (slots_of s a)" using a(2,4) by (simp add: slots_of_def)
    moreover have "x \<notin> set (concat T)" using that(2) C(13) by auto
    ultimately have "a \<notin> set dropped" using trimmed_kept(5) [OF core same tr] by blast
    then have "a \<in> set (abs_slabs A3)" using a(1) t by simp
    moreover from this have "sshape s3 a = Some d" using t a(2) S by (simp add: sshape_def)
    ultimately show ?thesis using a(3,4) by (auto simp: in_class_def)
  qed
  have ct: "class_table s (abs_slabs A) (cc p)" using C(12) p by simp
  have "x \<in> ?cached" if "i < 16" "x \<in> set (cc p ! i)" for i x
  proof -
    have "x \<in> set (concat (cc p))" using that ct set_concat_self [of i "cc p"] by (simp add: class_table_def del: set_concat)
    then show ?thesis using p unfolding set_pool_map by blast
  qed
  then show ?thesis using ct cls by (auto simp: class_table_def)
qed

text \<open>
  A walk over the shared chains: what it leaves, together with the blocks of the caches, is a heap in
  which the client's blocks are as before.  Every slab that it dropped had all of its slots in the
  shared chains.
\<close>

lemma core_trimmed:
  fixes s s3 :: cached_state
  assumes core: "cached_core env s A T empty_table D cc" and same: "transfer_step {} s s2"
    and tr: "trimmed env dropped s2 (A\<lparr>abs_free := T\<rparr>) s3 A3" and w: "walk_ok env s3 head heads A3"
  defines "A' \<equiv> with_pools A3 (abs_free A3 # empty_table # map cc D)"
  shows "pool_heap env s3 A' (abs_free A3 # empty_table # map cc D)" and "live_blocks s3 A' = live_blocks s A"
    and "kept (live_blocks s A) s s3" and "\<And>x. x \<in> set (pool_blocks (map cc D)) \<Longrightarrow> blocks s3 x = blocks s x"
    and "\<And>a. a \<in> set dropped \<Longrightarrow> set (slots_of s a) \<subseteq> set (concat T)"
proof -
  note C = coreD [OF core] and K = trimmed_kept [OF core same tr]
  let ?cached = "set (pool_blocks (map cc D))"
  have W: "arena_ok env s3 (abs_slabs A3) (abs_large A3)" "free_ok s3 (abs_slabs A3) heads (abs_free A3)"
    using w by (auto simp: walk_ok_def heap_lists_def)
  show "kept (live_blocks s A) s s3" "\<And>x. x \<in> ?cached \<Longrightarrow> blocks s3 x = blocks s x"
    "\<And>a. a \<in> set dropped \<Longrightarrow> set (slots_of s a) \<subseteq> set (concat T)" using K(3-5) by blast+
  have "class_table s3 (abs_slabs A3) (abs_free A3)" using W(2) by (simp add: free_ok_def class_table_def)
  then have tabs: "class_table s3 (abs_slabs A3) F" if "F \<in> set (abs_free A3 # empty_table # map cc D)" for F
    using that trimmed_tables [OF core same tr] by auto
  have "?cached \<inter> set (concat (abs_free A3)) = {}" using K(1) by (auto simp: live_blocks_def free_blocks_def)
  then have dist: "distinct (pool_blocks (abs_free A3 # empty_table # map cc D))" using free_ok_distinct [OF W] C(13) by auto
  have eq: "abs_free A' = concat (abs_free A3 # empty_table # map cc D)" by (simp add: A'_def)
  have "free_blocks (abs_free A') = set (concat (abs_free A3)) \<union> ?cached" unfolding eq pool_blocks_free by simp
  then have "live_blocks s3 A' = live_blocks s3 A3 - ?cached" unfolding live_blocks_def by (auto simp: A'_def free_blocks_def)
  then show lv: "live_blocks s3 A' = live_blocks s A" using K(1,2) by blast
  have "\<forall>p \<in> live_blocks s A. live_ok s p" using C(3) by (simp add: pool_heap_def)
  then have "\<forall>p \<in> live_blocks s3 A'. live_ok s3 p" unfolding lv using K(3) by (simp add: live_ok_def)
  then show "pool_heap env s3 A' (abs_free A3 # empty_table # map cc D)"
    using W(1) tabs dist by (simp add: pool_heap_def A'_def)
qed

text \<open>Publishing what the walk left over gives a well-formed allocator again.\<close>

lemma core_republished:
  fixes s s2 s3 :: cached_state
  assumes core: "cached_core env s A T empty_table D cc" and same: "transfer_step {} s s2" and empty: "transfers_ok s2 (replicate 16 [])"
    and t: "trimmed env dropped s2 (A\<lparr>abs_free := T\<rparr>) s3 A3" "walk_ok env s3 head heads A3" and mx: "c_registry_mutex s"
  obtains s4 where "republish_all env 16 0 heads (s3\<lparr>c_slabs := head\<rparr>) = Some s4" "c_registry_mutex s4"
    "cached_core env (s4\<lparr>ticks := Suc (ticks s4), c_registry_mutex := False\<rparr>) (with_pools A3 (abs_free A3 # empty_table # map cc D)) (abs_free A3)
      empty_table D cc"
    "refused s A (s4\<lparr>ticks := Suc (ticks s4), c_registry_mutex := False\<rparr>) (with_pools A3 (abs_free A3 # empty_table # map cc D))"
    "set (mappings s4) = {m \<in> set (mappings s). fst m \<notin> set dropped}"
proof -
  note C = coreD [OF core] and S = same [unfolded transfer_step_def] and tr = t(1) [unfolded trimmed_def] and ct = core_trimmed [OF core same t]
    and f2 = transfer_more_fields [of s2 s]
  let ?F = "abs_free A3" and ?s3 = "s3\<lparr>c_slabs := head\<rparr>"
  let ?P = "?F # empty_table # map cc D" and ?A' = "with_pools A3 (abs_free A3 # empty_table # map cc D)"
  have "world.more s3 = world.more s2" using tr by simp
  note f3 = world_more_fields [OF this]
  have W: "arena_ok env s3 (abs_slabs A3) (abs_large A3)" "free_ok s3 (abs_slabs A3) heads ?F" "chain (slab_link s3) head (abs_slabs A3)"
    using t(2) by (auto simp: walk_ok_def heap_lists_def)
  have t3: "transfers_ok ?s3 (replicate 16 [])" using f3 by (intro transfers_ok_cong [OF empty]) simp_all
  have "block_next ?s3 = block_next s3" by (simp add: block_next_def fun_eq_iff)
  then have ch3: "chain (block_next ?s3) (heads ! j) (?F ! j)" if "j < 16" for j using free_okD(1) [OF W(2) that] by simp
  have len: "length ?F = 16" "length heads = 16" using W(2) by (auto simp: free_ok_def)
  from republish_all_spec [OF C(1) len(1) free_ok_distinct [OF W(1,2)] len(2) t3 ch3] obtain s4 where
    r: "republish_all env 16 0 heads ?s3 = Some s4" "transfers_ok s4 ?F" "transfer_step (set (concat ?F)) ?s3 s4" by blast
  note R = r(3) [unfolded transfer_step_def] and f4 = transfer_more_fields [of s4 ?s3]
  have mx4: "c_registry_mutex s4" using R f4 f3 S f2 mx by simp
  let ?s5 = "s4\<lparr>ticks := Suc (ticks s4), c_registry_mutex := False\<rparr>"
  have tc: "touched (set (concat ?F)) s3 ?s5" using R by (simp add: touched_def bshape_def fun_eq_iff)
  have cls: "class_table s3 (abs_slabs ?A') G" if "G \<in> set ?P" for G using ct(1) that unfolding pool_heap_def by blast
  have X: "set (concat ?F) \<subseteq> set (pool_blocks ?P)" by auto
  note pl = pool_relink [OF ct(1) tc X, of ?P, OF cls refl]
  have A': "with_pools ?A' ?P = ?A'" by simp
  have blk: "blocks ?s5 x = blocks s x" if "x \<in> set (pool_blocks (map cc D))" for x
  proof -
    have "distinct (pool_blocks ?P)" using ct(1) unfolding pool_heap_def by blast
    then have "x \<notin> set (concat ?F)" using that by auto
    then show ?thesis using R ct(4) [OF that] by simp
  qed
  have maps: "set (mappings s4) = {m \<in> set (mappings s). fst m \<notin> set dropped}" using R tr S by simp
  have ds: "descriptor_at ?s5 ?A' q (cc q)" if q: "q \<in> set D" for q
  proof -
    from C(6) [OF q] obtain e where e: "q \<noteq> NULL" "q \<notin> set (abs_slabs A)" "q \<notin> abs_large A" "descriptors s q = Some e"
      "dc_mapping_base e = q" "(q, dc_mapping_length e) \<in> set (mappings s)" "cache_ok s (dc_cache e) (cc q)"
      by (auto simp: descriptor_at_def)
    have "set (concat (cc q)) \<subseteq> set (pool_blocks (map cc D))" using q unfolding set_pool_map by blast
    then have "cache_ok ?s5 (dc_cache e) (cc q)" by (intro cache_ok_blocks [OF e(7)] blk) auto
    moreover have "q \<notin> set dropped" "q \<notin> set (abs_slabs A3)" "q \<notin> abs_large A3" using tr e(2,3) by auto
    moreover have "descriptors ?s5 q = Some e" using e(4) R f4 f3 S f2 by simp
    ultimately show ?thesis using e maps by (simp add: descriptor_at_def)
  qed
  have vars: "current_state ?s5 = current_state s" "current_descriptor ?s5 = current_descriptor s" "cache_key_values ?s5 = cache_key_values s"
    "c_slabs ?s5 = head" using R f4 f3 S f2 by simp_all
  have sl: "slab_link ?s5 = slab_link s3" using R by (simp add: slab_link_def fun_eq_iff)
  have t5: "transfers_ok ?s5 ?F" by (rule transfers_ok_cong [OF r(2)]) simp_all
  have "cached_core env ?s5 ?A' ?F empty_table D cc"
    unfolding cached_core_def using C(1,5) pl(1) [unfolded A'] t5 ds W(3) sl vars threads_ok_same [OF C(8), of ?s5] by simp
  moreover have "refused s A s3 ?A'" using ct(2,3) by (simp add: refused_def)
  moreover have "refused s3 ?A' ?s5 ?A'" using pl(2,3) unfolding A' by (simp add: refused_def)
  ultimately show thesis using that r(1) mx4 maps refused_trans by blast
qed

lemma cached_trim_spec:
  assumes inv: "cached_inv env s A"
  shows "\<exists>n s' A' dropped T. cached_trim_quiescent env s = Some (n, s') \<and> cached_inv env s' A' \<and> refused s A s' A' \<and>
    abs_slabs A' = filter (\<lambda>a. a \<notin> set dropped) (abs_slabs A) \<and> distinct dropped \<and> set dropped \<subseteq> set (abs_slabs A) \<and>
    set (mappings s') = {m \<in> set (mappings s). fst m \<notin> set dropped} \<and>
    unat n = min (SIZE_BOUND - 1) (length dropped * slab_bytes (sc_pagesize env)) \<and>
    transfers_ok s T \<and> (\<forall>a \<in> set dropped. set (slots_of s a) \<subseteq> set (concat T)) \<and>
    (unmap_reliable env \<longrightarrow> (\<forall>a \<in> set (abs_slabs A). set (slots_of s a) \<subseteq> set (concat T) \<longrightarrow> a \<in> set dropped))"
proof -
  from inv obtain T D cc where i: "\<not> c_registry_mutex s" "cached_core env s A T empty_table D cc"
    "\<forall>p \<in> set D. within_limits (cc p)" by (auto simp: cached_inv_def)
  note C = coreD [OF i(2)]
  let ?s1 = "s\<lparr>ticks := Suc (ticks s), c_registry_mutex := True\<rparr>"
  have core1: "cached_core env ?s1 A T empty_table D cc" and ref1: "refused s A ?s1 A" using core_quiet [of s ?s1] i(2) by simp_all
  note C1 = coreD [OF core1]
  from detach_all_spec [OF C1(1,4)] obtain ls s2 where d: "detach_all env 16 0 ?s1 = Some (ls, s2)" "length ls = 16"
    "\<forall>j < 16. list_ok s2 (ls ! j) (T ! j)" "transfers_ok s2 (replicate 16 [])" "transfer_step {} ?s1 s2" by blast
  note S = d(5) [unfolded transfer_step_def] and f2 = transfer_more_fields [of s2 ?s1]
  let ?B = "A\<lparr>abs_free := T\<rparr>" and ?heads = "map tl_first ls"
  have as: "arena_same ss L ?s1 s2" for ss L using S by (simp add: arena_same_def sshape_def)
  have "arena_ok env s2 (abs_slabs A) (abs_large A)" using S by (intro arena_ok_cong [OF C1(9) as]) simp
  moreover have "free_ok s2 (abs_slabs A) ?heads T"
  proof -
    have "class_table s2 (abs_slabs A) T" using C1(12) [of T] class_table_same [OF as] by simp
    then show ?thesis using d(2,3) by (simp add: free_ok_def list_ok_def class_table_def)
  qed
  moreover have "slab_link s2 = slab_link ?s1" using S by (simp add: slab_link_def fun_eq_iff)
  ultimately have "walk_ok env s2 (c_slabs s2) ?heads ?B" using C1(7) f2 S by (simp add: walk_ok_def heap_lists_def)
  from trim_loop_spec [OF C(2) this, of "[]" "abs_slabs A" 0] obtain n head heads s3 A3 dropped where
    t: "trim_loop env RegistryHead 0 (c_slabs s2) ?heads s2 = Some (n, head, heads, s3)" "walk_ok env s3 head heads A3"
    "trimmed env dropped s2 ?B s3 A3" "unat n = min (SIZE_BOUND - 1) (length dropped * slab_bytes (sc_pagesize env))"
    "unmap_reliable env \<longrightarrow> (\<forall>a \<in> set (abs_slabs A). idle s2 ?B a \<longrightarrow> a \<in> set dropped)" by (auto simp: walk_ref_def)
  note tr = t(3) [unfolded trimmed_def] and ct = core_trimmed [OF core1 d(5) t(3,2)]
  let ?A' = "with_pools A3 (abs_free A3 # empty_table # map cc D)"
  have mx1: "c_registry_mutex ?s1" by simp
  from core_republished [OF core1 d(5,4) t(3,2) mx1] obtain s4 where r: "republish_all env 16 0 heads (s3\<lparr>c_slabs := head\<rparr>) = Some s4"
    "c_registry_mutex s4"
    "cached_core env (s4\<lparr>ticks := Suc (ticks s4), c_registry_mutex := False\<rparr>) ?A' (abs_free A3) empty_table D cc"
    "refused ?s1 A (s4\<lparr>ticks := Suc (ticks s4), c_registry_mutex := False\<rparr>) ?A'"
    "set (mappings s4) = {m \<in> set (mappings ?s1). fst m \<notin> set dropped}" .
  let ?s5 = "s4\<lparr>ticks := Suc (ticks s4), c_registry_mutex := False\<rparr>"
  have run: "cached_trim_quiescent env s = Some (n, ?s5)"
    using cached_lock_ok [OF C(1) i(1)] d(1) t(1) r(1) cached_unlock_ok [OF C(2) r(2)] by (simp add: cached_trim_quiescent_def)
  have maps: "set (mappings ?s5) = {m \<in> set (mappings s). fst m \<notin> set dropped}" using r(5) by simp
  have "cached_inv env ?s5 ?A'" using r(3) by (rule cached_invI) (use i in simp_all)
  moreover have "refused s A ?s5 ?A'" by (rule refused_trans [OF ref1 r(4)])
  moreover have sl1: "slots_of ?s1 a = slots_of s a" "slots_of s2 a = slots_of s a" for a
    using S by (simp_all add: slots_of_def sshape_def)
  moreover have "a \<in> set dropped" if "unmap_reliable env" "a \<in> set (abs_slabs A)" "set (slots_of s a) \<subseteq> set (concat T)" for a
  proof -
    have "idle s2 ?B a" using that(3) by (auto simp: idle_def sl1 live_blocks_def free_blocks_def)
    with that t(5) show ?thesis by blast
  qed
  ultimately show ?thesis using run tr t(4) maps C(4) ct(5)
    by (intro exI [of _ n] exI [of _ ?s5] exI [of _ ?A'] exI [of _ dropped] exI [of _ T]) simp
qed

end
