(* ===== verification/Program.thy ===== *)
theory Program
  imports Cached_Threads Cached_Trim
begin

text \<open>
  Runs of a program with many threads on the cached allocator.  A run is a sequence of events: a
  thread makes a call or a store into one of the program's buffers, flushes its cache, trims, or
  ends.  Threads share the buffers: any thread may use or free what another one allocated.  Calls
  of different threads interleave whole, in any order; interleavings inside a call are the subject
  of \<open>Transfer_Atomic\<close>.
\<close>

section \<open>Runs\<close>

datatype event = Call nat call | Flush nat | Trim nat | Exit nat

fun program_step ::
  "os_env \<Rightarrow> pthread_env \<Rightarrow> event \<Rightarrow> cached_state \<times> buffers \<Rightarrow> (cached_state \<times> buffers) option" where
  "program_step env penv (Call tid c) st = client_step (cached_malloc env penv tid) (cached_free env penv tid) c st"
| "program_step env penv (Flush tid) (s, bufs) = do { s \<leftarrow> cached_thread_flush env tid s; Some (s, bufs) }"
| "program_step env penv (Trim tid) (s, bufs) = do { (_, s) \<leftarrow> cached_trim_quiescent env s; Some (s, bufs) }"
| "program_step env penv (Exit tid) (s, bufs) = do { s \<leftarrow> thread_exit env tid s; Some (s, bufs) }"

fun program_run ::
  "os_env \<Rightarrow> pthread_env \<Rightarrow> event list \<Rightarrow> cached_state \<times> buffers \<Rightarrow> (cached_state \<times> buffers) option" where
  "program_run env penv [] st = Some st"
| "program_run env penv (e # es) st = do { st \<leftarrow> program_step env penv e st; program_run env penv es st }"

section \<open>Every run is sound\<close>

definition start_abs :: heap_abs where
  "start_abs = \<lparr>abs_slabs = [], abs_large = {}, abs_free = replicate 32 []\<rparr>"

lemma start_pools: "with_pools start_abs [empty_table, empty_table] = start_abs"
  by (simp add: start_abs_def replicate_add [symmetric])

lemma cached_init_inv:
  assumes "cached_init s" and "transfer_lock_ok env" and "maps_ok env (mappings s)"
  shows "cached_inv env s start_abs" and "live_blocks s start_abs = {}"
proof -
  show live: "live_blocks s start_abs = {}"
    by (simp add: live_blocks_def start_abs_def arena_blocks_def small_blocks_def)
  have ar: "arena_ok env s [] {}" using assms(3) by (simp add: arena_ok_def)
  have "pool_heap env s start_abs [empty_table, empty_table]"
    using ar live start_pools by (simp add: pool_heap_def start_abs_def replicate_add [symmetric])
  moreover have "transfers_ok s empty_table" using assms(1) by (simp add: cached_init_def transfers_ok_def)
  moreover have "threads_ok s []" using assms(1) by (simp add: cached_init_def threads_ok_def)
  ultimately have "cached_core env s start_abs empty_table empty_table [] (\<lambda>p. [])"
    using assms by (simp add: cached_core_def cached_init_def start_abs_def)
  from cached_invI [OF this] assms(1) show "cached_inv env s start_abs" by (simp add: cached_init_def)
qed

lemma program_step_ok:
  assumes i: "cached_inv env s A" and b: "buffers_ok s A bufs"
  shows "\<exists>s' bufs' A'. program_step env penv e (s, bufs) = Some (s', bufs') \<and> cached_inv env s' A' \<and> buffers_ok s' A' bufs'"
proof -
  have ok: "os_ok env" using i by (auto simp: cached_inv_def dest: coreD(2))
  note keep = cached.buffers_ok_refused [OF ok i b]
  show ?thesis
  proof (cases e)
    case (Call tid c)
    with cached.client_step_ok [OF ok i b, of penv tid c] show ?thesis by simp
  next
    case (Flush tid)
    from cached_flush_spec [OF i, of tid] obtain s' A' where "cached_thread_flush env tid s = Some s'" "cached_inv env s' A'"
      "refused s A s' A'" by blast
    with Flush keep show ?thesis by auto
  next
    case (Trim tid)
    from cached_trim_spec [OF i] obtain n s' A' where "cached_trim_quiescent env s = Some (n, s')" "cached_inv env s' A'"
      "refused s A s' A'" by blast
    with Trim keep show ?thesis by auto
  next
    case (Exit tid)
    from cached_exit_spec [OF i, of tid] obtain s' A' where "thread_exit env tid s = Some s'" "cached_inv env s' A'"
      "refused s A s' A'" by blast
    with Exit keep show ?thesis by auto
  qed
qed

lemma program_run_ok:
  assumes "cached_inv env s A" and "buffers_ok s A bufs"
  shows "\<exists>s' bufs' A'. program_run env penv es (s, bufs) = Some (s', bufs') \<and> cached_inv env s' A' \<and> buffers_ok s' A' bufs' \<and>
    buffers_sound s' bufs'"
  using assms
proof (induction es arbitrary: s A bufs)
  case Nil
  then have "os_ok env" by (auto simp: cached_inv_def dest: coreD(2))
  with Nil cached.buffers_ok_sound show ?case by auto
next
  case (Cons e es)
  from program_step_ok [OF Cons.prems, of penv e] obtain s1 bufs1 A1 where
    "program_step env penv e (s, bufs) = Some (s1, bufs1)" "cached_inv env s1 A1" "buffers_ok s1 A1 bufs1" by blast
  with Cons.IH [of s1 A1 bufs1] show ?case by auto
qed

section \<open>Where a block can be\<close>

text \<open>Every block of a slab is live, in one shared chain or in one cache, and in no second place.\<close>

lemma inv_division:
  assumes "cached_inv env s A"
  obtains T D cc where "transfers_ok s T" "distinct D" "\<And>p. p \<in> set D \<Longrightarrow> within_limits (cc p)"
    "\<And>p. p \<in> set D \<Longrightarrow> \<exists>d. descriptors s p = Some d \<and> cache_ok s (dc_cache d) (cc p)"
    "\<And>t. current_state s t = HPLF_CACHE_ACTIVE \<Longrightarrow> current_descriptor s t \<in> set D"
    "distinct (concat T @ concat (map (\<lambda>p. concat (cc p)) D))"
    "small_blocks s (abs_slabs A) \<union> abs_large A = live_blocks s A \<union> set (concat T @ concat (map (\<lambda>p. concat (cc p)) D))"
    "live_blocks s A \<inter> set (concat T @ concat (map (\<lambda>p. concat (cc p)) D)) = {}"
proof -
  from assms obtain T D cc where core: "cached_core env s A T empty_table D cc" and lim: "\<forall>p \<in> set D. within_limits (cc p)"
    by (auto simp: cached_inv_def)
  note C = coreD [OF core]
  have pb: "pool_blocks (T # empty_table # map cc D) = concat T @ concat (map (\<lambda>p. concat (cc p)) D)"
    by (induction D) (auto simp: pool_blocks_def)
  have d: "distinct (pool_blocks (T # empty_table # map cc D))" using C(3) unfolding pool_heap_def by blast
  have sub: "set (pool_blocks (T # empty_table # map cc D)) \<subseteq> arena_blocks s (abs_slabs A) (abs_large A)"
    using pool_arena [OF C(3)] by blast
  show ?thesis
  proof (rule that [of T D cc])
    show "small_blocks s (abs_slabs A) \<union> abs_large A = live_blocks s A \<union> set (concat T @ concat (map (\<lambda>p. concat (cc p)) D))"
      "live_blocks s A \<inter> set (concat T @ concat (map (\<lambda>p. concat (cc p)) D)) = {}"
      using sub unfolding pool_live [OF C(3)] pb arena_blocks_def by blast+
    show "distinct (concat T @ concat (map (\<lambda>p. concat (cc p)) D))" using d unfolding pb .
    show "\<exists>d. descriptors s p = Some d \<and> cache_ok s (dc_cache d) (cc p)" if "p \<in> set D" for p
      using C(6) [OF that] by (auto simp: descriptor_at_def)
    show "current_descriptor s t \<in> set D" if "current_state s t = HPLF_CACHE_ACTIVE" for t
      using C(8) that by (simp add: threads_ok_def)
  qed (use C lim in auto)
qed

lemma active_cache:
  assumes "cached_inv env s A" and "current_state s t = HPLF_CACHE_ACTIVE"
  shows "\<exists>d F. descriptors s (current_descriptor s t) = Some d \<and> cache_ok s (dc_cache d) F \<and>
    (\<forall>i < 16. unat (tc_counts (dc_cache d) ! i) = length (F ! i) \<and> length (F ! i) \<le> 32) \<and>
    unat (total_slot_bytes (dc_cache d)) = cache_bytes F \<and> cache_bytes F \<le> 65536"
proof -
  from assms(1) obtain d F where d: "descriptors s (current_descriptor s t) = Some d" and c: "cache_ok s (dc_cache d) F"
    and w: "within_limits F"
    by (rule inv_division) (use assms(2) in blast)
  note u = within_limits_unat [OF c w]
  from u(1) [of 0] u(2) w d c show ?thesis by (auto simp: within_limits_def)
qed

text \<open>Runs that start where the program starts.\<close>

lemma program_start:
  assumes "cached_init s" and "transfer_lock_ok env" and "maps_ok env (mappings s)"
  obtains s' bufs' A' where "program_run env penv es (s, \<lambda>r. None) = Some (s', bufs')" "cached_inv env s' A'"
    "buffers_ok s' A' bufs'" "buffers_sound s' bufs'"
proof -
  have "buffers_ok s start_abs (\<lambda>r. None)" by (simp add: buffers_ok_def)
  from program_run_ok [OF cached_init_inv(1) [OF assms] this] that show ?thesis by blast
qed

end
