(* ===== verification/Cached_Snapshot.thy ===== *)
theory Cached_Snapshot
  imports Cached_Trim
begin

text \<open>
  \<open>hplf_cached_test_snapshot\<close>, the self-check of the cached allocator's testing build: it walks the
  slab registry, the calling thread's cache and the shared chains, and reports whether every free
  block lies in a registered slab of the right class and in exactly one place.

  The walks are shown to decide just that, on any lists that end and whatever blocks they hold
  (\<open>suspicious_decides\<close>, \<open>class_walk_spec\<close>, \<open>snapshot_run\<close>); the states that keep the invariant of the
  allocator are accepted (\<open>cached_snapshot_spec\<close>).
\<close>

section \<open>Definitions\<close>

record hplf_cached_test_snapshot =
  ts_slab_count :: size_t
  ts_total_slots :: size_t
  ts_shared_free_blocks :: size_t
  ts_current_local_blocks :: size_t
  ts_current_local_bytes :: size_t
  ts_live_blocks :: size_t
  ts_cache_counts_match :: bool
  ts_transfer_counts_match :: bool
  ts_unique_free_blocks :: bool

partial_function (option) belongs_loop :: "'a world_scheme \<Rightarrow> addr \<Rightarrow> addr \<Rightarrow> bool option" where
  "belongs_loop s block slab =
     (if slab = NULL then Some False
      else do {
        d \<leftarrow> slab_objs s slab;
        b \<leftarrow> blocks s block;
        o' \<leftarrow> owner_small (owner b);
        let first = slab + first_slot_offset d;
        if o' \<noteq> slab \<or> block < first then belongs_loop s block (slab_next d)
        else if slot_stride d = 0 then None
        else if (block - first) mod slot_stride d = 0 \<and> (block - first) div slot_stride d < slot_count d then Some True
        else belongs_loop s block (slab_next d)
      })"

definition hplf_cached_block_belongs_to_registry :: "addr \<Rightarrow> cached_state \<Rightarrow> bool option" where
  "hplf_cached_block_belongs_to_registry block s = belongs_loop s block (c_slabs s)"

partial_function (option) occurrences_chain :: "'a world_scheme \<Rightarrow> addr \<Rightarrow> addr \<Rightarrow> size_t \<Rightarrow> size_t option" where
  "occurrences_chain s candidate block n =
     (if block = NULL then Some n
      else do {
        b \<leftarrow> blocks s block;
        occurrences_chain s candidate (next_free b) (if block = candidate then n + 1 else n)
      })"

fun occurrences_loop :: "'a world_scheme \<Rightarrow> addr \<Rightarrow> addr list \<Rightarrow> size_t \<Rightarrow> size_t option" where
  "occurrences_loop s candidate [] n = Some n"
| "occurrences_loop s candidate (h # hs) n = do {
     n \<leftarrow> occurrences_chain s candidate h n;
     occurrences_loop s candidate hs n
   }"

definition hplf_cached_block_occurrences :: "addr \<Rightarrow> addr list \<Rightarrow> 'a world_scheme \<Rightarrow> size_t option" where
  "hplf_cached_block_occurrences candidate heads s = occurrences_loop s candidate heads 0"

text \<open>
  The test on a free block: \<open>||\<close> stops at the first disjunct that holds.  The last argument is the
  check of the lists in which the block must or must not occur.
\<close>

definition suspicious :: "addr \<Rightarrow> size_t \<Rightarrow> bool option \<Rightarrow> cached_state \<Rightarrow> bool option" where
  "suspicious block ci misplaced s = do {
     b \<leftarrow> blocks s block;
     if kind b \<noteq> HPLF_BLOCK_SMALL then Some True
     else do {
       r \<leftarrow> hplf_cached_block_belongs_to_registry block s;
       if \<not> r then Some True
       else do {
         o' \<leftarrow> owner_small (owner b);
         d \<leftarrow> slab_objs s o';
         if class_index d \<noteq> ci then Some True else misplaced
       }
     }
   }"

definition local_misplaced :: "addr \<Rightarrow> addr list \<Rightarrow> addr list \<Rightarrow> cached_state \<Rightarrow> bool option" where
  "local_misplaced block heads local_heads s = do {
     n \<leftarrow> hplf_cached_block_occurrences block heads s;
     if n \<noteq> 0 then Some True
     else do { n \<leftarrow> hplf_cached_block_occurrences block local_heads s; Some (n \<noteq> 1) }
   }"

definition shared_misplaced :: "addr \<Rightarrow> addr list \<Rightarrow> cached_state \<Rightarrow> bool option" where
  "shared_misplaced block heads s = do { n \<leftarrow> hplf_cached_block_occurrences block heads s; Some (n \<noteq> 1) }"

text \<open>The walks over the calling thread's list and the shared list of one class.\<close>

partial_function (option) local_walk :: "cached_state \<Rightarrow> size_t \<Rightarrow> addr list \<Rightarrow> addr list \<Rightarrow> addr \<Rightarrow> bool \<Rightarrow> bool option" where
  "local_walk s ci heads local_heads block unique =
     (if block = NULL then Some unique
      else do {
        bad \<leftarrow> suspicious block ci (local_misplaced block heads local_heads s) s;
        b \<leftarrow> blocks s block;
        local_walk s ci heads local_heads (next_free b) (if bad then False else unique)
      })"

partial_function (option) shared_walk ::
  "cached_state \<Rightarrow> size_t \<Rightarrow> addr list \<Rightarrow> addr \<Rightarrow> bool \<Rightarrow> size_t \<Rightarrow> (bool \<times> size_t) option" where
  "shared_walk s ci heads block unique traversed =
     (if block = NULL then Some (unique, traversed)
      else do {
        bad \<leftarrow> suspicious block ci (shared_misplaced block heads s) s;
        b \<leftarrow> blocks s block;
        shared_walk s ci heads (next_free b) (if bad then False else unique) (traversed + 1)
      })"

text \<open>The loop over the size classes; the second argument counts the classes that are left.\<close>

fun class_walk ::
  "cached_state \<Rightarrow> nat \<Rightarrow> size_t \<Rightarrow> hplf_transfer_list list \<Rightarrow> addr list \<Rightarrow> hplf_cached_test_snapshot \<Rightarrow>
   hplf_cached_test_snapshot option" where
  "class_walk s 0 ci ls local_heads sn = Some sn"
| "class_walk s (Suc k) ci ls local_heads sn = do {
     local_block \<leftarrow> array_read local_heads ci;
     list \<leftarrow> array_read ls ci;
     unique \<leftarrow> local_walk s ci (map tl_first ls) local_heads local_block (ts_unique_free_blocks sn);
     (unique, traversed) \<leftarrow> shared_walk s ci (map tl_first ls) (tl_first list) unique 0;
     class_walk s k (ci + 1) ls local_heads
       (sn\<lparr>ts_unique_free_blocks := unique,
           ts_transfer_counts_match := (if traversed \<noteq> tl_count list then False else ts_transfer_counts_match sn),
           ts_shared_free_blocks := ts_shared_free_blocks sn + traversed\<rparr>)
   }"

partial_function (option) registry_walk ::
  "'a world_scheme \<Rightarrow> addr \<Rightarrow> hplf_cached_test_snapshot \<Rightarrow> hplf_cached_test_snapshot option" where
  "registry_walk s slab sn =
     (if slab = NULL then Some sn
      else do {
        d \<leftarrow> slab_objs s slab;
        registry_walk s (slab_next d)
          (sn\<lparr>ts_slab_count := ts_slab_count sn + 1, ts_total_slots := ts_total_slots sn + slot_count d\<rparr>)
      })"

fun publish_all ::
  "os_env \<Rightarrow> nat \<Rightarrow> size_t \<Rightarrow> hplf_transfer_list list \<Rightarrow> 'a transfer_state_scheme \<Rightarrow> 'a transfer_state_scheme option" where
  "publish_all env 0 ci ls s = Some s"
| "publish_all env (Suc k) ci ls s = do {
     list \<leftarrow> array_read ls ci;
     (_, s) \<leftarrow> hplf_transfer_mutex_publish env ci list s;
     publish_all env k (ci + 1) ls s
   }"

text \<open>What the snapshot says of the calling thread's cache, and the heads of its lists.\<close>

definition snapshot_local ::
  "nat \<Rightarrow> cached_state \<Rightarrow> (hplf_cached_test_snapshot \<times> addr list) option" where
  "snapshot_local tid s =
     (let cache = hplf_cache_current tid s;
        sn = \<lparr>ts_slab_count = 0, ts_total_slots = 0, ts_shared_free_blocks = 0, ts_current_local_blocks = 0,
          ts_current_local_bytes = 0, ts_live_blocks = 0, ts_cache_counts_match = True,
          ts_transfer_counts_match = False, ts_unique_free_blocks = False\<rparr>
      in if cache = NULL then Some (sn, replicate 16 NULL)
      else do {
        d \<leftarrow> descriptors s cache;
        (match', local) \<leftarrow> hplf_thread_cache_snapshot_take (dc_cache d) s;
        Some (sn\<lparr>ts_cache_counts_match := match', ts_current_local_blocks := sum_list (sn_counts local),
          ts_current_local_bytes := sn_total_slot_bytes local\<rparr>, tc_heads (dc_cache d))
      })"

text \<open>The comparison of the totals.\<close>

definition snapshot_totals :: "hplf_cached_test_snapshot \<Rightarrow> bool \<times> hplf_cached_test_snapshot" where
  "snapshot_totals sn =
     (if ts_shared_free_blocks sn > ts_total_slots sn \<or>
         ts_current_local_blocks sn > ts_total_slots sn - ts_shared_free_blocks sn
      then (False, sn\<lparr>ts_unique_free_blocks := False\<rparr>)
      else (True, sn\<lparr>ts_live_blocks := ts_total_slots sn - ts_shared_free_blocks sn - ts_current_local_blocks sn\<rparr>))"

definition hplf_cached_test_snapshot_take ::
  "os_env \<Rightarrow> nat \<Rightarrow> cached_state \<Rightarrow> (bool \<times> hplf_cached_test_snapshot \<times> cached_state) option" where
  "hplf_cached_test_snapshot_take env tid s = do {
     (sn, local_heads) \<leftarrow> snapshot_local tid s;
     (e, s) \<leftarrow> cached_lock env s;
     if e \<noteq> 0 then Some (False, sn, s)
     else do {
       (ls, s) \<leftarrow> detach_all env 16 0 s;
       sn \<leftarrow> registry_walk s (c_slabs s) sn;
       sn \<leftarrow> class_walk s 16 0 ls local_heads (sn\<lparr>ts_transfer_counts_match := True, ts_unique_free_blocks := True\<rparr>);
       let (valid, sn) = snapshot_totals sn;
       s \<leftarrow> publish_all env 16 0 ls s;
       (_, s) \<leftarrow> cached_unlock env s;
       Some (valid \<and> ts_cache_counts_match sn \<and> ts_transfer_counts_match sn \<and> ts_unique_free_blocks sn, sn, s)
     }
   }"

section \<open>The walks\<close>

lemma occurrences_chain_spec:
  "chain (block_next s) p xs \<Longrightarrow> occurrences_chain s c p n = Some (n + word_of_nat (count_list xs c))"
proof (induction xs arbitrary: p n)
  case Nil
  then show ?case by (subst occurrences_chain.simps) simp
next
  case (Cons x xs)
  then obtain b where "blocks s x = Some b" "p = x" "x \<noteq> NULL" "chain (block_next s) (next_free b) xs"
    by (auto simp: block_next_Some)
  with Cons.IH [of "next_free b"] show ?case by (subst occurrences_chain.simps) (simp add: algebra_simps)
qed

lemma occurrences_loop_spec:
  assumes "length hs = length F" and "\<And>j. j < length F \<Longrightarrow> chain (block_next s) (hs ! j) (F ! j)"
  shows "occurrences_loop s c hs n = Some (n + word_of_nat (count_list (concat F) c))"
  using assms
proof (induction hs F arbitrary: n rule: list_induct2)
  case (Cons h hs xs F)
  have "chain (block_next s) h xs" using Cons.prems [of 0] by simp
  moreover have "chain (block_next s) (hs ! j) (F ! j)" if "j < length F" for j using Cons.prems [of "Suc j"] that by simp
  ultimately show ?case using Cons.IH by (simp add: occurrences_chain_spec add.assoc)
qed simp

lemma count_distinct: "distinct xs \<Longrightarrow> count_list xs x = (if x \<in> set xs then 1 else 0)"
  by (induction xs) auto

lemma distinct_count: "distinct xs \<longleftrightarrow> (\<forall>x \<in> set xs. count_list xs x = 1)"
  by (simp add: distinct_count_atmost_1 count_mset) (metis count_list_0_iff)

lemma count_concat_bound: "\<forall>xs \<in> set F. distinct xs \<Longrightarrow> count_list (concat F) x \<le> length F"
proof (induction F)
  case (Cons xs F)
  then have "count_list xs x \<le> 1" by (simp add: count_distinct)
  with Cons show ?case by simp
qed simp

text \<open>A block is in each null-terminated list at most once, so its number of occurrences fits a word.\<close>

lemma occurrences_spec:
  assumes "length hs = 16" and "length F = 16" and "\<And>j. j < 16 \<Longrightarrow> chain (block_next s) (hs ! j) (F ! j)"
  shows "\<exists>n. hplf_cached_block_occurrences c hs s = Some n \<and> unat n = count_list (concat F) c"
proof -
  have "distinct (F ! j)" if "j < 16" for j using assms(3) [OF that] by (rule chain_distinct)
  then have "\<forall>xs \<in> set F. distinct xs" using assms(2) by (metis in_set_conv_nth)
  then have "count_list (concat F) c \<le> 16" using count_concat_bound [of F c] assms(2) by simp
  then have "unat (word_of_nat (count_list (concat F) c) :: size_t) = count_list (concat F) c" by (intro unat_word_of_nat) simp
  moreover have "hplf_cached_block_occurrences c hs s = Some (word_of_nat (count_list (concat F) c))"
    using occurrences_loop_spec [of hs F s c 0] assms by (simp add: hplf_cached_block_occurrences_def)
  ultimately show ?thesis by blast
qed

lemma slab_link_Some: "slab_link s a = Some q \<longleftrightarrow> (\<exists>d. slab_objs s a = Some d \<and> q = slab_next d)"
  by (auto simp: slab_link_def)

lemma slot_in_registry:
  assumes ok: "os_ok env" and sl: "slab_ok env a d" and k: "k < unat (slot_count d)"
  defines "x \<equiv> slot_at a d k"
  shows "\<not> x < a + first_slot_offset d" and "slot_stride d \<noteq> 0" and "(x - (a + first_slot_offset d)) mod slot_stride d = 0"
    and "(x - (a + first_slot_offset d)) div slot_stride d < slot_count d"
proof -
  have st: "unat (slot_stride d) = 48 + unat (class_capacity d)" "first_slot_offset d = 64" using sl by (simp_all add: slab_ok_def)
  have x: "unat x = unat a + 64 + k * unat (slot_stride d)" using unat_slot_at [OF ok sl k] st by (simp add: x_def)
  have e: "64 + unat (slot_count d) * unat (slot_stride d) \<le> unat (mapping_length d)" using slots_end [OF ok sl] st by simp
  have ml: "unat a + unat (mapping_length d) \<le> SIZE_BOUND" using sl by (simp add: slab_ok_def)
  have pos: "0 < unat (slot_count d) * unat (slot_stride d)" using k st by simp
  have u64: "unat (64 :: size_t) = 64" by simp
  have "unat a + unat (64 :: size_t) < SIZE_BOUND" unfolding u64 using pos e ml by linarith
  then have a64: "unat (a + 64) = unat a + 64" by (subst unat_add_noverflow) simp_all
  show nl: "\<not> x < a + first_slot_offset d" using x a64 st by (simp add: size_t_less_iff)
  show "slot_stride d \<noteq> 0" using st(1) by auto
  have off: "unat (x - (a + first_slot_offset d)) = k * unat (slot_stride d)"
    using nl x a64 st by (subst unat_sub_le) (simp_all add: size_t_le_iff size_t_less_iff)
  show "(x - (a + first_slot_offset d)) mod slot_stride d = 0" using off by (simp add: size_t_eq_0_iff unat_mod)
  have "0 < unat (slot_stride d)" using st by simp
  then show "(x - (a + first_slot_offset d)) div slot_stride d < slot_count d"
    using off k by (simp add: size_t_less_iff unat_div)
qed

lemma slot_from_registry:
  assumes "(x - (a + first_slot_offset d)) mod slot_stride d = 0"
    and "(x - (a + first_slot_offset d)) div slot_stride d < slot_count d"
  shows "x \<in> set (slab_slots a d)"
proof -
  define q where "q = (x - (a + first_slot_offset d)) div slot_stride d"
  have "x - (a + first_slot_offset d) = q * slot_stride d"
    using assms(1) div_mult_mod_eq [of "x - (a + first_slot_offset d)" "slot_stride d"] by (simp add: q_def)
  then have "x = a + (first_slot_offset d + q * slot_stride d)" by (simp add: algebra_simps)
  then have "x = slot_at a d (unat q)" by (simp add: slot_at_def)
  moreover have "unat q < unat (slot_count d)" using assms(2) by (simp add: q_def size_t_less_iff)
  ultimately show ?thesis by (auto simp: in_slab_slots)
qed

text \<open>The walk over the registry decides whether a small block is a slot of a registered slab.\<close>

lemma belongs_decides:
  assumes ok: "os_ok env" and ch: "chain (slab_link s) head ss" and conf: "\<And>a. a \<in> set ss \<Longrightarrow> \<exists>d. slab_conf env s a d"
    and b: "blocks s x = Some b" "owner b = OwnerSmall o'"
  shows "belongs_loop s x head = Some (x \<in> small_blocks s ss)"
  using ch conf
proof (induction ss arbitrary: head)
  case Nil
  then show ?case by (subst belongs_loop.simps) (simp add: small_blocks_def)
next
  case (Cons c ss)
  from Cons.prems(1) obtain e where e: "slab_objs s c = Some e" "head = c" "c \<noteq> NULL" "chain (slab_link s) (slab_next e) ss"
    by (auto simp: slab_link_Some)
  from Cons.prems(2) obtain d where d: "slab_conf env s c d" by auto
  have f: "first_slot_offset e = first_slot_offset d" "slot_stride e = slot_stride d" "slot_count e = slot_count d"
    using d e(1) by (auto simp: slab_conf_def sshape_def)
  have sl: "slab_ok env c d" using d by (simp add: slab_conf_def)
  then have st: "slot_stride d \<noteq> 0" by (auto simp: slab_ok_def)
  have IH: "belongs_loop s x (slab_next e) = Some (x \<in> small_blocks s ss)" using Cons.IH [OF e(4)] Cons.prems(2) by simp
  have here: "x \<in> set (slab_slots c d) \<longleftrightarrow> o' = c \<and> \<not> x < c + first_slot_offset d \<and>
    (x - (c + first_slot_offset d)) mod slot_stride d = 0 \<and> (x - (c + first_slot_offset d)) div slot_stride d < slot_count d"
  proof
    assume "x \<in> set (slab_slots c d)"
    then obtain k where k: "k < unat (slot_count d)" "x = slot_at c d k" by (auto simp: in_slab_slots)
    with d b have "o' = c" by (auto simp: slab_conf_def bshape_def)
    with slot_in_registry [OF ok sl k(1)] k(2) show "o' = c \<and> \<not> x < c + first_slot_offset d \<and>
      (x - (c + first_slot_offset d)) mod slot_stride d = 0 \<and> (x - (c + first_slot_offset d)) div slot_stride d < slot_count d" by simp
  qed (use slot_from_registry [of x c d] in simp)
  have "belongs_loop s x head = (if x \<in> set (slab_slots c d) then Some True else belongs_loop s x (slab_next e))"
    using e b f st unfolding here by (subst belongs_loop.simps) (auto simp: Let_def)
  then show ?case unfolding IH by (simp add: small_blocks_def slots_of_conf [OF d])
qed

text \<open>
  A block of a list is typed when there is a block at its address and, if it is small, a slab at its
  owner's.  It may be of another class, large, in an unregistered slab, or listed twice.
\<close>

definition block_typed :: "cached_state \<Rightarrow> addr \<Rightarrow> bool" where
  "block_typed s x \<longleftrightarrow> (\<exists>b. blocks s x = Some b \<and>
     (kind b = HPLF_BLOCK_SMALL \<longrightarrow> (\<exists>a. owner b = OwnerSmall a \<and> slab_objs s a \<noteq> None)))"

lemma in_class_index:
  assumes ar: "arena_ok env s ss L" and x: "x \<in> small_blocks s ss" and b: "blocks s x = Some b" "owner b = OwnerSmall a"
    and d: "slab_objs s a = Some d"
  shows "in_class s ss (unat ci) x \<longleftrightarrow> class_index d = ci"
proof -
  have idx: "unat (class_index d) = i" if "in_class s ss i x" for i
  proof -
    from ar that obtain a' d' where c: "slab_conf env s a' d'" "unat (class_index d') = i"
      "bshape s x = Some (OwnerSmall a', class_capacity d', HPLF_BLOCK_SMALL)" by (rule in_class_owner)
    with b have "a' = a" by (simp add: bshape_def)
    with c d show ?thesis by (auto simp: slab_conf_def sshape_def)
  qed
  from ar x obtain a' d' where "slab_conf env s a' d'" "in_class s ss (unat (class_index d')) x" by (rule small_in_class)
  with idx [OF this(2)] have "in_class s ss (unat (class_index d)) x" by simp
  with idx [of "unat ci"] show ?thesis by (auto simp: word_unat_eq_iff)
qed

text \<open>A listed block passes exactly when it is a slot of a registered slab of its list's class.\<close>

lemma suspicious_decides:
  assumes ok: "os_ok env" and ar: "arena_ok env s ss L" and ch: "chain (slab_link s) (c_slabs s) ss" and ty: "block_typed s x"
  shows "suspicious x ci m s = (if in_class s ss (unat ci) x then m else Some True)"
proof -
  from ty obtain b where b: "blocks s x = Some b" "kind b = HPLF_BLOCK_SMALL \<Longrightarrow> \<exists>a. owner b = OwnerSmall a \<and> slab_objs s a \<noteq> None"
    by (auto simp: block_typed_def)
  show ?thesis
  proof (cases "kind b = HPLF_BLOCK_SMALL")
    case False
    then have "\<not> in_class s ss (unat ci) x" using b(1) by (auto simp: bshape_def elim!: in_class_owner [OF ar])
    with False b(1) show ?thesis by (simp add: suspicious_def)
  next
    case True
    from b(2) [OF True] obtain a d where a: "owner b = OwnerSmall a" "slab_objs s a = Some d" by auto
    have r: "hplf_cached_block_belongs_to_registry x s = Some (x \<in> small_blocks s ss)"
      unfolding hplf_cached_block_belongs_to_registry_def
      by (rule belongs_decides [OF ok ch _ b(1) a(1)]) (use ar in \<open>simp add: arena_ok_def\<close>)
    show ?thesis
    proof (cases "x \<in> small_blocks s ss")
      case False
      then have "\<not> in_class s ss (unat ci) x" using in_class_small [OF ar] by blast
      with False True b(1) r show ?thesis by (simp add: suspicious_def)
    next
      case in_reg: True
      with True a b(1) r in_class_index [OF ar in_reg b(1) a, of ci] show ?thesis by (simp add: suspicious_def)
    qed
  qed
qed

lemma local_walk_spec:
  assumes "chain (block_next s) p xs" and "\<And>x. x \<in> set xs \<Longrightarrow> suspicious x ci (local_misplaced x heads lh s) s = Some (\<not> good x)"
  shows "local_walk s ci heads lh p u = Some (u \<and> (\<forall>x \<in> set xs. good x))"
  using assms
proof (induction xs arbitrary: p u)
  case Nil
  then show ?case by (subst local_walk.simps) simp
next
  case (Cons x xs)
  then obtain b where "blocks s x = Some b" "p = x" "x \<noteq> NULL" "chain (block_next s) (next_free b) xs"
    by (auto simp: block_next_Some)
  with Cons show ?case by (subst local_walk.simps) auto
qed

lemma shared_walk_spec:
  assumes "chain (block_next s) p xs" and "\<And>x. x \<in> set xs \<Longrightarrow> suspicious x ci (shared_misplaced x heads s) s = Some (\<not> good x)"
  shows "shared_walk s ci heads p u n = Some (u \<and> (\<forall>x \<in> set xs. good x), n + word_of_nat (length xs))"
  using assms
proof (induction xs arbitrary: p u n)
  case Nil
  then show ?case by (subst shared_walk.simps) simp
next
  case (Cons x xs)
  then obtain b where "blocks s x = Some b" "p = x" "x \<noteq> NULL" "chain (block_next s) (next_free b) xs"
    by (auto simp: block_next_Some)
  with Cons show ?case by (subst shared_walk.simps) (auto simp: algebra_simps)
qed

lemma registry_walk_spec:
  assumes "chain (slab_link s) p ss" and "\<And>a. a \<in> set ss \<Longrightarrow> \<exists>d. slab_conf env s a d"
  shows "registry_walk s p sn = Some (sn\<lparr>ts_slab_count := ts_slab_count sn + word_of_nat (length ss),
    ts_total_slots := ts_total_slots sn + word_of_nat (length (concat (map (slots_of s) ss)))\<rparr>)"
  using assms
proof (induction ss arbitrary: p sn)
  case Nil
  then show ?case by (subst registry_walk.simps) simp
next
  case (Cons a ss)
  then obtain e where e: "slab_objs s a = Some e" "p = a" "a \<noteq> NULL" "chain (slab_link s) (slab_next e) ss"
    by (auto simp: slab_link_Some)
  from Cons.prems(2) obtain d where "slab_conf env s a d" by auto
  then have "length (slots_of s a) = unat (slot_count e)"
    using e(1) by (auto simp: slots_of_def slab_slots_def slab_conf_def sshape_def)
  with Cons.IH [OF e(4)] Cons.prems(2) e show ?case by (subst registry_walk.simps) (simp add: algebra_simps)
qed

text \<open>
  The blocks of the lists \<open>F\<close> of the caller's cache and of the shared lists \<open>T\<close> of one class are of that
  class and registered, and each is in exactly one place.
\<close>

definition class_filed :: "cached_state \<Rightarrow> addr list \<Rightarrow> addr list list \<Rightarrow> addr list list \<Rightarrow> nat \<Rightarrow> bool" where
  "class_filed s ss T F j \<longleftrightarrow>
     (\<forall>x \<in> set (F ! j). in_class s ss j x \<and> count_list (concat T) x = 0 \<and> count_list (concat F) x = 1) \<and>
     (\<forall>x \<in> set (T ! j). in_class s ss j x \<and> count_list (concat T) x = 1)"

lemma in_concat_nth: "length F = 16 \<Longrightarrow> x \<in> set (concat F) \<longleftrightarrow> (\<exists>j < 16. x \<in> set (F ! j))"
  by (simp only: set_concat UN_iff) (metis in_set_conv_nth)

lemma class_filed_all:
  assumes F: "length F = 16" and T: "length T = 16"
  shows "(\<forall>j < 16. class_filed s ss T F j) \<longleftrightarrow> class_table s ss F \<and> class_table s ss T \<and> distinct (concat F @ concat T)"
proof
  assume a: "\<forall>j < 16. class_filed s ss T F j"
  then have "count_list (concat T) x = 0 \<and> count_list (concat F) x = 1" if "x \<in> set (concat F)" for x
    using that unfolding in_concat_nth [OF F] class_filed_def by blast
  moreover have "count_list (concat T) x = 1" if "x \<in> set (concat T)" for x
    using a that unfolding in_concat_nth [OF T] class_filed_def by blast
  ultimately have "distinct (concat F)" "distinct (concat T)" "set (concat F) \<inter> set (concat T) = {}"
    unfolding distinct_count [of "concat F"] distinct_count [of "concat T"] by (auto simp: count_list_0_iff simp del: set_concat)
  with a F T show "class_table s ss F \<and> class_table s ss T \<and> distinct (concat F @ concat T)"
    by (simp add: class_table_def class_filed_def del: set_concat)
next
  assume a: "class_table s ss F \<and> class_table s ss T \<and> distinct (concat F @ concat T)"
  then have c: "count_list (concat F) x = (if x \<in> set (concat F) then 1 else 0)"
    "count_list (concat T) x = (if x \<in> set (concat T) then 1 else 0)" for x
    by (intro count_distinct; simp del: set_concat)+
  have i: "x \<in> set (concat F)" if "j < 16" "x \<in> set (F ! j)" for x j using that in_concat_nth [OF F] by blast
  have "x \<in> set (concat T)" if "j < 16" "x \<in> set (T ! j)" for x j using that in_concat_nth [OF T] by blast
  moreover have "x \<notin> set (concat T)" if "j < 16" "x \<in> set (F ! j)" for x j
    using a i [OF that] by (simp add: disjoint_iff del: set_concat)
  moreover have "in_class s ss j x" if "j < 16" "x \<in> set (F ! j) \<union> set (T ! j)" for x j
    using a that class_table_in by blast
  ultimately show "\<forall>j < 16. class_filed s ss T F j" using i unfolding class_filed_def c by simp
qed

lemma class_walk_spec:
  assumes ok: "os_ok env" and ar: "arena_ok env s ss L" and ch: "chain (slab_link s) (c_slabs s) ss"
    and T: "length ls = 16" "length T = 16" "\<And>j. j < 16 \<Longrightarrow> list_ok s (ls ! j) (T ! j)"
    and F: "length lh = 16" "length F = 16" "\<And>j. j < 16 \<Longrightarrow> chain (block_next s) (lh ! j) (F ! j)"
    and ty: "\<And>x. x \<in> set (concat F @ concat T) \<Longrightarrow> block_typed s x" and k: "idx + k = 16"
  shows "class_walk s k (word_of_nat idx) ls lh sn =
    Some (sn\<lparr>ts_unique_free_blocks := ts_unique_free_blocks sn \<and> (\<forall>j. idx \<le> j \<and> j < 16 \<longrightarrow> class_filed s ss T F j),
      ts_shared_free_blocks := ts_shared_free_blocks sn + word_of_nat (length (concat (drop idx T)))\<rparr>)"
  using k
proof (induction k arbitrary: idx sn)
  case 0
  then have none: "(\<forall>j. idx \<le> j \<and> j < 16 \<longrightarrow> class_filed s ss T F j) = True" by auto
  show ?case unfolding none using T(2) 0 by simp
next
  case (Suc k)
  have i: "idx < 16" using Suc.prems by simp
  have u: "unat (word_of_nat idx :: size_t) = idx" by (rule word_index [OF i])
  let ?heads = "map tl_first ls"
  have hs: "chain (block_next s) (?heads ! j) (T ! j)" if "j < 16" for j using T(1,3) that by (simp add: list_ok_def)
  have occ: "\<exists>n. hplf_cached_block_occurrences c ?heads s = Some n \<and> unat n = count_list (concat T) c"
    "\<exists>n. hplf_cached_block_occurrences c lh s = Some n \<and> unat n = count_list (concat F) c" for c
    using occurrences_spec [OF _ T(2) hs] occurrences_spec [OF F(1,2,3)] T(1) by simp_all
  have tyF: "block_typed s x" if "x \<in> set (F ! idx)" for x using ty in_concat_nth [OF F(2)] i that by fastforce
  have tyT: "block_typed s x" if "x \<in> set (T ! idx)" for x using ty in_concat_nth [OF T(2)] i that by fastforce
  let ?L = "\<lambda>x. in_class s ss idx x \<and> count_list (concat T) x = 0 \<and> count_list (concat F) x = 1"
  let ?S = "\<lambda>x. in_class s ss idx x \<and> count_list (concat T) x = 1"
  have lw: "local_walk s (word_of_nat idx) ?heads lh (lh ! idx) v = Some (v \<and> (\<forall>x \<in> set (F ! idx). ?L x))" for v
  proof (rule local_walk_spec [OF F(3) [OF i]])
    fix x assume x: "x \<in> set (F ! idx)"
    have "local_misplaced x ?heads lh s = Some (\<not> (count_list (concat T) x = 0 \<and> count_list (concat F) x = 1))"
      using occ [of x] by (auto simp: local_misplaced_def size_t_eq_0_iff word_unat_eq_iff)
    then show "suspicious x (word_of_nat idx) (local_misplaced x ?heads lh s) s = Some (\<not> ?L x)"
      using suspicious_decides [OF ok ar ch tyF [OF x], of "word_of_nat idx"] u by simp
  qed
  have sw: "shared_walk s (word_of_nat idx) ?heads (tl_first (ls ! idx)) v 0 =
      Some (v \<and> (\<forall>x \<in> set (T ! idx). ?S x), 0 + word_of_nat (length (T ! idx)))" for v
  proof (rule shared_walk_spec)
    show "chain (block_next s) (tl_first (ls ! idx)) (T ! idx)" using T(3) [OF i] by (simp add: list_ok_def)
    fix x assume x: "x \<in> set (T ! idx)"
    have "shared_misplaced x ?heads s = Some (\<not> count_list (concat T) x = 1)"
      using occ(1) [of x] by (auto simp: shared_misplaced_def word_unat_eq_iff)
    then show "suspicious x (word_of_nat idx) (shared_misplaced x ?heads s) s = Some (\<not> ?S x)"
      using suspicious_decides [OF ok ar ch tyT [OF x], of "word_of_nat idx"] u by simp
  qed
  have cnt: "tl_count (ls ! idx) = word_of_nat (length (T ! idx))" using T(3) [OF i] by (simp add: list_ok_def)
  have tail: "length (concat (drop idx T)) = length (T ! idx) + length (concat (drop (Suc idx) T))"
    using i T(2) by (simp add: Cons_nth_drop_Suc [symmetric])
  have here: "class_filed s ss T F idx \<longleftrightarrow> (\<forall>x \<in> set (F ! idx). ?L x) \<and> (\<forall>x \<in> set (T ! idx). ?S x)" by (simp add: class_filed_def)
  have all: "(\<forall>j. idx \<le> j \<and> j < 16 \<longrightarrow> class_filed s ss T F j) \<longleftrightarrow>
      class_filed s ss T F idx \<and> (\<forall>j. Suc idx \<le> j \<and> j < 16 \<longrightarrow> class_filed s ss T F j)"
    using i by (auto simp: Suc_le_eq dest: le_neq_implies_less)
  show ?case using Suc.IH [of "Suc idx"] Suc.prems u T(1) F(1) i lw sw cnt
    unfolding all here tail by (simp add: array_read_def algebra_simps conj_ac)
qed

text \<open>
  Publishing a detached list to a class whose shared list is empty restores the list, and writes no
  block: the last link is null already.
\<close>

lemma publish_back:
  assumes ok: "transfer_lock_ok env" and mx: "\<not> transfer_mutex s" "length (transfer_heads s) = 16"
    and ci: "unat ci < 16" "transfer_heads s ! unat ci = NULL" and l: "list_ok s l xs"
  shows "\<exists>l' s'. hplf_transfer_mutex_publish env ci l s = Some (l', s') \<and> \<not> transfer_mutex s' \<and>
    transfer_heads s' = (transfer_heads s)[unat ci := tl_first l] \<and> transfer_step {} s s'"
proof (cases xs rule: rev_cases)
  case Nil
  then have "tl_first l = NULL" using l by (simp add: list_ok_def)
  moreover have "transfer_heads s = (transfer_heads s)[unat ci := NULL]" using ci(2) list_update_id [of "transfer_heads s" "unat ci"] by simp
  ultimately show ?thesis using mx by (simp add: hplf_transfer_mutex_publish_def)
next
  case (snoc ys z)
  have c: "chain (block_next s) (tl_first l) (ys @ [z])" and lst: "tl_last l = z" using l snoc by (auto simp: list_ok_def)
  have nn: "tl_first l \<noteq> NULL" using chain_first [OF c] by simp
  from chain_suffix_unique [OF c] obtain b where b: "blocks s z = Some b" "next_free b = NULL" by (auto simp: block_next_Some)
  then have "(blocks s)(z \<mapsto> b\<lparr>next_free := NULL\<rparr>) = blocks s" by (auto simp: fun_eq_iff)
  then show ?thesis using nn lst b mx ci ok
    by (simp add: hplf_transfer_mutex_publish_def lock_held unlock_held set_next_free_def update_block_def transfer_step_def
        bshape_def fun_eq_iff)
qed

lemma publish_all_back:
  assumes ok: "transfer_lock_ok env" and ls: "length ls = 16"
  shows "\<not> transfer_mutex s \<Longrightarrow> length (transfer_heads s) = 16 \<Longrightarrow> idx + k = 16 \<Longrightarrow>
    (\<And>j. j < 16 \<Longrightarrow> list_ok s (ls ! j) (T ! j)) \<Longrightarrow> (\<And>j. idx \<le> j \<Longrightarrow> j < 16 \<Longrightarrow> transfer_heads s ! j = NULL) \<Longrightarrow>
    \<exists>s'. publish_all env k (word_of_nat idx) ls s = Some s' \<and> \<not> transfer_mutex s' \<and> length (transfer_heads s') = 16 \<and>
      (\<forall>j < 16. transfer_heads s' ! j = (if j < idx then transfer_heads s ! j else tl_first (ls ! j))) \<and> transfer_step {} s s'"
proof (induction k arbitrary: idx s)
  case 0
  then show ?case by simp
next
  case (Suc k)
  have i: "idx < 16" using Suc.prems(3) by simp
  note u = word_index [OF i]
  have h: "transfer_heads s ! unat (word_of_nat idx :: size_t) = NULL" using Suc.prems(5) [of idx] i u by simp
  from publish_back [OF ok Suc.prems(1,2) _ h Suc.prems(4) [OF i]] i u obtain l1 s1 where
    p: "hplf_transfer_mutex_publish env (word_of_nat idx) (ls ! idx) s = Some (l1, s1)" "\<not> transfer_mutex s1"
      "transfer_heads s1 = (transfer_heads s)[idx := tl_first (ls ! idx)]" "transfer_step {} s s1" by auto
  have "blocks s1 = blocks s" using p(4) by (simp add: transfer_step_def fun_eq_iff)
  then have bn: "block_next s1 = block_next s" by (simp add: block_next_def fun_eq_iff)
  have "\<exists>s'. publish_all env k (word_of_nat (Suc idx)) ls s1 = Some s' \<and> \<not> transfer_mutex s' \<and> length (transfer_heads s') = 16 \<and>
      (\<forall>j < 16. transfer_heads s' ! j = (if j < Suc idx then transfer_heads s1 ! j else tl_first (ls ! j))) \<and> transfer_step {} s1 s'"
    by (rule Suc.IH) (use Suc.prems p i in \<open>simp_all add: list_ok_cong [OF bn]\<close>)
  then obtain s' where r: "publish_all env k (word_of_nat (Suc idx)) ls s1 = Some s'" "\<not> transfer_mutex s'"
    "length (transfer_heads s') = 16" "transfer_step {} s1 s'"
    "\<forall>j < 16. transfer_heads s' ! j = (if j < Suc idx then transfer_heads s1 ! j else tl_first (ls ! j))" by blast
  have "publish_all env (Suc k) (word_of_nat idx) ls s = Some s'"
    using ls i u p(1) r(1) by (simp add: array_read_def add.commute)
  moreover have "\<forall>j < 16. transfer_heads s' ! j = (if j < idx then transfer_heads s ! j else tl_first (ls ! j))"
    using r(5) p(3) Suc.prems(2) by (auto simp: nth_list_update less_Suc_eq)
  ultimately show ?case using r(2-4) transfer_step_trans [OF p(4) r(4), of "{}"] by auto
qed

section \<open>Counting\<close>

lemma slots_distinct:
  assumes ok: "os_ok env" and ar: "arena_ok env s ss L"
  shows "distinct (concat (map (slots_of s) ss))" and "set (concat (map (slots_of s) ss)) = small_blocks s ss"
proof -
  show "set (concat (map (slots_of s) ss)) = small_blocks s ss" by (simp add: small_blocks_def)
  have conf: "\<exists>d. slab_conf env s a d" if "a \<in> set ss" for a using ar that by (simp add: arena_ok_def)
  have one: "distinct (slots_of s a)" if "a \<in> set ss" for a
    using conf [OF that] slab_slots_distinct [OF ok] by (auto simp: slots_of_conf slab_conf_def)
  have two: "set (slots_of s a) \<inter> set (slots_of s b) = {}" if ab: "a \<in> set ss" "b \<in> set ss" "a \<noteq> b" for a b
  proof -
    from conf ab obtain d e where d: "slab_conf env s a d" "slab_conf env s b e" by blast
    then have "slab_of s x = Some a" if "x \<in> set (slots_of s a)" for x using that by (simp add: slots_of_conf slab_of_slots)
    moreover have "slab_of s x = Some b" if "x \<in> set (slots_of s b)" for x using that d by (simp add: slots_of_conf slab_of_slots)
    ultimately show ?thesis using ab(3) by fastforce
  qed
  have "distinct ss" using ar by (simp add: arena_ok_def)
  then show "distinct (concat (map (slots_of s) ss))" using one two
  proof (induction ss)
    case (Cons a ss)
    have "set (slots_of s a) \<inter> set (slots_of s b) = {}" if "b \<in> set ss" for b using that Cons.prems(1) Cons.prems(3) [of a b] by auto
    then have "set (slots_of s a) \<inter> set (concat (map (slots_of s) ss)) = {}" by auto
    with Cons show ?case by simp
  qed simp
qed

lemma distinct_addresses: "distinct xs \<Longrightarrow> NULL \<notin> set xs \<Longrightarrow> length (xs :: addr list) < SIZE_BOUND"
proof -
  assume d: "distinct xs" and n: "NULL \<notin> set xs"
  have "card (set (NULL # xs)) \<le> card (UNIV :: addr set)" by (intro card_mono) simp_all
  then show ?thesis using d n distinct_card [of "NULL # xs"] by (simp add: card_word)
qed

lemma cache_counts_sum:
  fixes F :: "addr list list"
  assumes "length C = 16" and "length F = 16" and "\<forall>j < 16. C ! j = (word_of_nat (length (F ! j)) :: size_t)"
  shows "sum_list C = word_of_nat (length (concat F))"
proof -
  have "C = map (\<lambda>xs. word_of_nat (length xs)) F" using assms by (auto intro: nth_equalityI)
  moreover have "sum_list (map (\<lambda>xs. word_of_nat (length xs)) G) = (word_of_nat (length (concat G)) :: size_t)" for G :: "addr list list"
    by (induction G) simp_all
  ultimately show ?thesis by simp
qed

section \<open>What the self-check decides\<close>

text \<open>The lists of the calling thread's cache, whatever its counters say; and what they should say.\<close>

definition local_lists :: "cached_state \<Rightarrow> nat \<Rightarrow> addr list list \<Rightarrow> bool" where
  "local_lists s tid F \<longleftrightarrow> length F = 16 \<and>
     (if hplf_cache_current tid s = NULL then F = empty_table
      else \<exists>d. descriptors s (hplf_cache_current tid s) = Some d \<and> length (tc_heads (dc_cache d)) = 16 \<and>
        length (tc_counts (dc_cache d)) = 16 \<and> (\<forall>j < 16. chain (block_next s) (tc_heads (dc_cache d) ! j) (F ! j)))"

definition counters_match :: "cached_state \<Rightarrow> nat \<Rightarrow> addr list list \<Rightarrow> bool" where
  "counters_match s tid F \<longleftrightarrow> (\<forall>d. hplf_cache_current tid s \<noteq> NULL \<longrightarrow> descriptors s (hplf_cache_current tid s) = Some d \<longrightarrow>
     (\<forall>j < 16. tc_counts (dc_cache d) ! j = word_of_nat (length (F ! j))) \<and>
     total_slot_bytes (dc_cache d) = word_of_nat (cache_bytes F))"

text \<open>
  A state the self-check can be called in: the mutexes are free, the registry is a list of well-formed
  slabs, and the shared lists \<open>T\<close> and the caller's lists \<open>F\<close> end.  Nothing is assumed of which blocks
  they hold and how often, or of the counters.
\<close>

definition snapshot_ready ::
  "os_env \<Rightarrow> nat \<Rightarrow> cached_state \<Rightarrow> addr list \<Rightarrow> addr set \<Rightarrow> addr list list \<Rightarrow> addr list list \<Rightarrow> bool" where
  "snapshot_ready env tid s ss L T F \<longleftrightarrow> transfer_lock_ok env \<and> \<not> c_registry_mutex s \<and> arena_ok env s ss L \<and>
     chain (slab_link s) (c_slabs s) ss \<and> transfers_ok s T \<and> local_lists s tid F \<and>
     (\<forall>x \<in> set (concat F @ concat T). block_typed s x)"

lemma snapshot_local_spec:
  assumes "local_lists s tid F"
  shows "\<exists>sn lh. snapshot_local tid s = Some (sn, lh) \<and> ts_slab_count sn = 0 \<and> ts_total_slots sn = 0 \<and>
    ts_shared_free_blocks sn = 0 \<and> ts_cache_counts_match sn = counters_match s tid F \<and>
    (counters_match s tid F \<longrightarrow> ts_current_local_blocks sn = word_of_nat (length (concat F))) \<and>
    length lh = 16 \<and> (\<forall>j < 16. chain (block_next s) (lh ! j) (F ! j))"
proof (cases "hplf_cache_current tid s = NULL")
  case True
  then show ?thesis using assms by (simp add: snapshot_local_def local_lists_def counters_match_def)
next
  case False
  with assms obtain d where d: "descriptors s (hplf_cache_current tid s) = Some d" "length (tc_heads (dc_cache d)) = 16"
    "length (tc_counts (dc_cache d)) = 16" "\<forall>j < 16. chain (block_next s) (tc_heads (dc_cache d) ! j) (F ! j)" "length F = 16"
    by (auto simp: local_lists_def)
  have "counters_match s tid F \<longleftrightarrow> (\<forall>j < 16. tc_counts (dc_cache d) ! j = word_of_nat (length (F ! j))) \<and>
      word_of_nat (cache_bytes F) = total_slot_bytes (dc_cache d)" using False d(1) by (auto simp: counters_match_def)
  with cache_snapshot_spec [OF d(2-4)] cache_counts_sum [OF d(3,5)] False d show ?thesis
    by (simp add: snapshot_local_def Let_def)
qed

lemma snapshot_totals_spec:
  assumes "n < SIZE_BOUND" and "sh + lo \<le> n"
    and "ts_total_slots sn = word_of_nat n" "ts_shared_free_blocks sn = word_of_nat sh" "ts_current_local_blocks sn = word_of_nat lo"
  shows "\<exists>v. snapshot_totals sn = (True, sn\<lparr>ts_live_blocks := v\<rparr>) \<and> sh + lo + unat v = n"
    and "unat (ts_total_slots sn) = n" "unat (ts_shared_free_blocks sn) = sh" "unat (ts_current_local_blocks sn) = lo"
proof -
  let ?t = "ts_total_slots sn" and ?sh = "ts_shared_free_blocks sn" and ?lo = "ts_current_local_blocks sn"
  have "unat (word_of_nat n :: size_t) = n" "unat (word_of_nat sh :: size_t) = sh" "unat (word_of_nat lo :: size_t) = lo"
    using assms(1,2) by (intro unat_word_of_nat; linarith)+
  then show u: "unat ?t = n" "unat ?sh = sh" "unat ?lo = lo" using assms(3-) by simp_all
  have 1: "unat (?t - ?sh) = n - sh" using u assms(2) by (subst unat_sub_le) (simp_all only: size_t_le_iff)
  have 2: "unat (?t - ?sh - ?lo) = n - sh - lo" using u 1 assms(2) by (subst unat_sub_le) (simp_all only: size_t_le_iff)
  have no: "\<not> ?sh > ?t" "\<not> ?lo > ?t - ?sh" using u 1 assms(2) unfolding size_t_less_iff by linarith+
  have "snapshot_totals sn = (True, sn\<lparr>ts_live_blocks := ?t - ?sh - ?lo\<rparr>)" using no by (simp add: snapshot_totals_def)
  then show "\<exists>v. snapshot_totals sn = (True, sn\<lparr>ts_live_blocks := v\<rparr>) \<and> sh + lo + unat v = n"
    using 2 assms(2) by (intro exI [of _ "?t - ?sh - ?lo"]) simp
qed

lemma snapshot_totals_flags:
  "snapshot_totals sn = (v, sn') \<Longrightarrow> ts_cache_counts_match sn' = ts_cache_counts_match sn \<and>
     ts_transfer_counts_match sn' = ts_transfer_counts_match sn \<and> (ts_unique_free_blocks sn' \<longrightarrow> ts_unique_free_blocks sn)"
  by (auto simp: snapshot_totals_def split: if_splits)

text \<open>Blocks that are filed correctly are different slots of the registry, so the totals add up.\<close>

lemma filed_bound:
  assumes ok: "os_ok env" and ar: "arena_ok env s ss L"
    and cl: "class_table s ss F" "class_table s ss T" and d: "distinct (concat F @ concat T)"
  shows "length (concat T) + length (concat F) \<le> length (concat (map (slots_of s) ss))"
proof -
  have sub: "set (concat F @ concat T) \<subseteq> small_blocks s ss"
    using class_table_member [OF _ cl(1)] class_table_member [OF _ cl(2)] in_class_small [OF ar] by fastforce
  have "length (concat F @ concat T) = card (set (concat F @ concat T))" using distinct_card [OF d] by simp
  also have "\<dots> \<le> card (set (concat (map (slots_of s) ss)))"
    using sub unfolding slots_distinct(2) [OF ok ar, symmetric] by (intro card_mono) simp_all
  finally show ?thesis using distinct_card [OF slots_distinct(1) [OF ok ar]] by simp
qed

lemma slots_bound:
  assumes ok: "os_ok env" and ar: "arena_ok env s ss L"
  shows "length (concat (map (slots_of s) ss)) < SIZE_BOUND"
    and "card (small_blocks s ss) = length (concat (map (slots_of s) ss))"
proof -
  note sd = slots_distinct [OF ok ar]
  have "NULL \<notin> set (concat (map (slots_of s) ss))" unfolding sd(2) using block_facts(1) [OF ok ar] by (auto simp: arena_blocks_def)
  then show "length (concat (map (slots_of s) ss)) < SIZE_BOUND" by (rule distinct_addresses [OF sd(1)])
  show "card (small_blocks s ss) = length (concat (map (slots_of s) ss))" using distinct_card [OF sd(1)] unfolding sd(2) by simp
qed

text \<open>The walks of one run, over the registry and the detached lists.\<close>

lemma snapshot_walks:
  assumes rdy: "snapshot_ready env tid s ss L T F" and st: "transfer_step {} (s\<lparr>ticks := n, c_registry_mutex := True\<rparr>) s2"
    and ls: "length ls = 16" "\<forall>j < 16. list_ok s2 (ls ! j) (T ! j)"
    and lh: "length lh = 16" "\<forall>j < 16. chain (block_next s) (lh ! j) (F ! j)"
  shows "registry_walk s2 (c_slabs s2) sn = Some (sn\<lparr>ts_slab_count := ts_slab_count sn + word_of_nat (length ss),
      ts_total_slots := ts_total_slots sn + word_of_nat (card (small_blocks s ss))\<rparr>)"
    and "class_walk s2 16 0 ls lh sn = Some (sn\<lparr>ts_unique_free_blocks := ts_unique_free_blocks sn \<and>
        class_table s ss F \<and> class_table s ss T \<and> distinct (concat F @ concat T),
      ts_shared_free_blocks := ts_shared_free_blocks sn + word_of_nat (length (concat T))\<rparr>)"
proof -
  note R = rdy [unfolded snapshot_ready_def] and S = st [unfolded transfer_step_def]
  then have env: "os_ok env" and ar: "arena_ok env s ss L" and F: "length F = 16" "length T = 16"
    by (auto simp: transfer_lock_ok_def local_lists_def transfers_ok_def)
  from S have "transfer_state.more s2 = transfer_state.more (s\<lparr>ticks := n, c_registry_mutex := True\<rparr>)" by blast
  note f2 = transfer_more_fields [OF this]
  have same: "blocks s2 = blocks s" "slab_objs s2 = slab_objs s" "mappings s2 = mappings s" "c_slabs s2 = c_slabs s"
    using S f2 by (simp_all add: fun_eq_iff)
  have as: "arena_same ss L s s2" for ss L using same by (simp add: arena_same_def sshape_def bshape_def)
  have eqs: "block_next s2 = block_next s" "slab_link s2 = slab_link s" "slots_of s2 = slots_of s" "block_typed s2 = block_typed s"
    using same by (simp_all add: block_next_def slab_link_def slots_of_def sshape_def block_typed_def fun_eq_iff)
  have ar2: "arena_ok env s2 ss L" by (rule arena_ok_cong [OF ar as same(3)])
  have ch2: "chain (slab_link s2) (c_slabs s2) ss" using R unfolding eqs same by blast
  have conf2: "\<exists>d. slab_conf env s2 a d" if "a \<in> set ss" for a using ar2 that by (simp add: arena_ok_def)
  show "registry_walk s2 (c_slabs s2) sn = Some (sn\<lparr>ts_slab_count := ts_slab_count sn + word_of_nat (length ss),
      ts_total_slots := ts_total_slots sn + word_of_nat (card (small_blocks s ss))\<rparr>)"
    using registry_walk_spec [OF ch2 conf2, of sn] unfolding eqs slots_bound(2) [OF env ar] .
  have ls2: "\<And>j. j < 16 \<Longrightarrow> list_ok s2 (ls ! j) (T ! j)" and lh2: "\<And>j. j < 16 \<Longrightarrow> chain (block_next s2) (lh ! j) (F ! j)"
    and ty2: "\<And>x. x \<in> set (concat F @ concat T) \<Longrightarrow> block_typed s2 x" using ls(2) lh(2) R unfolding eqs by blast+
  have "(\<forall>j. 0 \<le> j \<and> j < 16 \<longrightarrow> class_filed s2 ss T F j) \<longleftrightarrow>
      class_table s ss F \<and> class_table s ss T \<and> distinct (concat F @ concat T)"
    using class_filed_all [OF F, of s2 ss] class_table_same [OF as] by simp
  from class_walk_spec [OF env ar2 ch2 ls(1) F(2) ls2 lh(1) F(1) lh2 ty2, of 0 16 sn, unfolded this]
  show "class_walk s2 16 0 ls lh sn = Some (sn\<lparr>ts_unique_free_blocks := ts_unique_free_blocks sn \<and>
        class_table s ss F \<and> class_table s ss T \<and> distinct (concat F @ concat T),
      ts_shared_free_blocks := ts_shared_free_blocks sn + word_of_nat (length (concat T))\<rparr>)" by simp
qed

lemma lists_published:
  assumes ok: "transfer_lock_ok env" and ls: "length ls = 16" "\<forall>j < 16. list_ok s (ls ! j) (T ! j)"
    and T: "length T = 16" "transfers_ok s (replicate 16 [])"
  shows "\<exists>s'. publish_all env 16 0 ls s = Some s' \<and> transfers_ok s' T \<and> transfer_step {} s s'"
proof -
  have "\<exists>s'. publish_all env 16 (word_of_nat 0) ls s = Some s' \<and> \<not> transfer_mutex s' \<and> length (transfer_heads s') = 16 \<and>
      (\<forall>j < 16. transfer_heads s' ! j = (if j < 0 then transfer_heads s ! j else tl_first (ls ! j))) \<and> transfer_step {} s s'"
    by (rule publish_all_back [OF ok ls(1), where T = T]) (use ls(2) T(2) in \<open>auto simp: transfers_ok_def\<close>)
  then obtain s' where p: "publish_all env 16 0 ls s = Some s'" "\<not> transfer_mutex s'" "length (transfer_heads s') = 16"
    "\<forall>j < 16. transfer_heads s' ! j = tl_first (ls ! j)" "transfer_step {} s s'" by auto
  have "block_next s' = block_next s" using p(5) by (simp add: transfer_step_def block_next_def fun_eq_iff)
  then have "transfers_ok s' T" using p(2-4) ls(2) T(1) by (simp add: transfers_ok_def list_ok_def)
  with p show ?thesis by blast
qed

text \<open>
  One run of the self-check.  It returns from every state it can be called in, gives the shared lists
  back and writes no block; it accepts exactly when the counters of the caller's cache are right, every
  listed block is a slot of a registered slab of its list's class, and no block is listed twice.
\<close>

lemma snapshot_run:
  assumes rdy: "snapshot_ready env tid s ss L T F"
  defines "N \<equiv> card (small_blocks s ss)"
    and "ok \<equiv> counters_match s tid F \<and> class_table s ss F \<and> class_table s ss T \<and> distinct (concat F @ concat T)"
  shows "\<exists>sn s1. hplf_cached_test_snapshot_take env tid s =
      Some (ok, sn, s1\<lparr>ticks := Suc (ticks s1), c_registry_mutex := False\<rparr>) \<and>
    transfers_ok s1 T \<and> transfer_step {} (s\<lparr>ticks := Suc (ticks s), c_registry_mutex := True\<rparr>) s1 \<and>
    (ok \<longrightarrow> unat (ts_total_slots sn) = N \<and> unat (ts_shared_free_blocks sn) = length (concat T) \<and>
      unat (ts_current_local_blocks sn) = length (concat F) \<and>
      length (concat T) + length (concat F) + unat (ts_live_blocks sn) = N)"
proof -
  note R = rdy [unfolded snapshot_ready_def]
  then have env: "transfer_lock_ok env" "os_ok env" and ar: "arena_ok env s ss L" and T: "transfers_ok s T"
    and lenT: "length T = 16" by (auto simp: transfer_lock_ok_def transfers_ok_def)
  from R obtain sn lh where l: "snapshot_local tid s = Some (sn, lh)" "ts_slab_count sn = 0" "ts_total_slots sn = 0"
    "ts_shared_free_blocks sn = 0" "ts_cache_counts_match sn = counters_match s tid F"
    "counters_match s tid F \<longrightarrow> ts_current_local_blocks sn = word_of_nat (length (concat F))"
    "length lh = 16" "\<forall>j < 16. chain (block_next s) (lh ! j) (F ! j)" using snapshot_local_spec [of s tid F] by blast
  have "transfers_ok (s\<lparr>ticks := Suc (ticks s), c_registry_mutex := True\<rparr>) T" by (rule transfers_ok_cong [OF T]) simp_all
  from detach_all_spec [OF env(1) this] obtain ls s2 where
    d: "detach_all env 16 0 (s\<lparr>ticks := Suc (ticks s), c_registry_mutex := True\<rparr>) = Some (ls, s2)" "length ls = 16"
    "\<forall>j < 16. list_ok s2 (ls ! j) (T ! j)" "transfers_ok s2 (replicate 16 [])"
    "transfer_step {} (s\<lparr>ticks := Suc (ticks s), c_registry_mutex := True\<rparr>) s2" by blast
  note W = snapshot_walks [OF rdy d(5,2,3) l(7,8), folded N_def]
  let ?sn2 = "sn\<lparr>ts_slab_count := word_of_nat (length ss), ts_total_slots := word_of_nat N\<rparr>"
  let ?filed = "class_table s ss F \<and> class_table s ss T \<and> distinct (concat F @ concat T)"
  let ?sn3 = "?sn2\<lparr>ts_transfer_counts_match := True, ts_unique_free_blocks := ?filed, ts_shared_free_blocks := word_of_nat (length (concat T))\<rparr>"
  have rw: "registry_walk s2 (c_slabs s2) sn = Some ?sn2" using W(1) [of sn] l(2,3) by simp
  have cw: "class_walk s2 16 0 ls lh (?sn2\<lparr>ts_transfer_counts_match := True, ts_unique_free_blocks := True\<rparr>) = Some ?sn3"
    using W(2) l(4) by simp
  obtain v sn4 where tot: "snapshot_totals ?sn3 = (v, sn4)" by (cases "snapshot_totals ?sn3")
  from lists_published [OF env(1) d(2,3) lenT d(4)] obtain s3 where
    p: "publish_all env 16 0 ls s2 = Some s3" "transfers_ok s3 T" "transfer_step {} s2 s3" by blast
  note st = transfer_step_trans [OF d(5) p(3), of "{}", simplified]
  then have "transfer_state.more s3 = transfer_state.more (s\<lparr>ticks := Suc (ticks s), c_registry_mutex := True\<rparr>)"
    by (simp add: transfer_step_def)
  from transfer_more_fields(6) [OF this] have mx: "c_registry_mutex s3" by simp
  have run: "hplf_cached_test_snapshot_take env tid s = Some (v \<and> ts_cache_counts_match sn4 \<and> ts_transfer_counts_match sn4 \<and>
      ts_unique_free_blocks sn4, sn4, s3\<lparr>ticks := Suc (ticks s3), c_registry_mutex := False\<rparr>)"
    using R l(1) cached_lock_ok [OF env(1)] d(1) rw cw tot p(1) cached_unlock_ok [OF env(2) mx]
    by (simp add: hplf_cached_test_snapshot_take_def)
  have verdict: "(v \<and> ts_cache_counts_match sn4 \<and> ts_transfer_counts_match sn4 \<and> ts_unique_free_blocks sn4) = ok \<and>
    (ok \<longrightarrow> unat (ts_total_slots sn4) = N \<and> unat (ts_shared_free_blocks sn4) = length (concat T) \<and>
      unat (ts_current_local_blocks sn4) = length (concat F) \<and> length (concat T) + length (concat F) + unat (ts_live_blocks sn4) = N)"
  proof (cases ok)
    case False
    then show ?thesis using snapshot_totals_flags [OF tot] l(5) by (auto simp: ok_def)
  next
    case True
    then have b: "N < SIZE_BOUND" "length (concat T) + length (concat F) \<le> N" using filed_bound [OF env(2) ar, of F T] slots_bound [OF env(2) ar]
      by (simp_all add: N_def ok_def)
    have c: "ts_total_slots ?sn3 = word_of_nat N" "ts_shared_free_blocks ?sn3 = word_of_nat (length (concat T))"
      "ts_current_local_blocks ?sn3 = word_of_nat (length (concat F))" using True l(6) by (simp_all add: ok_def)
    from snapshot_totals_spec [OF b c] tot True l(5) show ?thesis by (auto simp: ok_def)
  qed
  show ?thesis using run verdict p(2) st by auto
qed

section \<open>The states of the allocator\<close>

text \<open>After a run that wrote no block the allocator is in a state it could be in.\<close>

lemma snapshot_restored:
  assumes inv: "cached_core env s A T empty_table D cc" "\<forall>p \<in> set D. within_limits (cc p)"
    and st: "transfer_step {} (s\<lparr>ticks := n, c_registry_mutex := True\<rparr>) s1" and T: "transfers_ok s1 T"
  shows "cached_inv env (s1\<lparr>ticks := Suc (ticks s1), c_registry_mutex := False\<rparr>) A"
    and "refused s A (s1\<lparr>ticks := Suc (ticks s1), c_registry_mutex := False\<rparr>) A"
proof -
  note C = coreD [OF inv(1)] and S = st [unfolded transfer_step_def]
  let ?s9 = "s\<lparr>ticks := n, c_registry_mutex := True\<rparr>" and ?s = "s1\<lparr>ticks := Suc (ticks s1), c_registry_mutex := False\<rparr>"
  from S have "transfer_state.more s1 = transfer_state.more ?s9" by blast
  note f = transfer_more_fields [OF this]
  have blk: "blocks ?s = blocks s" using S by (simp add: fun_eq_iff)
  have tc: "touched {} s ?s" using S blk by (simp add: touched_def bshape_def fun_eq_iff)
  have t: "transfers_ok ?s T" by (rule transfers_ok_cong [OF T]) simp_all
  have ds: "descriptor_at ?s A q (cc q)" if "q \<in> set D" for q
    by (rule descriptor_at_frame [OF C(6) [OF that]]) (use S blk f(4) in simp_all)
  have A: "with_pools A (T # empty_table # map cc D) = A" using C(3) by (simp add: pool_heap_def)
  have vars: "c_slabs ?s = c_slabs s" "current_state ?s = current_state s" "current_descriptor ?s = current_descriptor s"
    "cache_key_values ?s = cache_key_values s" using f by simp_all
  note st = core_step [OF inv(1) tc _ t ds vars C(12) refl, unfolded A]
  have free: "\<not> c_registry_mutex ?s" by simp
  show "cached_inv env ?s A" by (rule cached_invI [OF st(1) inv(2) free]) simp
  show "refused s A ?s A" by (rule st(2)) simp
qed

text \<open>The blocks of the caller's cache in such a state.\<close>

lemma core_ready:
  assumes core: "cached_core env s A T empty_table D cc" and free: "\<not> c_registry_mutex s"
  shows "\<exists>F. snapshot_ready env tid s (abs_slabs A) (abs_large A) T F \<and> counters_match s tid F \<and>
    class_table s (abs_slabs A) F \<and> class_table s (abs_slabs A) T \<and> distinct (concat F @ concat T) \<and>
    set (concat F @ concat T) \<inter> live_blocks s A = {} \<and>
    (if hplf_cache_current tid s = NULL then F = empty_table
     else \<exists>d. descriptors s (hplf_cache_current tid s) = Some d \<and> cache_ok s (dc_cache d) F)"
proof -
  note C = coreD [OF core]
  let ?p = "hplf_cache_current tid s"
  define F where "F = (if ?p = NULL then empty_table else cc ?p)"
  have cT: "class_table s (abs_slabs A) T" and dT: "distinct (concat T)" using C(12,13) by simp_all
  have main: "local_lists s tid F \<and> counters_match s tid F \<and> class_table s (abs_slabs A) F \<and> distinct (concat F @ concat T) \<and>
    set (concat F) \<subseteq> set (pool_blocks (T # empty_table # map cc D)) \<and> (if ?p = NULL then F = empty_table else \<exists>d. descriptors s ?p = Some d \<and> cache_ok s (dc_cache d) F)"
  proof (cases "?p = NULL")
    case True
    then show ?thesis using dT by (simp add: F_def local_lists_def counters_match_def)
  next
    case False
    then have p: "?p \<in> set D" using C(8) by (auto simp: hplf_cache_current_def threads_ok_def split: if_splits)
    from core p obtain d where d: "descriptors s ?p = Some d" "cache_ok s (dc_cache d) (cc ?p)" by (rule core_descriptor)
    have "class_table s (abs_slabs A) (cc ?p)" using C(12) p by auto
    moreover have "set (concat (cc ?p)) \<inter> set (concat T) = {}" using core_disjoint(2) [OF core p] by blast
    moreover have "set (concat (cc ?p)) \<subseteq> set (pool_blocks (map cc D))" using p unfolding set_pool_map by blast
    then have "set (concat (cc ?p)) \<subseteq> set (pool_blocks (T # empty_table # map cc D))" by auto
    ultimately show ?thesis using d dT False
      by (simp add: F_def local_lists_def counters_match_def cache_ok_def del: set_concat)
  qed
  have "block_typed s x" if x: "x \<in> set (concat F @ concat T)" for x
  proof -
    have "\<exists>i < 16. in_class s (abs_slabs A) i x"
    proof (cases "x \<in> set (concat F)")
      case True
      then show ?thesis by (rule class_table_member) (use main in blast)
    next
      case False
      with x have "x \<in> set (concat T)" by simp
      then show ?thesis using cT by (rule class_table_member)
    qed
    then obtain i where "in_class s (abs_slabs A) i x" by blast
    with C(9) obtain a d where "slab_conf env s a d" "bshape s x = Some (OwnerSmall a, class_capacity d, HPLF_BLOCK_SMALL)"
      by (rule in_class_owner)
    then show ?thesis by (auto simp: block_typed_def bshape_def slab_conf_def sshape_def)
  qed
  moreover have "set (concat F @ concat T) \<inter> live_blocks s A = {}" using main unfolding pool_live [OF C(3)] by auto
  ultimately show ?thesis using main cT free C unfolding snapshot_ready_def by blast
qed

lemma live_bound:
  assumes ok: "os_ok env" and ar: "arena_ok env s ss L" and cl: "class_table s ss F" "class_table s ss T"
    and d: "distinct (concat F @ concat T)" "set (concat F @ concat T) \<inter> U = {}"
    and n: "length (concat T) + length (concat F) + n = card (small_blocks s ss)"
  shows "card (U \<inter> small_blocks s ss) \<le> n"
proof -
  let ?X = "set (concat F @ concat T)"
  have fin: "finite (small_blocks s ss)" by (simp add: small_blocks_def)
  have sub: "?X \<subseteq> small_blocks s ss"
    using class_table_member [OF _ cl(1)] class_table_member [OF _ cl(2)] in_class_small [OF ar] by fastforce
  have "card (U \<inter> small_blocks s ss) + card ?X = card (U \<inter> small_blocks s ss \<union> ?X)"
    using fin d(2) by (intro card_Un_disjoint [symmetric]) blast+
  also have "\<dots> \<le> card (small_blocks s ss)" using fin sub by (intro card_mono) blast+
  finally show ?thesis using n distinct_card [OF d(1)] by simp
qed

text \<open>
  The self-check accepts every state that the allocator can reach, gives the exact numbers, and
  leaves the allocator as it was.
\<close>

lemma cached_snapshot_spec:
  assumes inv: "cached_inv env s A"
  shows "\<exists>sn s' A' T F. hplf_cached_test_snapshot_take env tid s = Some (True, sn, s') \<and> cached_inv env s' A' \<and> refused s A s' A' \<and>
    transfers_ok s T \<and> unat (ts_total_slots sn) = card (small_blocks s (abs_slabs A)) \<and>
    unat (ts_shared_free_blocks sn) = length (concat T) \<and> unat (ts_current_local_blocks sn) = length (concat F) \<and>
    length (concat T) + length (concat F) + unat (ts_live_blocks sn) = card (small_blocks s (abs_slabs A)) \<and>
    card (live_blocks s A \<inter> small_blocks s (abs_slabs A)) \<le> unat (ts_live_blocks sn) \<and>
    (if hplf_cache_current tid s = NULL then F = empty_table
     else \<exists>d. descriptors s (hplf_cache_current tid s) = Some d \<and> cache_ok s (dc_cache d) F)"
proof -
  from inv obtain T D cc where i: "\<not> c_registry_mutex s" "cached_core env s A T empty_table D cc"
    "\<forall>p \<in> set D. within_limits (cc p)" by (auto simp: cached_inv_def)
  from core_ready [OF i(2,1), of tid] obtain F where F: "snapshot_ready env tid s (abs_slabs A) (abs_large A) T F"
    "counters_match s tid F \<and> class_table s (abs_slabs A) F \<and> class_table s (abs_slabs A) T \<and> distinct (concat F @ concat T)"
    "if hplf_cache_current tid s = NULL then F = empty_table
     else \<exists>d. descriptors s (hplf_cache_current tid s) = Some d \<and> cache_ok s (dc_cache d) F"
    "set (concat F @ concat T) \<inter> live_blocks s A = {}" by blast
  note v = eqTrueI [OF F(2)]
  from snapshot_run [OF F(1), unfolded v] obtain sn s1 where r: "hplf_cached_test_snapshot_take env tid s =
      Some (True, sn, s1\<lparr>ticks := Suc (ticks s1), c_registry_mutex := False\<rparr>)" "transfers_ok s1 T"
    "transfer_step {} (s\<lparr>ticks := Suc (ticks s), c_registry_mutex := True\<rparr>) s1"
    "unat (ts_total_slots sn) = card (small_blocks s (abs_slabs A))" "unat (ts_shared_free_blocks sn) = length (concat T)"
    "unat (ts_current_local_blocks sn) = length (concat F)"
    "length (concat T) + length (concat F) + unat (ts_live_blocks sn) = card (small_blocks s (abs_slabs A))" by blast
  have "card (live_blocks s A \<inter> small_blocks s (abs_slabs A)) \<le> unat (ts_live_blocks sn)"
    using F(2,4) r(7) by (intro live_bound [OF coreD(2,9) [OF i(2)], of F T]) blast+
  with snapshot_restored [OF i(2,3) r(3,2)] r F(3) coreD(4) [OF i(2)] show ?thesis by blast
qed

end
