(* ===== verification/Demo_Cached.thy ===== *)
theory Demo_Cached
  imports Demo Program Cached_Snapshot
begin

text \<open>
  The concrete operating system of \<open>Demo\<close> under the cached allocator: the first call of thread 0
  maps a descriptor for it, and the thread then has an empty cache of its own.
\<close>

section \<open>Definitions\<close>

definition demo_penv :: pthread_env where
  "demo_penv = \<lparr>once_result = (\<lambda>t. 0), key_create_result = (\<lambda>t. 0), setspecific_result = (\<lambda>t. 0)\<rparr>"

definition no_lifecycle_stats :: hplf_lifecycle_stats where
  "no_lifecycle_stats = \<lparr>key_create_attempts = 0, descriptor_map_attempts = 0, descriptor_maps = 0,
     descriptor_unmaps = 0, descriptor_bytes_mapped = 0, descriptor_bytes_unmapped = 0, registration_attempts = 0,
     registration_failures = 0, destructor_calls = 0, active_descriptors = 0, fail_descriptor_map_at = 0,
     fail_registration_at = 0, fail_key_create = False\<rparr>"

definition demo_cached :: cached_state where
  "demo_cached = \<lparr>errno = 0, ticks = 0, mappings = [], blocks = (\<lambda>p. None), slab_objs = (\<lambda>p. None),
     bytes = (\<lambda>p. None), fault_state = no_faults, transfer_mutex = False, transfer_heads = replicate 16 NULL,
     cache_key_once = False, cache_key_error = 0, cache_key_values = (\<lambda>t. NULL), current_descriptor = (\<lambda>t. NULL),
     current_state = (\<lambda>t. HPLF_CACHE_UNINITIALIZED), descriptors = (\<lambda>p. None), lc_stats = no_lifecycle_stats,
     c_registry_mutex = False, c_slabs = NULL,
     cached_test_stats = (\<lambda>t. \<lparr>local_hits = 0, shared_refills = 0, slab_misses = 0, published_blocks = 0\<rparr>)\<rparr>"

section \<open>The assumptions hold\<close>

lemma demo_lock_ok: "transfer_lock_ok demo_env"
  using demo_env_ok by (simp add: transfer_lock_ok_def demo_env_def)

lemma demo_cached_init: "cached_init demo_cached" "maps_ok demo_env (mappings demo_cached)"
  by (simp_all add: cached_init_def demo_cached_def maps_ok_def)

lemmas demo_cached_inv = cached_init_inv [OF demo_cached_init(1) demo_lock_ok demo_cached_init(2)]

lemma demo_map_descriptor:
  fixes s :: "'a lifecycle_state_scheme"
  assumes "mappings s = []"
  shows "\<exists>s'. map_descriptor demo_env s = Some (4096, s') \<and> mappings s' = [(4096, 4096)] \<and> lifecycle_state.more s' = lifecycle_state.more s"
proof -
  have "sint (4096 :: 64 word) = 4096" by simp
  moreover have "checked (hplf_size_round_up_multiple sizeof_hplf_cache_descriptor 4096 (Some 0)) = Some 4096"
    by (simp add: size_round_up.valid_output round_up_def sizeof_hplf_cache_descriptor_def)
  moreover have "demo_mmap (ticks s) [] 4096 = Inr 4096"
    by (simp add: demo_mmap_def demo_top_def round_up_def)
  ultimately show ?thesis using assms
    by (simp add: map_descriptor_def demo_env_def count_stat_def sys_mmap_def store_descriptor_def mapped_def
        subrange_def clobber_def)
qed

lemma demo_acquire:
  obtains s where "hplf_cache_acquire demo_env demo_penv 0 demo_cached = Some (4096, s)" "mappings s = [(4096, 4096)]"
    "current_state s 0 = HPLF_CACHE_ACTIVE"
proof -
  let ?s = "demo_cached\<lparr>ticks := 2, cache_key_once := True\<rparr>"
  have "mappings ?s = []" by (simp add: demo_cached_def)
  from demo_map_descriptor [OF this] obtain s' where
    m: "map_descriptor demo_env ?s = Some (4096, s')" "mappings s' = [(4096, 4096)]" by blast
  have "once_create_key demo_env demo_penv demo_cached = (0, ?s)"
    by (simp add: once_create_key_def create_cache_key_def count_stat_def demo_env_def demo_penv_def demo_cached_def)
  moreover have "current_state demo_cached 0 = HPLF_CACHE_UNINITIALIZED" "cache_key_error ?s = 0"
    by (simp_all add: demo_cached_def)
  ultimately show ?thesis using m
    by (intro that [of "s'\<lparr>ticks := Suc (ticks s'), cache_key_values := (cache_key_values s')(0 := 4096),
        current_descriptor := (current_descriptor s')(0 := 4096), current_state := (current_state s')(0 := HPLF_CACHE_ACTIVE)\<rparr>"])
      (simp_all add: hplf_cache_acquire_def Let_def register_descriptor_def set_key_value_def count_stat_def
        demo_penv_def demo_env_def)
qed

text \<open>In this system a first request is served, small or large.\<close>

lemma demo_cached_small: "cached_can_serve demo_env demo_penv 0 demo_cached 40"
proof (rule demo_acquire)
  fix s assume s: "hplf_cache_acquire demo_env demo_penv 0 demo_cached = Some (4096, s)" "mappings s = [(4096, 4096)]"
  have "can_map demo_env s (slab_bytes (sc_pagesize demo_env))"
    using s(2) by (simp add: can_map_def demo_env_def demo_mmap_def demo_top_def round_up_def slab_bytes_def unat_word_of_nat)
  moreover have "class_of 40 \<noteq> None" by (intro class_of_total) (simp_all add: HPLF_MAX_SMALL_SIZE_def)
  ultimately show ?thesis using s(1) by (auto simp: cached_can_serve_def PTRDIFF_MAX_def split: option.splits)
qed

lemma demo_cached_large: "cached_can_serve demo_env demo_penv 0 demo_cached 5000"
proof -
  have "class_of 5000 = None" by (intro class_of_None) (simp add: HPLF_MAX_SMALL_SIZE_def)
  then show ?thesis
    by (simp add: cached_can_serve_def PTRDIFF_MAX_def can_map_def demo_env_def demo_cached_def demo_mmap_def demo_top_def
        round_up_def unat_word_of_nat)
qed

lemma demo_cached_live:
  assumes "cached_can_serve demo_env demo_penv 0 demo_cached sz"
  obtains p s A where "cached_malloc demo_env demo_penv 0 sz demo_cached = Some (p + 48, s)" "cached_inv demo_env s A"
    "p \<in> live_blocks s A"
  using cached_malloc_contract [OF demo_env_ok demo_cached_inv(1), of demo_penv 0 sz] assms that
  by (auto simp: granted_def)

text \<open>A state in which thread 0 has a cache.\<close>

lemma demo_cached_active:
  obtains s A where "cached_inv demo_env s A" "current_state s 0 = HPLF_CACHE_ACTIVE"
proof (rule demo_acquire)
  fix s assume s: "hplf_cache_acquire demo_env demo_penv 0 demo_cached = Some (4096, s)" "current_state s 0 = HPLF_CACHE_ACTIVE"
  from demo_cached_inv(1) obtain T D cc where "\<not> c_registry_mutex demo_cached"
    "cached_core demo_env demo_cached start_abs T empty_table D cc" "\<forall>p \<in> set D. within_limits (cc p)"
    by (auto simp: cached_inv_def)
  with core_acquire [OF this(2,3), of demo_penv 0] s(1) obtain A D' cc' where
    "cached_core demo_env s A T empty_table D' cc'" "\<forall>p \<in> set D'. within_limits (cc' p)" "\<not> c_registry_mutex s" by auto
  then have "cached_inv demo_env s A" by (rule cached_invI)
  then show ?thesis using s(2) by (rule that)
qed

text \<open>A state in which the shared list of class 0 holds a block of a slab that is not registered.\<close>

definition demo_stray :: cached_state where
  "demo_stray = demo_cached\<lparr>blocks := [4160 \<mapsto> \<lparr>owner = OwnerSmall 4096, next_free = NULL, requested_size = 0,
       capacity = 16, kind = HPLF_BLOCK_SMALL\<rparr>],
     slab_objs := [4096 \<mapsto> \<lparr>slab_next = NULL, mapping_base = 4096, mapping_length = 65536, first_slot_offset = 64,
       slot_stride = 64, slot_count = 1023, class_capacity = 16, class_index = 0\<rparr>],
     transfer_heads := 4160 # replicate 15 NULL\<rparr>"

lemma demo_stray_ready: "snapshot_ready demo_env 0 demo_stray [] {} ([4160] # replicate 15 []) empty_table"
proof -
  have "transfers_ok demo_stray ([4160] # replicate 15 [])"
    by (auto simp: transfers_ok_def demo_stray_def demo_cached_def block_next_def nth_Cons')
  moreover have "arena_ok demo_env demo_stray [] {}"
    by (simp add: arena_ok_def maps_ok_def demo_stray_def demo_cached_def)
  moreover have "block_typed demo_stray 4160" by (simp add: block_typed_def demo_stray_def)
  moreover have "local_lists demo_stray 0 empty_table"
    by (simp add: local_lists_def hplf_cache_current_def demo_stray_def demo_cached_def)
  ultimately show ?thesis using demo_lock_ok
    by (simp add: snapshot_ready_def demo_stray_def demo_cached_def)
qed

end
