(* ===== verification/Transfer_Atomic.thy ===== *)
theory Transfer_Atomic
  imports Transfer_List Tables
begin

text \<open>
  \<open>src/transfer_atomic.c\<close>: one shared chain per size class behind an atomic head.  Publishing links
  the private chain in front of the observed head and swings the head with a weak compare-and-swap
  until that succeeds; detaching exchanges the head with null and then walks the chain.

  The atomic actions are functions of the state.  They are composed twice: sequentially, as the two
  functions of the file, and as the step relation \<open>atomic_step\<close>, in which any number of threads
  interleave between any two actions.  Every interleaving divides the blocks up exactly, and every run of
  a thread alone (\<open>solo_run\<close>) leaves the operation it is in, within a bound on its actions.  Interleavings are sequentially consistent: the memory orders
  of the C code, which make its non-atomic accesses race-free, are not part of the model.
\<close>

section \<open>Definitions\<close>

record hplf_transfer_atomic_test_stats =
  publish_attempts :: size_t
  compare_exchange_failures :: size_t
  detachments :: size_t

record atomic_state = world +
  atomic_heads :: "addr list"
  at_stats :: hplf_transfer_atomic_test_stats

text \<open>
  The build flag, the calls at which the weak compare-and-swap fails although the values agree, and
  the hooks of the testing build (\<open>None\<close> is the null pointer); a hook may run any code.
\<close>

record 's atomic_env =
  at_testing :: bool
  cas_spurious :: "nat \<Rightarrow> bool"
  before_publish_cas :: "(size_t \<Rightarrow> size_t \<Rightarrow> addr \<Rightarrow> 's \<Rightarrow> 's option) option"
  after_detach :: "(size_t \<Rightarrow> addr \<Rightarrow> 's \<Rightarrow> 's option) option"

definition count_atomic ::
  "bool \<Rightarrow> (hplf_transfer_atomic_test_stats \<Rightarrow> hplf_transfer_atomic_test_stats) \<Rightarrow>
   'a atomic_state_scheme \<Rightarrow> 'a atomic_state_scheme" where
  "count_atomic testing f s = (if testing then s\<lparr>at_stats := f (at_stats s)\<rparr> else s)"

text \<open>\<open>observed = atomic_load(&heads[class_index].value)\<close>\<close>

definition atomic_load_head :: "size_t \<Rightarrow> 'a atomic_state_scheme \<Rightarrow> addr option" where
  "atomic_load_head ci s = array_read (atomic_heads s) ci"

text \<open>\<open>list->last->next_free = observed\<close>, and the attempt is counted.\<close>

definition publish_link ::
  "bool \<Rightarrow> hplf_transfer_list \<Rightarrow> addr \<Rightarrow> 'a atomic_state_scheme \<Rightarrow> 'a atomic_state_scheme option" where
  "publish_link testing list observed s = do {
     s \<leftarrow> set_next_free (tl_last list) observed s;
     Some (count_atomic testing (\<lambda>t. t\<lparr>publish_attempts := publish_attempts t + 1\<rparr>) s)
   }"

text \<open>
  \<open>atomic_compare_exchange_weak(&heads[class_index].value, &observed, list->first)\<close>: success, the new
  value of \<open>observed\<close>, and the state; a failure is counted.
\<close>

definition publish_cas ::
  "bool \<Rightarrow> bool \<Rightarrow> size_t \<Rightarrow> hplf_transfer_list \<Rightarrow> addr \<Rightarrow> 'a atomic_state_scheme \<Rightarrow>
   (bool \<times> addr \<times> 'a atomic_state_scheme) option" where
  "publish_cas testing spurious ci list observed s = do {
     head \<leftarrow> array_read (atomic_heads s) ci;
     if head = observed \<and> \<not> spurious then do {
       heads \<leftarrow> array_write (atomic_heads s) ci (tl_first list);
       Some (True, observed, s\<lparr>atomic_heads := heads\<rparr>)
     }
     else Some (False, head, count_atomic testing
       (\<lambda>t. t\<lparr>compare_exchange_failures := compare_exchange_failures t + 1\<rparr>) s)
   }"

text \<open>\<open>first = atomic_exchange(&heads[class_index].value, NULL)\<close>\<close>

definition detach_exchange ::
  "bool \<Rightarrow> size_t \<Rightarrow> 'a atomic_state_scheme \<Rightarrow> (addr \<times> 'a atomic_state_scheme) option" where
  "detach_exchange testing ci s = do {
     first \<leftarrow> array_read (atomic_heads s) ci;
     heads \<leftarrow> array_write (atomic_heads s) ci NULL;
     Some (first, count_atomic testing (\<lambda>t. t\<lparr>detachments := detachments t + 1\<rparr>) (s\<lparr>atomic_heads := heads\<rparr>))
   }"

partial_function (option) publish_loop ::
  "'a atomic_state_scheme atomic_env \<Rightarrow> size_t \<Rightarrow> hplf_transfer_list \<Rightarrow> addr \<Rightarrow> size_t \<Rightarrow> 'a atomic_state_scheme \<Rightarrow>
   'a atomic_state_scheme option" where
  "publish_loop env ci list observed attempt s = do {
     s \<leftarrow> publish_link (at_testing env) list observed s;
     s \<leftarrow> (case (at_testing env, before_publish_cas env) of
             (True, Some hook) \<Rightarrow> hook ci attempt observed s
           | _ \<Rightarrow> Some s);
     (swapped, observed, s) \<leftarrow> publish_cas (at_testing env) (cas_spurious env (ticks s)) ci list observed
        (s\<lparr>ticks := Suc (ticks s)\<rparr>);
     if swapped then Some s else publish_loop env ci list observed (attempt + 1) s
   }"

definition hplf_transfer_atomic_publish ::
  "'a atomic_state_scheme atomic_env \<Rightarrow> size_t \<Rightarrow> hplf_transfer_list \<Rightarrow> 'a atomic_state_scheme \<Rightarrow>
   (hplf_transfer_list \<times> 'a atomic_state_scheme) option" where
  "hplf_transfer_atomic_publish env ci list s =
     (if tl_first list = NULL then Some (list, s)
      else do {
        observed \<leftarrow> atomic_load_head ci s;
        s \<leftarrow> publish_loop env ci list observed 0 s;
        Some (hplf_transfer_list_clear list, s)
      })"

definition hplf_transfer_atomic_detach ::
  "'a atomic_state_scheme atomic_env \<Rightarrow> size_t \<Rightarrow> 'a atomic_state_scheme \<Rightarrow>
   (hplf_transfer_list \<times> 'a atomic_state_scheme) option" where
  "hplf_transfer_atomic_detach env ci s = do {
     (first, s) \<leftarrow> detach_exchange (at_testing env) ci s;
     s \<leftarrow> (case (at_testing env, after_detach env) of
             (True, Some hook) \<Rightarrow> hook ci first s
           | _ \<Rightarrow> Some s);
     list \<leftarrow> hplf_transfer_list_from_chain first s;
     Some (list, s)
   }"

definition hplf_transfer_atomic_test_set_hooks ::
  "((size_t \<Rightarrow> size_t \<Rightarrow> addr \<Rightarrow> 's \<Rightarrow> 's option) option \<times> (size_t \<Rightarrow> addr \<Rightarrow> 's \<Rightarrow> 's option) option) option \<Rightarrow>
   's atomic_env \<Rightarrow> 's atomic_env" where
  "hplf_transfer_atomic_test_set_hooks hooks env = (case hooks of
     None \<Rightarrow> env\<lparr>before_publish_cas := None, after_detach := None\<rparr>
   | Some (b, a) \<Rightarrow> env\<lparr>before_publish_cas := b, after_detach := a\<rparr>)"

definition hplf_transfer_atomic_test_reset_stats :: "'a atomic_state_scheme \<Rightarrow> 'a atomic_state_scheme" where
  "hplf_transfer_atomic_test_reset_stats s =
     s\<lparr>at_stats := \<lparr>publish_attempts = 0, compare_exchange_failures = 0, detachments = 0\<rparr>\<rparr>"

definition hplf_transfer_atomic_test_get_stats :: "'a atomic_state_scheme \<Rightarrow> hplf_transfer_atomic_test_stats" where
  "hplf_transfer_atomic_test_get_stats s = \<lparr>publish_attempts = publish_attempts (at_stats s),
     compare_exchange_failures = compare_exchange_failures (at_stats s), detachments = detachments (at_stats s)\<rparr>"

section \<open>Interleavings\<close>

text \<open>
  Where a thread is: outside both functions; about to link its chain to the head it observed; about
  to compare and swap; walking a chain it detached (\<open>first\<close>, the next node, the last node seen and
  the count, as in \<open>hplf_transfer_list_from_chain\<close>).  \<open>held\<close> are the lists the thread owns otherwise.
\<close>

datatype atomic_pc =
    Outside
  | Link size_t hplf_transfer_list addr
  | Swap size_t hplf_transfer_list addr
  | Walk addr addr addr size_t

record atomic_thread =
  at_pc :: atomic_pc
  held :: "hplf_transfer_list list"

type_synonym atomic_conf = "atomic_thread list \<times> atomic_state"

text \<open>
  One action of thread \<open>t\<close>.  Besides the actions of the two functions a thread may split a list it
  holds (\<open>hplf_transfer_list_take_prefix\<close>), so every way of dividing up the blocks can be published.
\<close>

inductive atomic_step :: "bool \<Rightarrow> nat \<Rightarrow> atomic_conf \<Rightarrow> atomic_conf \<Rightarrow> bool" where
  load: "t < length ths \<Longrightarrow> ths ! t = \<lparr>at_pc = Outside, held = as @ l # bs\<rparr> \<Longrightarrow> unat ci < 16 \<Longrightarrow>
    tl_first l \<noteq> NULL \<Longrightarrow> atomic_load_head ci s = Some observed \<Longrightarrow>
    atomic_step testing t (ths, s) (ths[t := \<lparr>at_pc = Link ci l observed, held = as @ bs\<rparr>], s)"
| link: "t < length ths \<Longrightarrow> ths ! t = \<lparr>at_pc = Link ci l observed, held = hs\<rparr> \<Longrightarrow>
    publish_link testing l observed s = Some s' \<Longrightarrow>
    atomic_step testing t (ths, s) (ths[t := \<lparr>at_pc = Swap ci l observed, held = hs\<rparr>], s')"
| swap: "t < length ths \<Longrightarrow> ths ! t = \<lparr>at_pc = Swap ci l observed, held = hs\<rparr> \<Longrightarrow>
    publish_cas testing spurious ci l observed s = Some (True, observed', s') \<Longrightarrow>
    atomic_step testing t (ths, s) (ths[t := \<lparr>at_pc = Outside, held = hs\<rparr>], s')"
| retry: "t < length ths \<Longrightarrow> ths ! t = \<lparr>at_pc = Swap ci l observed, held = hs\<rparr> \<Longrightarrow>
    publish_cas testing spurious ci l observed s = Some (False, observed', s') \<Longrightarrow>
    atomic_step testing t (ths, s) (ths[t := \<lparr>at_pc = Link ci l observed', held = hs\<rparr>], s')"
| exchange: "t < length ths \<Longrightarrow> ths ! t = \<lparr>at_pc = Outside, held = hs\<rparr> \<Longrightarrow> unat ci < 16 \<Longrightarrow>
    detach_exchange testing ci s = Some (first, s') \<Longrightarrow>
    atomic_step testing t (ths, s) (ths[t := \<lparr>at_pc = Walk first first NULL 0, held = hs\<rparr>], s')"
| walk: "t < length ths \<Longrightarrow> ths ! t = \<lparr>at_pc = Walk first block last' n, held = hs\<rparr> \<Longrightarrow> block \<noteq> NULL \<Longrightarrow>
    blocks s block = Some b \<Longrightarrow>
    atomic_step testing t (ths, s) (ths[t := \<lparr>at_pc = Walk first (next_free b) block (n + 1), held = hs\<rparr>], s)"
| arrive: "t < length ths \<Longrightarrow> ths ! t = \<lparr>at_pc = Walk first NULL last' n, held = hs\<rparr> \<Longrightarrow>
    atomic_step testing t (ths, s) (ths[t := \<lparr>at_pc = Outside,
      held = \<lparr>tl_first = first, tl_last = last', tl_count = n\<rparr> # hs\<rparr>], s)"
| split: "t < length ths \<Longrightarrow> ths ! t = \<lparr>at_pc = Outside, held = as @ l # bs\<rparr> \<Longrightarrow>
    hplf_transfer_list_take_prefix l k out s = Some (l', out', s') \<Longrightarrow>
    atomic_step testing t (ths, s) (ths[t := \<lparr>at_pc = Outside, held = as @ l' # out' # bs\<rparr>], s')"

inductive atomic_reach :: "bool \<Rightarrow> atomic_conf \<Rightarrow> atomic_conf \<Rightarrow> bool" where
  start: "atomic_reach testing c c"
| step: "atomic_reach testing c c' \<Longrightarrow> atomic_step testing t c' c'' \<Longrightarrow> atomic_reach testing c c''"

section \<open>Who owns which block\<close>

fun pc_owns :: "(addr \<Rightarrow> addr option) \<Rightarrow> atomic_pc \<Rightarrow> addr list \<Rightarrow> bool" where
  "pc_owns nx Outside xs \<longleftrightarrow> xs = []"
| "pc_owns nx (Link ci l observed) xs \<longleftrightarrow> unat ci < 16 \<and> xs \<noteq> [] \<and> tl_last l = last xs \<and>
     tl_count l = word_of_nat (length xs) \<and> (\<exists>q. segment nx (tl_first l) xs q)"
| "pc_owns nx (Swap ci l observed) xs \<longleftrightarrow> unat ci < 16 \<and> xs \<noteq> [] \<and> tl_last l = last xs \<and>
     tl_count l = word_of_nat (length xs) \<and> segment nx (tl_first l) xs observed"
| "pc_owns nx (Walk first block last' n) xs \<longleftrightarrow> (\<exists>as bs. xs = as @ bs \<and> segment nx first as block \<and>
     chain nx block bs \<and> last' = (if as = [] then NULL else last as) \<and> n = word_of_nat (length as))"

definition thread_owns :: "atomic_state \<Rightarrow> atomic_thread \<Rightarrow> addr list \<Rightarrow> bool" where
  "thread_owns s th xs \<longleftrightarrow> (\<exists>cs ys. xs = concat cs @ ys \<and> list_all2 (list_ok s) (held th) cs \<and>
     pc_owns (block_next s) (at_pc th) ys)"

text \<open>
  The blocks \<open>U\<close> are exactly divided up among the shared chains \<open>T\<close> and the threads' private chains
  \<open>X\<close>: none is lost and none is in two places.
\<close>

definition atomic_parts :: "addr set \<Rightarrow> addr list list \<Rightarrow> addr list list \<Rightarrow> atomic_conf \<Rightarrow> bool" where
  "atomic_parts U T X c \<longleftrightarrow> finite U \<and> length T = 16 \<and> length (atomic_heads (snd c)) = 16 \<and>
     (\<forall>i < 16. chain (block_next (snd c)) (atomic_heads (snd c) ! i) (T ! i)) \<and>
     list_all2 (thread_owns (snd c)) (fst c) X \<and> mset (concat T @ concat X) = mset_set U"

definition atomic_inv :: "addr set \<Rightarrow> atomic_conf \<Rightarrow> bool" where
  "atomic_inv U c \<longleftrightarrow> (\<exists>T X. atomic_parts U T X c)"

lemma count_atomic_simps [simp]:
  "blocks (count_atomic testing f s) = blocks s" "atomic_heads (count_atomic testing f s) = atomic_heads s"
  "block_next (count_atomic testing f s) = block_next s"
  by (simp_all add: count_atomic_def block_next_def fun_eq_iff)

lemma thread_owns_frame:
  assumes "thread_owns s th xs" and "\<And>p. p \<in> set xs \<Longrightarrow> block_next s' p = block_next s p"
  shows "thread_owns s' th xs"
proof -
  from assms(1) obtain cs ys where xs: "xs = concat cs @ ys" and h: "list_all2 (list_ok s) (held th) cs"
    and pc: "pc_owns (block_next s) (at_pc th) ys" by (auto simp: thread_owns_def)
  have "list_all2 (list_ok s') (held th) cs"
    using h
  proof (rule list.rel_mono_strong)
    fix l c assume "c \<in> set cs" and l: "list_ok s l c"
    then have "chain (block_next s') (tl_first l) c \<longleftrightarrow> chain (block_next s) (tl_first l) c"
      using assms(2) xs by (intro chain_cong) auto
    with l show "list_ok s' l c" by (simp add: list_ok_def)
  qed
  moreover have "segment (block_next s') p zs q \<longleftrightarrow> segment (block_next s) p zs q"
    "chain (block_next s') p zs \<longleftrightarrow> chain (block_next s) p zs" if "set zs \<subseteq> set ys" for p q zs
    using that assms(2) xs by (intro segment_cong chain_cong; auto)+
  note seg = this
  have "pc_owns (block_next s') (at_pc th) ys"
  proof (cases "at_pc th")
    case (Walk first block last' n)
    with pc obtain as bs where w: "ys = as @ bs" "segment (block_next s) first as block" "chain (block_next s) block bs"
      "last' = (if as = [] then NULL else last as)" "n = word_of_nat (length as)" by auto
    have "segment (block_next s') first as block" "chain (block_next s') block bs"
      using w seg(1) [of as] seg(2) [of bs] by simp_all
    then have "pc_owns (block_next s') (Walk first block last' n) ys"
      unfolding pc_owns.simps using w(1,4,5) by blast
    with Walk show ?thesis by simp
  next
    case (Link ci l observed)
    with pc seg(1) [of ys] show ?thesis by auto
  qed (use pc seg(1) [of ys] in simp_all)
  ultimately show ?thesis using xs by (auto simp: thread_owns_def)
qed

lemma parts_distinct:
  assumes "atomic_parts U T X c" shows "distinct (concat T @ concat X)" and "set (concat T @ concat X) = U"
proof -
  have m: "mset (concat T @ concat X) = mset_set U" "finite U" using assms by (auto simp: atomic_parts_def)
  show "set (concat T @ concat X) = U" using m by (metis finite_set_mset_mset_set set_mset_mset)
  show "distinct (concat T @ concat X)"
    using m \<open>set (concat T @ concat X) = U\<close> unfolding distinct_count_atmost_1 by simp
qed

lemma parts_separate:
  assumes "atomic_parts U T X c" and "t < length X" and "p \<in> set (X ! t)"
  shows "i < 16 \<Longrightarrow> p \<notin> set (T ! i)" and "u < length X \<Longrightarrow> u \<noteq> t \<Longrightarrow> p \<notin> set (X ! u)"
proof -
  note d = parts_distinct(1) [OF assms(1)]
  have len: "length T = 16" using assms(1) by (simp add: atomic_parts_def)
  have pX: "p \<in> set (concat X)" using assms(2,3) nth_mem by (auto intro!: bexI [of _ "X ! t"])
  have dj: "set (concat T) \<inter> set (concat X) = {}" and dX: "distinct (concat X)" using d by auto
  show "p \<notin> set (T ! i)" if "i < 16"
  proof
    assume "p \<in> set (T ! i)"
    then have "p \<in> set (concat T)" using that len by (auto intro!: bexI [of _ "T ! i"])
    with pX dj show False by blast
  qed
  show "p \<notin> set (X ! u)" if "u < length X" "u \<noteq> t"
    using distinct_lists_disjoint [OF dX assms(2) that(1)] that(2) assms(3) by auto
qed

text \<open>An action of thread \<open>t\<close> that writes only to blocks the thread owns and moves blocks between it
  and the shared chains keeps the division.\<close>

lemma parts_step:
  assumes parts: "atomic_parts U T X (ths, s)" and t: "t < length ths"
    and fr: "\<And>p. p \<notin> set (X ! t) \<Longrightarrow> block_next s' p = block_next s p"
    and len: "length T' = 16" "length (atomic_heads s') = 16"
    and ch: "\<And>i. i < 16 \<Longrightarrow> chain (block_next s') (atomic_heads s' ! i) (T' ! i)"
    and own: "thread_owns s' th' x" and m: "mset (concat T') + mset x = mset (concat T) + mset (X ! t)"
  shows "atomic_parts U T' (X[t := x]) (ths[t := th'], s')"
proof -
  have p: "list_all2 (thread_owns s) ths X" "mset (concat T @ concat X) = mset_set U" "finite U"
    using parts by (auto simp: atomic_parts_def)
  then have lX: "length X = length ths" by (simp add: list_all2_lengthD)
  have "thread_owns s' (ths[t := th'] ! u) (X[t := x] ! u)" if u: "u < length ths" for u
  proof (cases "u = t")
    case True
    then show ?thesis using own t lX by simp
  next
    case False
    have "thread_owns s (ths ! u) (X ! u)" using p(1) u by (simp add: list_all2_conv_all_nth)
    then have "thread_owns s' (ths ! u) (X ! u)"
    proof (rule thread_owns_frame)
      fix p assume "p \<in> set (X ! u)"
      with parts_separate(2) [OF parts, of u p t] u t lX False show "block_next s' p = block_next s p"
        by (intro fr) simp
    qed
    with False show ?thesis by simp
  qed
  then have "list_all2 (thread_owns s') (ths[t := th']) (X[t := x])"
    using lX by (simp add: list_all2_conv_all_nth)
  moreover have "mset (concat T' @ concat (X[t := x])) + mset (X ! t) = mset (concat T @ concat X) + mset (X ! t)"
  proof -
    have "mset (concat T' @ concat (X[t := x])) + mset (X ! t) = mset (concat T') + (mset (concat X) + mset x)"
      using mset_concat_update [of t X x] t lX by (simp add: ac_simps)
    also have "\<dots> = (mset (concat T') + mset x) + mset (concat X)" by (simp only: ac_simps)
    also have "\<dots> = mset (concat T @ concat X) + mset (X ! t)" unfolding m by (simp add: ac_simps)
    finally show ?thesis .
  qed
  then have "mset (concat T' @ concat (X[t := x])) = mset_set U" using p(2) by simp
  ultimately show ?thesis using len ch p(3) by (simp add: atomic_parts_def)
qed

section \<open>Every interleaving keeps the division\<close>

text \<open>Actions that leave the links and the heads alone.\<close>

lemma parts_local:
  assumes parts: "atomic_parts U T X (ths, s)" and t: "t < length ths"
    and own: "thread_owns s th x" and m: "mset x = mset (X ! t)"
  shows "atomic_inv U (ths[t := th], s)"
  using parts_step [OF parts t, of s T th x] parts own m by (auto simp: atomic_parts_def atomic_inv_def)

lemma parts_thread:
  assumes "atomic_parts U T X (ths, s)" and "t < length ths"
  obtains cs ys where "X ! t = concat cs @ ys" "list_all2 (list_ok s) (held (ths ! t)) cs"
    "pc_owns (block_next s) (at_pc (ths ! t)) ys" "t < length X"
proof -
  have "list_all2 (thread_owns s) ths X" using assms(1) by (simp add: atomic_parts_def)
  then have "thread_owns s (ths ! t) (X ! t)" "t < length X"
    using assms(2) by (auto simp: list_all2_conv_all_nth)
  then show ?thesis using that by (auto simp: thread_owns_def)
qed

lemma segment_relink:
  assumes "segment nx p xs q" and "xs \<noteq> []" and "distinct xs"
  shows "segment (nx(last xs \<mapsto> r)) p xs r"
proof -
  obtain ys z where xs: "xs = ys @ [z]" using assms(2) by (cases xs rule: rev_cases) auto
  with assms(1,3) show ?thesis by auto
qed

text \<open>The held lists after a write to blocks outside them.\<close>

lemma held_frame:
  assumes "list_all2 (list_ok s) hs cs" and "\<And>p. p \<in> set (concat cs) \<Longrightarrow> block_next s' p = block_next s p"
  shows "list_all2 (list_ok s') hs cs"
  using assms(1)
proof (rule list.rel_mono_strong)
  fix l c assume "c \<in> set cs" and l: "list_ok s l c"
  then have "chain (block_next s') (tl_first l) c \<longleftrightarrow> chain (block_next s) (tl_first l) c"
    using assms(2) by (intro chain_cong) auto
  with l show "list_ok s' l c" by (simp add: list_ok_def)
qed

lemma step_load:
  assumes "atomic_parts U T X (ths, s)" and "t < length ths" and "ths ! t = \<lparr>at_pc = Outside, held = as @ l # bs\<rparr>"
    and "unat ci < 16" and "tl_first l \<noteq> NULL"
  shows "atomic_inv U (ths[t := \<lparr>at_pc = Link ci l observed, held = as @ bs\<rparr>], s)"
proof -
  from assms(1,2) obtain cs where X: "X ! t = concat cs" "list_all2 (list_ok s) (as @ l # bs) cs"
    by (rule parts_thread) (use assms(3) in auto)
  then obtain ca c cb where cs: "cs = ca @ c # cb" "list_all2 (list_ok s) as ca" "list_ok s l c"
    "list_all2 (list_ok s) bs cb" by (auto simp: list_all2_append1 list_all2_Cons1)
  have "c \<noteq> []" using cs(3) assms(5) by (auto simp: list_ok_def)
  then have "thread_owns s \<lparr>at_pc = Link ci l observed, held = as @ bs\<rparr> (concat (ca @ cb) @ c)"
    using cs assms(4) unfolding thread_owns_def
    by (intro exI [of _ "ca @ cb"] exI [of _ c]) (auto simp: list_ok_def chain_def intro: list_all2_appendI)
  then show ?thesis by (rule parts_local [OF assms(1,2)]) (simp add: X(1) cs(1))
qed

lemma step_link:
  assumes parts: "atomic_parts U T X (ths, s)" and t: "t < length ths"
    and th: "ths ! t = \<lparr>at_pc = Link ci l observed, held = hs\<rparr>" and st: "publish_link testing l observed s = Some s'"
  shows "atomic_inv U (ths[t := \<lparr>at_pc = Swap ci l observed, held = hs\<rparr>], s')"
proof -
  from parts t obtain cs ys where X: "X ! t = concat cs @ ys" "list_all2 (list_ok s) hs cs" "t < length X"
    "pc_owns (block_next s) (Link ci l observed) ys" by (rule parts_thread) (use th in auto)
  then obtain q where ys: "unat ci < 16" "ys \<noteq> []" "tl_last l = last ys" "tl_count l = word_of_nat (length ys)"
    "segment (block_next s) (tl_first l) ys q" by auto
  from st obtain b where b: "blocks s (last ys) = Some b" and heads: "atomic_heads s' = atomic_heads s"
    and bl: "blocks s' = (blocks s)(last ys \<mapsto> b\<lparr>next_free := observed\<rparr>)"
    using ys(3) by (auto simp: publish_link_def set_next_free_def update_block_def split: option.splits bind_splits)
  then have bn: "block_next s' = (block_next s)(last ys \<mapsto> observed)" by (auto simp: block_next_def fun_eq_iff)
  have "distinct (concat X)" using parts_distinct(1) [OF parts] by simp
  then have "distinct (X ! t)" using X(3) by (simp add: distinct_concat_iff)
  then have d: "distinct ys" "last ys \<notin> set (concat cs)" using X(1) ys(2) by auto
  have "thread_owns s' \<lparr>at_pc = Swap ci l observed, held = hs\<rparr> (X ! t)"
    unfolding thread_owns_def
  proof (intro exI conjI)
    show "list_all2 (list_ok s') (held \<lparr>at_pc = Swap ci l observed, held = hs\<rparr>) cs"
      unfolding atomic_thread.simps by (rule held_frame [OF X(2)]) (use d(2) in \<open>auto simp: bn\<close>)
    show "pc_owns (block_next s') (at_pc \<lparr>at_pc = Swap ci l observed, held = hs\<rparr>) ys"
      using ys segment_relink [OF ys(5,2) d(1)] by (simp add: bn)
  qed (rule X(1))
  moreover have "last ys \<in> set (X ! t)" using X(1) ys(2) by simp
  moreover from this have "last ys \<notin> set (T ! i)" if "i < 16" for i
    using parts_separate(1) [OF parts X(3)] that by blast
  ultimately have "atomic_parts U T (X[t := X ! t]) (ths[t := \<lparr>at_pc = Swap ci l observed, held = hs\<rparr>], s')"
    using parts heads by (intro parts_step [OF parts t]) (auto simp: atomic_parts_def bn)
  then show ?thesis by (auto simp: atomic_inv_def)
qed

lemma step_swap:
  assumes parts: "atomic_parts U T X (ths, s)" and t: "t < length ths"
    and th: "ths ! t = \<lparr>at_pc = Swap ci l observed, held = hs\<rparr>"
    and st: "publish_cas testing spurious ci l observed s = Some (True, observed', s')"
  shows "atomic_inv U (ths[t := \<lparr>at_pc = Outside, held = hs\<rparr>], s')"
proof -
  from parts t obtain cs ys where X: "X ! t = concat cs @ ys" "list_all2 (list_ok s) hs cs" "t < length X"
    "pc_owns (block_next s) (Swap ci l observed) ys" by (rule parts_thread) (use th in auto)
  then have ys: "unat ci < 16" "segment (block_next s) (tl_first l) ys observed" by auto
  note P = parts [unfolded atomic_parts_def snd_conv]
  from st P ys(1) have s': "s' = s\<lparr>atomic_heads := (atomic_heads s)[unat ci := tl_first l]\<rparr>"
    and eq: "atomic_heads s ! unat ci = observed"
    by (auto simp: publish_cas_def split: if_splits)
  have bn: "block_next s' = block_next s" by (simp add: s' block_next_def fun_eq_iff)
  let ?T = "T[unat ci := ys @ T ! unat ci]"
  have own: "thread_owns s' \<lparr>at_pc = Outside, held = hs\<rparr> (concat cs)"
    using held_frame [OF X(2), of s'] by (auto simp: thread_owns_def bn)
  have ch: "chain (block_next s') (atomic_heads s' ! i) (?T ! i)" if "i < 16" for i
    using P that ys eq by (cases "i = unat ci") (auto simp: s' bn [unfolded s'] chain_append)
  have "mset (concat ?T) + mset (T ! unat ci) = mset (concat T) + mset (ys @ T ! unat ci)"
    using P ys(1) by (intro mset_concat_update) simp
  then have m: "mset (concat ?T) + mset (concat cs) = mset (concat T) + mset (X ! t)" by (simp add: X(1))
  have "atomic_parts U ?T (X[t := concat cs]) (ths[t := \<lparr>at_pc = Outside, held = hs\<rparr>], s')"
    using P by (intro parts_step [OF parts t _ _ _ ch own m]) (simp_all add: s' bn [unfolded s'])
  then show ?thesis by (auto simp: atomic_inv_def)
qed

lemma step_retry:
  assumes parts: "atomic_parts U T X (ths, s)" and t: "t < length ths"
    and th: "ths ! t = \<lparr>at_pc = Swap ci l observed, held = hs\<rparr>"
    and st: "publish_cas testing spurious ci l observed s = Some (False, observed', s')"
  shows "atomic_inv U (ths[t := \<lparr>at_pc = Link ci l observed', held = hs\<rparr>], s')"
proof -
  from parts t obtain cs ys where X: "X ! t = concat cs @ ys" "list_all2 (list_ok s) hs cs" "t < length X"
    "pc_owns (block_next s) (Swap ci l observed) ys" by (rule parts_thread) (use th in auto)
  note P = parts [unfolded atomic_parts_def snd_conv]
  have s': "block_next s' = block_next s" "atomic_heads s' = atomic_heads s"
    using st by (auto simp: publish_cas_def split: if_splits bind_splits)
  have own: "thread_owns s' \<lparr>at_pc = Link ci l observed', held = hs\<rparr> (X ! t)"
    using held_frame [OF X(2), of s'] X(1,4) by (auto simp: thread_owns_def s')
  have "atomic_parts U T (X[t := X ! t]) (ths[t := \<lparr>at_pc = Link ci l observed', held = hs\<rparr>], s')"
    using P by (intro parts_step [OF parts t _ _ _ _ own]) (simp_all add: s')
  then show ?thesis by (auto simp: atomic_inv_def)
qed

lemma step_exchange:
  assumes parts: "atomic_parts U T X (ths, s)" and t: "t < length ths"
    and th: "ths ! t = \<lparr>at_pc = Outside, held = hs\<rparr>" and ci: "unat ci < 16"
    and st: "detach_exchange testing ci s = Some (first, s')"
  shows "atomic_inv U (ths[t := \<lparr>at_pc = Walk first first NULL 0, held = hs\<rparr>], s')"
proof -
  from parts t obtain cs where X: "X ! t = concat cs" "list_all2 (list_ok s) hs cs" "t < length X"
    by (rule parts_thread) (use th in auto)
  note P = parts [unfolded atomic_parts_def snd_conv]
  let ?i = "unat ci" and ?th = "\<lparr>at_pc = Walk first first NULL 0, held = hs\<rparr>"
  have first: "first = atomic_heads s ! ?i" and s': "atomic_heads s' = (atomic_heads s)[?i := NULL]"
    "block_next s' = block_next s"
    using st P ci by (auto simp: detach_exchange_def block_next_def fun_eq_iff)
  have "chain (block_next s) first (T ! ?i)" using P ci first by simp
  then have own: "thread_owns s' ?th (concat cs @ T ! ?i)"
    using held_frame [OF X(2), of s'] unfolding thread_owns_def by (auto simp: s')
  have ch: "chain (block_next s') (atomic_heads s' ! i) (T[?i := []] ! i)" if "i < 16" for i
    using P that ci by (cases "i = ?i") (auto simp: s')
  have "mset (concat (T[?i := []])) + mset (T ! ?i) = mset (concat T) + mset []"
    using P ci by (intro mset_concat_update) simp
  then have m: "mset (concat (T[?i := []])) + mset (concat cs @ T ! ?i) = mset (concat T) + mset (X ! t)"
    by (simp add: X(1) ac_simps)
  have "atomic_parts U (T[?i := []]) (X[t := concat cs @ T ! ?i]) (ths[t := ?th], s')"
    using P by (intro parts_step [OF parts t _ _ _ ch own m]) (simp_all add: s')
  then show ?thesis by (auto simp: atomic_inv_def)
qed

lemma step_walk:
  assumes parts: "atomic_parts U T X (ths, s)" and t: "t < length ths"
    and th: "ths ! t = \<lparr>at_pc = Walk first block last' n, held = hs\<rparr>" and b: "block \<noteq> NULL" "blocks s block = Some b"
  shows "atomic_inv U (ths[t := \<lparr>at_pc = Walk first (next_free b) block (n + 1), held = hs\<rparr>], s)"
proof -
  from parts t obtain cs ys where X: "X ! t = concat cs @ ys" "list_all2 (list_ok s) hs cs"
    "pc_owns (block_next s) (Walk first block last' n) ys" by (rule parts_thread) (use th in auto)
  then obtain as bs where w: "ys = as @ bs" "segment (block_next s) first as block" "chain (block_next s) block bs"
    "n = word_of_nat (length as)" by auto
  with b obtain bs' where bs: "bs = block # bs'" "chain (block_next s) (next_free b) bs'"
    using chain_nonnull [OF b(1) w(3)] by (auto simp: block_next_Some)
  have "pc_owns (block_next s) (Walk first (next_free b) block (n + 1)) ys"
    unfolding pc_owns.simps
  proof (intro exI conjI)
    show "ys = (as @ [block]) @ bs'" using w bs by simp
    show "segment (block_next s) first (as @ [block]) (next_free b)"
      using w(2) b by (auto simp: block_next_def)
    show "chain (block_next s) (next_free b) bs'" by (rule bs(2))
  qed (simp_all add: w(4))
  then have "thread_owns s \<lparr>at_pc = Walk first (next_free b) block (n + 1), held = hs\<rparr> (X ! t)"
    unfolding thread_owns_def atomic_thread.simps using X(1,2) by blast
  then show ?thesis by (rule parts_local [OF parts t]) simp
qed

lemma step_arrive:
  assumes parts: "atomic_parts U T X (ths, s)" and t: "t < length ths"
    and th: "ths ! t = \<lparr>at_pc = Walk first NULL last' n, held = hs\<rparr>"
  shows "atomic_inv U (ths[t := \<lparr>at_pc = Outside, held = \<lparr>tl_first = first, tl_last = last', tl_count = n\<rparr> # hs\<rparr>], s)"
proof -
  from parts t obtain cs ys where X: "X ! t = concat cs @ ys" "list_all2 (list_ok s) hs cs"
    "pc_owns (block_next s) (Walk first NULL last' n) ys" by (rule parts_thread) (use th in auto)
  then have "segment (block_next s) first ys NULL" "last' = (if ys = [] then NULL else last ys)"
    "n = word_of_nat (length ys)" by auto
  then have "list_ok s \<lparr>tl_first = first, tl_last = last', tl_count = n\<rparr> ys"
    by (simp add: list_ok_def chain_def)
  then have "thread_owns s \<lparr>at_pc = Outside, held = \<lparr>tl_first = first, tl_last = last', tl_count = n\<rparr> # hs\<rparr> (concat (ys # cs))"
    using X unfolding thread_owns_def by (intro exI [of _ "ys # cs"] exI [of _ "[]"]) simp
  then show ?thesis by (rule parts_local [OF parts t]) (simp add: X(1))
qed

lemma step_split:
  assumes parts: "atomic_parts U T X (ths, s)" and t: "t < length ths"
    and th: "ths ! t = \<lparr>at_pc = Outside, held = as @ l # bs\<rparr>"
    and st: "hplf_transfer_list_take_prefix l k out s = Some (l', out', s')"
  shows "atomic_inv U (ths[t := \<lparr>at_pc = Outside, held = as @ l' # out' # bs\<rparr>], s')"
proof -
  from parts t obtain cs where X: "X ! t = concat cs" "list_all2 (list_ok s) (as @ l # bs) cs" "t < length X"
    by (rule parts_thread) (use th in auto)
  then obtain ca c cb where cs: "cs = ca @ c # cb" "list_all2 (list_ok s) as ca" "list_ok s l c"
    "list_all2 (list_ok s) bs cb" by (auto simp: list_all2_append1 list_all2_Cons1)
  let ?n = "unat k"
  from take_prefix_spec [OF list_ok_chain [OF cs(3)], of k out] st obtain
    o: "list_ok s' out' (take ?n c)" "chain_ok s' l' (drop ?n c)" "relinked (set (take ?n c)) s s'"
    "tl_last l' = (if c \<noteq> [] \<and> length c \<le> ?n \<and> 0 < ?n then NULL else tl_last l)" by auto
  have l': "list_ok s' l' (drop ?n c)" using o(2,4) cs(3) by (auto simp: list_ok_def chain_ok_def last_drop)
  have fr: "block_next s' p = block_next s p" if "p \<notin> set (take ?n c)" for p
    using o(3) that by (simp add: relinked_def block_next_def)
  have heads: "atomic_heads s' = atomic_heads s" using o(3) by (cases s; cases s') (simp add: relinked_def)
  have "distinct (X ! t)" using parts_distinct(1) [OF parts] X(3) by (simp add: distinct_concat_iff)
  then have d: "set c \<inter> set (concat ca) = {}" "set c \<inter> set (concat cb) = {}" using X(1) cs(1) by auto
  have sub: "set (take ?n c) \<subseteq> set c" by (rule set_take_subset)
  have ca: "list_all2 (list_ok s') as ca" and cb: "list_all2 (list_ok s') bs cb"
    by (rule held_frame [OF cs(2)], use d sub in \<open>auto intro!: fr\<close>)
      (rule held_frame [OF cs(4)], use d sub in \<open>auto intro!: fr\<close>)
  let ?x = "concat (ca @ drop ?n c # take ?n c # cb)" and ?th = "\<lparr>at_pc = Outside, held = as @ l' # out' # bs\<rparr>"
  have own: "thread_owns s' ?th ?x"
    using ca cb l' o(1) unfolding thread_owns_def
    by (intro exI [of _ "ca @ drop ?n c # take ?n c # cb"] exI [of _ "[]"]) (auto intro: list_all2_appendI)
  have "mset (drop ?n c) + mset (take ?n c) = mset c" by (metis add.commute append_take_drop_id mset_append)
  then have m: "mset ?x = mset (X ! t)" by (simp add: X(1) cs(1) add.assoc [symmetric])
  have "set (take ?n c) \<subseteq> set (X ! t)" using sub X(1) cs(1) by auto
  note P = parts [unfolded atomic_parts_def snd_conv]
  have fr': "block_next s' p = block_next s p" if "p \<notin> set (X ! t)" for p
    using that \<open>set (take ?n c) \<subseteq> set (X ! t)\<close> by (intro fr) auto
  have ch: "chain (block_next s') (atomic_heads s' ! i) (T ! i)" if i: "i < 16" for i
  proof -
    have "chain (block_next s') (atomic_heads s ! i) (T ! i) \<longleftrightarrow> chain (block_next s) (atomic_heads s ! i) (T ! i)"
      using parts_separate(1) [OF parts X(3) _ i] by (intro chain_cong fr') blast
    with P i heads show ?thesis by simp
  qed
  have "atomic_parts U T (X[t := ?x]) (ths[t := ?th], s')"
    using P heads m by (intro parts_step [OF parts t fr' _ _ ch own]) simp_all
  then show ?thesis by (auto simp: atomic_inv_def)
qed

lemma atomic_step_inv:
  assumes "atomic_step testing t c c'" and "atomic_inv U c"
  shows "atomic_inv U c'"
proof -
  from assms(2) obtain T X where "atomic_parts U T X c" by (auto simp: atomic_inv_def)
  with assms(1) show ?thesis
    by cases (auto intro: step_load step_link step_swap step_retry step_exchange step_walk step_arrive step_split)
qed

lemma atomic_reach_inv: "atomic_reach testing c c' \<Longrightarrow> atomic_inv U c \<Longrightarrow> atomic_inv U c'"
  by (induction rule: atomic_reach.induct) (auto intro: atomic_step_inv)

section \<open>A thread can always go on, and on its own it finishes\<close>

lemma thread_step_exists:
  assumes parts: "atomic_parts U T X (ths, s)" and t: "t < length ths"
  shows "at_pc (ths ! t) = Link ci l observed \<Longrightarrow>
      \<exists>s'. atomic_step testing t (ths, s) (ths[t := \<lparr>at_pc = Swap ci l observed, held = held (ths ! t)\<rparr>], s') \<and>
        atomic_heads s' = atomic_heads s"
    and "at_pc (ths ! t) = Swap ci l observed \<Longrightarrow>
      (\<exists>s'. atomic_step testing t (ths, s) (ths[t := \<lparr>at_pc = Outside, held = held (ths ! t)\<rparr>], s')) \<or>
      atomic_heads s ! unat ci \<noteq> observed \<and> atomic_step testing t (ths, s)
        (ths[t := \<lparr>at_pc = Link ci l (atomic_heads s ! unat ci), held = held (ths ! t)\<rparr>],
         count_atomic testing (\<lambda>t. t\<lparr>compare_exchange_failures := compare_exchange_failures t + 1\<rparr>) s)"
    and "at_pc (ths ! t) = Walk first block last' n \<Longrightarrow> block \<noteq> NULL \<Longrightarrow> \<exists>b. blocks s block = Some b"
proof -
  from parts t obtain cs ys where ys: "pc_owns (block_next s) (at_pc (ths ! t)) ys" by (rule parts_thread)
  have heads: "length (atomic_heads s) = 16" using parts by (simp add: atomic_parts_def)
  show "\<exists>s'. atomic_step testing t (ths, s) (ths[t := \<lparr>at_pc = Swap ci l observed, held = held (ths ! t)\<rparr>], s') \<and>
      atomic_heads s' = atomic_heads s" if pc: "at_pc (ths ! t) = Link ci l observed"
  proof -
    obtain q where "ys \<noteq> []" "tl_last l = last ys" "segment (block_next s) (tl_first l) ys q" using ys pc by auto
    then obtain b where "blocks s (tl_last l) = Some b"
      by (cases ys rule: rev_cases) (auto simp: block_next_Some)
    then obtain s' where s': "publish_link testing l observed s = Some s'" "atomic_heads s' = atomic_heads s"
      by (auto simp: publish_link_def set_next_free_def update_block_def)
    have "ths ! t = \<lparr>at_pc = Link ci l observed, held = held (ths ! t)\<rparr>" using pc by simp
    from link [OF t this s'(1)] s'(2) show ?thesis by blast
  qed
  show "(\<exists>s'. atomic_step testing t (ths, s) (ths[t := \<lparr>at_pc = Outside, held = held (ths ! t)\<rparr>], s')) \<or>
      atomic_heads s ! unat ci \<noteq> observed \<and> atomic_step testing t (ths, s)
        (ths[t := \<lparr>at_pc = Link ci l (atomic_heads s ! unat ci), held = held (ths ! t)\<rparr>],
         count_atomic testing (\<lambda>t. t\<lparr>compare_exchange_failures := compare_exchange_failures t + 1\<rparr>) s)"
    if pc: "at_pc (ths ! t) = Swap ci l observed"
  proof -
    have ci: "unat ci < 16" using ys pc by simp
    have th: "ths ! t = \<lparr>at_pc = Swap ci l observed, held = held (ths ! t)\<rparr>" using pc by simp
    show ?thesis
    proof (cases "atomic_heads s ! unat ci = observed")
      case True
      then have "publish_cas testing False ci l observed s =
        Some (True, observed, s\<lparr>atomic_heads := (atomic_heads s)[unat ci := tl_first l]\<rparr>)"
        using ci heads by (simp add: publish_cas_def)
      from swap [OF t th this] show ?thesis by blast
    next
      case False
      then have "publish_cas testing False ci l observed s = Some (False, atomic_heads s ! unat ci,
        count_atomic testing (\<lambda>t. t\<lparr>compare_exchange_failures := compare_exchange_failures t + 1\<rparr>) s)"
        using ci heads by (simp add: publish_cas_def)
      from retry [OF t th this] False show ?thesis by blast
    qed
  qed
  show "\<exists>b. blocks s block = Some b" if "at_pc (ths ! t) = Walk first block last' n" "block \<noteq> NULL"
    using ys that by (auto dest!: chain_nonnull simp: block_next_Some)
qed

text \<open>
  A thread that is inside a publish or a detach always has an action that is not a spurious failure: a
  compare-and-swap that fails although the head is the one it observed.
\<close>

definition spurious_failure :: "nat \<Rightarrow> atomic_conf \<Rightarrow> atomic_conf \<Rightarrow> bool" where
  "spurious_failure t c c' \<longleftrightarrow> (\<exists>ci l. at_pc (fst c ! t) = Swap ci l (atomic_heads (snd c) ! unat ci)) \<and>
     at_pc (fst c' ! t) \<noteq> Outside"

lemma solo_progress:
  assumes inv: "atomic_inv U c" and t: "t < length (fst c)" and pc: "at_pc (fst c ! t) \<noteq> Outside"
  shows "\<exists>c'. atomic_step testing t c c' \<and> \<not> spurious_failure t c c'"
proof -
  obtain ths s where c: "c = (ths, s)" by (cases c)
  from inv c obtain T X where p: "atomic_parts U T X (ths, s)" by (auto simp: atomic_inv_def)
  have t: "t < length ths" using t c by simp
  show ?thesis
  proof (cases "at_pc (ths ! t)")
    case (Link ci l observed)
    with thread_step_exists(1) [OF p t Link, of testing] show ?thesis unfolding c by (auto simp: spurious_failure_def)
  next
    case (Swap ci l observed)
    from thread_step_exists(2) [OF p t Swap, of testing] Swap t show ?thesis unfolding c by (fastforce simp: spurious_failure_def)
  next
    case (Walk first block last' n)
    then have th: "ths ! t = \<lparr>at_pc = Walk first block last' n, held = held (ths ! t)\<rparr>" by simp
    show ?thesis
    proof (cases "block = NULL")
      case True
      with arrive [OF t, of first last' n "held (ths ! t)" testing s] th Walk show ?thesis
        unfolding c by (auto simp: spurious_failure_def)
    next
      case False
      with thread_step_exists(3) [OF p t Walk] obtain b where "blocks s block = Some b" by blast
      from walk [OF t th False this, of testing] Walk show ?thesis
        unfolding c by (intro exI conjI) (auto simp: spurious_failure_def)
    qed
  qed (use pc c in simp)
qed

text \<open>
  The runs of thread \<open>t\<close> alone up to the end of the operation it is in: \<open>n\<close> actions, \<open>k\<close> of them
  spurious failures.
\<close>

inductive solo_run :: "bool \<Rightarrow> nat \<Rightarrow> nat \<Rightarrow> nat \<Rightarrow> atomic_conf \<Rightarrow> atomic_conf \<Rightarrow> bool" where
  alone: "solo_run testing t 0 0 c c"
| act: "at_pc (fst c ! t) \<noteq> Outside \<Longrightarrow> atomic_step testing t c c' \<Longrightarrow> solo_run testing t n k c' c'' \<Longrightarrow>
    solo_run testing t (Suc n) (if spurious_failure t c c' then Suc k else k) c c''"

text \<open>How many actions the thread is away from leaving when none of them is a spurious failure.\<close>

definition solo_distance :: "nat \<Rightarrow> atomic_conf \<Rightarrow> nat \<Rightarrow> bool" where
  "solo_distance t c m \<longleftrightarrow> (case at_pc (fst c ! t) of
     Outside \<Rightarrow> m = 0
   | Link ci l observed \<Rightarrow> m = (if atomic_heads (snd c) ! unat ci = observed then 2 else 4)
   | Swap ci l observed \<Rightarrow> m = (if atomic_heads (snd c) ! unat ci = observed then 1 else 3)
   | Walk first block last' n \<Rightarrow> (\<exists>bs. chain (block_next (snd c)) block bs \<and> m = Suc (length bs)))"

lemma atomic_step_length: "atomic_step testing t c c' \<Longrightarrow> length (fst c') = length (fst c)"
  by (erule atomic_step.cases) simp_all

lemma solo_distance_step:
  assumes "atomic_step testing t c c'" and "at_pc (fst c ! t) \<noteq> Outside" and "solo_distance t c m"
  shows "\<exists>m'. solo_distance t c' m' \<and> (if spurious_failure t c c' then m' = Suc m else Suc m' \<le> m)"
  using assms
proof (cases rule: atomic_step.cases)
  case (link ths ci l observed hs s s')
  then have "atomic_heads s' = atomic_heads s"
    by (auto simp: publish_link_def set_next_free_def update_block_def split: option.splits bind_splits)
  with link assms(3) show ?thesis by (auto simp: solo_distance_def spurious_failure_def)
next
  case (swap ths ci l observed hs spurious s observed' s')
  with assms(3) show ?thesis by (auto simp: solo_distance_def spurious_failure_def)
next
  case (retry ths ci l observed hs spurious s observed' s')
  then have "atomic_heads s' = atomic_heads s" "observed' = atomic_heads s ! unat ci"
    by (auto simp: publish_cas_def array_read_def split: if_splits bind_splits)
  with retry assms(3) show ?thesis by (auto simp: solo_distance_def spurious_failure_def)
next
  case (walk ths first block last' n hs s b)
  with assms(3) obtain bs where "chain (block_next s) block bs" "m = Suc (length bs)" by (auto simp: solo_distance_def)
  with chain_nonnull [OF walk(5) this(1)] walk obtain ys where "chain (block_next s) (next_free b) ys" "m = Suc (Suc (length ys))"
    by (auto simp: block_next_Some)
  with walk show ?thesis by (intro exI [of _ "Suc (length ys)"]) (auto simp: solo_distance_def spurious_failure_def)
next
  case (arrive ths first last' n hs s)
  with assms(3) show ?thesis by (auto simp: solo_distance_def spurious_failure_def)
qed (use assms(2) in simp_all)

text \<open>In a state with the invariant the distance is at most 4 in a publish and one more than the blocks in a detach.\<close>

lemma solo_distance_bound:
  assumes inv: "atomic_inv U c" and t: "t < length (fst c)"
  shows "\<exists>m. solo_distance t c m \<and> m \<le> max 4 (card U + 1)"
proof -
  obtain ths s where c: "c = (ths, s)" by (cases c)
  from inv c obtain T X where p: "atomic_parts U T X (ths, s)" by (auto simp: atomic_inv_def)
  from p t c obtain cs ys where y: "X ! t = concat cs @ ys" "pc_owns (block_next s) (at_pc (ths ! t)) ys" "t < length X"
    by (auto elim: parts_thread)
  show ?thesis
  proof (cases "at_pc (ths ! t)")
    case (Walk first block last' n)
    with y obtain as bs where b: "ys = as @ bs" "chain (block_next s) block bs" by auto
    have "length (X ! t) \<le> length (concat X)" using y(3) by (simp add: length_concat elem_le_sum_list [of t "map length X", simplified])
    also have "\<dots> \<le> size (mset (concat T @ concat X))" by simp
    also have "\<dots> = card U" using p by (simp add: atomic_parts_def)
    finally have "length bs \<le> card U" using y(1) b(1) by simp
    then show ?thesis using Walk b(2) c by (intro exI [of _ "Suc (length bs)"]) (auto simp: solo_distance_def)
  qed (auto simp: solo_distance_def c)
qed

lemma solo_run_bound:
  assumes "solo_run testing t n k c c'" and "solo_distance t c m"
  shows "\<exists>m'. solo_distance t c' m' \<and> n + m' \<le> m + 2 * k"
  using assms
proof (induction arbitrary: m)
  case (act c t testing c' n k c'')
  from solo_distance_step [OF act.hyps(2,1) act.prems] obtain m1 where
    m1: "solo_distance t c' m1" "if spurious_failure t c c' then m1 = Suc m else Suc m1 \<le> m" by blast
  from act.IH [OF m1(1)] obtain m' where "solo_distance t c'' m'" "n + m' \<le> m1 + 2 * k" by blast
  with m1(2) show ?case by (intro exI [of _ m']) (auto split: if_splits)
qed auto

lemma solo_run_inv: "solo_run testing t n k c c' \<Longrightarrow> atomic_inv U c \<Longrightarrow> atomic_inv U c' \<and> length (fst c') = length (fst c)"
proof (induction rule: solo_run.induct)
  case (act c t testing c' n k c'')
  with atomic_step_inv [OF act.hyps(2)] atomic_step_length [OF act.hyps(2)] show ?case by simp
qed simp

text \<open>
  In every reachable configuration each thread can finish its operation running alone, whatever the
  others have left half done, and every run of the thread alone does so: the transfer never blocks.
\<close>

lemma solo_finish:
  assumes "atomic_inv U c" and "t < length (fst c)" and "solo_distance t c m"
  shows "\<exists>n c'. solo_run testing t n 0 c c' \<and> at_pc (fst c' ! t) = Outside"
  using assms
proof (induction m arbitrary: c rule: less_induct)
  case (less m)
  show ?case
  proof (cases "at_pc (fst c ! t) = Outside")
    case True
    then show ?thesis using alone by blast
  next
    case False
    from solo_progress [OF less.prems(1,2) False] obtain c1 where c1: "atomic_step testing t c c1" "\<not> spurious_failure t c c1" by blast
    from solo_distance_step [OF c1(1) False less.prems(3)] c1(2) obtain m1 where m1: "solo_distance t c1 m1" "m1 < m" by auto
    have "t < length (fst c1)" using less.prems(2) atomic_step_length [OF c1(1)] by simp
    from less.IH [OF m1(2) atomic_step_inv [OF c1(1) less.prems(1)] this m1(1)] obtain n c' where
      "solo_run testing t n 0 c1 c'" "at_pc (fst c' ! t) = Outside" by blast
    with act [OF False c1(1)] c1(2) show ?thesis by fastforce
  qed
qed

lemma solo_leaves:
  assumes inv: "atomic_inv U c" and t: "t < length (fst c)" and run: "solo_run testing t n k c c'"
  shows "n \<le> max 4 (card U + 1) + 2 * k" and "at_pc (fst c' ! t) \<noteq> Outside \<Longrightarrow> n < max 4 (card U + 1) + 2 * k"
    and "at_pc (fst c' ! t) \<noteq> Outside \<Longrightarrow> \<exists>d. atomic_step testing t c' d \<and> \<not> spurious_failure t c' d"
proof -
  from solo_distance_bound [OF inv t] obtain m where m: "solo_distance t c m" "m \<le> max 4 (card U + 1)" by blast
  from solo_run_bound [OF run m(1)] obtain m' where m': "solo_distance t c' m'" "n + m' \<le> m + 2 * k" by blast
  show "n \<le> max 4 (card U + 1) + 2 * k" using m(2) m'(2) by linarith
  have "0 < m'" if "at_pc (fst c' ! t) \<noteq> Outside" using that m'(1) by (auto simp: solo_distance_def split: atomic_pc.splits if_splits)
  then show "n < max 4 (card U + 1) + 2 * k" if "at_pc (fst c' ! t) \<noteq> Outside" using m(2) m'(2) that by fastforce
  from solo_run_inv [OF run inv] t show "\<exists>d. atomic_step testing t c' d \<and> \<not> spurious_failure t c' d" if "at_pc (fst c' ! t) \<noteq> Outside"
    using solo_progress [of U c' t] that by simp
qed

section \<open>The sequential contracts\<close>

definition atomic_transfers :: "'a atomic_state_scheme \<Rightarrow> addr list list \<Rightarrow> bool" where
  "atomic_transfers s T \<longleftrightarrow> length (atomic_heads s) = 16 \<and> length T = 16 \<and>
     (\<forall>i < 16. chain (block_next s) (atomic_heads s ! i) (T ! i))"

text \<open>The weak compare-and-swap does not fail forever, and no test hook is installed.\<close>

definition atomic_env_ok :: "'s atomic_env \<Rightarrow> bool" where
  "atomic_env_ok env \<longleftrightarrow> (\<forall>t. \<exists>u \<ge> t. \<not> cas_spurious env u) \<and> before_publish_cas env = None \<and> after_detach env = None"

text \<open>What the loop of publish leaves behind: the last block linked to the old head, and the new head.\<close>

definition published_state ::
  "size_t \<Rightarrow> hplf_transfer_list \<Rightarrow> hplf_block \<Rightarrow> 'a atomic_state_scheme \<Rightarrow> 'a atomic_state_scheme \<Rightarrow> bool" where
  "published_state ci l b s s' \<longleftrightarrow>
     blocks s' = (blocks s)(tl_last l \<mapsto> b\<lparr>next_free := atomic_heads s ! unat ci\<rparr>) \<and>
     atomic_heads s' = (atomic_heads s)[unat ci := tl_first l] \<and> slab_objs s' = slab_objs s \<and>
     mappings s' = mappings s \<and> bytes s' = bytes s \<and> errno s' = errno s"

lemma publish_loop_spec:
  assumes hooks: "before_publish_cas env = None" and ci: "unat ci < 16"
  shows "blocks s (tl_last l) = Some b \<Longrightarrow> length (atomic_heads s) = 16 \<Longrightarrow> \<not> cas_spurious env (ticks s + d) \<Longrightarrow>
    \<exists>s'. publish_loop env ci l (atomic_heads s ! unat ci) n s = Some s' \<and> published_state ci l b s s'"
proof (induction d arbitrary: s b n)
  case 0
  then show ?case using hooks ci
    by (subst publish_loop.simps)
      (auto simp: publish_link_def publish_cas_def set_next_free_def update_block_def count_atomic_def
        published_state_def split: bool.splits)
next
  case (Suc d)
  show ?case
  proof (cases "cas_spurious env (ticks s)")
    case False
    then show ?thesis using hooks ci Suc.prems
      by (subst publish_loop.simps)
        (auto simp: publish_link_def publish_cas_def set_next_free_def update_block_def count_atomic_def
          published_state_def split: bool.splits)
  next
    case True
    let ?b = "b\<lparr>next_free := atomic_heads s ! unat ci\<rparr>"
    let ?s1 = "count_atomic (at_testing env) (\<lambda>t. t\<lparr>publish_attempts := publish_attempts t + 1\<rparr>)
      (s\<lparr>blocks := (blocks s)(tl_last l \<mapsto> ?b)\<rparr>)"
    let ?s = "count_atomic (at_testing env)
      (\<lambda>t. t\<lparr>compare_exchange_failures := compare_exchange_failures t + 1\<rparr>) (?s1\<lparr>ticks := Suc (ticks ?s1)\<rparr>)"
    have s: "blocks ?s = (blocks s)(tl_last l \<mapsto> ?b)" "atomic_heads ?s = atomic_heads s" "ticks ?s = Suc (ticks s)"
      "slab_objs ?s = slab_objs s" "mappings ?s = mappings s" "bytes ?s = bytes s" "errno ?s = errno s"
      by (simp_all add: count_atomic_def)
    have run: "publish_loop env ci l (atomic_heads s ! unat ci) n s =
      publish_loop env ci l (atomic_heads ?s ! unat ci) (n + 1) ?s"
      using hooks ci Suc.prems True
      by (subst publish_loop.simps)
        (auto simp: publish_link_def publish_cas_def set_next_free_def update_block_def count_atomic_def split: bool.splits)
    have "\<exists>s'. publish_loop env ci l (atomic_heads ?s ! unat ci) (n + 1) ?s = Some s' \<and> published_state ci l ?b ?s s'"
      by (rule Suc.IH) (use Suc.prems s in simp_all)
    then show ?thesis unfolding run by (auto simp: published_state_def s)
  qed
qed

interpretation atomic_transfer: transfer atomic_env_ok atomic_transfers hplf_transfer_atomic_publish hplf_transfer_atomic_detach
proof (unfold_locales, goal_cases)
  case (1 s T)
  then show ?case by (simp add: atomic_transfers_def)
next
  case (2 env s T ci l xs)
  note T = 2(2) [unfolded atomic_transfers_def] and e = 2(1) [unfolded atomic_env_ok_def]
  show ?case
  proof (cases xs rule: rev_cases)
    case Nil
    with 2 show ?thesis by (auto simp: list_ok_def hplf_transfer_atomic_publish_def)
  next
    case (snoc ys z)
    let ?i = "unat ci" and ?T = "T[unat ci := xs @ T ! unat ci]"
    have c: "chain (block_next s) (tl_first l) (ys @ [z])" and lst: "tl_last l = z"
      using 2(4) snoc by (auto simp: list_ok_def)
    obtain b where b: "blocks s z = Some b" using chain_nodes [OF c, of z] by (auto simp: block_next_def)
    from e obtain u where "u \<ge> ticks s" "\<not> cas_spurious env u" by blast
    then have "\<not> cas_spurious env (ticks s + (u - ticks s))" by simp
    with e b lst T have "\<exists>s'. publish_loop env ci l (atomic_heads s ! ?i) 0 s = Some s' \<and> published_state ci l b s s'"
      by (intro publish_loop_spec [OF _ 2(3)]) simp_all
    then obtain s' where run: "publish_loop env ci l (atomic_heads s ! ?i) 0 s = Some s'"
      and st: "published_state ci l b s s'" by blast
    have bn: "block_next s' = (block_next s)(z \<mapsto> atomic_heads s ! ?i)"
      using st lst by (auto simp: published_state_def block_next_def fun_eq_iff)
    have z: "z \<notin> set (T ! j)" if "j < 16" for j
      using 2(5) snoc T that nth_mem [of j T] by auto
    have "chain (block_next s') (atomic_heads s' ! j) (?T ! j)" if j: "j < 16" for j
    proof (cases "j = ?i")
      case True
      have "chain (block_next s) (atomic_heads s ! ?i) (T ! ?i)" using T 2(3) by simp
      from chain_splice [OF c this z [OF 2(3)]] show ?thesis
        using True st T 2(3) unfolding bn by (simp add: snoc published_state_def)
    next
      case False
      then show ?thesis using T j z [OF j] st unfolding bn by (simp add: published_state_def)
    qed
    then have "atomic_transfers s' ?T" using T st by (simp add: atomic_transfers_def published_state_def)
    moreover have "links_only (set xs) s s'"
      using st b lst snoc by (auto simp: published_state_def links_only_def bshape_def fun_eq_iff)
    moreover have "hplf_transfer_atomic_publish env ci l s = Some (hplf_transfer_list_clear l, s')"
      using run chain_first [OF c] T 2(3) by (simp add: hplf_transfer_atomic_publish_def atomic_load_head_def)
    ultimately show ?thesis using clear_ok by blast
  qed
next
  case (3 env s T ci)
  note T = 3(2) [unfolded atomic_transfers_def] and e = 3(1) [unfolded atomic_env_ok_def]
  let ?i = "unat ci"
  let ?s = "count_atomic (at_testing env) (\<lambda>t. t\<lparr>detachments := detachments t + 1\<rparr>)
    (s\<lparr>atomic_heads := (atomic_heads s)[?i := NULL]\<rparr>)"
  have bn: "block_next ?s = block_next s" by (simp add: block_next_def fun_eq_iff)
  have "chain (block_next ?s) (atomic_heads s ! ?i) (T ! ?i)" unfolding bn using T 3(3) by simp
  then obtain l where l: "hplf_transfer_list_from_chain (atomic_heads s ! ?i) ?s = Some l" "list_ok ?s l (T ! ?i)"
    by (rule from_chain_spec)
  have "hplf_transfer_atomic_detach env ci s = Some (l, ?s)"
    using l(1) T 3(3) e
    by (cases "at_testing env") (simp_all add: hplf_transfer_atomic_detach_def detach_exchange_def)
  moreover have "atomic_transfers ?s (T[?i := []])"
    using T 3(3) unfolding atomic_transfers_def bn by (auto simp: nth_list_update)
  moreover have "links_only {} s ?s" by (auto simp: links_only_def bshape_def fun_eq_iff count_atomic_def)
  ultimately show ?case using l(2) by blast
qed

end
