(* ===== verification/Component_Laws.thy ===== *)
theory Component_Laws
  imports Demo_Cached Transfer_Atomic
begin

text \<open>
  The properties of the single components: checked arithmetic, size classes, layouts, slabs, system
  memory, the two transfer lists and the thread cache.  The witnesses use two blocks that a slab at
  address 4096 might contain.
\<close>

section \<open>Two blocks\<close>

definition demo_block :: "addr \<Rightarrow> hplf_block" where
  "demo_block n = \<lparr>owner = OwnerSmall 4096, next_free = n, requested_size = 0, capacity = 16, kind = HPLF_BLOCK_SMALL\<rparr>"

definition demo_blocks :: "addr \<Rightarrow> hplf_block option" where
  "demo_blocks = [4160 \<mapsto> demo_block 4224, 4224 \<mapsto> demo_block NULL]"

definition demo_transfer :: transfer_state where
  "demo_transfer = \<lparr>errno = 0, ticks = 0, mappings = [(4096, 65536)], blocks = demo_blocks, slab_objs = (\<lambda>p. None),
     bytes = (\<lambda>p. None), fault_state = no_faults, transfer_mutex = False, transfer_heads = replicate 16 NULL\<rparr>"

definition demo_list :: hplf_transfer_list where
  "demo_list = \<lparr>tl_first = 4160, tl_last = 4224, tl_count = 2\<rparr>"

definition demo_atomic :: atomic_state where
  "demo_atomic = \<lparr>errno = 0, ticks = 0, mappings = [(4096, 65536)], blocks = demo_blocks, slab_objs = (\<lambda>p. None),
     bytes = (\<lambda>p. None), fault_state = no_faults, atomic_heads = replicate 16 NULL,
     at_stats = \<lparr>publish_attempts = 0, compare_exchange_failures = 0, detachments = 0\<rparr>\<rparr>"

text \<open>Every second compare-and-swap fails spuriously.\<close>

definition demo_atomic_env :: "atomic_state atomic_env" where
  "demo_atomic_env = \<lparr>at_testing = True, cas_spurious = even, before_publish_cas = None, after_detach = None\<rparr>"

definition demo_conf :: atomic_conf where
  "demo_conf = ([\<lparr>at_pc = Outside, held = [demo_list]\<rparr>, \<lparr>at_pc = Outside, held = []\<rparr>], demo_atomic)"

text \<open>The first thread has begun to publish its chain and read the head.\<close>

definition demo_loaded :: atomic_conf where
  "demo_loaded = ([\<lparr>at_pc = Link 3 demo_list NULL, held = []\<rparr>, \<lparr>at_pc = Outside, held = []\<rparr>], demo_atomic)"

lemma demo_loaded_reach: "atomic_reach True demo_conf demo_loaded"
proof -
  have "atomic_step True 0 demo_conf demo_loaded"
    using load [of 0 "fst demo_conf" "[]" demo_list "[]" 3 demo_atomic NULL True]
    by (simp add: demo_conf_def demo_loaded_def demo_list_def demo_atomic_def atomic_load_head_def)
  then show ?thesis by (blast intro: atomic_reach.intros)
qed

lemma demo_list_ok: "blocks s = demo_blocks \<Longrightarrow> list_ok s demo_list [4160, 4224]"
  by (simp add: list_ok_def demo_list_def demo_blocks_def demo_block_def block_next_def)

lemma demo_transfers: "transfers_ok demo_transfer (replicate 16 [])"
  by (simp add: transfers_ok_def demo_transfer_def)

lemma demo_atomic_transfers: "atomic_transfers demo_atomic (replicate 16 [])"
  by (simp add: atomic_transfers_def demo_atomic_def)

lemma demo_atomic_ready: "atomic_env_ok demo_atomic_env"
proof -
  have "\<exists>u \<ge> t. odd u" for t :: nat by (cases "odd t") (auto intro: exI [of _ "Suc t"])
  then show ?thesis by (simp add: atomic_env_ok_def demo_atomic_env_def)
qed

lemma concat_replicate_Nil: "concat (replicate n []) = []"
  by (induction n) auto

lemma demo_conf_inv: "atomic_inv {4160, 4224} demo_conf"
proof -
  have "list_ok demo_atomic demo_list [4160, 4224]" by (rule demo_list_ok) (simp add: demo_atomic_def)
  then have "thread_owns demo_atomic \<lparr>at_pc = Outside, held = [demo_list]\<rparr> [4160, 4224]"
    by (auto simp: thread_owns_def intro!: exI [of _ "[[4160, 4224]]"])
  moreover have "thread_owns demo_atomic \<lparr>at_pc = Outside, held = []\<rparr> []" by (simp add: thread_owns_def)
  ultimately have "atomic_parts {4160, 4224} (replicate 16 []) [[4160, 4224], []] demo_conf"
    by (simp add: atomic_parts_def demo_conf_def demo_atomic_def concat_replicate_Nil)
  then show ?thesis by (auto simp: atomic_inv_def)
qed

section \<open>Arithmetic, size classes and layouts\<close>

text \<open>
  C21: the four checked operations compute exact arithmetic on natural numbers: the result is stored
  when it fits \<open>size_t\<close> (and, for the alignment operations, when the alignment is valid); otherwise
  the function reports failure and the output keeps its value.  A null output is refused.
\<close>

theorem checked_arithmetic_exact:
  "hplf_size_add x y (Some v) =
     (if unat x + unat y < SIZE_BOUND then (True, Some (word_of_nat (unat x + unat y))) else (False, Some v)) \<and>
   hplf_size_multiply x y (Some v) =
     (if unat x * unat y < SIZE_BOUND then (True, Some (word_of_nat (unat x * unat y))) else (False, Some v)) \<and>
   hplf_size_round_up_multiple x y (Some v) =
     (if y \<noteq> 0 \<and> round_up (unat x) (unat y) < SIZE_BOUND
      then (True, Some (word_of_nat (round_up (unat x) (unat y)))) else (False, Some v)) \<and>
   hplf_size_align_up_pow2 x y (Some v) =
     (if is_pow2 y \<and> round_up (unat x) (unat y) < SIZE_BOUND
      then (True, Some (word_of_nat (round_up (unat x) (unat y)))) else (False, Some v)) \<and>
   hplf_size_add x y None = (False, None) \<and> hplf_size_multiply x y None = (False, None) \<and>
   hplf_size_round_up_multiple x y None = (False, None) \<and> hplf_size_align_up_pow2 x y None = (False, None)"
  by (simp add: size_add.valid_output size_multiply.valid_output size_round_up.valid_output
      size_align_up.valid_output size_add.null_output size_multiply.null_output size_round_up.null_output
      size_align_up.null_output)

text \<open>
  C22: \<open>hplf_size_class_for\<close> finds the first class whose capacity holds the request, and fails,
  leaving its outputs alone, exactly for zero and for requests above 4096.
\<close>

theorem size_class_for_least:
  "hplf_size_class_for sz (Some i0) (Some c0) =
     (if sz = 0 \<or> sz > 4096 then (False, Some i0, Some c0)
      else let k = (LEAST k. sz \<le> size_class_capacities ! k) in
        (True, Some (word_of_nat k), Some (size_class_capacities ! k)))"
  by (rule class_for_first)

text \<open>
  C23: the two queries of the class table agree.  When a class is found for a request, its capacity query
  returns the capacity that was reported, which holds the request, and the class of that capacity is the
  same class again.  Above 16 bytes the capacity is less than twice the request.
\<close>

theorem size_class_capacity_roundtrip:
  assumes "hplf_size_class_for sz (Some x) (Some y) = (True, Some i, Some c)"
  shows "hplf_size_class_capacity i (Some c0) = (True, Some c) \<and> hplf_size_class_for c (Some x) (Some y) = (True, Some i, Some c) \<and>
    sz \<le> c \<and> (16 < sz \<longrightarrow> unat c < 2 * unat sz)"
proof -
  from assms have "class_of sz = Some (i, c)"
    by (auto simp: class_of_search hplf_size_class_for_def split: if_splits option.splits)
  note D = class_of_SomeD [OF this]
  have cap: "hplf_size_class_capacity i (Some c0) = (True, Some c)"
    using D(2,3) by (simp add: hplf_size_class_capacity_def HPLF_SIZE_CLASS_COUNT_def size_t_order)
  from capacity_class [OF cap] cap D(4) class_waste [OF assms] show ?thesis by simp
qed

theorem size_class_capacity_roundtrip_witness:
  "hplf_size_class_for 1025 (Some 0) (Some 0) = (True, Some 12, Some 1536) \<and> hplf_size_class_capacity 12 (Some 0) = (True, Some 1536) \<and>
   hplf_size_class_for 1536 (Some 0) (Some 0) = (True, Some 12, Some 1536)"
proof -
  have "hplf_size_class_for 1025 (Some 0) (Some 0) = (True, Some 12, Some 1536)"
    by (simp add: hplf_size_class_for_def HPLF_MAX_SMALL_SIZE_def size_class_capacities_def)
  from size_class_capacity_roundtrip [OF this, of 0] this show ?thesis by simp
qed

text \<open>
  C25: prefix and payload addresses convert back and forth, and the layout of a large block holds
  prefix and payload in a whole number of pages, with less than a page to spare.
\<close>

theorem large_layout_bounds:
  assumes "hplf_large_layout_compute requested page (Some l0) = (True, Some l)" and "b \<noteq> NULL" and "b + 48 \<noteq> NULL"
  shows "hplf_block_payload b = b + ll_payload_offset l \<and> hplf_block_from_payload (hplf_block_payload b) = b \<and>
    unat page dvd unat (ll_mapping_length l) \<and>
    unat (ll_payload_offset l) + unat requested \<le> unat (ll_mapping_length l) \<and>
    unat (ll_mapping_length l) < unat (ll_payload_offset l) + unat requested + unat page"
  using large_layout_SomeD [OF assms(1)] assms(2,3) block_payload_roundtrip [of b]
  by (simp add: hplf_block_payload_eq)

theorem large_layout_bounds_witness:
  "\<exists>l. hplf_large_layout_compute 5000 4096 (Some \<lparr>ll_payload_offset = 0, ll_mapping_length = 0\<rparr>) = (True, Some l) \<and>
    hplf_block_from_payload (hplf_block_payload 8192) = 8192 \<and> 4096 dvd unat (ll_mapping_length l)"
proof -
  have "\<exists>l. hplf_large_layout_compute 5000 4096 (Some \<lparr>ll_payload_offset = 0, ll_mapping_length = 0\<rparr>) = (True, Some l)"
    by (simp add: large_layout_eq round_up_def)
  then obtain l where l: "hplf_large_layout_compute 5000 4096 (Some \<lparr>ll_payload_offset = 0, ll_mapping_length = 0\<rparr>) = (True, Some l)" ..
  have "(8192 :: addr) \<noteq> NULL" "(8192 :: addr) + 48 \<noteq> NULL" by simp_all
  from large_layout_bounds [OF l this] l show ?thesis by auto
qed

text \<open>
  C26: for every capacity of the class table and every page size of a signed \<open>long\<close> the slab layout
  exists: whole pages, header and slots inside the mapping, at least one slot, and no room for one
  more.
\<close>

theorem slab_layout_fits:
  assumes "c \<in> set size_class_capacities" and "page \<noteq> 0" and "unat page < 9223372036854775808"
  shows "\<exists>l. hplf_slab_layout_compute c page (Some l0) = (True, Some l) \<and> sl_class_capacity l = c \<and>
    unat page dvd unat (sl_mapping_length l) \<and> 65536 \<le> unat (sl_mapping_length l) \<and>
    unat (sl_first_slot_offset l) = 64 \<and> unat (sl_slot_stride l) = 48 + unat c \<and> 0 < unat (sl_slot_count l) \<and>
    64 + unat (sl_slot_count l) * (48 + unat c) \<le> unat (sl_mapping_length l) \<and>
    unat (sl_mapping_length l) < 64 + Suc (unat (sl_slot_count l)) * (48 + unat c)"
proof -
  let ?n = "slots_per_slab c page"
  have sb: "slab_bytes page < SIZE_BOUND" by (rule slab_bytes_bound [OF assms(2,3)])
  have ge: "65536 \<le> slab_bytes page" by (rule slab_bytes_ge [OF assms(2)])
  have fit: "64 + ?n * (48 + unat c) \<le> slab_bytes page"
    using slots_fit [OF assms(2), of c] table_slot_bytes [OF assms(1)] by simp
  have "?n * (48 + unat c) + (slab_bytes page - 64) mod (48 + unat c) = slab_bytes page - 64"
    using div_mult_mod_eq [of "slab_bytes page - 64" "48 + unat c"] by (simp add: slots_per_slab_def table_slot_bytes [OF assms(1)])
  moreover have "(slab_bytes page - 64) mod (48 + unat c) < 48 + unat c" by simp
  ultimately have full: "slab_bytes page < 64 + Suc ?n * (48 + unat c)" using ge by (simp only: mult_Suc)
  have n: "unat (word_of_nat ?n :: size_t) = ?n"
  proof (rule unat_word_of_nat)
    have "?n \<le> ?n * (48 + unat c)" by simp
    with fit sb show "?n < SIZE_BOUND" by linarith
  qed
  have "unat c \<le> 4096" by (rule capacity_bounds(2) [OF assms(1)])
  then have st: "unat (word_of_nat (48 + unat c) :: size_t) = 48 + unat c" by (intro unat_word_of_nat) simp
  show ?thesis
    using slab_layout_compute_total [OF assms, of l0] table_slots_positive [OF assms(1,2)] n st fit full ge
      unat_word_of_nat [OF sb] by (simp add: slab_bytes_def)
qed

theorem slab_layout_fits_witness:
  "(192 :: size_t) \<in> set size_class_capacities \<and>
   (\<exists>l. hplf_slab_layout_compute 192 4096 (Some \<lparr>sl_mapping_length = 0, sl_first_slot_offset = 0, sl_payload_offset = 0,
      sl_slot_stride = 0, sl_slot_count = 0, sl_class_capacity = 0\<rparr>) = (True, Some l) \<and>
      64 + unat (sl_slot_count l) * 240 \<le> unat (sl_mapping_length l))"
proof -
  have c: "(192 :: size_t) \<in> set size_class_capacities" by (simp add: size_class_capacities_def)
  have "(4096 :: size_t) \<noteq> 0" "unat (4096 :: size_t) < 9223372036854775808" by simp_all
  from slab_layout_fits [OF c this] c show ?thesis by fastforce
qed

section \<open>Slabs and system memory\<close>

text \<open>
  C27: \<open>hplf_slab_create\<close> always returns.  It fails, with memory and outputs unchanged, only when the
  system gives no mapping.  Otherwise the new mapping is disjoint from all others and holds a header
  of the class and slots that are aligned, inside the mapping, pairwise disjoint and threaded, last
  one first, into the free list that is returned.
\<close>

theorem slab_create_correct:
  assumes "os_ok env" and "unat ci < 16"
  shows "\<exists>ok x' y' s'. hplf_slab_create env ci (size_class_capacities ! unat ci) (Some x) (Some y) s = Some (ok, x', y', s') \<and>
    (if \<not> ok then x' = Some x \<and> y' = Some y \<and> same_memory s s' \<and> \<not> can_map env s (slab_bytes (sc_pagesize env))
     else \<exists>a d f. x' = Some a \<and> y' = Some f \<and> slab_objs s' a = Some d \<and> class_index d = ci \<and> mapping_base d = a \<and>
       mappings s' = (a, mapping_length d) # mappings s \<and>
       (\<forall>(b, l) \<in> set (mappings s). disjoint_ranges a (unat (mapping_length d)) b (unat l)) \<and>
       chain (block_next s') f (rev (slab_slots a d)) \<and> slab_slots a d \<noteq> [] \<and>
       (\<forall>i < length (slab_slots a d). 16 dvd unat (slab_slots a d ! i) \<and>
          subrange (slab_slots a d ! i) (48 + unat (class_capacity d)) a (unat (mapping_length d)) \<and>
          (\<forall>j < i. disjoint_ranges (slab_slots a d ! i) (48 + unat (class_capacity d))
             (slab_slots a d ! j) (48 + unat (class_capacity d)))))"
  using assms refl
proof (cases rule: slab_create_cases [where x = x and y = y and s = s])
  case (failed s')
  then show ?thesis by auto
next
  case (succeeded a d s')
  note c = succeeded(2) [unfolded slab_created_def]
  have ok: "slab_ok env a d" using c by blast
  note n = slab_ok_count [OF assms(1) ok]
  have "chain (block_next s') (slot_at a d (unat (slot_count d) - 1)) (rev (slab_slots a d))"
    using fresh_chain [OF assms(1) ok _ order_refl, of s'] c n by (simp add: slab_slots_def)
  moreover have "16 dvd unat (slot_at a d i)"
    "subrange (slot_at a d i) (48 + unat (class_capacity d)) a (unat (mapping_length d))" if "i < unat (slot_count d)" for i
    using slot_aligned(1) [OF assms(1) ok that] slot_in_slab [OF assms(1) ok that] by simp_all
  moreover have "disjoint_ranges (slot_at a d i) (48 + unat (class_capacity d)) (slot_at a d j) (48 + unat (class_capacity d))"
    if "i < unat (slot_count d)" "j < i" for i j
    using slots_disjoint [OF assms(1) ok, of i j] that by simp
  moreover have "mapping_base d = a" using ok by (simp add: slab_ok_def)
  ultimately show ?thesis using succeeded(1) c n by (auto simp: slab_slots_def)
qed

theorem slab_create_correct_witness:
  "os_ok demo_env \<and> (\<exists>a d f s'. hplf_slab_create demo_env 2 48 (Some NULL) (Some NULL) demo_locked = Some (True, Some a, Some f, s') \<and>
     slab_objs s' a = Some d \<and> class_index d = 2 \<and> chain (block_next s') f (rev (slab_slots a d)) \<and> slab_slots a d \<noteq> [])"
proof -
  have "unat (2 :: size_t) < 16" "size_class_capacities ! unat (2 :: size_t) = 48" by (simp_all add: size_class_capacities_def)
  moreover have "can_map demo_env demo_locked (slab_bytes (sc_pagesize demo_env))"
    by (rule demo_can_map) (simp add: demo_env_def slab_bytes_def round_up_def)
  ultimately show ?thesis
    using slab_create_correct [OF demo_env_ok, of 2 NULL NULL demo_locked] demo_env_ok by (fastforce split: if_splits)
qed

text \<open>
  C28: \<open>hplf_os_map\<close> and \<open>hplf_os_unmap\<close>.  A failed mapping leaves memory and output unchanged.  A
  successful one is page-aligned, at least as long as asked, zero-filled and disjoint from every other
  mapping; unmapping it, when \<open>munmap\<close> is reliable, reports its length, clears the descriptor and
  restores the set of mappings.
\<close>

theorem os_map_unmap:
  assumes "os_ok env" and "n \<noteq> 0"
  shows "(\<exists>s'. hplf_os_map env n (Some m) s = (False, Some m, s') \<and> same_memory s s') \<or>
    (\<exists>base len s'. hplf_os_map env n (Some m) s = (True, Some \<lparr>map_base = base, map_length = len\<rparr>, s') \<and>
       mappings s' = (base, len) # mappings s \<and> unat (sc_pagesize env) dvd unat base \<and>
       unat (sc_pagesize env) dvd unat len \<and> unat n \<le> unat len \<and>
       (\<forall>q. in_range base (unat len) q \<longrightarrow> bytes s' q = Some 0) \<and>
       (\<forall>(b, l) \<in> set (mappings s). disjoint_ranges base (unat len) b (unat l)) \<and>
       (unmap_reliable env \<longrightarrow> (\<exists>s''. hplf_os_unmap env (Some \<lparr>map_base = base, map_length = len\<rparr>) (Some r) s' =
          Some (True, Some \<lparr>map_base = NULL, map_length = 0\<rparr>, Some len, s'') \<and> mappings s'' = mappings s)))"
  using assms
proof (cases rule: os_map_cases [where m = m and s = s])
  case (failed s')
  then show ?thesis by blast
next
  case (succeeded base len s')
  have pos: "0 < unat (sc_pagesize env)" using os_ok_page(1) [OF assms(1)] by (simp add: unat_gt_0)
  have n: "unat n \<le> unat len" using round_up_ge [OF pos] succeeded(3) by simp
  then have len: "len \<noteq> 0" using assms(2) by (auto simp: size_t_eq_0_iff)
  have m: "mappings s' = (base, len) # mappings s" "\<forall>q. in_range base (unat len) q \<longrightarrow> bytes s' q = Some 0"
    using succeeded(2) by (simp_all add: range_mapped_def)
  have "\<exists>s''. hplf_os_unmap env (Some \<lparr>map_base = base, map_length = len\<rparr>) (Some r) s' =
      Some (True, Some \<lparr>map_base = NULL, map_length = 0\<rparr>, Some len, s'') \<and> mappings s'' = mappings s" if "unmap_reliable env"
  proof -
    have "(base, len) \<in> set (mappings s')" using m(1) by simp
    then show ?thesis using succeeded(4) len
    proof (cases rule: os_unmap_cases [where env = env and r = r])
      case failed
      from os_unmap_reliable [OF that failed(1)] succeeded(4) len show ?thesis by simp
    next
      case (succeeded s'')
      with m(1) show ?thesis by (auto simp: range_unmapped_def)
    qed
  qed
  moreover have "unat (sc_pagesize env) dvd unat len" using succeeded(3) by simp
  ultimately show ?thesis using succeeded(1,5,7) m n by blast
qed

theorem os_map_unmap_witness:
  "os_ok demo_env \<and> unmap_reliable demo_env \<and>
   (\<exists>base len s' s''. hplf_os_map demo_env 5000 (Some \<lparr>map_base = NULL, map_length = 0\<rparr>) demo_locked =
      (True, Some \<lparr>map_base = base, map_length = len\<rparr>, s') \<and>
      hplf_os_unmap demo_env (Some \<lparr>map_base = base, map_length = len\<rparr>) (Some 0) s' =
        Some (True, Some \<lparr>map_base = NULL, map_length = 0\<rparr>, Some len, s'') \<and> mappings s'' = [])"
proof -
  have u: "unmap_reliable demo_env" by (simp add: demo_env_def unmap_reliable_def)
  have "fst (hplf_os_map demo_env 5000 (Some \<lparr>map_base = NULL, map_length = 0\<rparr>) demo_locked)"
    by (simp add: hplf_os_map_def hplf_os_page_size_def page_query_fault_def map_fault_def sys_mmap_def demo_env_def
        demo_locked_def demo_mmap_def demo_top_def size_round_up.valid_output round_up_def size_t_less_iff unat_word_of_nat
        split: prod.splits)
  moreover have "(5000 :: size_t) \<noteq> 0" by simp
  ultimately show ?thesis
    using os_map_unmap [OF demo_env_ok, of 5000 "\<lparr>map_base = NULL, map_length = 0\<rparr>" demo_locked 0] demo_env_ok u
    by (auto simp: demo_locked_def)
qed

section \<open>Transfer lists\<close>

text \<open>
  C29: with the mutex, a chain that one thread publishes is what the next detach of that class
  receives, in front of what was there before; the class is empty afterwards, the publisher's list is
  cleared, and nothing but links of the published blocks changed.
\<close>

theorem mutex_publish_detach:
  assumes "transfer_lock_ok env" and "transfers_ok s T" and "unat ci < 16" and "list_ok s l xs"
    and "set xs \<inter> set (concat T) = {}"
  shows "\<exists>l' s' l'' s''. hplf_transfer_mutex_publish env ci l s = Some (l', s') \<and>
    hplf_transfer_mutex_detach env ci s' = Some (l'', s'') \<and> list_ok s'' l'' (xs @ T ! unat ci) \<and>
    transfers_ok s'' (T[unat ci := []]) \<and> links_only (set xs) s s''"
  by (rule mutex_transfer.publish_detach [OF assms])

theorem mutex_publish_detach_witness:
  "transfer_lock_ok demo_env \<and> transfers_ok demo_transfer (replicate 16 []) \<and> list_ok demo_transfer demo_list [4160, 4224] \<and>
   (\<exists>l' s' l'' s''. hplf_transfer_mutex_publish demo_env 3 demo_list demo_transfer = Some (l', s') \<and>
      hplf_transfer_mutex_detach demo_env 3 s' = Some (l'', s'') \<and> list_ok s'' l'' [4160, 4224])"
proof -
  have l: "list_ok demo_transfer demo_list [4160, 4224]" by (rule demo_list_ok) (simp add: demo_transfer_def)
  have "unat (3 :: size_t) < 16" "set [4160, 4224] \<inter> set (concat (replicate 16 [])) = {}" by (simp_all add: concat_replicate_Nil)
  from mutex_publish_detach [OF demo_lock_ok demo_transfers this(1) l this(2)] l demo_lock_ok demo_transfers show ?thesis by auto
qed

text \<open>
  C30: the same for the lock-free lists run by one thread, however often the weak compare-and-swap
  fails spuriously, as long as it does not fail forever.
\<close>

theorem atomic_publish_detach:
  assumes "atomic_env_ok env" and "atomic_transfers s T" and "unat ci < 16" and "list_ok s l xs"
    and "set xs \<inter> set (concat T) = {}"
  shows "\<exists>l' s' l'' s''. hplf_transfer_atomic_publish env ci l s = Some (l', s') \<and>
    hplf_transfer_atomic_detach env ci s' = Some (l'', s'') \<and> list_ok s'' l'' (xs @ T ! unat ci) \<and>
    atomic_transfers s'' (T[unat ci := []]) \<and> links_only (set xs) s s''"
  by (rule atomic_transfer.publish_detach [OF assms])

theorem atomic_publish_detach_witness:
  "atomic_env_ok demo_atomic_env \<and> atomic_transfers demo_atomic (replicate 16 []) \<and> list_ok demo_atomic demo_list [4160, 4224] \<and>
   (\<exists>l' s' l'' s''. hplf_transfer_atomic_publish demo_atomic_env 3 demo_list demo_atomic = Some (l', s') \<and>
      hplf_transfer_atomic_detach demo_atomic_env 3 s' = Some (l'', s'') \<and> list_ok s'' l'' [4160, 4224])"
proof -
  have l: "list_ok demo_atomic demo_list [4160, 4224]" by (rule demo_list_ok) (simp add: demo_atomic_def)
  have "unat (3 :: size_t) < 16" "set [4160, 4224] \<inter> set (concat (replicate 16 [])) = {}" by (simp_all add: concat_replicate_Nil)
  from atomic_publish_detach [OF demo_atomic_ready demo_atomic_transfers this(1) l this(2)] l demo_atomic_ready
    demo_atomic_transfers show ?thesis by auto
qed

text \<open>
  C31: the lock-free lists lose and duplicate nothing.  Whatever number of threads publish, detach,
  walk and split chains, with any interleaving of their atomic actions and any spurious failures, the
  blocks are at every moment exactly divided up among the well-formed shared chains and the threads.
\<close>

theorem atomic_no_block_lost:
  assumes "atomic_inv U c" and "atomic_reach testing c c'"
  shows "\<exists>T X. length T = 16 \<and> (\<forall>i < 16. chain (block_next (snd c')) (atomic_heads (snd c') ! i) (T ! i)) \<and>
    list_all2 (thread_owns (snd c')) (fst c') X \<and> distinct (concat T @ concat X) \<and> set (concat T @ concat X) = U"
proof -
  from atomic_reach_inv [OF assms(2,1)] obtain T X where p: "atomic_parts U T X c'" by (auto simp: atomic_inv_def)
  then have m: "finite U" "mset (concat T @ concat X) = mset_set U" by (simp_all add: atomic_parts_def)
  have "distinct (concat T @ concat X)"
    unfolding distinct_count_atmost_1 using m by (metis count_mset_set(1,3) finite_set_mset_mset_set set_mset_mset)
  moreover have "set (concat T @ concat X) = U"
    using m by (metis finite_set_mset_mset_set set_mset_mset)
  ultimately show ?thesis using p unfolding atomic_parts_def by blast
qed

theorem atomic_no_block_lost_witness:
  "atomic_inv {4160, 4224} demo_conf \<and>
   (\<exists>c'. atomic_reach True demo_conf c' \<and> c' \<noteq> demo_conf \<and>
     (\<exists>T X. list_all2 (thread_owns (snd c')) (fst c') X \<and> set (concat T @ concat X) = {4160, 4224}))"
proof -
  have "demo_loaded \<noteq> demo_conf" by (simp add: demo_conf_def demo_loaded_def)
  then show ?thesis using atomic_no_block_lost [OF demo_conf_inv demo_loaded_reach] demo_loaded_reach demo_conf_inv by blast
qed

text \<open>
  C32: no thread can be stuck in a publish or a detach.  Take any reachable configuration, whatever the
  others were doing when they stopped, and any run of one thread alone inside the operation it is in, of
  \<open>n\<close> actions, \<open>k\<close> of which are spurious failures of the weak compare-and-swap (it fails although the
  head is the one it observed).  Then \<open>n\<close> is at most \<open>max 4 (card U + 1) + 2 * k\<close> for the set \<open>U\<close> of blocks,
  and as long as the thread has not left, \<open>n\<close> is less and the thread has a next action that is no
  spurious failure.  So every run of the thread alone with finitely many spurious failures leaves the
  operation, and there is one without any.
\<close>

theorem atomic_obstruction_free:
  assumes "atomic_inv U c" and "atomic_reach testing c c'" and "t < length (fst c')"
  shows "(\<forall>n k c''. solo_run testing t n k c' c'' \<longrightarrow> n \<le> max 4 (card U + 1) + 2 * k \<and>
      (at_pc (fst c'' ! t) \<noteq> Outside \<longrightarrow> n < max 4 (card U + 1) + 2 * k \<and>
         (\<exists>d. atomic_step testing t c'' d \<and> \<not> spurious_failure t c'' d))) \<and>
    (\<exists>n c''. solo_run testing t n 0 c' c'' \<and> at_pc (fst c'' ! t) = Outside)"
proof -
  have inv: "atomic_inv U c'" by (rule atomic_reach_inv [OF assms(2,1)])
  from solo_distance_bound [OF inv assms(3)] obtain m where "solo_distance t c' m" by blast
  from solo_finish [OF inv assms(3) this] solo_leaves [OF inv assms(3)] show ?thesis by blast
qed

theorem atomic_obstruction_free_witness:
  "atomic_inv {4160, 4224} demo_conf \<and> atomic_reach True demo_conf demo_loaded \<and> at_pc (fst demo_loaded ! 0) \<noteq> Outside \<and>
   (\<exists>n c''. n \<le> 4 \<and> solo_run True 0 n 0 demo_loaded c'' \<and> at_pc (fst c'' ! 0) = Outside)"
proof -
  have l: "0 < length (fst demo_loaded)" "at_pc (fst demo_loaded ! 0) \<noteq> Outside" by (simp_all add: demo_loaded_def)
  have c: "max 4 (card {4160, 4224 :: addr} + 1) + 2 * 0 = 4" by simp
  note o = atomic_obstruction_free [OF demo_conf_inv demo_loaded_reach l(1)]
  from o obtain n c'' where r: "solo_run True 0 n 0 demo_loaded c''" "at_pc (fst c'' ! 0) = Outside" by blast
  moreover have "n \<le> 4" using o [THEN conjunct1, rule_format, OF r(1)] unfolding c by blast
  ultimately show ?thesis using l(2) demo_loaded_reach demo_conf_inv by blast
qed

section \<open>Thread caches\<close>

text \<open>
  C33: a cache is a stack per class: a block that is stored is the next one taken from its class, and
  the cache then holds what it held before, with exact counters.
\<close>

theorem cache_store_take:
  assumes "cache_ok s c F" and "unat i < 16" and "blocks s x \<noteq> None" and "x \<noteq> NULL" and "x \<notin> set (concat F)"
  shows "\<exists>c1 s1 c2 s2. hplf_thread_cache_store c i (size_class_capacities ! unat i) x s = Some (c1, s1) \<and>
    hplf_thread_cache_take c1 i (size_class_capacities ! unat i) s1 = Some (x, c2, s2) \<and>
    cache_ok s1 c1 (F[unat i := x # F ! unat i]) \<and> cache_ok s2 c2 F \<and> block_next s2 x = Some NULL"
proof -
  have len: "length F = 16" using assms(1) by (simp add: cache_ok_def)
  from cache_store_spec [OF assms(1,2) refl assms(3-5)] obtain c1 s1 where
    st: "hplf_thread_cache_store c i (size_class_capacities ! unat i) x s = Some (c1, s1)"
    "cache_ok s1 c1 (F[unat i := x # F ! unat i])" by blast
  from cache_take_spec(2) [OF st(2) assms(2) refl, of x "F ! unat i"] len assms(2) st show ?thesis by auto
qed

theorem cache_store_take_witness:
  "cache_ok demo_transfer hplf_thread_cache_initialize (replicate 16 []) \<and>
   (\<exists>c1 s1 c2 s2. hplf_thread_cache_store hplf_thread_cache_initialize 0 16 4160 demo_transfer = Some (c1, s1) \<and>
      hplf_thread_cache_take c1 0 16 s1 = Some (4160, c2, s2) \<and> cache_ok s2 c2 (replicate 16 []))"
proof -
  have "unat (0 :: size_t) < 16" "blocks demo_transfer 4160 \<noteq> None" "(4160 :: addr) \<noteq> NULL"
    "(4160 :: addr) \<notin> set (concat (replicate 16 []))" "size_class_capacities ! unat (0 :: size_t) = 16"
    by (simp_all add: demo_transfer_def demo_blocks_def concat_replicate_Nil size_class_capacities_def)
  then show ?thesis using cache_store_take [OF cache_init_ok, of 0 demo_transfer 4160] cache_init_ok [of demo_transfer] by fastforce
qed

text \<open>
  C34: \<open>hplf_thread_cache_refill\<close> moves a prefix of the offered chain into the cache and leaves the
  rest: as many blocks as the limits of 16 blocks a refill, 32 blocks a class and 65536 bytes a cache
  allow, so a cache within its limits stays within them.
\<close>

theorem cache_refill_bounded:
  assumes "cache_ok s c F" and "within_limits F" and "unat i < 16" and "list_ok s l xs" and "set xs \<inter> set (concat F) = {}"
  shows "\<exists>k c' l' s'. hplf_thread_cache_refill c i (size_class_capacities ! unat i) l s = Some (c', l', s') \<and>
    k = min (min 16 (32 - length (F ! unat i))) ((65536 - cache_bytes F) div unat (size_class_capacities ! unat i)) \<and>
    cache_ok s' c' (F[unat i := take k xs @ F ! unat i]) \<and> list_ok s' l' (drop k xs) \<and>
    within_limits (F[unat i := take k xs @ F ! unat i])"
  using cache_refill_spec [OF assms] unfolding refill_count_def by blast

theorem cache_refill_bounded_witness:
  "\<exists>k c' l' s'. hplf_thread_cache_refill hplf_thread_cache_initialize 0 16 demo_list demo_transfer = Some (c', l', s') \<and>
    k = 16 \<and> cache_ok s' c' ((replicate 16 [])[0 := take k [4160, 4224]]) \<and> list_ok s' l' (drop k [4160, 4224])"
proof -
  have l: "list_ok demo_transfer demo_list [4160, 4224]" by (rule demo_list_ok) (simp add: demo_transfer_def)
  have w: "within_limits (replicate 16 [])" and cb: "cache_bytes (replicate 16 []) = 0"
    by (simp_all add: within_limits_def cache_bytes_def)
  have "unat (0 :: size_t) < 16" "set [4160, 4224] \<inter> set (concat (replicate 16 [])) = {}"
    "size_class_capacities ! unat (0 :: size_t) = 16" by (simp_all add: concat_replicate_Nil size_class_capacities_def)
  then show ?thesis using cache_refill_bounded [OF cache_init_ok w _ l, of 0] cb by fastforce
qed

text \<open>
  C35: the self-check of a cache is exact.  On any cache whose lists are well-formed chains, whatever
  its counters say, \<open>hplf_thread_cache_snapshot\<close> returns the true list lengths and the true number of
  bytes, and succeeds if and only if the recorded counts and bytes agree with them.
\<close>

theorem cache_snapshot_exact:
  assumes "length (tc_heads c) = 16" and "length (tc_counts c) = 16"
    and "\<forall>i < 16. chain (block_next s) (tc_heads c ! i) (F ! i)"
  shows "\<exists>ok sn. hplf_thread_cache_snapshot_take c s = Some (ok, sn) \<and>
    (ok \<longleftrightarrow> (\<forall>i < 16. tc_counts c ! i = word_of_nat (length (F ! i))) \<and> total_slot_bytes c = word_of_nat (cache_bytes F)) \<and>
    sn_counts sn = tc_counts c \<and> sn_list_lengths sn = map (\<lambda>i. word_of_nat (length (F ! i))) [0..<16] \<and>
    sn_total_slot_bytes sn = total_slot_bytes c \<and> sn_computed_slot_bytes sn = word_of_nat (cache_bytes F)"
  using cache_snapshot_spec [OF assms] by auto

theorem cache_snapshot_exact_witness:
  "\<exists>sn. hplf_thread_cache_snapshot_take (hplf_thread_cache_initialize\<lparr>total_slot_bytes := 16\<rparr>) demo_transfer = Some (False, sn) \<and>
    sn_computed_slot_bytes sn = 0"
proof -
  let ?c = "hplf_thread_cache_initialize\<lparr>total_slot_bytes := 16\<rparr>"
  have "length (tc_heads ?c) = 16" "length (tc_counts ?c) = 16"
    "\<forall>i < 16. chain (block_next demo_transfer) (tc_heads ?c ! i) (replicate 16 [] ! i)"
    by (simp_all add: hplf_thread_cache_initialize_def)
  from cache_snapshot_exact [OF this] have "\<exists>ok sn. hplf_thread_cache_snapshot_take ?c demo_transfer = Some (ok, sn) \<and>
    (ok \<longrightarrow> total_slot_bytes ?c = word_of_nat (cache_bytes (replicate 16 []))) \<and>
    sn_computed_slot_bytes sn = word_of_nat (cache_bytes (replicate 16 []))" by blast
  moreover have "cache_bytes (replicate 16 []) = 0" by (simp add: cache_bytes_def)
  ultimately show ?thesis by auto
qed

text \<open>
  C36: \<open>hplf_cache_acquire\<close> decides once for each thread.  It always returns; afterwards the thread is
  active, with its own descriptor as the result, or uncached, with a null result.  A thread that was
  decided keeps its state; a new descriptor is a fresh mapping with an empty cache, registered with
  the key; memory and variables of all other threads are untouched.
\<close>

theorem cache_acquire_decides:
  assumes "os_ok env" and "current_state s tid = HPLF_CACHE_ACTIVE \<longrightarrow> current_descriptor s tid \<noteq> NULL"
  shows "\<exists>r s'. hplf_cache_acquire env penv tid s = Some (r, s') \<and> others_kept tid s s' \<and>
    hplf_cache_state tid s' = (if r = NULL then HPLF_CACHE_UNCACHED else HPLF_CACHE_ACTIVE) \<and>
    r = hplf_cache_current tid s' \<and> (hplf_cache_state tid s \<noteq> HPLF_CACHE_UNINITIALIZED \<longrightarrow> s' = s) \<and>
    (hplf_cache_state tid s = HPLF_CACHE_UNINITIALIZED \<and> r \<noteq> NULL \<longrightarrow> cache_key_values s' tid = r \<and>
      (\<exists>len. mappings s' = (r, len) # mappings s \<and> descriptors s' r =
         Some \<lparr>dc_cache = hplf_thread_cache_initialize, dc_mapping_base = r, dc_mapping_length = len\<rparr>))"
proof -
  have "current_state s tid = HPLF_CACHE_ACTIVE \<Longrightarrow> current_descriptor s tid \<noteq> NULL" using assms(2) by blast
  from acquire_spec [OF assms(1) this, of penv] obtain r s' where r: "hplf_cache_acquire env penv tid s = Some (r, s')"
    "others_kept tid s s'" "current_state s' tid \<noteq> HPLF_CACHE_UNINITIALIZED" "r = hplf_cache_current tid s'"
    "r \<noteq> NULL \<longleftrightarrow> current_state s' tid = HPLF_CACHE_ACTIVE" "current_state s tid \<noteq> HPLF_CACHE_UNINITIALIZED \<longrightarrow> s' = s"
    "current_state s tid = HPLF_CACHE_UNINITIALIZED \<and> r \<noteq> NULL \<longrightarrow> cache_key_values s' tid = r \<and>
      (\<exists>len. mappings s' = (r, len) # mappings s \<and> descriptors s' r =
         Some \<lparr>dc_cache = hplf_thread_cache_initialize, dc_mapping_base = r, dc_mapping_length = len\<rparr>)" by blast
  have "current_state s' tid = (if r = NULL then HPLF_CACHE_UNCACHED else HPLF_CACHE_ACTIVE)"
    using r(3,5) by (cases "current_state s' tid") auto
  with r show ?thesis unfolding hplf_cache_state_def by blast
qed

theorem cache_acquire_decides_witness:
  "os_ok demo_env \<and> (\<exists>s'. hplf_cache_acquire demo_env demo_penv 0 demo_cached = Some (4096, s') \<and>
     hplf_cache_state 0 s' = HPLF_CACHE_ACTIVE \<and> cache_key_values s' 0 = 4096)"
proof (rule demo_acquire)
  fix s assume s: "hplf_cache_acquire demo_env demo_penv 0 demo_cached = Some (4096, s)"
  have un: "current_state demo_cached 0 = HPLF_CACHE_UNINITIALIZED" by (simp add: demo_cached_def)
  then have "current_state demo_cached 0 = HPLF_CACHE_ACTIVE \<longrightarrow> current_descriptor demo_cached 0 \<noteq> NULL" by simp
  from cache_acquire_decides [OF demo_env_ok this, of demo_penv] s un demo_env_ok show ?thesis
    by (auto simp: hplf_cache_state_def)
qed

end
