(* ===== verification/Worker_Jobs.thy ===== *)
theory Worker_Jobs
  imports HPLF_Prelude
begin

text \<open>
  \<open>examples/worker_pool.c\<close>, the sequential part: the jobs with their checkable contents, the parsing
  of the command line and the names and exit codes of the outcomes.
\<close>

section \<open>Jobs\<close>

type_synonym uint64 = "64 word"

record job =
  job_id :: uint64
  job_key :: uint64
  job_payload_size :: size_t
  job_payload :: "byte list"

definition sizeof_job :: size_t where
  "sizeof_job = 24"

definition mix64 :: "uint64 \<Rightarrow> uint64" where
  "mix64 value =
     (let value = value XOR drop_bit 30 value;
          value = value * 0xbf58476d1ce4e5b9;
          value = value XOR drop_bit 27 value;
          value = value * 0x94d049bb133111eb
      in value XOR drop_bit 31 value)"

definition payload_sizes :: "size_t list" where
  "payload_sizes = [1, 16, 17, 64, 65, 256, 1024, 4096, 4097, 16384]"

definition payload_size_for :: "uint64 \<Rightarrow> uint64 \<Rightarrow> size_t" where
  "payload_size_for seed i =
     (let choice = mix64 (seed XOR mix64 (i + 0x9e3779b97f4a7c15)) in payload_sizes ! unat (choice mod 10))"

definition job_payload_byte :: "uint64 \<Rightarrow> size_t \<Rightarrow> byte" where
  "job_payload_byte key offset =
     (let shift = unat ((offset AND 7) * 8); value = drop_bit shift key XOR offset * 0x9d in ucast value)"

definition job_checksum :: "job \<Rightarrow> uint64" where
  "job_checksum j = mix64 (job_key j XOR mix64 (job_id j) XOR job_payload_size j)"

text \<open>The loop of \<open>job_is_valid\<close>; the first argument is the number of bytes that are left.\<close>

fun valid_loop :: "nat \<Rightarrow> size_t \<Rightarrow> job \<Rightarrow> bool option" where
  "valid_loop 0 index j = Some True"
| "valid_loop (Suc k) index j = do {
     b \<leftarrow> array_read (job_payload j) index;
     if b \<noteq> job_payload_byte (job_key j) index then Some False else valid_loop k (index + 1) j
   }"

definition job_is_valid :: "job \<Rightarrow> bool option" where
  "job_is_valid j = valid_loop (unat (job_payload_size j)) 0 j"

text \<open>The loop in \<open>main\<close> that writes the payload of a new job.\<close>

fun fill_loop :: "nat \<Rightarrow> size_t \<Rightarrow> job \<Rightarrow> job option" where
  "fill_loop 0 byte_index j = Some j"
| "fill_loop (Suc k) byte_index j = do {
     p \<leftarrow> array_write (job_payload j) byte_index (job_payload_byte (job_key j) byte_index);
     fill_loop k (byte_index + 1) (j\<lparr>job_payload := p\<rparr>)
   }"

text \<open>What \<open>main\<close> writes into the memory of a new job; \<open>raw\<close> is that memory as it was handed out.\<close>

definition fill_job :: "uint64 \<Rightarrow> size_t \<Rightarrow> byte list \<Rightarrow> job option" where
  "fill_job seed index raw =
     (let n = payload_size_for seed index;
          j = \<lparr>job_id = index, job_key = mix64 (seed XOR mix64 index), job_payload_size = n, job_payload = raw\<rparr>
      in fill_loop (unat n) 0 j)"

section \<open>The command line\<close>

record configuration =
  workers :: size_t
  jobs :: size_t
  queue_capacity :: size_t
  seed :: uint64
  fail_allocation_at :: size_t
  fail_thread_at :: size_t

text \<open>
  \<open>strtoull(text, &end, 10)\<close> in the C locale: white space, an optional sign, decimal digits.  The
  result is the value, whether \<open>errno\<close> was set (\<open>ERANGE\<close>), whether a number was found at all
  (\<open>end != text\<close>), and the rest of the text.
\<close>

definition is_space :: "char \<Rightarrow> bool" where
  "is_space c \<longleftrightarrow> c = CHR '' '' \<or> (9 \<le> (of_char c :: nat) \<and> (of_char c :: nat) \<le> 13)"

definition is_digit :: "char \<Rightarrow> bool" where
  "is_digit c \<longleftrightarrow> 48 \<le> (of_char c :: nat) \<and> (of_char c :: nat) \<le> 57"

definition digits_value :: "string \<Rightarrow> nat" where
  "digits_value ds = foldl (\<lambda>n c. 10 * n + (of_char c - 48)) 0 ds"

definition strtoull :: "string \<Rightarrow> uint64 \<times> bool \<times> bool \<times> string" where
  "strtoull text =
     (let t = dropWhile is_space text;
          neg = (t \<noteq> [] \<and> hd t = CHR ''-'');
          t = (if t \<noteq> [] \<and> (hd t = CHR ''-'' \<or> hd t = CHR ''+'') then tl t else t);
          ds = takeWhile is_digit t;
          n = digits_value ds
      in if ds = [] then (0, False, False, text)
         else if n \<ge> SIZE_BOUND then (SIZE_MAX, True, True, dropWhile is_digit t)
         else (if neg then - word_of_nat n else word_of_nat n, False, True, dropWhile is_digit t))"

text \<open>A string argument is \<open>None\<close> for the null pointer; the output is left alone on failure.\<close>

definition parse_size :: "string option \<Rightarrow> size_t \<Rightarrow> bool \<times> size_t" where
  "parse_size text value = (case text of
     None \<Rightarrow> (False, value)
   | Some t \<Rightarrow>
       if t = [] \<or> hd t = CHR ''-'' then (False, value)
       else let (parsed, err, found, end) = strtoull t in
         if err \<or> \<not> found \<or> end \<noteq> [] \<or> parsed > SIZE_MAX then (False, value) else (True, parsed))"

definition parse_seed :: "string option \<Rightarrow> uint64 \<Rightarrow> bool \<times> uint64" where
  "parse_seed text value = (case text of
     None \<Rightarrow> (False, value)
   | Some t \<Rightarrow>
       if t = [] \<or> hd t = CHR ''-'' then (False, value)
       else let (parsed, err, found, end) = strtoull t in
         if err \<or> \<not> found \<or> end \<noteq> [] then (False, value) else (True, parsed))"

definition default_configuration :: configuration where
  "default_configuration = \<lparr>workers = 4, jobs = 10000, queue_capacity = 64, seed = 20260912,
     fail_allocation_at = 0, fail_thread_at = 0\<rparr>"

text \<open>One option and its value: \<open>None\<close> for the \<open>return 0\<close> of an unknown option or a bad value.\<close>

definition parse_option :: "string \<Rightarrow> string \<Rightarrow> configuration \<Rightarrow> configuration option" where
  "parse_option name value config =
     (if name = ''--workers'' then
        (case parse_size (Some value) (workers config) of
           (True, n) \<Rightarrow> Some (config\<lparr>workers := n\<rparr>) | _ \<Rightarrow> None)
      else if name = ''--jobs'' then
        (case parse_size (Some value) (jobs config) of
           (True, n) \<Rightarrow> Some (config\<lparr>jobs := n\<rparr>) | _ \<Rightarrow> None)
      else if name = ''--seed'' then
        (case parse_seed (Some value) (seed config) of
           (True, n) \<Rightarrow> Some (config\<lparr>seed := n\<rparr>) | _ \<Rightarrow> None)
      else if name = ''--queue-capacity'' then
        (case parse_size (Some value) (queue_capacity config) of
           (True, n) \<Rightarrow> Some (config\<lparr>queue_capacity := n\<rparr>) | _ \<Rightarrow> None)
      else if name = ''--fail-allocation-at'' then
        (case parse_size (Some value) (fail_allocation_at config) of
           (True, n) \<Rightarrow> Some (config\<lparr>fail_allocation_at := n\<rparr>) | _ \<Rightarrow> None)
      else if name = ''--fail-thread-at'' then
        (case parse_size (Some value) (fail_thread_at config) of
           (True, n) \<Rightarrow> Some (config\<lparr>fail_thread_at := n\<rparr>) | _ \<Rightarrow> None)
      else None)"

datatype parsed = Bad_Arguments | Help | Run configuration

text \<open>The loop of \<open>parse_arguments\<close> over the arguments after the program name, and its final checks.\<close>

fun argument_loop :: "string list \<Rightarrow> configuration \<Rightarrow> parsed" where
  "argument_loop [] config =
     (if workers config = 0 \<or> queue_capacity config = 0 then Bad_Arguments
      else if fail_thread_at config > workers config then Bad_Arguments
      else if fail_allocation_at config > jobs config then Bad_Arguments
      else Run config)"
| "argument_loop [name] config = (if name = ''--help'' then Help else Bad_Arguments)"
| "argument_loop (name # value # rest) config =
     (if name = ''--help'' then Help
      else case parse_option name value config of
        None \<Rightarrow> Bad_Arguments
      | Some config \<Rightarrow> argument_loop rest config)"

definition parse_arguments :: "string list \<Rightarrow> parsed" where
  "parse_arguments arguments = argument_loop arguments default_configuration"

section \<open>Outcomes\<close>

text \<open>\<open>printf("%zu")\<close>.\<close>

fun decimal :: "nat \<Rightarrow> string" where
  "decimal n = (if n < 10 then [char_of (48 + n)] else decimal (n div 10) @ [char_of (48 + n mod 10)])"

declare decimal.simps [simp del]

definition print_nullable_size :: "size_t \<Rightarrow> string" where
  "print_nullable_size value = (if value = 0 then ''null'' else decimal (unat value))"

datatype run_status = RUN_OK | RUN_ALLOCATION_FAILURE | RUN_THREAD_FAILURE | RUN_DATA_FAILURE | RUN_INTERNAL_ERROR

fun status_name :: "run_status \<Rightarrow> string" where
  "status_name RUN_OK = ''ok''"
| "status_name RUN_ALLOCATION_FAILURE = ''allocation_failure''"
| "status_name RUN_THREAD_FAILURE = ''thread_failure''"
| "status_name RUN_DATA_FAILURE = ''data_failure''"
| "status_name RUN_INTERNAL_ERROR = ''internal_error''"

fun status_exit_code :: "run_status \<Rightarrow> int" where
  "status_exit_code RUN_OK = 0"
| "status_exit_code RUN_ALLOCATION_FAILURE = 3"
| "status_exit_code RUN_THREAD_FAILURE = 4"
| "status_exit_code RUN_DATA_FAILURE = 5"
| "status_exit_code RUN_INTERNAL_ERROR = 6"

section \<open>The mixing function is invertible\<close>

definition unmix64 :: "uint64 \<Rightarrow> uint64" where
  "unmix64 value =
     (let value = value XOR drop_bit 31 value XOR drop_bit 62 value;
          value = value * 0x319642b2d24d8ec3;
          value = value XOR drop_bit 27 value XOR drop_bit 54 value;
          value = value * 0x96de1b173f119089
      in value XOR drop_bit 30 value XOR drop_bit 60 value)"

lemma unshift:
  fixes v :: uint64
  assumes "64 \<le> 3 * k"
  shows "(let w = v XOR drop_bit k v in w XOR drop_bit k w XOR drop_bit (2 * k) w) = v"
proof (rule bit_word_eqI)
  fix n assume "n < LENGTH(64)"
  have "\<not> bit v (k + (k + (k + n)))" using assms bit_imp_le_length [of v "k + (k + (k + n))"] by auto
  then show "bit (let w = v XOR drop_bit k v in w XOR drop_bit k w XOR drop_bit (2 * k) w) n = bit v n"
    by (auto simp: Let_def bit_xor_iff bit_drop_bit_eq add.assoc mult_2)
qed

lemma unmix_mix: "unmix64 (mix64 v) = v"
proof -
  have s: "(v XOR drop_bit 30 v) XOR drop_bit 30 (v XOR drop_bit 30 v) XOR drop_bit 60 (v XOR drop_bit 30 v) = v"
    "(v XOR drop_bit 27 v) XOR drop_bit 27 (v XOR drop_bit 27 v) XOR drop_bit 54 (v XOR drop_bit 27 v) = v"
    "(v XOR drop_bit 31 v) XOR drop_bit 31 (v XOR drop_bit 31 v) XOR drop_bit 62 (v XOR drop_bit 31 v) = v" for v :: uint64
    using unshift [of 30 v] unshift [of 27 v] unshift [of 31 v] by (simp_all add: Let_def)
  have m: "v * 0xbf58476d1ce4e5b9 * 0x96de1b173f119089 = v" "v * 0x94d049bb133111eb * 0x319642b2d24d8ec3 = v" for v :: uint64
  proof -
    have "(0xbf58476d1ce4e5b9 * 0x96de1b173f119089 :: uint64) = 1" "(0x94d049bb133111eb * 0x319642b2d24d8ec3 :: uint64) = 1"
      by simp_all
    then show "v * 0xbf58476d1ce4e5b9 * 0x96de1b173f119089 = v" "v * 0x94d049bb133111eb * 0x319642b2d24d8ec3 = v"
      by (simp_all only: mult.assoc mult_1_right)
  qed
  show ?thesis unfolding unmix64_def mix64_def Let_def by (simp only: s m)
qed

lemma mix64_eq_iff: "mix64 v = mix64 w \<longleftrightarrow> v = w"
  by (metis unmix_mix)

section \<open>Contents of a job\<close>

lemma payload_size_bounds: "1 \<le> unat (payload_size_for s i) \<and> unat (payload_size_for s i) \<le> 16384"
proof -
  have "payload_size_for s i \<in> set payload_sizes"
    unfolding payload_size_for_def Let_def
    by (rule nth_mem) (simp add: payload_sizes_def unat_mod_distrib)
  then show ?thesis by (auto simp: payload_sizes_def)
qed

lemma valid_loop_eq:
  assumes "unat i + k = length (job_payload j)" and "length (job_payload j) < SIZE_BOUND"
  shows "valid_loop k i j = Some (\<forall>m. unat i \<le> m \<and> m < length (job_payload j) \<longrightarrow>
    job_payload j ! m = job_payload_byte (job_key j) (word_of_nat m))"
  using assms
proof (induction k arbitrary: i)
  case 0
  then show ?case by auto
next
  case (Suc k)
  have u: "unat (i + 1) = unat i + 1" using Suc.prems by (subst unat_add_noverflow) simp_all
  have split: "(\<forall>m. unat i \<le> m \<and> m < length (job_payload j) \<longrightarrow> P m) \<longleftrightarrow>
    P (unat i) \<and> (\<forall>m. unat i + 1 \<le> m \<and> m < length (job_payload j) \<longrightarrow> P m)" for P
    using Suc.prems by (auto simp: Suc_le_eq dest: le_neq_implies_less)
  show ?case using Suc.IH [of "i + 1"] Suc.prems u by (subst split) simp
qed

text \<open>\<open>job_is_valid\<close> decides whether every byte of the payload is the one its key prescribes.\<close>

lemma job_is_valid_iff:
  assumes "length (job_payload j) = unat (job_payload_size j)"
  shows "job_is_valid j = Some (\<forall>m < length (job_payload j). job_payload j ! m = job_payload_byte (job_key j) (word_of_nat m))"
  unfolding job_is_valid_def using valid_loop_eq [of 0 "unat (job_payload_size j)" j] assms by simp

lemma fill_loop_spec:
  assumes "unat i + k = length (job_payload j)" and "length (job_payload j) < SIZE_BOUND"
  shows "\<exists>p. fill_loop k i j = Some (j\<lparr>job_payload := p\<rparr>) \<and> length p = length (job_payload j) \<and>
    (\<forall>m < length p. p ! m = (if m < unat i then job_payload j ! m else job_payload_byte (job_key j) (word_of_nat m)))"
  using assms
proof (induction k arbitrary: i j)
  case 0
  then show ?case by (intro exI [of _ "job_payload j"]) simp
next
  case (Suc k)
  have u: "unat (i + 1) = unat i + 1" using Suc.prems by (subst unat_add_noverflow) simp_all
  let ?j = "j\<lparr>job_payload := (job_payload j)[unat i := job_payload_byte (job_key j) i]\<rparr>"
  from Suc.IH [of "i + 1" ?j] Suc.prems u obtain p where p: "fill_loop k (i + 1) ?j = Some (?j\<lparr>job_payload := p\<rparr>)"
    "length p = length (job_payload j)"
    "\<forall>m < length p. p ! m = (if m < unat i + 1 then job_payload ?j ! m else job_payload_byte (job_key j) (word_of_nat m))" by auto
  have "p ! m = (if m < unat i then job_payload j ! m else job_payload_byte (job_key j) (word_of_nat m))" if "m < length p" for m
    using p(2,3) that by (cases "m = unat i") auto
  with p(1,2) Suc.prems show ?case by (intro exI [of _ p]) simp
qed

text \<open>Every job that \<open>main\<close> fills in is valid.\<close>

lemma fill_job_spec:
  assumes "length raw = unat (payload_size_for s i)"
  obtains j where "fill_job s i raw = Some j" "job_id j = i" "job_key j = mix64 (s XOR mix64 i)" "job_is_valid j = Some True"
    "job_payload_size j = payload_size_for s i" "length (job_payload j) = unat (payload_size_for s i)"
proof -
  let ?j = "\<lparr>job_id = i, job_key = mix64 (s XOR mix64 i), job_payload_size = payload_size_for s i, job_payload = raw\<rparr>"
  have "length raw < SIZE_BOUND" using assms payload_size_bounds [of s i] by simp
  with fill_loop_spec [of 0 "unat (payload_size_for s i)" ?j] assms obtain p where
    p: "fill_loop (unat (payload_size_for s i)) 0 ?j = Some (?j\<lparr>job_payload := p\<rparr>)" "length p = length raw"
    "\<forall>m < length p. p ! m = job_payload_byte (mix64 (s XOR mix64 i)) (word_of_nat m)" by auto
  moreover have "job_is_valid (?j\<lparr>job_payload := p\<rparr>) = Some True"
    using p assms by (subst job_is_valid_iff) simp_all
  ultimately show ?thesis using that [of "?j\<lparr>job_payload := p\<rparr>"] assms by (simp add: fill_job_def Let_def)
qed

section \<open>Numbers on the command line\<close>

lemma of_char_digit: "n < 10 \<Longrightarrow> (of_char (char_of (48 + n) :: char) :: nat) = 48 + n"
  by simp

lemma decimal_digits: "list_all is_digit (decimal n) \<and> decimal n \<noteq> []"
proof (induction n rule: decimal.induct)
  case (1 n)
  then show ?case
    by (subst (1 2) decimal.simps) (auto simp: is_digit_def [abs_def])
qed

lemma digits_value_append: "digits_value (ds @ [c]) = 10 * digits_value ds + (of_char c - 48)"
  by (simp add: digits_value_def)

lemma digits_value_decimal: "digits_value (decimal n) = n"
proof (induction n rule: decimal.induct)
  case (1 n)
  show ?case
  proof (cases "n < 10")
    case True
    then show ?thesis by (subst decimal.simps) (simp add: digits_value_def)
  next
    case False
    then have "digits_value (decimal n) = 10 * (n div 10) + n mod 10"
      using 1 by (subst decimal.simps) (simp add: digits_value_append)
    then show ?thesis by simp
  qed
qed

lemma digit_not_space: "is_digit c \<Longrightarrow> \<not> is_space c \<and> c \<noteq> CHR ''-'' \<and> c \<noteq> CHR ''+''"
  by (auto simp: is_digit_def is_space_def)

text \<open>A text of digits is accepted exactly when its value fits 64 bits, and then read as that value.\<close>

lemma strtoull_digits:
  assumes "list_all is_digit ds" and "ds \<noteq> []"
  shows "strtoull ds = (if digits_value ds < SIZE_BOUND then (word_of_nat (digits_value ds), False, True, [])
    else (SIZE_MAX, True, True, []))"
proof -
  have "is_digit (hd ds)" and all: "\<forall>c \<in> set ds. is_digit c" using assms by (cases ds; simp add: list_all_iff)+
  then have h: "dropWhile is_space ds = ds" "hd ds \<noteq> CHR ''-''" "hd ds \<noteq> CHR ''+''"
    using digit_not_space [of "hd ds"] assms(2) by (cases ds; simp)+
  have tk: "takeWhile is_digit ds = ds" "dropWhile is_digit ds = []" using all by simp_all
  show ?thesis using assms(2) h(2,3) by (simp add: strtoull_def h(1) tk Let_def del: takeWhile_eq_all_conv dropWhile_eq_Nil_conv)
qed

lemma parse_digits:
  assumes "list_all is_digit ds" and "ds \<noteq> []"
  shows "parse_size (Some ds) v = (if digits_value ds < SIZE_BOUND then (True, word_of_nat (digits_value ds)) else (False, v))"
    and "parse_seed (Some ds) v = (if digits_value ds < SIZE_BOUND then (True, word_of_nat (digits_value ds)) else (False, v))"
proof -
  have "is_digit (hd ds)" using assms by (cases ds) (simp_all add: list_all_iff)
  then have "hd ds \<noteq> CHR ''-''" using digit_not_space by blast
  moreover have "\<not> w > SIZE_MAX" for w :: size_t by (simp add: size_t_less_iff not_less)
  ultimately show "parse_size (Some ds) v = (if digits_value ds < SIZE_BOUND then (True, word_of_nat (digits_value ds)) else (False, v))"
    "parse_seed (Some ds) v = (if digits_value ds < SIZE_BOUND then (True, word_of_nat (digits_value ds)) else (False, v))"
    using assms by (simp_all add: parse_size_def parse_seed_def strtoull_digits)
qed

text \<open>
  The texts that are numbers: white space, an optional sign, decimal digits and nothing behind them.
  The four arguments are the text and these three parts of it.
\<close>

definition numeral_text :: "string \<Rightarrow> string \<Rightarrow> string \<Rightarrow> string \<Rightarrow> bool" where
  "numeral_text t sp sg ds \<longleftrightarrow> t = sp @ sg @ ds \<and> list_all is_space sp \<and> sg \<in> {[], ''-'', ''+''} \<and>
     list_all is_digit ds \<and> ds \<noteq> []"

definition signed_value :: "string \<Rightarrow> string \<Rightarrow> uint64" where
  "signed_value sg ds = (if sg = ''-'' then - word_of_nat (digits_value ds) else word_of_nat (digits_value ds))"

lemma sign_not_space: "\<not> is_space CHR ''-''" "\<not> is_space CHR ''+''" "\<not> is_digit CHR ''-''" "\<not> is_digit CHR ''+''"
  by (simp_all add: is_space_def is_digit_def)

lemma strtoull_numeral:
  assumes "numeral_text t sp sg ds"
  shows "strtoull t = (if digits_value ds < SIZE_BOUND then (signed_value sg ds, False, True, []) else (SIZE_MAX, True, True, []))"
proof -
  note t = assms [unfolded numeral_text_def]
  from t obtain c cs where ds: "ds = c # cs" "is_digit c" by (cases ds) auto
  have sp: "dropWhile is_space (sp @ u) = dropWhile is_space u" for u
    using t by (intro dropWhile_append2) (simp add: list_all_iff)
  have tk: "takeWhile is_digit ds = ds" "dropWhile is_digit ds = []" using t by (simp_all add: list_all_iff)
  have h: "hd ds = c" "ds \<noteq> []" "c \<noteq> CHR ''-''" "c \<noteq> CHR ''+''" using digit_not_space [OF ds(2)] ds(1) by simp_all
  have d: "dropWhile is_space (sg @ ds) = sg @ ds" using t ds digit_not_space [OF ds(2)] sign_not_space by auto
  have neg: "(sg @ ds \<noteq> [] \<and> hd (sg @ ds) = CHR ''-'') = (sg = ''-'')" using t h by auto
  have body: "(if sg @ ds \<noteq> [] \<and> (hd (sg @ ds) = CHR ''-'' \<or> hd (sg @ ds) = CHR ''+'') then tl (sg @ ds) else sg @ ds) = ds"
    using t h by auto
  have u: "dropWhile is_space t = sg @ ds" using t sp d by simp
  show ?thesis unfolding strtoull_def Let_def u neg body tk using h(2) by (simp add: signed_value_def not_le)
qed

text \<open>When \<open>strtoull\<close> finds a number and reads the whole text, the text is a number.\<close>

lemma strtoull_whole:
  assumes "strtoull t = (n, err, True, [])"
  shows "\<exists>sp sg ds. numeral_text t sp sg ds"
proof -
  define u where "u = dropWhile is_space t"
  define w where "w = (if u \<noteq> [] \<and> (hd u = CHR ''-'' \<or> hd u = CHR ''+'') then tl u else u)"
  define sg where "sg = (if u \<noteq> [] \<and> (hd u = CHR ''-'' \<or> hd u = CHR ''+'') then [hd u] else [])"
  have d: "takeWhile is_digit w \<noteq> []" "dropWhile is_digit w = []"
    using assms unfolding strtoull_def Let_def u_def [symmetric] w_def [symmetric] by (auto split: if_splits)
  have "w \<noteq> []" using d(1) by (rule contrapos_nn) simp
  moreover have "list_all is_digit w" using d(2) by (simp add: list_all_iff)
  moreover have "t = takeWhile is_space t @ u" by (simp add: u_def)
  moreover have "u = sg @ w" "sg \<in> {[], ''-'', ''+''}" by (auto simp: sg_def w_def)
  moreover have "list_all is_space (takeWhile is_space t)" by (auto simp: list_all_iff dest: set_takeWhileD)
  ultimately have "numeral_text t (takeWhile is_space t) sg w" unfolding numeral_text_def by simp
  then show ?thesis by blast
qed

text \<open>
  \<open>parse_size\<close> and \<open>parse_seed\<close> accept exactly the numbers that do not start with a minus sign and whose
  digits fit 64 bits; every other text is refused.
\<close>

lemma parse_seed_same: "parse_seed text v = parse_size text v"
proof -
  have "\<not> w > SIZE_MAX" for w :: size_t by (simp add: size_t_less_iff not_less)
  then show ?thesis by (auto simp: parse_seed_def parse_size_def Let_def split: option.splits prod.splits)
qed

lemma parse_size_numeral:
  assumes "numeral_text t sp sg ds" and "hd t \<noteq> CHR ''-''"
  shows "parse_size (Some t) v = (if digits_value ds < SIZE_BOUND then (True, signed_value sg ds) else (False, v))"
proof -
  have "t \<noteq> []" using assms(1) by (auto simp: numeral_text_def)
  moreover have "\<not> w > SIZE_MAX" for w :: size_t by (simp add: size_t_less_iff not_less)
  ultimately show ?thesis using assms(2) strtoull_numeral [OF assms(1)] by (simp add: parse_size_def Let_def)
qed

lemma parse_size_other:
  assumes "\<nexists>sp sg ds. numeral_text t sp sg ds"
  shows "parse_size (Some t) v = (False, v)"
proof -
  obtain n err found rest where r: "strtoull t = (n, err, found, rest)" by (cases "strtoull t") auto
  have "\<not> (found \<and> rest = [])" using strtoull_whole [of t n err] assms r by auto
  then show ?thesis using r by (auto simp: parse_size_def Let_def)
qed

lemma parse_size_accepts:
  "parse_size (Some t) v = (True, n) \<longleftrightarrow> hd t \<noteq> CHR ''-'' \<and>
     (\<exists>sp sg ds. numeral_text t sp sg ds \<and> digits_value ds < SIZE_BOUND \<and> n = signed_value sg ds)"
proof (cases "hd t = CHR ''-''")
  case True
  then show ?thesis by (simp add: parse_size_def)
next
  case False
  show ?thesis
  proof
    assume a: "parse_size (Some t) v = (True, n)"
    then obtain sp sg ds where "numeral_text t sp sg ds" using parse_size_other [of t v] by fastforce
    with a False parse_size_numeral [OF this False, of v]
    show "hd t \<noteq> CHR ''-'' \<and> (\<exists>sp sg ds. numeral_text t sp sg ds \<and> digits_value ds < SIZE_BOUND \<and> n = signed_value sg ds)"
      by (intro conjI exI [of _ sp] exI [of _ sg] exI [of _ ds]) (simp_all split: if_splits)
  qed (use parse_size_numeral [OF _ False, of _ _ _ v] in auto)
qed

lemma parse_size_refuses: "fst (parse_size text v) \<or> parse_size text v = (False, v)"
  by (auto simp: parse_size_def Let_def split: option.splits prod.splits)

text \<open>The test for a leading minus sign does not see one behind white space.\<close>

lemma parse_size_negative: "parse_size (Some '' -1'') v = (True, SIZE_MAX)"
  by (simp add: parse_size_def strtoull_def is_space_def is_digit_def digits_value_def)

text \<open>What a run relies on.\<close>

definition config_ok :: "configuration \<Rightarrow> bool" where
  "config_ok config \<longleftrightarrow> workers config \<noteq> 0 \<and> queue_capacity config \<noteq> 0 \<and>
     fail_thread_at config \<le> workers config \<and> fail_allocation_at config \<le> jobs config"

lemma argument_loop_ok: "argument_loop args config = Run config' \<Longrightarrow> config_ok config'"
  by (induction args config rule: argument_loop.induct)
    (auto simp: config_ok_def not_less split: if_splits option.splits)

end
