(* ===== verification/Worker_Queue.thy ===== *)
theory Worker_Queue
  imports HPLF_Prelude
begin

text \<open>
  \<open>examples/worker_pool.c\<close>, the bounded queue of jobs.  The mutex makes the code between two waits one
  step; \<open>queue_push_pass\<close> and \<open>queue_pop_pass\<close> are that code: one pass from the test of the \<open>while\<close>
  loop on, with the mutex held, which ends in a wait or in a return.  The ring buffer implements a
  first-in first-out list.
\<close>

section \<open>Definitions\<close>

record job_queue =
  q_slots :: "addr list"
  q_capacity :: size_t
  q_head :: size_t
  q_count :: size_t
  q_closed :: bool

datatype 'r pass = Waits | Returns 'r

text \<open>
  \<open>allocated\<close> says whether \<open>calloc\<close> succeeded; the other arguments are the results of the three
  initialisations.  A queue without slots has the null pointer, here the empty list.
\<close>

definition queue_initialize :: "bool \<Rightarrow> int \<Rightarrow> int \<Rightarrow> int \<Rightarrow> size_t \<Rightarrow> bool \<times> job_queue" where
  "queue_initialize allocated mutex_error not_empty_error not_full_error cap =
     (let queue = \<lparr>q_slots = [], q_capacity = 0, q_head = 0, q_count = 0, q_closed = False\<rparr> in
      if \<not> allocated then (False, queue)
      else
        let queue = queue\<lparr>q_slots := replicate (unat cap) NULL, q_capacity := cap\<rparr> in
        if mutex_error \<noteq> 0 then (False, queue\<lparr>q_slots := []\<rparr>)
        else if not_empty_error \<noteq> 0 then (False, queue\<lparr>q_slots := []\<rparr>)
        else if not_full_error \<noteq> 0 then (False, queue\<lparr>q_slots := []\<rparr>)
        else (True, queue))"

definition queue_push_pass :: "addr \<Rightarrow> job_queue \<Rightarrow> (int pass \<times> job_queue) option" where
  "queue_push_pass job queue =
     (if q_count queue = q_capacity queue \<and> \<not> q_closed queue then Some (Waits, queue)
      else if q_closed queue then Some (Returns 0, queue)
      else if q_capacity queue = 0 then None
      else do {
        slots \<leftarrow> array_write (q_slots queue) ((q_head queue + q_count queue) mod q_capacity queue) job;
        Some (Returns 1, queue\<lparr>q_slots := slots, q_count := q_count queue + 1\<rparr>)
      })"

text \<open>The second component of the result is what is stored through the out-parameter \<open>job\<close>.\<close>

definition queue_pop_pass :: "job_queue \<Rightarrow> ((int \<times> addr) pass \<times> job_queue) option" where
  "queue_pop_pass queue =
     (if q_count queue = 0 \<and> \<not> q_closed queue then Some (Waits, queue)
      else if q_count queue = 0 then Some (Returns (0, NULL), queue)
      else do {
        job \<leftarrow> array_read (q_slots queue) (q_head queue);
        slots \<leftarrow> array_write (q_slots queue) (q_head queue) NULL;
        if q_capacity queue = 0 then None
        else Some (Returns (1, job), queue\<lparr>q_slots := slots,
          q_head := (q_head queue + 1) mod q_capacity queue, q_count := q_count queue - 1\<rparr>)
      })"

text \<open>The arguments are the results of the lock, the two broadcasts and the unlock.\<close>

definition queue_close :: "int \<Rightarrow> int \<Rightarrow> int \<Rightarrow> int \<Rightarrow> job_queue \<Rightarrow> bool \<times> job_queue" where
  "queue_close lock_error first_broadcast second_broadcast unlock_error queue =
     (if lock_error \<noteq> 0 then (False, queue)
      else (first_broadcast = 0 \<and> second_broadcast = 0 \<and> unlock_error = 0, queue\<lparr>q_closed := True\<rparr>))"

text \<open>The loop of \<open>queue_release_remaining\<close>: the jobs given back, in order, and the queue.\<close>

function release_loop :: "job_queue \<Rightarrow> (addr list \<times> job_queue) option" where
  "release_loop queue =
     (if q_count queue = 0 then Some ([], queue)
      else case array_read (q_slots queue) (q_head queue) of
        None \<Rightarrow> None
      | Some job \<Rightarrow>
          if q_capacity queue = 0 then None
          else case release_loop (queue\<lparr>q_slots := (q_slots queue)[unat (q_head queue) := NULL],
              q_head := (q_head queue + 1) mod q_capacity queue, q_count := q_count queue - 1\<rparr>) of
            None \<Rightarrow> None
          | Some (released, queue) \<Rightarrow> Some (job # released, queue))"
  by auto
termination
  by (relation "measure (\<lambda>q. unat (q_count q))") (auto simp: unat_minus_one unat_gt_0)

declare release_loop.simps [simp del]

section \<open>The list that the ring buffer holds\<close>

definition q_list :: "job_queue \<Rightarrow> addr list" where
  "q_list q = map (\<lambda>i. q_slots q ! ((unat (q_head q) + i) mod length (q_slots q))) [0..<unat (q_count q)]"

text \<open>\<open>calloc\<close> of the slots, eight bytes each, succeeded.\<close>

definition queue_ok :: "job_queue \<Rightarrow> bool" where
  "queue_ok q \<longleftrightarrow> length (q_slots q) = unat (q_capacity q) \<and> 0 < unat (q_capacity q) \<and>
     unat (q_capacity q) * 8 < SIZE_BOUND \<and> unat (q_head q) < unat (q_capacity q) \<and>
     unat (q_count q) \<le> unat (q_capacity q)"

lemma q_list_length [simp]: "length (q_list q) = unat (q_count q)"
  by (simp add: q_list_def)

lemma q_list_empty: "q_list q = [] \<longleftrightarrow> q_count q = 0"
  by (metis length_0_conv q_list_length unat_eq_zero)

lemma queue_initialize_ok:
  assumes "queue_initialize allocated m e f cap = (True, q)" and "cap \<noteq> 0" and "unat cap * 8 < SIZE_BOUND"
  shows "queue_ok q" and "q_list q = []" and "\<not> q_closed q" and "q_capacity q = cap"
proof -
  have q: "q = \<lparr>q_slots = replicate (unat cap) NULL, q_capacity = cap, q_head = 0, q_count = 0, q_closed = False\<rparr>"
    using assms(1) by (auto simp: queue_initialize_def Let_def split: if_splits)
  show "queue_ok q" "q_list q = []" "\<not> q_closed q" "q_capacity q = cap"
    using assms(2,3) by (simp_all add: q queue_ok_def q_list_def unat_gt_0)
qed

lemma ring_index:
  assumes "queue_ok q" and "i \<le> unat (q_capacity q)"
  shows "unat ((q_head q + word_of_nat i) mod q_capacity q) = (unat (q_head q) + i) mod length (q_slots q)"
proof -
  have "unat (word_of_nat i :: size_t) = i" using assms by (intro unat_word_of_nat) (auto simp: queue_ok_def)
  then have "unat (q_head q + word_of_nat i) = unat (q_head q) + i"
    using assms by (subst unat_add_noverflow) (auto simp: queue_ok_def)
  then show ?thesis using assms(1) by (simp add: unat_mod_distrib queue_ok_def)
qed

lemma ring_inj:
  fixes i j n :: nat
  assumes "(a + i) mod n = (a + j) mod n" and "i < n" and "j < n"
  shows "i = j"
proof (rule ccontr)
  assume "i \<noteq> j"
  moreover have "n dvd (a + j) - (a + i)" if "i \<le> j"
    using that assms(1) mod_eq_dvd_iff_nat [of "a + i" "a + j" n] by (metis add_le_cancel_left)
  moreover have "n dvd (a + i) - (a + j)" if "j \<le> i"
    using that assms(1) mod_eq_dvd_iff_nat [of "a + j" "a + i" n] by (metis add_le_cancel_left)
  ultimately show False using assms(2,3) by (cases "i \<le> j") (auto dest: dvd_imp_le)
qed

lemma push_pass:
  assumes "queue_ok q"
  shows "q_closed q \<Longrightarrow> queue_push_pass job q = Some (Returns 0, q)"
    and "\<not> q_closed q \<Longrightarrow> q_count q = q_capacity q \<Longrightarrow> queue_push_pass job q = Some (Waits, q)"
    and "\<not> q_closed q \<Longrightarrow> q_count q \<noteq> q_capacity q \<Longrightarrow>
      \<exists>q'. queue_push_pass job q = Some (Returns 1, q') \<and> queue_ok q' \<and> q_list q' = q_list q @ [job] \<and>
        q_closed q' = q_closed q \<and> q_capacity q' = q_capacity q \<and> q_count q' = q_count q + 1"
proof -
  show "q_closed q \<Longrightarrow> queue_push_pass job q = Some (Returns 0, q)"
    "\<not> q_closed q \<Longrightarrow> q_count q = q_capacity q \<Longrightarrow> queue_push_pass job q = Some (Waits, q)"
    by (simp_all add: queue_push_pass_def)
  assume op: "\<not> q_closed q" and nf: "q_count q \<noteq> q_capacity q"
  let ?n = "length (q_slots q)" and ?c = "unat (q_count q)" and ?h = "unat (q_head q)"
  let ?i = "(?h + ?c) mod ?n"
  have n: "?n = unat (q_capacity q)" "0 < ?n" using assms by (simp_all add: queue_ok_def)
  have c: "?c < ?n" using assms nf unat_inj_iff [of "q_count q" "q_capacity q"] by (auto simp: queue_ok_def)
  have idx: "unat ((q_head q + q_count q) mod q_capacity q) = ?i"
    using ring_index [OF assms, of ?c] c n by simp
  let ?q = "q\<lparr>q_slots := (q_slots q)[?i := job], q_count := q_count q + 1\<rparr>"
  have "q_capacity q \<noteq> 0" using n by auto
  then have "queue_push_pass job q = Some (Returns 1, ?q)"
    using op nf idx n by (simp add: queue_push_pass_def)
  moreover have uc: "unat (q_count q + 1) = ?c + 1"
    using assms c by (subst unat_add_noverflow) (auto simp: queue_ok_def)
  moreover have "queue_ok ?q" using assms uc c by (simp add: queue_ok_def)
  moreover have "q_list ?q = q_list q @ [job]"
  proof -
    have "(q_slots q)[?i := job] ! ((?h + j) mod ?n) = q_slots q ! ((?h + j) mod ?n)" if "j < ?c" for j
      using that c ring_inj [of ?h ?c ?n j] by (intro nth_list_update_neq) auto
    then show ?thesis using uc n by (simp add: q_list_def)
  qed
  ultimately show "\<exists>q'. queue_push_pass job q = Some (Returns 1, q') \<and> queue_ok q' \<and> q_list q' = q_list q @ [job] \<and>
        q_closed q' = q_closed q \<and> q_capacity q' = q_capacity q \<and> q_count q' = q_count q + 1"
    by auto
qed

lemma pop_state:
  assumes "queue_ok q" and "q_list q = x # xs"
  defines "q' \<equiv> q\<lparr>q_slots := (q_slots q)[unat (q_head q) := NULL], q_head := (q_head q + 1) mod q_capacity q,
    q_count := q_count q - 1\<rparr>"
  shows "queue_ok q'" and "q_list q' = xs" and "array_read (q_slots q) (q_head q) = Some x"
    and "q_count q \<noteq> 0" and "q_capacity q \<noteq> 0"
proof -
  let ?n = "length (q_slots q)" and ?c = "unat (q_count q)" and ?h = "unat (q_head q)"
  have n: "?n = unat (q_capacity q)" "0 < ?n" "?h < ?n" "?c \<le> ?n" using assms(1) by (simp_all add: queue_ok_def)
  have c: "?c = Suc (length xs)" using q_list_length [of q] assms(2) by simp
  show nz: "q_count q \<noteq> 0" "q_capacity q \<noteq> 0" using c n by auto
  have uc: "unat (q_count q - 1) = length xs" using c by (subst unat_sub_le) simp_all
  have hd: "unat ((q_head q + 1) mod q_capacity q) = (?h + 1) mod ?n"
    using ring_index [OF assms(1), of 1] n by simp
  show "queue_ok q'" using assms(1) uc c n hd by (simp add: queue_ok_def q'_def)
  have nth: "(x # xs) ! i = q_slots q ! ((?h + i) mod ?n)" if "i < ?c" for i
    using that arg_cong [OF assms(2), of "\<lambda>l. l ! i"] by (simp add: q_list_def)
  show "array_read (q_slots q) (q_head q) = Some x" using nth [of 0] c n by simp
  have "q_list q' ! i = xs ! i" if i: "i < length xs" for i
  proof -
    have e: "((?h + 1) mod ?n + i) mod ?n = (?h + Suc i) mod ?n" by (simp add: mod_simps)
    have "(?h + Suc i) mod ?n \<noteq> ?h" using ring_inj [of ?h "Suc i" ?n 0] i c n by auto
    then show ?thesis using nth [of "Suc i"] i c e by (simp add: q_list_def q'_def uc hd)
  qed
  then show "q_list q' = xs" using uc by (intro nth_equalityI) (simp_all add: q'_def)
qed

lemma pop_pass:
  assumes "queue_ok q"
  shows "q_list q = [] \<Longrightarrow> \<not> q_closed q \<Longrightarrow> queue_pop_pass q = Some (Waits, q)"
    and "q_list q = [] \<Longrightarrow> q_closed q \<Longrightarrow> queue_pop_pass q = Some (Returns (0, NULL), q)"
    and "q_list q = x # xs \<Longrightarrow> \<exists>q'. queue_pop_pass q = Some (Returns (1, x), q') \<and> queue_ok q' \<and> q_list q' = xs \<and>
        q_closed q' = q_closed q \<and> q_capacity q' = q_capacity q"
proof -
  show "q_list q = [] \<Longrightarrow> \<not> q_closed q \<Longrightarrow> queue_pop_pass q = Some (Waits, q)"
    "q_list q = [] \<Longrightarrow> q_closed q \<Longrightarrow> queue_pop_pass q = Some (Returns (0, NULL), q)"
    by (simp_all add: queue_pop_pass_def q_list_empty)
  assume x: "q_list q = x # xs"
  note p = pop_state [OF assms x]
  have "unat (q_head q) < length (q_slots q)" using assms by (simp add: queue_ok_def)
  with p show "\<exists>q'. queue_pop_pass q = Some (Returns (1, x), q') \<and> queue_ok q' \<and> q_list q' = xs \<and>
        q_closed q' = q_closed q \<and> q_capacity q' = q_capacity q"
    by (auto simp: queue_pop_pass_def)
qed

text \<open>What is left at the end is given back once, in order.\<close>

lemma release_loop_spec:
  "queue_ok q \<Longrightarrow> \<exists>q'. release_loop q = Some (q_list q, q') \<and> queue_ok q' \<and> q_list q' = []"
proof (induction "q_list q" arbitrary: q)
  case Nil
  then show ?case by (subst release_loop.simps) (simp add: q_list_empty [symmetric])
next
  case (Cons x xs)
  note p = pop_state [OF Cons.prems Cons.hyps(2) [symmetric]]
  from Cons.hyps(1) [OF p(2) [symmetric] p(1)] obtain q' where
    "release_loop (q\<lparr>q_slots := (q_slots q)[unat (q_head q) := NULL], q_head := (q_head q + 1) mod q_capacity q,
      q_count := q_count q - 1\<rparr>) = Some (xs, q')" "queue_ok q'" "q_list q' = []" using p(2) by auto
  with p(3-5) Cons.hyps(2) show ?case by (subst release_loop.simps) simp
qed

section \<open>First in, first out\<close>

text \<open>A sequence of pushes, and of pops; \<open>None\<close> when one of them would have to wait.\<close>

fun push_all :: "(addr \<Rightarrow> 'q \<Rightarrow> 'q option) \<Rightarrow> addr list \<Rightarrow> 'q \<Rightarrow> 'q option" where
  "push_all push [] q = Some q"
| "push_all push (x # xs) q = do { q \<leftarrow> push x q; push_all push xs q }"

fun pop_many :: "('q \<Rightarrow> (addr \<times> 'q) option) \<Rightarrow> nat \<Rightarrow> 'q \<Rightarrow> (addr list \<times> 'q) option" where
  "pop_many pop 0 q = Some ([], q)"
| "pop_many pop (Suc n) q = do { (x, q) \<leftarrow> pop q; (xs, q) \<leftarrow> pop_many pop n q; Some (x # xs, q) }"

locale fifo =
  fixes ok :: "'q \<Rightarrow> bool"
    and contents :: "'q \<Rightarrow> addr list"
    and room :: "'q \<Rightarrow> nat"
    and push :: "addr \<Rightarrow> 'q \<Rightarrow> 'q option"
    and pop :: "'q \<Rightarrow> (addr \<times> 'q) option"
  assumes push_law: "ok q \<Longrightarrow> 0 < room q \<Longrightarrow>
      \<exists>q'. push x q = Some q' \<and> ok q' \<and> contents q' = contents q @ [x] \<and> Suc (room q') = room q"
    and pop_law: "ok q \<Longrightarrow> contents q = x # xs \<Longrightarrow> \<exists>q'. pop q = Some (x, q') \<and> ok q' \<and> contents q' = xs"
begin

lemma push_all_contents:
  "ok q \<Longrightarrow> length xs \<le> room q \<Longrightarrow> \<exists>q'. push_all push xs q = Some q' \<and> ok q' \<and> contents q' = contents q @ xs"
proof (induction xs arbitrary: q)
  case Nil
  then show ?case by simp
next
  case (Cons x xs)
  then have "0 < room q" by simp
  with push_law [OF Cons.prems(1), of x] obtain q1 where q1: "push x q = Some q1" "ok q1" "contents q1 = contents q @ [x]"
    "Suc (room q1) = room q" by blast
  with Cons.IH [of q1] Cons.prems(2) show ?case by auto
qed

lemma pop_many_contents:
  "ok q \<Longrightarrow> contents q = xs @ ys \<Longrightarrow> \<exists>q'. pop_many pop (length xs) q = Some (xs, q') \<and> ok q' \<and> contents q' = ys"
proof (induction xs arbitrary: q)
  case Nil
  then show ?case by simp
next
  case (Cons x xs)
  from pop_law [OF Cons.prems(1), of x "xs @ ys"] Cons.prems(2) obtain q1 where
    "pop q = Some (x, q1)" "ok q1" "contents q1 = xs @ ys" by auto
  with Cons.IH [of q1] show ?case by auto
qed

lemma in_order:
  assumes "ok q" and "length xs \<le> room q"
  shows "\<exists>q1 q2. push_all push xs q = Some q1 \<and> pop_many pop (length (contents q) + length xs) q1 = Some (contents q @ xs, q2) \<and>
    contents q2 = []"
proof -
  from push_all_contents [OF assms] obtain q1 where q1: "push_all push xs q = Some q1" "ok q1" "contents q1 = contents q @ xs" by blast
  from pop_many_contents [OF q1(2), of "contents q @ xs" "[]"] q1 show ?thesis by auto
qed

end

text \<open>The calls that return at once.\<close>

definition push_at_once :: "addr \<Rightarrow> job_queue \<Rightarrow> job_queue option" where
  "push_at_once job q = (case queue_push_pass job q of Some (Returns r, q') \<Rightarrow> if r = 1 then Some q' else None | _ \<Rightarrow> None)"

definition pop_at_once :: "job_queue \<Rightarrow> (addr \<times> job_queue) option" where
  "pop_at_once q = (case queue_pop_pass q of Some (Returns (r, job), q') \<Rightarrow> if r = 1 then Some (job, q') else None | _ \<Rightarrow> None)"

interpretation job_fifo: fifo "\<lambda>q. queue_ok q \<and> \<not> q_closed q" q_list "\<lambda>q. unat (q_capacity q) - unat (q_count q)"
  push_at_once pop_at_once
proof (unfold_locales, goal_cases)
  case (1 q x)
  then have ok: "queue_ok q" "\<not> q_closed q" "q_count q \<noteq> q_capacity q" by auto
  from push_pass(3) [OF this, of x] obtain q' where q': "queue_push_pass x q = Some (Returns 1, q')" "queue_ok q'"
    "q_list q' = q_list q @ [x]" "q_closed q' = q_closed q" "q_capacity q' = q_capacity q" "q_count q' = q_count q + 1" by blast
  have "unat (q_count q + 1) = unat (q_count q) + 1"
    using ok(1) 1 by (subst unat_add_noverflow) (auto simp: queue_ok_def)
  with q' ok 1 show ?case by (auto simp: push_at_once_def)
next
  case (2 q x xs)
  then have "queue_ok q" by blast
  from pop_pass(3) [OF this 2(2)] 2 show ?case by (auto simp: pop_at_once_def)
qed

end
