(* ===== verification/Worker_Pool.thy ===== *)
theory Worker_Pool
  imports Worker_Jobs Worker_Queue
begin

text \<open>
  \<open>examples/worker_pool.c\<close>, the threads: \<open>main\<close> starts the workers, produces the jobs, closes the
  queue, joins the workers and adds up what they found; \<open>worker_main\<close> takes jobs from the queue,
  checks and frees them.  The state of the program is the queue, the jobs in memory, the \<open>seen\<close> flags,
  and where each thread is; the threads interleave between their critical sections, atomic operations
  and waits.  The results of the system calls are part of an event, so that every error path is a
  possible behaviour.

  The allocator is what the harness tests and is not part of this model: \<open>worker_allocate\<close> returns
  null or memory that is not in use, with arbitrary contents (this is what the allocator's theorems
  establish), \<open>worker_deallocate\<close> ends the use, and flushing and trimming change no job.
\<close>

section \<open>State\<close>

record worker_result =
  consumed :: size_t
  duplicate_jobs :: size_t
  invalid_jobs :: size_t
  result_checksum :: uint64
  queue_error :: bool

text \<open>
  A worker is about to lock the queue in \<open>queue_pop\<close>, waits on \<open>not_empty\<close>, has been woken and holds
  the mutex again, owns a job, or has returned.
\<close>

datatype worker_pc = W_Pop | W_Wait | W_Recheck | W_Have addr | W_Done

record worker_thread =
  w_pc :: worker_pc
  w_result :: worker_result

text \<open>
  \<open>main\<close> is in the loop that creates threads (with its index), about to produce the next job, about to
  push a job (with its address and checksum), waiting on \<open>not_full\<close>, woken again, about to close the
  queue, joining (with the index), or about to report.
\<close>

datatype main_pc =
    M_Create size_t
  | M_Produce
  | M_Push addr uint64
  | M_Wait addr uint64
  | M_Recheck addr uint64
  | M_Close
  | M_Join nat
  | M_Report

record pool =
  p_queue :: job_queue
  p_jobs :: "addr \<Rightarrow> job option"
  p_seen :: "byte list"
  p_workers :: "worker_thread list"
  p_main :: main_pc
  p_status :: run_status
  p_index :: size_t
  p_attempts :: size_t
  p_produced :: size_t
  p_expected :: uint64
  p_all_joined :: bool

definition new_worker :: worker_thread where
  "new_worker = \<lparr>w_pc = W_Pop, w_result = \<lparr>consumed = 0, duplicate_jobs = 0, invalid_jobs = 0, result_checksum = 0, queue_error = False\<rparr>\<rparr>"

text \<open>The state of \<open>main\<close> after its allocations, with the \<open>seen\<close> flags cleared.\<close>

definition pool_start :: "configuration \<Rightarrow> job_queue \<Rightarrow> pool" where
  "pool_start config queue = \<lparr>p_queue = queue, p_jobs = (\<lambda>a. None), p_seen = replicate (unat (jobs config)) 0, p_workers = [],
     p_main = M_Create 0, p_status = RUN_OK, p_index = 0, p_attempts = 0, p_produced = 0, p_expected = 0, p_all_joined = True\<rparr>"

text \<open>\<open>main\<close> from the start to this point: the exit code of an early return, or the state.\<close>

definition main_begin :: "string list \<Rightarrow> bool \<Rightarrow> bool \<Rightarrow> bool \<Rightarrow> bool \<Rightarrow> int \<Rightarrow> int \<Rightarrow> int \<Rightarrow> int + configuration \<times> pool" where
  "main_begin arguments threads_allocated workers_allocated seen_allocated slots_allocated mutex_error not_empty_error not_full_error =
     (case parse_arguments arguments of
        Help \<Rightarrow> Inl 0
      | Bad_Arguments \<Rightarrow> Inl 2
      | Run config \<Rightarrow>
          if workers config > SIZE_MAX div 8 \<or> workers config > SIZE_MAX div 64 \<or> jobs config > SIZE_MAX div 1 then Inl 2
          else
            let (ok, queue) = queue_initialize slots_allocated mutex_error not_empty_error not_full_error (queue_capacity config) in
            if \<not> threads_allocated \<or> \<not> workers_allocated \<or> (jobs config \<noteq> 0 \<and> \<not> seen_allocated) \<or> \<not> ok then Inl 6
            else Inr (config, pool_start config queue))"

section \<open>Condition variables\<close>

definition wake_worker :: "worker_thread \<Rightarrow> worker_thread" where
  "wake_worker w = (if w_pc w = W_Wait then w\<lparr>w_pc := W_Recheck\<rparr> else w)"

text \<open>\<open>pthread_cond_signal(&queue->not_empty)\<close> wakes the given worker, if any waits.\<close>

definition signal_not_empty :: "nat option \<Rightarrow> pool \<Rightarrow> pool" where
  "signal_not_empty woken p = (case woken of
     None \<Rightarrow> p
   | Some w \<Rightarrow> p\<lparr>p_workers := (p_workers p)[w := wake_worker (p_workers p ! w)]\<rparr>)"

definition woken_ok :: "nat option \<Rightarrow> pool \<Rightarrow> bool" where
  "woken_ok woken p \<longleftrightarrow> (case woken of
     None \<Rightarrow> list_all (\<lambda>w. w_pc w \<noteq> W_Wait) (p_workers p)
   | Some w \<Rightarrow> w < length (p_workers p) \<and> w_pc (p_workers p ! w) = W_Wait)"

text \<open>\<open>not_full\<close>: only \<open>main\<close> waits on it, so signal and broadcast are the same.\<close>

definition signal_not_full :: "pool \<Rightarrow> pool" where
  "signal_not_full p = (case p_main p of M_Wait a c \<Rightarrow> p\<lparr>p_main := M_Recheck a c\<rparr> | _ \<Rightarrow> p)"

definition broadcast_not_empty :: "pool \<Rightarrow> pool" where
  "broadcast_not_empty p = p\<lparr>p_workers := map wake_worker (p_workers p)\<rparr>"

text \<open>\<open>queue_close\<close> on the shared state.\<close>

definition close_queue :: "int \<Rightarrow> int \<Rightarrow> int \<Rightarrow> int \<Rightarrow> pool \<Rightarrow> bool \<times> pool" where
  "close_queue lock_error b1 b2 unlock_error p =
     (let (ok, queue) = queue_close lock_error b1 b2 unlock_error (p_queue p);
          p = p\<lparr>p_queue := queue\<rparr>;
          p = (if lock_error = 0 \<and> b1 = 0 then broadcast_not_empty p else p);
          p = (if lock_error = 0 \<and> b2 = 0 then signal_not_full p else p)
      in (ok, p))"

section \<open>The main thread\<close>

text \<open>After the loop that creates the threads.\<close>

definition main_created :: "pool \<Rightarrow> pool" where
  "main_created p = (if p_status p = RUN_OK then p\<lparr>p_main := M_Produce, p_index := 0\<rparr> else p\<lparr>p_main := M_Close\<rparr>)"

definition main_create :: "configuration \<Rightarrow> int \<Rightarrow> size_t \<Rightarrow> pool \<Rightarrow> pool" where
  "main_create config create_error index p =
     (if index < workers config then
        if fail_thread_at config = index + 1 then main_created (p\<lparr>p_status := RUN_THREAD_FAILURE\<rparr>)
        else if create_error \<noteq> 0 then main_created (p\<lparr>p_status := RUN_THREAD_FAILURE\<rparr>)
        else p\<lparr>p_workers := p_workers p @ [new_worker], p_main := M_Create (index + 1)\<rparr>
      else main_created p)"

text \<open>\<open>a\<close> is what \<open>worker_allocate\<close> returns, \<open>raw\<close> the contents of the payload's memory.\<close>

definition main_produce :: "configuration \<Rightarrow> addr \<Rightarrow> byte list \<Rightarrow> pool \<Rightarrow> pool option" where
  "main_produce config a raw p =
     (if p_index p < jobs config then
        let payload_size = payload_size_for (seed config) (p_index p);
            p = p\<lparr>p_attempts := p_attempts p + 1\<rparr>
        in if fail_allocation_at config = p_attempts p
           then Some (p\<lparr>p_status := RUN_ALLOCATION_FAILURE, p_main := M_Close\<rparr>)
           else if payload_size > SIZE_MAX - sizeof_job
           then Some (p\<lparr>p_status := RUN_INTERNAL_ERROR, p_main := M_Close\<rparr>)
           else if a = NULL then Some (p\<lparr>p_status := RUN_ALLOCATION_FAILURE, p_main := M_Close\<rparr>)
           else do {
             j \<leftarrow> fill_job (seed config) (p_index p) raw;
             Some (p\<lparr>p_jobs := (p_jobs p)(a \<mapsto> j), p_main := M_Push a (job_checksum j)\<rparr>)
           }
      else Some (p\<lparr>p_main := M_Close\<rparr>))"

text \<open>\<open>worker_deallocate\<close>: of memory that is not in use it has no defined behaviour.\<close>

definition deallocate :: "addr \<Rightarrow> pool \<Rightarrow> pool option" where
  "deallocate a p = (case p_jobs p a of None \<Rightarrow> None | Some _ \<Rightarrow> Some (p\<lparr>p_jobs := (p_jobs p)(a := None)\<rparr>))"

text \<open>
  One pass of \<open>queue_push\<close> and what \<open>main\<close> does with its result; \<open>error\<close> is the result of the lock or,
  after a wait, of the wait, and \<open>woken\<close> the worker that the signal wakes.
\<close>

definition main_push :: "int \<Rightarrow> nat option \<Rightarrow> addr \<Rightarrow> uint64 \<Rightarrow> pool \<Rightarrow> pool option" where
  "main_push error woken a checksum p =
     (if error \<noteq> 0 then do {
        p \<leftarrow> deallocate a p;
        Some (p\<lparr>p_status := RUN_INTERNAL_ERROR, p_main := M_Close\<rparr>)
      }
      else do {
        (r, queue) \<leftarrow> queue_push_pass a (p_queue p);
        let p = p\<lparr>p_queue := queue\<rparr>;
        (case r of
           Waits \<Rightarrow> Some (p\<lparr>p_main := M_Wait a checksum\<rparr>)
         | Returns push_result \<Rightarrow>
             if push_result \<noteq> 1 then do {
               p \<leftarrow> deallocate a p;
               Some (p\<lparr>p_status := RUN_INTERNAL_ERROR, p_main := M_Close\<rparr>)
             }
             else Some (signal_not_empty woken (p\<lparr>p_main := M_Produce, p_index := p_index p + 1,
               p_expected := p_expected p + checksum, p_produced := p_produced p + 1\<rparr>)))
      })"

definition main_close :: "int \<Rightarrow> int \<Rightarrow> int \<Rightarrow> int \<Rightarrow> pool \<Rightarrow> pool" where
  "main_close lock_error b1 b2 unlock_error p =
     (let (ok, p) = close_queue lock_error b1 b2 unlock_error p;
          p = (if \<not> ok \<and> p_status p = RUN_OK then p\<lparr>p_status := RUN_INTERNAL_ERROR\<rparr> else p)
      in p\<lparr>p_main := M_Join 0\<rparr>)"

definition main_join :: "int \<Rightarrow> nat \<Rightarrow> pool \<Rightarrow> pool" where
  "main_join join_error index p =
     (if index < length (p_workers p) then
        let p = (if join_error \<noteq> 0 then p\<lparr>p_all_joined := False, p_status := RUN_INTERNAL_ERROR\<rparr> else p)
        in p\<lparr>p_main := M_Join (index + 1)\<rparr>
      else p\<lparr>p_main := M_Report\<rparr>)"

section \<open>A worker\<close>

text \<open>One pass of \<open>queue_pop\<close> and what \<open>worker_main\<close> does with its result.\<close>

definition worker_pop :: "int \<Rightarrow> int \<Rightarrow> int \<Rightarrow> int \<Rightarrow> int \<Rightarrow> int \<Rightarrow> nat \<Rightarrow> pool \<Rightarrow> pool option" where
  "worker_pop error signal_error close_error b1 b2 unlock_error w p =
     (let th = p_workers p ! w in
      if error \<noteq> 0 then
        let (_, p) = close_queue close_error b1 b2 unlock_error p
        in Some (p\<lparr>p_workers := (p_workers p)[w := th\<lparr>w_pc := W_Done, w_result := (w_result th)\<lparr>queue_error := True\<rparr>\<rparr>]\<rparr>)
      else do {
        (r, queue) \<leftarrow> queue_pop_pass (p_queue p);
        let p = p\<lparr>p_queue := queue\<rparr>;
        (case r of
           Waits \<Rightarrow> Some (p\<lparr>p_workers := (p_workers p)[w := th\<lparr>w_pc := W_Wait\<rparr>]\<rparr>)
         | Returns (pop_result, job) \<Rightarrow>
             if pop_result = 0 then Some (p\<lparr>p_workers := (p_workers p)[w := th\<lparr>w_pc := W_Done\<rparr>]\<rparr>)
             else Some ((if signal_error = 0 then signal_not_full else id) (p\<lparr>p_workers := (p_workers p)[w := th\<lparr>w_pc := W_Have job\<rparr>]\<rparr>)))
      })"

text \<open>The body of the loop of \<open>worker_main\<close> after a successful pop.\<close>

definition worker_process :: "configuration \<Rightarrow> addr \<Rightarrow> nat \<Rightarrow> pool \<Rightarrow> pool option" where
  "worker_process config a w p = do {
     let th = p_workers p ! w;
     let r = w_result th;
     j \<leftarrow> p_jobs p a;
     (r, seen) \<leftarrow>
       (if job_id j \<ge> jobs config then Some (r\<lparr>invalid_jobs := invalid_jobs r + 1\<rparr>, p_seen p)
        else do {
          old \<leftarrow> array_read (p_seen p) (job_id j);
          seen \<leftarrow> array_write (p_seen p) (job_id j) 1;
          Some (if old \<noteq> 0 then r\<lparr>duplicate_jobs := duplicate_jobs r + 1\<rparr> else r, seen)
        });
     valid \<leftarrow> job_is_valid j;
     let r = (if \<not> valid then r\<lparr>invalid_jobs := invalid_jobs r + 1\<rparr> else r);
     let r = r\<lparr>result_checksum := result_checksum r + job_checksum j, consumed := consumed r + 1\<rparr>;
     let p = p\<lparr>p_seen := seen, p_workers := (p_workers p)[w := th\<lparr>w_pc := W_Pop, w_result := r\<rparr>]\<rparr>;
     deallocate a p
   }"

section \<open>Events\<close>

datatype pool_event =
    Create int
  | Produce addr "byte list"
  | Push int int "nat option"
  | Close int int int int
  | Join int
  | Pop nat int int int int int int
  | Process nat
  | Wakeup nat
  | Wakeup_Main

text \<open>
  When a thread can take an event.  \<open>worker_allocate\<close> gives null or memory not in use; a signal wakes a
  waiting worker if there is one, and none when it fails; joining waits for the worker's end; a wait may also end without a
  signal (\<open>Wakeup\<close>).
\<close>

fun enabled :: "configuration \<Rightarrow> pool_event \<Rightarrow> pool \<Rightarrow> bool" where
  "enabled config (Create e) p = (case p_main p of M_Create _ \<Rightarrow> True | _ \<Rightarrow> False)"
| "enabled config (Produce a raw) p = (p_main p = M_Produce \<and>
     (a = NULL \<or> p_jobs p a = None \<and> length raw = unat (payload_size_for (seed config) (p_index p))))"
| "enabled config (Push e s woken) p =
     ((if s = 0 then woken_ok woken p else woken = None) \<and> (case p_main p of M_Push _ _ \<Rightarrow> True | M_Recheck _ _ \<Rightarrow> True | _ \<Rightarrow> False))"
| "enabled config (Close e b1 b2 u) p = (p_main p = M_Close)"
| "enabled config (Join e) p = (case p_main p of
     M_Join i \<Rightarrow> e \<noteq> 0 \<or> i \<ge> length (p_workers p) \<or> w_pc (p_workers p ! i) = W_Done | _ \<Rightarrow> False)"
| "enabled config (Pop w e s c b1 b2 u) p =
     (w < length (p_workers p) \<and> (w_pc (p_workers p ! w) = W_Pop \<or> w_pc (p_workers p ! w) = W_Recheck))"
| "enabled config (Process w) p =
     (w < length (p_workers p) \<and> (case w_pc (p_workers p ! w) of W_Have _ \<Rightarrow> True | _ \<Rightarrow> False))"
| "enabled config (Wakeup w) p = (w < length (p_workers p) \<and> w_pc (p_workers p ! w) = W_Wait)"
| "enabled config Wakeup_Main p = (case p_main p of M_Wait _ _ \<Rightarrow> True | _ \<Rightarrow> False)"

fun action :: "configuration \<Rightarrow> pool_event \<Rightarrow> pool \<Rightarrow> pool option" where
  "action config (Create e) p = (case p_main p of M_Create i \<Rightarrow> Some (main_create config e i p) | _ \<Rightarrow> None)"
| "action config (Produce a raw) p = main_produce config a raw p"
| "action config (Push e s woken) p = (case p_main p of
     M_Push a c \<Rightarrow> main_push e woken a c p | M_Recheck a c \<Rightarrow> main_push e woken a c p | _ \<Rightarrow> None)"
| "action config (Close e b1 b2 u) p = Some (main_close e b1 b2 u p)"
| "action config (Join e) p = (case p_main p of M_Join i \<Rightarrow> Some (main_join e i p) | _ \<Rightarrow> None)"
| "action config (Pop w e s c b1 b2 u) p = worker_pop e s c b1 b2 u w p"
| "action config (Process w) p = (case w_pc (p_workers p ! w) of W_Have a \<Rightarrow> worker_process config a w p | _ \<Rightarrow> None)"
| "action config (Wakeup w) p = Some (p\<lparr>p_workers := (p_workers p)[w := wake_worker (p_workers p ! w)]\<rparr>)"
| "action config Wakeup_Main p = Some (signal_not_full p)"

text \<open>The locks, waits, signals, broadcasts, unlocks and joins of the event succeed.\<close>

fun no_error :: "pool_event \<Rightarrow> bool" where
  "no_error (Push e s woken) \<longleftrightarrow> e = 0 \<and> s = 0"
| "no_error (Close e b1 b2 u) \<longleftrightarrow> e = 0 \<and> b1 = 0 \<and> b2 = 0 \<and> u = 0"
| "no_error (Join e) \<longleftrightarrow> e = 0"
| "no_error (Pop w e s c b1 b2 u) \<longleftrightarrow> e = 0 \<and> s = 0"
| "no_error _ \<longleftrightarrow> True"

fun spurious :: "pool_event \<Rightarrow> bool" where
  "spurious (Wakeup w) \<longleftrightarrow> True"
| "spurious Wakeup_Main \<longleftrightarrow> True"
| "spurious _ \<longleftrightarrow> False"

inductive pool_reach :: "configuration \<Rightarrow> bool \<Rightarrow> pool \<Rightarrow> pool \<Rightarrow> bool" for config reliable start where
  initial: "pool_reach config reliable start start"
| event: "pool_reach config reliable start p \<Longrightarrow> enabled config e p \<Longrightarrow> (reliable \<longrightarrow> no_error e) \<Longrightarrow>
    action config e p = Some p' \<Longrightarrow> pool_reach config reliable start p'"

section \<open>The report\<close>

record pool_report =
  rp_status :: run_status
  rp_workers_started :: nat
  rp_jobs_produced :: size_t
  rp_jobs_consumed :: size_t
  rp_expected_checksum :: uint64
  rp_checksum :: uint64
  rp_duplicate_jobs :: size_t
  rp_invalid_jobs :: size_t
  rp_missing_jobs :: size_t
  rp_abandoned_jobs :: size_t

fun missing_loop :: "nat \<Rightarrow> size_t \<Rightarrow> byte list \<Rightarrow> size_t \<Rightarrow> size_t option" where
  "missing_loop 0 index seen missing = Some missing"
| "missing_loop (Suc k) index seen missing = do {
     b \<leftarrow> array_read seen index;
     missing_loop k (index + 1) seen (if b = 0 then missing + 1 else missing)
   }"

fun collect_loop :: "worker_result list \<Rightarrow> pool_report \<Rightarrow> pool_report" where
  "collect_loop [] rp = rp"
| "collect_loop (r # rs) rp = collect_loop rs (rp\<lparr>
     rp_jobs_consumed := rp_jobs_consumed rp + consumed r,
     rp_duplicate_jobs := rp_duplicate_jobs rp + duplicate_jobs r,
     rp_invalid_jobs := rp_invalid_jobs rp + invalid_jobs r,
     rp_checksum := rp_checksum rp + result_checksum r,
     rp_status := (if queue_error r then RUN_INTERNAL_ERROR else rp_status rp)\<rparr>)"

fun deallocate_all :: "addr list \<Rightarrow> pool \<Rightarrow> pool option" where
  "deallocate_all [] p = Some p"
| "deallocate_all (a # as) p = do { p \<leftarrow> deallocate a p; deallocate_all as p }"

text \<open>\<open>main\<close> from the joins to the end; the exit code is the status's.\<close>

definition main_report :: "pool \<Rightarrow> (pool_report \<times> pool) option" where
  "main_report p =
     (let rp = \<lparr>rp_status = p_status p, rp_workers_started = length (p_workers p), rp_jobs_produced = p_produced p,
        rp_jobs_consumed = 0, rp_expected_checksum = p_expected p, rp_checksum = 0, rp_duplicate_jobs = 0,
        rp_invalid_jobs = 0, rp_missing_jobs = 0, rp_abandoned_jobs = 0\<rparr> in
      if p_all_joined p then do {
        let rp = collect_loop (map w_result (p_workers p)) rp;
        missing \<leftarrow> missing_loop (unat (p_produced p)) 0 (p_seen p) 0;
        (released, queue) \<leftarrow> release_loop (p_queue p);
        p \<leftarrow> deallocate_all released (p\<lparr>p_queue := queue\<rparr>);
        let rp = rp\<lparr>rp_missing_jobs := missing, rp_abandoned_jobs := word_of_nat (length released)\<rparr>;
        Some (if rp_jobs_consumed rp \<noteq> rp_jobs_produced rp \<or> rp_duplicate_jobs rp \<noteq> 0 \<or> rp_invalid_jobs rp \<noteq> 0 \<or>
                rp_missing_jobs rp \<noteq> 0 \<or> rp_abandoned_jobs rp \<noteq> 0 \<or> rp_checksum rp \<noteq> rp_expected_checksum rp
              then rp\<lparr>rp_status := RUN_DATA_FAILURE\<rparr> else rp, p)
      }
      else Some (rp, p))"

end
