(* ===== verification/Worker_Data.thy ===== *)
theory Worker_Data
  imports Worker_Pool "HOL-Library.Multiset"
begin

text \<open>
  The data of a run of the worker pool, whatever the interleaving and whichever thread calls fail: no
  job is lost, used twice or used after it was freed, and the tallies of the workers, the \<open>seen\<close> flags
  and the checksums account exactly for the jobs that were pushed.
\<close>

section \<open>Who owns which job\<close>

text \<open>The job \<open>main\<close> has allocated and not yet pushed, and its checksum.\<close>

fun pending :: "main_pc \<Rightarrow> (addr \<times> uint64) option" where
  "pending (M_Push a c) = Some (a, c)"
| "pending (M_Wait a c) = Some (a, c)"
| "pending (M_Recheck a c) = Some (a, c)"
| "pending _ = None"

definition main_job :: "main_pc \<Rightarrow> addr list" where
  "main_job pc = (case pending pc of None \<Rightarrow> [] | Some (a, c) \<Rightarrow> [a])"

fun pc_job :: "worker_pc \<Rightarrow> addr list" where
  "pc_job (W_Have a) = [a]"
| "pc_job _ = []"

definition own_inv :: "pool \<Rightarrow> bool" where
  "own_inv p \<longleftrightarrow> queue_ok (p_queue p) \<and> finite (dom (p_jobs p)) \<and>
     mset (q_list (p_queue p)) + (\<Sum>w\<leftarrow>p_workers p. mset (pc_job (w_pc w))) + mset (main_job (p_main p)) =
       mset_set (dom (p_jobs p))"

text \<open>The jobs that were pushed and not yet freed.\<close>

definition flight :: "pool \<Rightarrow> addr set" where
  "flight p = dom (p_jobs p) - set (main_job (p_main p))"

definition job_at :: "pool \<Rightarrow> addr \<Rightarrow> job" where
  "job_at p a = the (p_jobs p a)"

definition id_at :: "pool \<Rightarrow> addr \<Rightarrow> nat" where
  "id_at p a = unat (job_id (job_at p a))"

definition data_inv :: "configuration \<Rightarrow> pool \<Rightarrow> bool" where
  "data_inv config p \<longleftrightarrow>
     (\<forall>a j. p_jobs p a = Some j \<longrightarrow> job_is_valid j = Some True \<and> unat (job_id j) < unat (jobs config)) \<and>
     (\<forall>a c. pending (p_main p) = Some (a, c) \<longrightarrow>
        id_at p a = unat (p_index p) \<and> c = job_checksum (job_at p a)) \<and>
     unat (p_index p) \<le> unat (jobs config) \<and> p_produced p = p_index p \<and> length (p_seen p) = unat (jobs config) \<and>
     inj_on (id_at p) (flight p) \<and> (\<forall>a \<in> flight p. id_at p a < unat (p_index p)) \<and>
     (\<forall>k < unat (jobs config). p_seen p ! k = (if k < unat (p_index p) \<and> k \<notin> id_at p ` flight p then 1 else 0)) \<and>
     (\<forall>w \<in> set (p_workers p). duplicate_jobs (w_result w) = 0 \<and> invalid_jobs (w_result w) = 0) \<and>
     (\<Sum>w\<leftarrow>p_workers p. consumed (w_result w)) + word_of_nat (card (flight p)) = p_index p \<and>
     (\<Sum>w\<leftarrow>p_workers p. result_checksum (w_result w)) + (\<Sum>a \<in> flight p. job_checksum (job_at p a)) = p_expected p"

lemma sum_update:
  fixes g :: "'a \<Rightarrow> 'b :: comm_monoid_add"
  assumes "i < length xs"
  shows "(\<Sum>x\<leftarrow>xs[i := y]. g x) + g (xs ! i) = (\<Sum>x\<leftarrow>xs. g x) + g y"
  using assms by (induction xs arbitrary: i) (auto simp: nth_Cons ac_simps split: nat.splits)

lemma sum_update_add:
  fixes g :: "'a \<Rightarrow> 'b :: ab_group_add"
  assumes "i < length xs"
  shows "(\<Sum>x\<leftarrow>xs[i := y]. g x) = (\<Sum>x\<leftarrow>xs. g x) + (g y - g (xs ! i))"
  using sum_update [OF assms, of g y] by (simp add: algebra_simps)

lemma sum_update_same:
  fixes g :: "'a \<Rightarrow> 'b :: comm_monoid_add"
  assumes "i < length xs" and "g y = g (xs ! i)"
  shows "(\<Sum>x\<leftarrow>xs[i := y]. g x) = (\<Sum>x\<leftarrow>xs. g x)"
proof -
  have "map g (xs[i := y]) = map g xs" using assms by (simp add: map_update) (metis list_update_id nth_map)
  then show ?thesis by simp
qed

text \<open>Waking a thread changes neither ownership nor results.\<close>

lemma wake_worker_simps [simp]:
  "pc_job (w_pc (wake_worker w)) = pc_job (w_pc w)" "w_result (wake_worker w) = w_result w"
  by (auto simp: wake_worker_def)

lemma sum_wake_update [simp]:
  fixes g :: "worker_thread \<Rightarrow> 'b :: comm_monoid_add"
  assumes "\<And>w. g (wake_worker w) = g w"
  shows "(\<Sum>x\<leftarrow>xs[i := wake_worker (xs ! i)]. g x) = (\<Sum>x\<leftarrow>xs. g x)"
  using assms by (cases "i < length xs") (simp_all add: sum_update_same list_update_beyond)

lemma signal_not_full_simps [simp]:
  "pending (p_main (signal_not_full p)) = pending (p_main p)" "p_jobs (signal_not_full p) = p_jobs p"
  "p_queue (signal_not_full p) = p_queue p" "p_workers (signal_not_full p) = p_workers p" "p_seen (signal_not_full p) = p_seen p"
  "p_index (signal_not_full p) = p_index p" "p_produced (signal_not_full p) = p_produced p" "p_expected (signal_not_full p) = p_expected p"
  "p_status (signal_not_full p) = p_status p" "p_all_joined (signal_not_full p) = p_all_joined p" "p_attempts (signal_not_full p) = p_attempts p"
  by (simp_all add: signal_not_full_def split: main_pc.splits)

text \<open>\<open>woken_only p p'\<close>: at most waiting threads were woken and the queue closed.\<close>

definition woken_only :: "pool \<Rightarrow> pool \<Rightarrow> bool" where
  "woken_only p p' \<longleftrightarrow> p_jobs p' = p_jobs p \<and> p_seen p' = p_seen p \<and> p_index p' = p_index p \<and> p_produced p' = p_produced p \<and>
     p_expected p' = p_expected p \<and> map w_result (p_workers p') = map w_result (p_workers p) \<and>
     pending (p_main p') = pending (p_main p)"

lemma woken_data:
  assumes "woken_only p p'" and "data_inv config p"
  shows "data_inv config p'"
proof -
  note w = assms(1) [unfolded woken_only_def]
  have f: "flight p' = flight p" "job_at p' = job_at p" "id_at p' = id_at p"
    using w by (simp_all add: flight_def main_job_def job_at_def [abs_def] id_at_def [abs_def])
  have s: "(\<Sum>w\<leftarrow>p_workers p'. g (w_result w)) = (\<Sum>w\<leftarrow>p_workers p. g (w_result w))" for g :: "worker_result \<Rightarrow> uint64"
  proof -
    have "map (g \<circ> w_result) (p_workers p') = map (g \<circ> w_result) (p_workers p)" using w by (metis map_map)
    then show ?thesis by (simp add: comp_def)
  qed
  have r: "w_result ` set (p_workers p') = w_result ` set (p_workers p)" using w by (metis set_map)
  have z: "(\<forall>w \<in> set (p_workers p'). duplicate_jobs (w_result w) = 0 \<and> invalid_jobs (w_result w) = 0) \<longleftrightarrow>
      (\<forall>w \<in> set (p_workers p). duplicate_jobs (w_result w) = 0 \<and> invalid_jobs (w_result w) = 0)"
    using r by (metis (mono_tags, lifting) imageE imageI)
  have e: "p_jobs p' = p_jobs p" "p_seen p' = p_seen p" "p_index p' = p_index p" "p_produced p' = p_produced p"
    "p_expected p' = p_expected p" "pending (p_main p') = pending (p_main p)" using w by blast+
  show ?thesis using assms(2) unfolding data_inv_def f s [of consumed] s [of result_checksum] z e .
qed

lemma woken_only_trans: "woken_only p p' \<Longrightarrow> woken_only p' p'' \<Longrightarrow> woken_only p p''"
  by (simp add: woken_only_def)

lemma woken_only_update:
  assumes "w_result th = w_result (p_workers p ! w)"
  shows "woken_only p (p\<lparr>p_workers := (p_workers p)[w := th]\<rparr>)"
  using assms by (cases "w < length (p_workers p)") (simp_all add: woken_only_def map_update list_update_same_conv list_update_beyond)

lemma close_queue_woken: "woken_only p (snd (close_queue e b1 b2 u p))"
  by (simp add: woken_only_def close_queue_def broadcast_not_empty_def Let_def split: prod.splits)

lemma close_queue_own: "own_inv p \<Longrightarrow> own_inv (snd (close_queue e b1 b2 u p))"
proof -
  have "queue_ok (q\<lparr>q_closed := True\<rparr>) = queue_ok q" "q_list (q\<lparr>q_closed := True\<rparr>) = q_list q" for q
    by (simp_all add: queue_ok_def q_list_def)
  then show "own_inv p \<Longrightarrow> own_inv (snd (close_queue e b1 b2 u p))"
    by (simp add: own_inv_def main_job_def close_queue_def queue_close_def broadcast_not_empty_def Let_def comp_def split: prod.splits)
qed

section \<open>Every event keeps the data right\<close>

lemma worker_pop_cases:
  assumes ok: "queue_ok (p_queue p)"
  obtains (waits) "q_list (p_queue p) = []" "\<not> q_closed (p_queue p)"
      "worker_pop 0 s c b1 b2 u w p = Some (p\<lparr>p_workers := (p_workers p)[w := (p_workers p ! w)\<lparr>w_pc := W_Wait\<rparr>]\<rparr>)"
  | (ends) "q_list (p_queue p) = []" "q_closed (p_queue p)"
      "worker_pop 0 s c b1 b2 u w p = Some (p\<lparr>p_workers := (p_workers p)[w := (p_workers p ! w)\<lparr>w_pc := W_Done\<rparr>]\<rparr>)"
  | (takes) x q where "q_list (p_queue p) = x # q_list q" "queue_ok q" "q_closed q = q_closed (p_queue p)"
      "q_capacity q = q_capacity (p_queue p)"
      "worker_pop 0 s c b1 b2 u w p =
        Some ((if s = 0 then signal_not_full else id) (p\<lparr>p_queue := q, p_workers := (p_workers p)[w := (p_workers p ! w)\<lparr>w_pc := W_Have x\<rparr>]\<rparr>))"
proof (cases "q_list (p_queue p)")
  case Nil
  have same: "p\<lparr>p_queue := p_queue p\<rparr> = p" by simp
  show ?thesis
  proof (cases "q_closed (p_queue p)")
    case True
    with Nil pop_pass(2) [OF ok] show ?thesis by (intro that(2)) (simp_all add: worker_pop_def Let_def)
  next
    case False
    with Nil pop_pass(1) [OF ok] show ?thesis by (intro that(1)) (simp_all add: worker_pop_def Let_def)
  qed
next
  case (Cons x xs)
  from pop_pass(3) [OF ok Cons] obtain q where "queue_pop_pass (p_queue p) = Some (Returns (1, x), q)" "queue_ok q" "q_list q = xs"
    "q_closed q = q_closed (p_queue p)" "q_capacity q = q_capacity (p_queue p)" by blast
  with Cons show ?thesis by (intro that(3) [of x q]) (simp_all add: worker_pop_def Let_def)
qed

lemma pop_own:
  assumes own: "own_inv p" and w: "w < length (p_workers p)" "pc_job (w_pc (p_workers p ! w)) = []"
  shows "\<exists>p'. worker_pop 0 s c b1 b2 u w p = Some p' \<and> own_inv p' \<and> woken_only p p'"
proof -
  let ?th = "p_workers p ! w"
  have ok: "queue_ok (p_queue p)" using own by (simp add: own_inv_def)
  have upd: "(\<Sum>x\<leftarrow>(p_workers p)[w := y]. mset (pc_job (w_pc x))) = (\<Sum>x\<leftarrow>p_workers p. mset (pc_job (w_pc x))) + mset (pc_job (w_pc y))" for y
    using sum_update [OF w(1), of "\<lambda>x. mset (pc_job (w_pc x))" y] w(2) by simp
  have wo: "woken_only p (p\<lparr>p_workers := (p_workers p)[w := ?th\<lparr>w_pc := pc\<rparr>]\<rparr>)" for pc by (rule woken_only_update) simp
  from ok show ?thesis
  proof (cases rule: worker_pop_cases [where s = s and c = c and ?b1.0 = b1 and ?b2.0 = b2 and u = u and w = w])
    case (takes x q)
    let ?p1 = "p\<lparr>p_queue := q, p_workers := (p_workers p)[w := ?th\<lparr>w_pc := W_Have x\<rparr>]\<rparr>"
    have "own_inv ((if s = 0 then signal_not_full else id) ?p1)" using own upd takes by (simp add: own_inv_def main_job_def ac_simps)
    moreover have "woken_only p ((if s = 0 then signal_not_full else id) ?p1)" using wo [of "W_Have x"] by (simp add: woken_only_def)
    ultimately show ?thesis using takes by blast
  qed (use own upd wo in \<open>simp_all add: own_inv_def\<close>)
qed

lemma own_flight:
  assumes "own_inv p" and "a \<in># mset (q_list (p_queue p)) + (\<Sum>w\<leftarrow>p_workers p. mset (pc_job (w_pc w)))"
  shows "a \<in> flight p"
proof -
  define X where "X = mset (q_list (p_queue p)) + (\<Sum>w\<leftarrow>p_workers p. mset (pc_job (w_pc w)))"
  have a: "a \<in># X" using assms(2) unfolding X_def .
  have f: "finite (dom (p_jobs p))" and m: "X + mset (main_job (p_main p)) = mset_set (dom (p_jobs p))"
    using assms(1) unfolding X_def own_inv_def by blast+
  have "count X a + count (mset (main_job (p_main p))) a \<le> 1"
    using f arg_cong [OF m, of "\<lambda>M. count M a"] by (simp add: count_mset_set')
  moreover have "0 < count X a" using a by (simp only: count_greater_zero_iff)
  ultimately have "count (mset (main_job (p_main p))) a = 0" by linarith
  then have "a \<notin> set (main_job (p_main p))" by (simp only: count_mset_0_iff not_False_eq_True)
  moreover have "a \<in> dom (p_jobs p)" using a f m by (metis finite_set_mset_mset_set union_iff)
  ultimately show ?thesis by (simp add: flight_def)
qed

lemma process_own:
  assumes own: "own_inv p" and w: "w < length (p_workers p)" "w_pc (p_workers p ! w) = W_Have a"
  shows "a \<in> flight p" and "p_jobs p a \<noteq> None"
    and "pc_job (w_pc th) = [] \<Longrightarrow> own_inv (p\<lparr>p_seen := s, p_workers := (p_workers p)[w := th], p_jobs := (p_jobs p)(a := None)\<rparr>)"
proof -
  have upd: "(\<Sum>x\<leftarrow>(p_workers p)[w := y]. mset (pc_job (w_pc x))) + {#a#} =
      (\<Sum>x\<leftarrow>p_workers p. mset (pc_job (w_pc x))) + mset (pc_job (w_pc y))" for y
    using sum_update [OF w(1), of "\<lambda>x. mset (pc_job (w_pc x))" y] w(2) by simp
  have "a \<in># (\<Sum>x\<leftarrow>p_workers p. mset (pc_job (w_pc x)))"
    using w by (auto intro!: bexI [of _ "p_workers p ! w"])
  then show fl: "a \<in> flight p" by (intro own_flight [OF own]) simp
  then show "p_jobs p a \<noteq> None" by (auto simp: flight_def)
  assume th: "pc_job (w_pc th) = []"
  have f: "finite (dom (p_jobs p))" using own by (simp add: own_inv_def)
  have rm: "mset_set (dom (p_jobs p)) = mset_set (dom (p_jobs p) - {a}) + {#a#}"
    using fl f mset_set.remove [OF f, of a] by (auto simp: flight_def)
  let ?S = "\<Sum>x\<leftarrow>(p_workers p)[w := th]. mset (pc_job (w_pc x))"
  have s: "(\<Sum>x\<leftarrow>p_workers p. mset (pc_job (w_pc x))) = ?S + {#a#}" using upd [of th] th by simp
  have "mset (q_list (p_queue p)) + (\<Sum>x\<leftarrow>p_workers p. mset (pc_job (w_pc x))) + mset (main_job (p_main p)) = mset_set (dom (p_jobs p))"
    using own unfolding own_inv_def by blast
  then have "mset (q_list (p_queue p)) + ?S + mset (main_job (p_main p)) + {#a#} = mset_set (dom (p_jobs p) - {a}) + {#a#}"
    unfolding s rm by (simp only: ac_simps)
  then have "mset (q_list (p_queue p)) + ?S + mset (main_job (p_main p)) = mset_set (dom (p_jobs p) - {a})"
    by (simp only: add_right_cancel)
  then show "own_inv (p\<lparr>p_seen := s, p_workers := (p_workers p)[w := th], p_jobs := (p_jobs p)(a := None)\<rparr>)"
    using own by (simp add: own_inv_def)
qed

lemma data_invD:
  assumes "data_inv config p"
  shows "\<And>a j. p_jobs p a = Some j \<Longrightarrow> job_is_valid j = Some True \<and> unat (job_id j) < unat (jobs config)"
    and "\<And>a c. pending (p_main p) = Some (a, c) \<Longrightarrow> id_at p a = unat (p_index p) \<and> c = job_checksum (job_at p a)"
    and "unat (p_index p) \<le> unat (jobs config)" "p_produced p = p_index p" "length (p_seen p) = unat (jobs config)"
    and "inj_on (id_at p) (flight p)" "\<And>a. a \<in> flight p \<Longrightarrow> id_at p a < unat (p_index p)"
    and "\<And>k. k < unat (jobs config) \<Longrightarrow> p_seen p ! k = (if k < unat (p_index p) \<and> k \<notin> id_at p ` flight p then 1 else 0)"
    and "\<And>w. w \<in> set (p_workers p) \<Longrightarrow> duplicate_jobs (w_result w) = 0 \<and> invalid_jobs (w_result w) = 0"
    and "(\<Sum>w\<leftarrow>p_workers p. consumed (w_result w)) + word_of_nat (card (flight p)) = p_index p"
    and "(\<Sum>w\<leftarrow>p_workers p. result_checksum (w_result w)) + (\<Sum>a \<in> flight p. job_checksum (job_at p a)) = p_expected p"
  using assms unfolding data_inv_def by blast+

lemma data_invI:
  assumes "\<And>a j. p_jobs p a = Some j \<Longrightarrow> job_is_valid j = Some True \<and> unat (job_id j) < unat (jobs config)"
    and "\<And>a c. pending (p_main p) = Some (a, c) \<Longrightarrow> id_at p a = unat (p_index p) \<and> c = job_checksum (job_at p a)"
    and "unat (p_index p) \<le> unat (jobs config)" "p_produced p = p_index p" "length (p_seen p) = unat (jobs config)"
    and "inj_on (id_at p) (flight p)" "\<And>a. a \<in> flight p \<Longrightarrow> id_at p a < unat (p_index p)"
    and "\<And>k. k < unat (jobs config) \<Longrightarrow> p_seen p ! k = (if k < unat (p_index p) \<and> k \<notin> id_at p ` flight p then 1 else 0)"
    and "\<And>w. w \<in> set (p_workers p) \<Longrightarrow> duplicate_jobs (w_result w) = 0 \<and> invalid_jobs (w_result w) = 0"
    and "(\<Sum>w\<leftarrow>p_workers p. consumed (w_result w)) + word_of_nat (card (flight p)) = p_index p"
    and "(\<Sum>w\<leftarrow>p_workers p. result_checksum (w_result w)) + (\<Sum>a \<in> flight p. job_checksum (job_at p a)) = p_expected p"
  shows "data_inv config p"
  using assms unfolding data_inv_def by blast

text \<open>The state after a worker has processed the job at \<open>a\<close>.\<close>

definition processed :: "addr \<Rightarrow> nat \<Rightarrow> pool \<Rightarrow> pool" where
  "processed a w p = (let th = p_workers p ! w; r = w_result th; j = job_at p a in
     p\<lparr>p_seen := (p_seen p)[unat (job_id j) := 1],
       p_workers := (p_workers p)[w := th\<lparr>w_pc := W_Pop, w_result := r\<lparr>result_checksum := result_checksum r + job_checksum j,
         consumed := consumed r + 1\<rparr>\<rparr>],
       p_jobs := (p_jobs p)(a := None)\<rparr>)"

lemma worker_process_eq:
  assumes own: "own_inv p" and data: "data_inv config p" and w: "w < length (p_workers p)" "w_pc (p_workers p ! w) = W_Have a"
  shows "worker_process config a w p = Some (processed a w p)"
proof -
  note D = data_invD [OF data] and fl = process_own [OF own w]
  from fl(2) obtain j where j: "p_jobs p a = Some j" by blast
  then have ja: "job_at p a = j" and ida: "id_at p a = unat (job_id j)" by (simp_all add: job_at_def id_at_def)
  have v: "job_is_valid j = Some True" and lt: "unat (job_id j) < unat (jobs config)" using D(1) [OF j] by auto
  have nge: "\<not> job_id j \<ge> jobs config" using lt by (simp add: size_t_le_iff)
  have "unat (job_id j) \<in> id_at p ` flight p" using fl(1) ida by (metis imageI)
  then have "p_seen p ! unat (job_id j) = 0" using D(8) [OF lt] by simp
  moreover have "unat (job_id j) < length (p_seen p)" using lt D(5) by simp
  ultimately show ?thesis using j v nge by (simp add: worker_process_def processed_def ja Let_def deallocate_def)
qed

lemma process_data:
  assumes own: "own_inv p" and data: "data_inv config p" and w: "w < length (p_workers p)" "w_pc (p_workers p ! w) = W_Have a"
  shows "data_inv config (processed a w p)"
proof -
  note D = data_invD [OF data] and fl = process_own [OF own w]
  let ?th = "p_workers p ! w" and ?j = "job_at p a" and ?p = "processed a w p"
  have fin: "finite (flight p)" using own by (simp add: own_inv_def flight_def)
  have F: "flight ?p = flight p - {a}" by (auto simp: flight_def processed_def Let_def)
  have at: "job_at ?p b = job_at p b" "id_at ?p b = id_at p b" if "b \<noteq> a" for b
    using that by (simp_all add: job_at_def id_at_def processed_def Let_def)
  have img: "id_at ?p ` flight ?p = id_at p ` flight p - {id_at p a}"
  proof -
    have "id_at ?p ` flight ?p = id_at p ` (flight p - {a})" unfolding F using at(2) by (intro image_cong) auto
    also have "\<dots> = id_at p ` flight p - id_at p ` {a}" using fl(1) by (intro inj_on_image_set_diff [OF D(6)]) auto
    finally show ?thesis by simp
  qed
  have inj: "inj_on (id_at ?p) (flight ?p)"
    using D(6) at(2) unfolding F by (auto simp: inj_on_def)
  have seen: "p_seen ?p ! k = (if k < unat (p_index p) \<and> k \<notin> id_at ?p ` flight ?p then 1 else 0)" if k: "k < unat (jobs config)" for k
  proof (cases "k = id_at p a")
    case True
    then have "p_seen ?p ! k = 1" using k D(5) by (simp add: processed_def Let_def id_at_def)
    then show ?thesis using True D(7) [OF fl(1)] by (simp add: img)
  next
    case False
    then have "p_seen ?p ! k = p_seen p ! k" by (simp add: processed_def Let_def id_at_def)
    then show ?thesis using D(8) [OF k] False by (simp add: img)
  qed
  have ws: "p_workers ?p = (p_workers p)[w := ?th\<lparr>w_pc := W_Pop, w_result := (w_result ?th)\<lparr>
      result_checksum := result_checksum (w_result ?th) + job_checksum ?j, consumed := consumed (w_result ?th) + 1\<rparr>\<rparr>]"
    by (simp add: processed_def Let_def)
  have res: "duplicate_jobs (w_result x) = 0 \<and> invalid_jobs (w_result x) = 0" if "x \<in> set (p_workers ?p)" for x
    using that D(9) w(1) unfolding ws by (auto dest!: set_update_subset_insert [THEN subsetD])
  have c: "(\<Sum>x\<leftarrow>p_workers ?p. consumed (w_result x)) = (\<Sum>x\<leftarrow>p_workers p. consumed (w_result x)) + 1"
    unfolding ws by (subst sum_update_add [OF w(1)]) simp
  have ck: "(\<Sum>x\<leftarrow>p_workers ?p. result_checksum (w_result x)) = (\<Sum>x\<leftarrow>p_workers p. result_checksum (w_result x)) + job_checksum ?j"
    unfolding ws by (subst sum_update_add [OF w(1)]) simp
  have card: "card (flight p) = Suc (card (flight ?p))" unfolding F by (rule card.remove [OF fin fl(1)])
  have sum: "(\<Sum>b \<in> flight p. job_checksum (job_at p b)) = job_checksum ?j + (\<Sum>b \<in> flight ?p. job_checksum (job_at ?p b))"
  proof -
    have "(\<Sum>b \<in> flight p - {a}. job_checksum (job_at p b)) = (\<Sum>b \<in> flight ?p. job_checksum (job_at ?p b))"
      unfolding F using at(1) by (intro sum.cong) auto
    then show ?thesis using sum.remove [OF fin fl(1), of "\<lambda>b. job_checksum (job_at p b)"] by simp
  qed
  have e: "p_index ?p = p_index p" "p_produced ?p = p_produced p" "p_expected ?p = p_expected p" "p_main ?p = p_main p"
    "length (p_seen ?p) = length (p_seen p)" "p_jobs ?p = (p_jobs p)(a := None)" by (simp_all add: processed_def Let_def)
  show ?thesis
  proof (rule data_invI)
    fix b j assume "p_jobs ?p b = Some j"
    then show "job_is_valid j = Some True \<and> unat (job_id j) < unat (jobs config)"
      using D(1) [of b j] unfolding e by (simp split: if_splits)
  next
    fix b k assume b: "pending (p_main ?p) = Some (b, k)"
    then have "b \<noteq> a" using fl(1) unfolding e by (auto simp: flight_def main_job_def)
    then show "id_at ?p b = unat (p_index ?p) \<and> k = job_checksum (job_at ?p b)" using D(2) b at unfolding e by simp
  next
    fix b assume "b \<in> flight ?p"
    then have "b \<in> flight p" "b \<noteq> a" unfolding F by simp_all
    then show "id_at ?p b < unat (p_index ?p)" using D(7) at(2) unfolding e by simp
  next
    show "(\<Sum>x\<leftarrow>p_workers ?p. consumed (w_result x)) + word_of_nat (card (flight ?p)) = p_index ?p"
      using D(10) card unfolding e c by (simp add: algebra_simps)
    show "(\<Sum>x\<leftarrow>p_workers ?p. result_checksum (w_result x)) + (\<Sum>b \<in> flight ?p. job_checksum (job_at ?p b)) = p_expected ?p"
      using D(11) unfolding e ck sum by (simp add: algebra_simps)
  next
    fix k assume "k < unat (jobs config)"
    from seen [OF this] show "p_seen ?p ! k = (if k < unat (p_index ?p) \<and> k \<notin> id_at ?p ` flight ?p then 1 else 0)"
      unfolding e .
  qed (use inj res D(3-5) e in simp_all)
qed

lemma own_same:
  assumes "own_inv p" and "p_queue p' = p_queue p" "p_jobs p' = p_jobs p" "pending (p_main p') = pending (p_main p)"
    and "map (\<lambda>w. pc_job (w_pc w)) (p_workers p') = map (\<lambda>w. pc_job (w_pc w)) (p_workers p)"
  shows "own_inv p'"
proof -
  have "map (mset \<circ> (\<lambda>w. pc_job (w_pc w))) (p_workers p') = map (mset \<circ> (\<lambda>w. pc_job (w_pc w))) (p_workers p)"
    using assms(5) by (metis map_map)
  then show ?thesis using assms(1-4) by (simp add: own_inv_def main_job_def comp_def)
qed

text \<open>Nothing changed for the jobs that were pushed.\<close>

lemma data_frame:
  assumes data: "data_inv config p" and F: "flight p' = flight p" "\<And>b. b \<in> flight p \<Longrightarrow> p_jobs p' b = p_jobs p b"
    and e: "p_index p' = p_index p" "p_produced p' = p_produced p" "p_expected p' = p_expected p" "p_seen p' = p_seen p"
      "p_workers p' = p_workers p"
    and j: "\<And>b j. p_jobs p' b = Some j \<Longrightarrow> job_is_valid j = Some True \<and> unat (job_id j) < unat (jobs config)"
    and m: "\<And>b c. pending (p_main p') = Some (b, c) \<Longrightarrow> id_at p' b = unat (p_index p) \<and> c = job_checksum (job_at p' b)"
  shows "data_inv config p'"
proof -
  note D = data_invD [OF data]
  have at: "job_at p' b = job_at p b" "id_at p' b = id_at p b" if "b \<in> flight p" for b
    using F(2) [OF that] by (simp_all add: job_at_def id_at_def)
  have img: "id_at p' ` flight p' = id_at p ` flight p" unfolding F using at(2) by (intro image_cong) auto
  have sum: "(\<Sum>b \<in> flight p'. job_checksum (job_at p' b)) = (\<Sum>b \<in> flight p. job_checksum (job_at p b))"
    unfolding F using at(1) by (intro sum.cong) auto
  show ?thesis
  proof (rule data_invI)
    show "inj_on (id_at p') (flight p')" using D(6) at(2) unfolding F by (auto simp: inj_on_def)
    show "id_at p' b < unat (p_index p')" if "b \<in> flight p'" for b using that D(7) [of b] at(2) [of b] unfolding F e by simp
    show "(\<Sum>x\<leftarrow>p_workers p'. result_checksum (w_result x)) + (\<Sum>b \<in> flight p'. job_checksum (job_at p' b)) = p_expected p'"
      using D(11) unfolding e sum .
    show "(\<Sum>x\<leftarrow>p_workers p'. consumed (w_result x)) + word_of_nat (card (flight p')) = p_index p'"
      using D(10) unfolding F e .
    show "p_seen p' ! k = (if k < unat (p_index p') \<and> k \<notin> id_at p' ` flight p' then 1 else 0)" if "k < unat (jobs config)" for k
      using D(8) [OF that] unfolding img e .
    show "id_at p' b = unat (p_index p') \<and> c = job_checksum (job_at p' b)" if "pending (p_main p') = Some (b, c)" for b c
      using m [OF that] unfolding e .
  qed (use j D(3-5,9) e in simp_all)
qed

text \<open>The size check of \<open>main\<close> never fails: payloads are small.\<close>

lemma main_produce_cases:
  obtains (last) "\<not> p_index p < jobs config" "main_produce config a raw p = Some (p\<lparr>p_main := M_Close\<rparr>)"
  | (failed) "p_index p < jobs config" "fail_allocation_at config = p_attempts p + 1 \<or> a = NULL"
      "main_produce config a raw p =
        Some (p\<lparr>p_attempts := p_attempts p + 1, p_status := RUN_ALLOCATION_FAILURE, p_main := M_Close\<rparr>)"
  | (made) "p_index p < jobs config" "fail_allocation_at config \<noteq> p_attempts p + 1" "a \<noteq> NULL"
      "main_produce config a raw p = map_option (\<lambda>j. p\<lparr>p_attempts := p_attempts p + 1, p_jobs := (p_jobs p)(a \<mapsto> j),
         p_main := M_Push a (job_checksum j)\<rparr>) (fill_job (seed config) (p_index p) raw)"
proof -
  have small: "\<not> payload_size_for (seed config) (p_index p) > SIZE_MAX - sizeof_job"
    using payload_size_bounds [of "seed config" "p_index p"]
    by (simp add: size_t_less_iff sizeof_job_def unat_SIZE_MAX_minus)
  show thesis
  proof (cases "p_index p < jobs config")
    case False
    then show ?thesis by (intro that(1)) (simp_all add: main_produce_def)
  next
    case lt: True
    show ?thesis
    proof (cases "fail_allocation_at config = p_attempts p + 1 \<or> a = NULL")
      case True
      then show ?thesis using lt small by (intro that(2)) (auto simp: main_produce_def Let_def)
    next
      case False
      then show ?thesis using lt small
        by (intro that(3)) (auto simp: main_produce_def Let_def bind_map_option split: option.splits bind_splits)
    qed
  qed
qed

lemma produce_ends:
  assumes own: "own_inv p" and data: "data_inv config p" and m: "p_main p = M_Produce"
  shows "own_inv (p\<lparr>p_attempts := n, p_status := st, p_main := M_Close\<rparr>)"
    and "data_inv config (p\<lparr>p_attempts := n, p_status := st, p_main := M_Close\<rparr>)"
proof -
  show "own_inv (p\<lparr>p_attempts := n, p_status := st, p_main := M_Close\<rparr>)" by (rule own_same [OF own]) (simp_all add: m)
  show "data_inv config (p\<lparr>p_attempts := n, p_status := st, p_main := M_Close\<rparr>)"
    by (rule woken_data [OF _ data]) (simp add: woken_only_def m)
qed

lemma produce_keeps:
  assumes own: "own_inv p" and data: "data_inv config p" and m: "p_main p = M_Produce"
    and a: "a = NULL \<or> p_jobs p a = None \<and> length raw = unat (payload_size_for (seed config) (p_index p))"
  shows "\<exists>p'. main_produce config a raw p = Some p' \<and> own_inv p' \<and> data_inv config p'"
proof -
  note ends = produce_ends [OF own data m]
  show ?thesis
  proof (cases rule: main_produce_cases [of p config a raw])
    case last
    with ends [where n = "p_attempts p" and st = "p_status p"] show ?thesis by simp
  next
    case failed
    with ends show ?thesis by blast
  next
    case made
    with a have fresh: "p_jobs p a = None" and len: "length raw = unat (payload_size_for (seed config) (p_index p))" by auto
    from fill_job_spec [OF len] obtain j where j: "fill_job (seed config) (p_index p) raw = Some j" "job_id j = p_index p"
      "job_is_valid j = Some True" by blast
    let ?p = "p\<lparr>p_attempts := p_attempts p + 1, p_jobs := (p_jobs p)(a \<mapsto> j), p_main := M_Push a (job_checksum j)\<rparr>"
    have run: "main_produce config a raw p = Some ?p" using made(4) j(1) by simp
    have lt: "unat (p_index p) < unat (jobs config)" using made(1) by (simp add: size_t_less_iff)
    have "mset_set (insert a (dom (p_jobs p))) = mset_set (dom (p_jobs p)) + {#a#}"
      using own fresh by (simp add: own_inv_def domIff)
    then have "own_inv ?p" using own m by (simp add: own_inv_def main_job_def)
    moreover have "data_inv config ?p"
    proof (rule data_frame [OF data])
      show "flight ?p = flight p" using fresh m by (auto simp: flight_def main_job_def)
      show "p_jobs ?p b = p_jobs p b" if "b \<in> flight p" for b using that fresh by (auto simp: flight_def)
      show "job_is_valid i = Some True \<and> unat (job_id i) < unat (jobs config)" if "p_jobs ?p b = Some i" for b i
        using that data_invD(1) [OF data, of b i] j(2,3) lt by (auto split: if_splits)
      show "id_at ?p b = unat (p_index p) \<and> c = job_checksum (job_at ?p b)" if "pending (p_main ?p) = Some (b, c)" for b c
        using that j(2) by (auto simp: job_at_def id_at_def)
    qed simp_all
    ultimately show ?thesis using run by blast
  qed
qed

text \<open>Giving up the pending job.\<close>

lemma own_pending:
  assumes own: "own_inv p" and m: "pending (p_main p) = Some (a, c)"
  shows "a \<in> dom (p_jobs p)" and "a \<notin># mset (q_list (p_queue p)) + (\<Sum>w\<leftarrow>p_workers p. mset (pc_job (w_pc w)))"
    and "mset (q_list (p_queue p)) + (\<Sum>w\<leftarrow>p_workers p. mset (pc_job (w_pc w))) = mset_set (dom (p_jobs p) - {a})"
    and "finite (dom (p_jobs p))"
proof -
  show fin: "finite (dom (p_jobs p))" using own by (simp add: own_inv_def)
  have ms: "mset (q_list (p_queue p)) + (\<Sum>w\<leftarrow>p_workers p. mset (pc_job (w_pc w))) + {#a#} = mset_set (dom (p_jobs p))"
    using own m by (simp add: own_inv_def main_job_def)
  have "a \<in># mset_set (dom (p_jobs p))" unfolding ms [symmetric] by simp
  then show a: "a \<in> dom (p_jobs p)" using fin by simp
  show "a \<notin># mset (q_list (p_queue p)) + (\<Sum>w\<leftarrow>p_workers p. mset (pc_job (w_pc w)))"
    using own_flight [OF own, of a] m by (auto simp: flight_def main_job_def)
  have "mset_set (dom (p_jobs p)) = mset_set (dom (p_jobs p) - {a}) + {#a#}" using mset_set.remove [OF fin a] by simp
  then show "mset (q_list (p_queue p)) + (\<Sum>w\<leftarrow>p_workers p. mset (pc_job (w_pc w))) = mset_set (dom (p_jobs p) - {a})"
    unfolding ms [symmetric] by (simp only: add_right_cancel)
qed

lemma drop_pending:
  assumes own: "own_inv p" and data: "data_inv config p" and m: "pending (p_main p) = Some (a, c)"
  shows "\<exists>p1. deallocate a p = Some p1 \<and> own_inv (p1\<lparr>p_status := st, p_main := M_Close\<rparr>) \<and>
    data_inv config (p1\<lparr>p_status := st, p_main := M_Close\<rparr>)"
proof -
  note O = own_pending [OF own m]
  let ?p = "p\<lparr>p_jobs := (p_jobs p)(a := None), p_status := st, p_main := M_Close\<rparr>"
  have "own_inv ?p" using own O(3,4) by (simp add: own_inv_def main_job_def)
  moreover have "data_inv config ?p"
  proof (rule data_frame [OF data])
    show "flight ?p = flight p" using m by (auto simp: flight_def main_job_def)
    show "p_jobs ?p b = p_jobs p b" if "b \<in> flight p" for b using that m by (auto simp: flight_def main_job_def)
    show "job_is_valid i = Some True \<and> unat (job_id i) < unat (jobs config)" if "p_jobs ?p b = Some i" for b i
      using that data_invD(1) [OF data, of b i] by (auto split: if_splits)
  qed simp_all
  moreover have "deallocate a p = Some (p\<lparr>p_jobs := (p_jobs p)(a := None)\<rparr>)" using O(1) by (auto simp: deallocate_def)
  ultimately show ?thesis by simp
qed

text \<open>The state after a push: the pending job is in flight.\<close>

definition pushed :: "job_queue \<Rightarrow> uint64 \<Rightarrow> pool \<Rightarrow> pool" where
  "pushed q c p = p\<lparr>p_queue := q, p_main := M_Produce, p_index := p_index p + 1, p_expected := p_expected p + c,
     p_produced := p_produced p + 1\<rparr>"

lemma pushed_own:
  assumes own: "own_inv p" and m: "pending (p_main p) = Some (a, c)" and q: "queue_ok q" "q_list q = q_list (p_queue p) @ [a]"
  shows "own_inv (pushed q c p)"
  using own m q by (simp add: own_inv_def pushed_def main_job_def)

lemma pushed_data:
  assumes own: "own_inv p" and data: "data_inv config p" and m: "pending (p_main p) = Some (a, c)"
  shows "data_inv config (pushed q c p)"
proof -
  note D = data_invD [OF data] and O = own_pending [OF own m] and M = data_invD(2) [OF data m]
  let ?p = "pushed q c p"
  have F: "flight ?p = insert a (flight p)" and na: "a \<notin> flight p"
    using O(1) m by (auto simp: flight_def main_job_def pushed_def)
  have at: "job_at ?p = job_at p" "id_at ?p = id_at p" by (simp_all add: job_at_def [abs_def] id_at_def [abs_def] pushed_def)
  have fin: "finite (flight p)" using O(4) by (simp add: flight_def)
  have lt: "unat (p_index p) < unat (jobs config)"
    using M D(1) [of a "job_at p a"] O(1) by (auto simp: id_at_def job_at_def)
  have "unat (p_index p) + unat (1 :: size_t) < SIZE_BOUND"
    using lt unat_lt_2p64 [of "jobs config"] unfolding unat_1 by linarith
  from unat_add_noverflow [OF this] have u: "unat (p_index p + 1) = unat (p_index p) + 1" by simp
  have e: "p_index ?p = p_index p + 1" "p_produced ?p = p_produced p + 1" "p_expected ?p = p_expected p + c" "p_seen ?p = p_seen p"
    "p_workers ?p = p_workers p" "p_jobs ?p = p_jobs p" "pending (p_main ?p) = None" by (simp_all add: pushed_def)
  have bound: "id_at p b < unat (p_index p) + 1" if "b \<in> insert a (flight p)" for b
    using that M D(7) [of b] by (auto simp: less_Suc_eq)
  show ?thesis
  proof (rule data_invI)
    show "inj_on (id_at ?p) (flight ?p)"
      using D(6) M D(7) na unfolding F at by (fastforce simp: inj_on_def)
    show "id_at ?p b < unat (p_index ?p)" if "b \<in> flight ?p" for b using that bound unfolding F at e u by blast
    show "p_seen ?p ! k = (if k < unat (p_index ?p) \<and> k \<notin> id_at ?p ` flight ?p then 1 else 0)" if "k < unat (jobs config)" for k
      using D(8) [OF that] M unfolding F at e u by (auto simp: less_Suc_eq)
    show "(\<Sum>x\<leftarrow>p_workers ?p. consumed (w_result x)) + word_of_nat (card (flight ?p)) = p_index ?p"
      using D(10) na fin unfolding F e by (simp add: algebra_simps)
    show "(\<Sum>x\<leftarrow>p_workers ?p. result_checksum (w_result x)) + (\<Sum>b \<in> flight ?p. job_checksum (job_at ?p b)) = p_expected ?p"
      using D(11) na fin M unfolding F at e by (simp add: algebra_simps)
  qed (use D(1,4,5,9) e u lt in simp_all)
qed

lemma wake_own: "own_inv p \<Longrightarrow> own_inv (p\<lparr>p_workers := (p_workers p)[w := wake_worker (p_workers p ! w)]\<rparr>)"
  by (erule own_same; cases "w < length (p_workers p)")
    (simp_all add: map_update list_update_same_conv list_update_beyond)

lemma signal_own: "own_inv p \<Longrightarrow> own_inv (signal_not_empty woken p)"
  by (cases woken) (simp_all add: signal_not_empty_def wake_own)

lemma main_push_cases:
  assumes ok: "queue_ok (p_queue p)" and a: "p_jobs p a \<noteq> None"
  obtains (dropped) "e \<noteq> 0 \<or> q_closed (p_queue p)"
      "main_push e woken a c p = Some (p\<lparr>p_jobs := (p_jobs p)(a := None), p_status := RUN_INTERNAL_ERROR, p_main := M_Close\<rparr>)"
  | (waits) "e = 0" "\<not> q_closed (p_queue p)" "q_count (p_queue p) = q_capacity (p_queue p)"
      "main_push e woken a c p = Some (p\<lparr>p_main := M_Wait a c\<rparr>)"
  | (pushed) q where "e = 0" "\<not> q_closed (p_queue p)" "q_count (p_queue p) \<noteq> q_capacity (p_queue p)" "queue_ok q"
      "q_list q = q_list (p_queue p) @ [a]" "\<not> q_closed q" "q_capacity q = q_capacity (p_queue p)"
      "main_push e woken a c p = Some (signal_not_empty woken (pushed q c p))"
proof -
  have d: "deallocate a p = Some (p\<lparr>p_jobs := (p_jobs p)(a := None)\<rparr>)" using a by (auto simp: deallocate_def)
  have same: "p\<lparr>p_queue := p_queue p\<rparr> = p" by simp
  consider "e \<noteq> 0" | "e = 0" "q_closed (p_queue p)" | "e = 0" "\<not> q_closed (p_queue p)" "q_count (p_queue p) = q_capacity (p_queue p)"
    | "e = 0" "\<not> q_closed (p_queue p)" "q_count (p_queue p) \<noteq> q_capacity (p_queue p)" by blast
  then show ?thesis
  proof cases
    case 1
    with d show ?thesis by (intro that(1)) (simp_all add: main_push_def)
  next
    case 2
    with d push_pass(1) [OF ok] show ?thesis by (intro that(1)) (simp_all add: main_push_def Let_def)
  next
    case 3
    with push_pass(2) [OF ok] show ?thesis by (intro that(2)) (simp_all add: main_push_def Let_def)
  next
    case 4
    from push_pass(3) [OF ok 4(2,3), of a] obtain q where "queue_push_pass a (p_queue p) = Some (Returns 1, q)" "queue_ok q"
      "q_list q = q_list (p_queue p) @ [a]" "q_closed q = q_closed (p_queue p)" "q_capacity q = q_capacity (p_queue p)" by blast
    with 4 show ?thesis by (intro that(3) [of q]) (simp_all add: main_push_def Let_def pushed_def)
  qed
qed

lemma push_keeps:
  assumes own: "own_inv p" and data: "data_inv config p" and m: "pending (p_main p) = Some (a, c)"
  shows "\<exists>p'. main_push e woken a c p = Some p' \<and> own_inv p' \<and> data_inv config p'"
proof -
  have ok: "queue_ok (p_queue p)" using own by (simp add: own_inv_def)
  have a: "p_jobs p a \<noteq> None" using own_pending(1) [OF own m] by auto
  from ok a show ?thesis
  proof (cases rule: main_push_cases [where e = e and woken = woken and c = c])
    case dropped
    moreover have "deallocate a p = Some (p\<lparr>p_jobs := (p_jobs p)(a := None)\<rparr>)" using a by (auto simp: deallocate_def)
    ultimately show ?thesis using drop_pending [OF own data m, of RUN_INTERNAL_ERROR] by auto
  next
    case waits
    have "woken_only p (p\<lparr>p_main := M_Wait a c\<rparr>)" using m by (simp add: woken_only_def)
    moreover have "own_inv (p\<lparr>p_main := M_Wait a c\<rparr>)" by (rule own_same [OF own]) (simp_all add: m)
    ultimately show ?thesis using waits woken_data [OF _ data] by simp
  next
    case (pushed q)
    have "own_inv (signal_not_empty woken (pushed q c p))" by (rule signal_own [OF pushed_own [OF own m pushed(4,5)]])
    moreover have "woken_only (pushed q c p) (signal_not_empty woken (pushed q c p))"
      by (cases woken) (simp_all add: signal_not_empty_def woken_only_update, simp add: woken_only_def)
    ultimately show ?thesis using pushed(8) woken_data pushed_data [OF own data m] by blast
  qed
qed

lemma created_keeps:
  assumes own: "own_inv p" and data: "data_inv config p" and m: "pending (p_main p) = None" and i: "p_index p = 0"
  shows "own_inv (main_created (p\<lparr>p_status := st\<rparr>)) \<and> data_inv config (main_created (p\<lparr>p_status := st\<rparr>))"
proof -
  have w: "woken_only p (main_created (p\<lparr>p_status := st\<rparr>))" using m i by (simp add: woken_only_def main_created_def)
  have "own_inv (main_created (p\<lparr>p_status := st\<rparr>))" by (rule own_same [OF own]) (simp_all add: main_created_def m)
  with woken_data [OF w data] show ?thesis by blast
qed

lemma create_keeps:
  assumes own: "own_inv p" and data: "data_inv config p" and m: "p_main p = M_Create i" and z: "p_index p = 0"
  shows "own_inv (main_create config e i p) \<and> data_inv config (main_create config e i p)"
proof -
  let ?p = "p\<lparr>p_workers := p_workers p @ [new_worker], p_main := M_Create (i + 1)\<rparr>"
  have fl: "flight ?p = flight p" "job_at ?p = job_at p" "id_at ?p = id_at p"
    using m by (simp_all add: flight_def main_job_def job_at_def [abs_def] id_at_def [abs_def])
  have "own_inv ?p" using own m by (simp add: own_inv_def main_job_def new_worker_def)
  moreover have "data_inv config ?p"
    using data m unfolding data_inv_def fl by (simp add: new_worker_def)
  moreover have "pending (p_main p) = None" using m by simp
  note created_keeps [OF own data this z, of RUN_THREAD_FAILURE] created_keeps [OF own data this z, of "p_status p"]
  ultimately show ?thesis by (simp add: main_create_def)
qed

lemma close_keeps:
  assumes own: "own_inv p" and data: "data_inv config p" and m: "pending (p_main p) = None"
  shows "own_inv (main_close e b1 b2 u p) \<and> data_inv config (main_close e b1 b2 u p)"
proof -
  obtain ok p1 where c: "close_queue e b1 b2 u p = (ok, p1)" by (cases "close_queue e b1 b2 u p")
  have p1: "own_inv p1" "woken_only p p1"
    using close_queue_own [OF own, of e b1 b2 u] close_queue_woken [of p e b1 b2 u] c by simp_all
  then have m1: "pending (p_main p1) = None" using m by (simp add: woken_only_def)
  obtain st where st: "main_close e b1 b2 u p = p1\<lparr>p_status := st, p_main := M_Join 0\<rparr>"
  proof (cases "\<not> ok \<and> p_status p1 = RUN_OK")
    case True
    then show ?thesis using that [of RUN_INTERNAL_ERROR] c by (simp add: main_close_def)
  next
    case False
    then have "main_close e b1 b2 u p = p1\<lparr>p_main := M_Join 0\<rparr>" using c by (auto simp: main_close_def)
    then show ?thesis using that [of "p_status p1"] by simp
  qed
  have "own_inv (p1\<lparr>p_status := st, p_main := M_Join 0\<rparr>)" by (rule own_same [OF p1(1)]) (simp_all add: m1)
  moreover have "woken_only p1 (p1\<lparr>p_status := st, p_main := M_Join 0\<rparr>)" using m1 by (simp add: woken_only_def)
  ultimately show ?thesis using st woken_data [OF woken_only_trans [OF p1(2)] data] by simp
qed

lemma join_keeps:
  assumes own: "own_inv p" and data: "data_inv config p" and m: "pending (p_main p) = None"
  shows "own_inv (main_join e i p) \<and> data_inv config (main_join e i p)"
proof -
  have w: "woken_only p (main_join e i p)" using m by (simp add: woken_only_def main_join_def Let_def)
  have "own_inv (main_join e i p)" by (rule own_same [OF own]) (simp_all add: main_join_def m Let_def)
  with woken_data [OF w data] show ?thesis by blast
qed

lemma pop_error_keeps:
  assumes own: "own_inv p" and data: "data_inv config p" and w: "w < length (p_workers p)" "pc_job (w_pc (p_workers p ! w)) = []"
    and e: "e \<noteq> 0"
  shows "\<exists>p'. worker_pop e s c b1 b2 u w p = Some p' \<and> own_inv p' \<and> data_inv config p'"
proof -
  obtain ok p1 where c: "close_queue c b1 b2 u p = (ok, p1)" by (cases "close_queue c b1 b2 u p")
  have p1: "own_inv p1" "woken_only p p1"
    using close_queue_own [OF own, of c b1 b2 u] close_queue_woken [of p c b1 b2 u] c by simp_all
  let ?th = "p_workers p ! w"
  let ?p = "p1\<lparr>p_workers := (p_workers p1)[w := ?th\<lparr>w_pc := W_Done, w_result := (w_result ?th)\<lparr>queue_error := True\<rparr>\<rparr>]\<rparr>"
  have run: "worker_pop e s c b1 b2 u w p = Some ?p" using e c by (simp add: worker_pop_def Let_def)
  have rs: "map w_result (p_workers p1) = map w_result (p_workers p)" using p1(2) by (simp add: woken_only_def)
  then have l: "length (p_workers p1) = length (p_workers p)" by (rule map_eq_imp_length_eq)
  have r: "w_result (p_workers p1 ! w) = w_result ?th" using arg_cong [OF rs, of "\<lambda>xs. xs ! w"] w(1) l by simp
  have j: "pc_job (w_pc (p_workers p1 ! w)) = []"
  proof -
    have "p_workers p1 ! w = ?th \<or> p_workers p1 ! w = wake_worker ?th"
      using c w(1) by (auto simp: close_queue_def broadcast_not_empty_def Let_def split: prod.splits if_splits)
    then show ?thesis using w(2) by auto
  qed
  have "own_inv ?p" by (rule own_same [OF p1(1)]) (use w(1) l j in \<open>simp_all add: map_update list_update_same_conv\<close>)
  moreover have "data_inv config ?p"
  proof -
    note D = woken_data [OF p1(2) data]
    have fl: "flight ?p = flight p1" "job_at ?p = job_at p1" "id_at ?p = id_at p1"
      by (simp_all add: flight_def job_at_def [abs_def] id_at_def [abs_def])
    have s: "(\<Sum>x\<leftarrow>p_workers ?p. g (w_result x)) = (\<Sum>x\<leftarrow>p_workers p1. g (w_result x))"
      if "g ((w_result ?th)\<lparr>queue_error := True\<rparr>) = g (w_result ?th)" for g :: "worker_result \<Rightarrow> uint64"
      using w(1) l r that sum_update_same [of w "p_workers p1" "\<lambda>x. g (w_result x)"] by simp
    have "duplicate_jobs (w_result x) = 0 \<and> invalid_jobs (w_result x) = 0" if "x \<in> set (p_workers ?p)" for x
      using that data_invD(9) [OF D] data_invD(9) [OF data] w(1) by (auto dest!: set_update_subset_insert [THEN subsetD])
    then have z: "\<And>x. x \<in> set (p_workers ?p) \<Longrightarrow> duplicate_jobs (w_result x) = 0 \<and> invalid_jobs (w_result x) = 0" .
    have e: "p_index ?p = p_index p1" "p_expected ?p = p_expected p1" by simp_all
    have s1: "(\<Sum>x\<leftarrow>p_workers ?p. consumed (w_result x)) + word_of_nat (card (flight ?p)) = p_index ?p"
      by (subst s) (simp, unfold fl e, rule data_invD(10) [OF D])
    have s2: "(\<Sum>x\<leftarrow>p_workers ?p. result_checksum (w_result x)) + (\<Sum>a \<in> flight ?p. job_checksum (job_at ?p a)) = p_expected ?p"
      by (subst s) (simp, unfold fl e, rule data_invD(11) [OF D])
    show ?thesis
      by (rule data_invI [OF _ _ _ _ _ _ _ _ z s1 s2]) (use data_invD(1-8) [OF D] in \<open>simp_all add: fl\<close>)
  qed
  ultimately show ?thesis using run by blast
qed

section \<open>Every run\<close>

definition sound :: "configuration \<Rightarrow> pool \<Rightarrow> bool" where
  "sound config p \<longleftrightarrow> own_inv p \<and> data_inv config p \<and> (\<forall>i. p_main p = M_Create i \<longrightarrow> p_index p = 0)"

lemma start_sound:
  assumes "queue_ok q" and "q_list q = []"
  shows "sound config (pool_start config q)"
proof -
  have "flight (pool_start config q) = {}" by (simp add: flight_def pool_start_def)
  then show ?thesis using assms by (simp add: sound_def own_inv_def data_inv_def pool_start_def main_job_def)
qed

text \<open>\<open>main\<close> never goes back to creating threads.\<close>

lemma create_only:
  assumes own: "own_inv p" and "enabled config e p" and "action config e p = Some p'" and "p_main p' = M_Create i'"
  shows "\<exists>i. p_main p = M_Create i \<and> p_index p' = p_index p"
proof -
  have d: "deallocate a x = Some y \<Longrightarrow> p_main y = p_main x \<and> p_index y = p_index x" for a x y
    by (auto simp: deallocate_def split: option.splits)
  have s: "p_main (signal_not_full x) = M_Create k \<longleftrightarrow> p_main x = M_Create k" for x k
    by (simp add: signal_not_full_def split: main_pc.splits)
  have n: "p_main (signal_not_empty w x) = p_main x" for w x by (simp add: signal_not_empty_def split: option.splits)
  have c: "close_queue a b1 b2 u x = (ok, y) \<Longrightarrow> (p_main y = M_Create k \<longleftrightarrow> p_main x = M_Create k) \<and> p_index y = p_index x"
    for a b1 b2 u x ok y k
    by (auto simp: close_queue_def broadcast_not_empty_def s Let_def split: prod.splits if_splits)
  from assms show ?thesis
  proof (cases e)
    case (Create x)
    with assms show ?thesis by (auto simp: main_create_def main_created_def split: main_pc.splits if_splits)
  next
    case (Produce a raw)
    with assms show ?thesis by (cases rule: main_produce_cases [of p config a raw]) auto
  next
    case (Push x y woken)
    with assms obtain a c where m: "pending (p_main p) = Some (a, c)" "main_push x woken a c p = Some p'"
      by (auto split: main_pc.splits)
    have "queue_ok (p_queue p)" "p_jobs p a \<noteq> None" using own own_pending(1) [OF own m(1)] by (auto simp: own_inv_def)
    then show ?thesis using m(2) assms(4)
      by (cases rule: main_push_cases [where e = x and woken = woken and c = c]) (auto simp: n pushed_def)
  next
    case (Close x b1 b2 u)
    with assms show ?thesis by (auto simp: main_close_def split: prod.splits)
  next
    case (Join x)
    with assms show ?thesis by (auto simp: main_join_def split: main_pc.splits if_splits)
  next
    case (Pop w x y k b1 b2 u)
    then have run: "worker_pop x y k b1 b2 u w p = Some p'" using assms(3) by simp
    have ok: "queue_ok (p_queue p)" using own by (simp add: own_inv_def)
    show ?thesis
    proof (cases "x = 0")
      case True
      from ok show ?thesis using run assms(4) True
        by (cases rule: worker_pop_cases [where s = y and c = k and ?b1.0 = b1 and ?b2.0 = b2 and u = u and w = w]) (auto simp: s split: if_splits)
    next
      case False
      then show ?thesis using run assms(4) by (auto simp: worker_pop_def Let_def dest: c split: prod.splits)
    qed
  next
    case (Process w)
    with assms show ?thesis
      by (auto simp: worker_process_def bind_eq_Some_conv Let_def dest!: d split: worker_pc.splits)
  next
    case (Wakeup w)
    with assms show ?thesis by auto
  next
    case Wakeup_Main
    with assms s show ?thesis by auto
  qed
qed

lemma event_sound:
  assumes snd: "sound config p" and en: "enabled config e p"
  shows "\<exists>p'. action config e p = Some p' \<and> sound config p'"
proof -
  have own: "own_inv p" and data: "data_inv config p" and z: "\<And>i. p_main p = M_Create i \<Longrightarrow> p_index p = 0"
    using snd by (simp_all add: sound_def)
  have "\<exists>p'. action config e p = Some p' \<and> own_inv p' \<and> data_inv config p'"
  proof (cases e)
    case (Create x)
    with en show ?thesis using create_keeps [OF own data _ z] by (auto split: main_pc.splits)
  next
    case (Produce a raw)
    with en produce_keeps [OF own data] show ?thesis by simp
  next
    case (Push x y woken)
    with en push_keeps [OF own data] show ?thesis by (auto split: main_pc.splits)
  next
    case (Close x b1 b2 u)
    with en close_keeps [OF own data] show ?thesis by simp
  next
    case (Join x)
    with en join_keeps [OF own data] show ?thesis by (auto split: main_pc.splits)
  next
    case (Pop w x y k b1 b2 u)
    with en have w: "w < length (p_workers p)" "pc_job (w_pc (p_workers p ! w)) = []" by auto
    show ?thesis
    proof (cases "x = 0")
      case True
      with pop_own [OF own w, of y k b1 b2 u] woken_data [OF _ data] Pop show ?thesis by auto
    next
      case False
      with pop_error_keeps [OF own data w] Pop show ?thesis by simp
    qed
  next
    case (Process w)
    with en obtain a where w: "w < length (p_workers p)" "w_pc (p_workers p ! w) = W_Have a" by (auto split: worker_pc.splits)
    let ?th = "p_workers p ! w"
    have "own_inv (processed a w p)" unfolding processed_def Let_def by (rule process_own(3) [OF own w]) simp
    with Process w worker_process_eq [OF own data w] process_data [OF own data w] show ?thesis by simp
  next
    case (Wakeup w)
    have "woken_only p (p\<lparr>p_workers := (p_workers p)[w := wake_worker (p_workers p ! w)]\<rparr>)" by (rule woken_only_update) simp
    with Wakeup wake_own [OF own] woken_data [OF _ data] show ?thesis by simp
  next
    case Wakeup_Main
    have "woken_only p (signal_not_full p)" by (simp add: woken_only_def)
    moreover have "own_inv (signal_not_full p)" by (rule own_same [OF own]) simp_all
    ultimately show ?thesis using Wakeup_Main woken_data [OF _ data] by simp
  qed
  then obtain p' where p': "action config e p = Some p'" "own_inv p'" "data_inv config p'" by blast
  then have "\<forall>i. p_main p' = M_Create i \<longrightarrow> p_index p' = 0" using create_only [OF own en p'(1)] z by metis
  with p' show ?thesis by (simp add: sound_def)
qed

lemma reach_sound:
  assumes "pool_reach config reliable start p" and "sound config start"
  shows "sound config p"
  using assms(1)
proof induction
  case initial
  show ?case by (rule assms(2))
next
  case (event p e p')
  with event_sound [of config p e] show ?case by auto
qed

end
