(* ===== verification/Worker_Control.thy ===== *)
theory Worker_Control
  imports Worker_Data
begin

text \<open>
  The control of the worker pool: where the threads can be.  One part holds in every run: the status
  that \<open>main\<close> reports and the workers it has joined.  The other holds when no lock, wait, signal,
  broadcast, unlock or join fails: no worker waits for a job that is in the queue, no one waits on a
  closed queue, and the workers end only when the queue is closed and empty.  So the program never
  blocks, and a measure bounds the number of its steps.
\<close>

section \<open>The steps, state by state\<close>

fun woken_main :: "main_pc \<Rightarrow> main_pc" where
  "woken_main (M_Wait a c) = M_Recheck a c"
| "woken_main m = m"

lemma signal_not_full_main [simp]: "p_main (signal_not_full p) = woken_main (p_main p)"
  by (simp add: signal_not_full_def split: main_pc.splits)

lemma event_cases:
  assumes snd: "sound config p" and en: "enabled config e p" and act: "action config e p = Some p'"
  obtains (create) i where "p_main p = M_Create i" "i < workers config" "\<not> spurious e"
      "p' = p\<lparr>p_workers := p_workers p @ [new_worker], p_main := M_Create (i + 1)\<rparr>"
  | (create_failed) i x where "p_main p = M_Create i" "\<not> spurious e" "i < workers config" "e = Create x"
      "fail_thread_at config = i + 1 \<or> x \<noteq> 0" "p' = main_created (p\<lparr>p_status := RUN_THREAD_FAILURE\<rparr>)"
  | (create_done) i where "p_main p = M_Create i" "\<not> i < workers config" "\<not> spurious e" "p' = main_created p"
  | (last) "p_main p = M_Produce" "\<not> p_index p < jobs config" "\<not> spurious e" "p' = p\<lparr>p_main := M_Close\<rparr>"
  | (failed) raw where "p_main p = M_Produce" "\<not> spurious e" "p_index p < jobs config"
      "fail_allocation_at config = p_attempts p + 1 \<or> e = Produce NULL raw"
      "p' = p\<lparr>p_attempts := p_attempts p + 1, p_status := RUN_ALLOCATION_FAILURE, p_main := M_Close\<rparr>"
  | (made) a c js where "p_main p = M_Produce" "\<not> spurious e" "p' = p\<lparr>p_attempts := p_attempts p + 1, p_jobs := js, p_main := M_Push a c\<rparr>"
  | (dropped) a c js where "p_main p = M_Push a c \<or> p_main p = M_Recheck a c" "\<not> no_error e \<or> q_closed (p_queue p)"
      "p' = p\<lparr>p_jobs := js, p_status := RUN_INTERNAL_ERROR, p_main := M_Close\<rparr>"
  | (full) a c where "p_main p = M_Push a c \<or> p_main p = M_Recheck a c" "\<not> spurious e" "\<not> q_closed (p_queue p)"
      "q_count (p_queue p) = q_capacity (p_queue p)" "p' = p\<lparr>p_main := M_Wait a c\<rparr>"
  | (pushed) a c q woken where "p_main p = M_Push a c \<or> p_main p = M_Recheck a c" "\<not> spurious e" "\<not> q_closed (p_queue p)"
      "queue_ok q" "q_list q = q_list (p_queue p) @ [a]" "\<not> q_closed q" "no_error e \<Longrightarrow> woken_ok woken p"
      "p' = signal_not_empty woken (pushed q c p)"
  | (close) l b1 b2 u where "p_main p = M_Close" "e = Close l b1 b2 u" "p' = main_close l b1 b2 u p"
  | (join) r i where "p_main p = M_Join i" "e = Join r" "p' = main_join r i p"
      "r = 0 \<Longrightarrow> i < length (p_workers p) \<Longrightarrow> w_pc (p_workers p ! i) = W_Done"
  | (pop_waits) w where "w < length (p_workers p)" "w_pc (p_workers p ! w) = W_Pop \<or> w_pc (p_workers p ! w) = W_Recheck"
      "\<not> spurious e" "q_list (p_queue p) = []" "\<not> q_closed (p_queue p)"
      "p' = p\<lparr>p_workers := (p_workers p)[w := (p_workers p ! w)\<lparr>w_pc := W_Wait\<rparr>]\<rparr>"
  | (pop_ends) w where "w < length (p_workers p)" "w_pc (p_workers p ! w) = W_Pop \<or> w_pc (p_workers p ! w) = W_Recheck"
      "\<not> spurious e" "q_list (p_queue p) = []" "q_closed (p_queue p)"
      "p' = p\<lparr>p_workers := (p_workers p)[w := (p_workers p ! w)\<lparr>w_pc := W_Done\<rparr>]\<rparr>"
  | (pop_takes) w s x q f where "w < length (p_workers p)" "w_pc (p_workers p ! w) = W_Pop \<or> w_pc (p_workers p ! w) = W_Recheck"
      "\<not> spurious e" "q_list (p_queue p) = x # q_list q" "q_closed q = q_closed (p_queue p)"
      "no_error e \<Longrightarrow> s = 0" "f = (if s = (0::int) then signal_not_full else id)"
      "p' = f (p\<lparr>p_queue := q, p_workers := (p_workers p)[w := (p_workers p ! w)\<lparr>w_pc := W_Have x\<rparr>]\<rparr>)"
  | (pop_failed) w x s k b1 b2 u where "w < length (p_workers p)" "w_pc (p_workers p ! w) \<noteq> W_Done" "\<not> no_error e"
      "worker_pop x s k b1 b2 u w p = Some p'" "x \<noteq> 0"
  | (process) w a where "w < length (p_workers p)" "w_pc (p_workers p ! w) = W_Have a" "\<not> spurious e" "p' = processed a w p"
  | (wakeup) w where "w < length (p_workers p)" "w_pc (p_workers p ! w) = W_Wait" "spurious e"
      "p' = p\<lparr>p_workers := (p_workers p)[w := wake_worker (p_workers p ! w)]\<rparr>"
  | (wakeup_main) "spurious e" "p' = signal_not_full p"
proof (cases e)
  case (Create x)
  with en obtain i where i: "p_main p = M_Create i" by (auto split: main_pc.splits)
  with act Create have p': "p' = main_create config x i p" by simp
  consider "i < workers config" "fail_thread_at config = i + 1 \<or> x \<noteq> 0" | "i < workers config" "\<not> (fail_thread_at config = i + 1 \<or> x \<noteq> 0)"
    | "\<not> i < workers config" by blast
  then show ?thesis
  proof cases
    case 1
    then show ?thesis using i p' Create by (intro that(2) [of i x]) (auto simp: main_create_def)
  next
    case 2
    then show ?thesis using i p' Create by (intro that(1) [of i]) (simp_all add: main_create_def)
  next
    case 3
    then show ?thesis using i p' Create by (intro that(3) [of i]) (simp_all add: main_create_def)
  qed
next
  case (Produce a raw)
  with en have m: "p_main p = M_Produce" by simp
  show ?thesis
  proof (cases rule: main_produce_cases [of p config a raw])
    case last
    then show ?thesis using act m Produce by (intro that(4)) simp_all
  next
    case failed
    then show ?thesis using act m Produce by (intro that(5) [of raw]) auto
  next
    case made
    with act Produce obtain j where "p' = p\<lparr>p_attempts := p_attempts p + 1, p_jobs := (p_jobs p)(a \<mapsto> j), p_main := M_Push a (job_checksum j)\<rparr>"
      by auto
    then show ?thesis using m Produce by (intro that(6)) simp_all
  qed
next
  case (Push x y woken)
  with en act obtain a c where m: "p_main p = M_Push a c \<or> p_main p = M_Recheck a c" and run: "main_push x woken a c p = Some p'"
    by (auto split: main_pc.splits)
  have own: "own_inv p" using snd by (simp add: sound_def)
  from m have "pending (p_main p) = Some (a, c)" by auto
  from own_pending(1) [OF own this] have "queue_ok (p_queue p)" "p_jobs p a \<noteq> None" using own by (auto simp: own_inv_def)
  then show ?thesis
  proof (cases rule: main_push_cases [where e = x and woken = woken and c = c])
    case dropped
    then show ?thesis using m run Push by (intro that(7) [OF m]) auto
  next
    case waits
    then show ?thesis using m run Push by (intro that(8) [OF m]) simp_all
  next
    case (pushed q)
    then show ?thesis using m run Push en by (intro that(9) [OF m, of q woken]) (simp_all split: if_splits)
  qed
next
  case (Close l b1 b2 u)
  then show ?thesis using en act by (intro that(10) [OF _ Close]) simp_all
next
  case (Join r)
  with en obtain i where "p_main p = M_Join i" by (auto split: main_pc.splits)
  then show ?thesis using en act Join by (intro that(11) [of i r]) auto
next
  case (Pop w x y k b1 b2 u)
  then have run: "worker_pop x y k b1 b2 u w p = Some p'" and w: "w < length (p_workers p)"
    "w_pc (p_workers p ! w) = W_Pop \<or> w_pc (p_workers p ! w) = W_Recheck" using act en by simp_all
  have ok: "queue_ok (p_queue p)" using snd by (simp add: sound_def own_inv_def)
  show ?thesis
  proof (cases "x = 0")
    case True
    from ok show ?thesis
    proof (cases rule: worker_pop_cases [where s = y and c = k and ?b1.0 = b1 and ?b2.0 = b2 and u = u and w = w])
      case waits
      then show ?thesis using run w True Pop by (intro that(12) [OF w]) simp_all
    next
      case ends
      then show ?thesis using run w True Pop by (intro that(13) [OF w]) simp_all
    next
      case (takes z q)
      then show ?thesis using run w True Pop by (intro that(14) [where s = y and x = z and q = q and f = "if y = 0 then signal_not_full else id", OF w]) simp_all
    qed
  next
    case False
    then show ?thesis using run w Pop by (intro that(15) [of w x y k b1 b2 u]) auto
  qed
next
  case (Process w)
  with en obtain a where w: "w < length (p_workers p)" "w_pc (p_workers p ! w) = W_Have a" by (auto split: worker_pc.splits)
  then show ?thesis using snd act Process worker_process_eq [of p config w a] by (intro that(16) [OF w]) (simp_all add: sound_def)
next
  case (Wakeup w)
  then show ?thesis using en act by (intro that(17) [of w]) simp_all
next
  case Wakeup_Main
  then show ?thesis using en act by (intro that(18)) simp_all
qed

section \<open>The main thread in every run\<close>

fun ending :: "main_pc \<Rightarrow> bool" where
  "ending M_Close \<longleftrightarrow> True"
| "ending (M_Join i) \<longleftrightarrow> True"
| "ending M_Report \<longleftrightarrow> True"
| "ending _ \<longleftrightarrow> False"

text \<open>How many of the \<open>n\<close> workers \<open>main\<close> has joined.\<close>

fun joined :: "main_pc \<Rightarrow> nat \<Rightarrow> nat" where
  "joined (M_Join i) n = i"
| "joined M_Report n = n"
| "joined _ n = 0"

definition phase_inv :: "configuration \<Rightarrow> pool \<Rightarrow> bool" where
  "phase_inv config p \<longleftrightarrow>
     (\<not> ending (p_main p) \<longrightarrow> p_status p = RUN_OK \<and> p_all_joined p) \<and>
     (ending (p_main p) \<and> p_status p = RUN_OK \<longrightarrow> p_index p = jobs config) \<and>
     (\<forall>i. p_main p = M_Create i \<longrightarrow> length (p_workers p) = unat i \<and> i \<le> workers config) \<and>
     (p_main p = M_Produce \<or> pending (p_main p) \<noteq> None \<longrightarrow> length (p_workers p) = unat (workers config)) \<and>
     (p_all_joined p \<longrightarrow> joined (p_main p) (length (p_workers p)) \<le> length (p_workers p) \<and>
        (\<forall>k < joined (p_main p) (length (p_workers p)). w_pc (p_workers p ! k) = W_Done)) \<and>
     (\<not> p_all_joined p \<longrightarrow> p_status p = RUN_INTERNAL_ERROR) \<and>
     length (p_workers p) \<le> unat (workers config)"

lemma start_phase: "phase_inv config (pool_start config q)"
  by (simp add: phase_inv_def pool_start_def)

lemma woken_main_simps [simp]:
  "ending (woken_main m) = ending m" "joined (woken_main m) n = joined m n" "pending (woken_main m) = pending m"
  "woken_main m = M_Create i \<longleftrightarrow> m = M_Create i" "woken_main m = M_Produce \<longleftrightarrow> m = M_Produce"
  "woken_main m \<noteq> M_Wait a c"
  by (cases m; simp)+

text \<open>A step of a worker, seen from \<open>main\<close>: at most \<open>main\<close> is woken, and a worker that has ended stays so.\<close>

definition worker_side :: "pool \<Rightarrow> pool \<Rightarrow> bool" where
  "worker_side p p' \<longleftrightarrow> length (p_workers p') = length (p_workers p) \<and>
     (\<forall>k < length (p_workers p). w_pc (p_workers p ! k) = W_Done \<longrightarrow> w_pc (p_workers p' ! k) = W_Done) \<and>
     p_status p' = p_status p \<and> p_index p' = p_index p \<and> p_all_joined p' = p_all_joined p \<and>
     (p_main p' = p_main p \<or> p_main p' = woken_main (p_main p))"

lemma worker_side_phase:
  assumes side: "worker_side p p'" and ph: "phase_inv config p"
  shows "phase_inv config p'"
proof -
  note w = side [unfolded worker_side_def]
  then have m: "ending (p_main p') = ending (p_main p)" "joined (p_main p') n = joined (p_main p) n"
    "pending (p_main p') = pending (p_main p)" "p_main p' = M_Create i \<longleftrightarrow> p_main p = M_Create i"
    "p_main p' = M_Produce \<longleftrightarrow> p_main p = M_Produce" for n i by (metis woken_main_simps)+
  from w have e: "length (p_workers p') = length (p_workers p)" "p_status p' = p_status p" "p_index p' = p_index p"
    "p_all_joined p' = p_all_joined p" by blast+
  have "w_pc (p_workers p' ! k) = W_Done" if "p_all_joined p" "k < joined (p_main p) (length (p_workers p))" for k
    using that w ph unfolding phase_inv_def by (metis order_less_le_trans)
  then show ?thesis using ph unfolding phase_inv_def m e by blast
qed

lemma nth_update: "k < length xs \<Longrightarrow> xs[w := x] ! k = (if k = w then x else xs ! k)"
  by (simp add: nth_list_update)

lemma worker_side_update:
  assumes "w_pc (p_workers p ! w) \<noteq> W_Done \<or> w_pc th = W_Done"
  shows "worker_side p (p\<lparr>p_workers := (p_workers p)[w := th]\<rparr>)"
  using assms by (auto simp: worker_side_def nth_update)

lemma worker_side_signal: "worker_side p p' \<Longrightarrow> p_main p' = p_main p \<Longrightarrow> worker_side p (signal_not_full p')"
  by (simp add: worker_side_def)

lemma close_queue_side: "worker_side p (snd (close_queue l b1 b2 u p))"
  by (simp add: worker_side_def close_queue_def broadcast_not_empty_def wake_worker_def Let_def split: prod.splits)

lemma size_t_Suc:
  assumes "i < (n :: size_t)"
  shows "unat (i + 1) = Suc (unat i)" and "i + 1 \<le> n"
proof -
  have lt: "unat i < unat n" using assms by (simp add: size_t_less_iff)
  have "unat i + unat (1 :: size_t) < SIZE_BOUND" using lt unat_lt_2p64 [of n] unfolding unat_1 by linarith
  from unat_add_noverflow [OF this] show u: "unat (i + 1) = Suc (unat i)" by simp
  show "i + 1 \<le> n" using lt u by (simp add: size_t_le_iff)
qed

lemma event_phase:
  assumes snd: "sound config p" and ph: "phase_inv config p" and ev: "enabled config e p" "action config e p = Some p'"
  shows "phase_inv config p'"
  using snd ev
proof (cases rule: event_cases)
  case (create i)
  moreover have "unat i < unat (workers config)" using create(2) by (simp add: size_t_less_iff)
  ultimately show ?thesis using ph size_t_Suc [OF create(2)] by (simp add: phase_inv_def)
next
  case (create_failed i x)
  then show ?thesis using ph by (simp add: phase_inv_def main_created_def)
next
  case (create_done i)
  then have "workers config = i" using ph by (simp add: phase_inv_def)
  then show ?thesis using ph create_done by (simp add: phase_inv_def main_created_def)
next
  case last
  have "p_index p = jobs config" using snd last(2) data_invD(3) [of config p] by (simp add: sound_def size_t_less_iff word_unat_eq_iff)
  then show ?thesis using ph last by (simp add: phase_inv_def)
next
  case (pushed a c q woken)
  have "length (p_workers p') = length (p_workers p)" "p_main p' = M_Produce" "p_status p' = p_status p" "p_all_joined p' = p_all_joined p"
    unfolding pushed(8) by (simp_all add: signal_not_empty_def pushed_def split: option.splits)
  then show ?thesis using ph pushed(1) by (auto simp: phase_inv_def)
next
  case (close l b1 b2 u)
  obtain ok p1 where c: "close_queue l b1 b2 u p = (ok, p1)" by (cases "close_queue l b1 b2 u p")
  have "p_status p1 = p_status p" "p_index p1 = p_index p" "p_all_joined p1 = p_all_joined p" "length (p_workers p1) = length (p_workers p)"
    using close_queue_side [of p l b1 b2 u] c by (simp_all add: worker_side_def)
  then show ?thesis using ph close c by (auto simp: phase_inv_def main_close_def)
next
  case (join r i)
  then show ?thesis using ph by (auto simp: phase_inv_def main_join_def Let_def less_Suc_eq)
next
  case (pop_takes w s x q f)
  have "worker_side p (p\<lparr>p_queue := q, p_workers := (p_workers p)[w := (p_workers p ! w)\<lparr>w_pc := W_Have x\<rparr>]\<rparr>)"
    using pop_takes(2) by (auto simp: worker_side_def nth_update)
  then have "worker_side p p'" unfolding pop_takes(7,8) by (simp add: worker_side_signal)
  then show ?thesis using ph worker_side_phase by blast
next
  case (pop_failed w x s k b1 b2 u)
  obtain ok p1 where c: "close_queue k b1 b2 u p = (ok, p1)" by (cases "close_queue k b1 b2 u p")
  have "worker_side p p1" using close_queue_side [of p k b1 b2 u] c by simp
  then have "worker_side p p'" using pop_failed(4,5) c by (auto simp: worker_pop_def worker_side_def Let_def nth_update)
  then show ?thesis using ph worker_side_phase by blast
next
  case (process w a)
  then have "worker_side p p'" by (auto simp: worker_side_def processed_def Let_def nth_update)
  then show ?thesis using ph worker_side_phase by blast
next
  case wakeup_main
  have "worker_side p p'" unfolding wakeup_main by (rule worker_side_signal) (simp_all add: worker_side_def)
  then show ?thesis using ph worker_side_phase by blast
next
  case (pop_waits w)
  then show ?thesis using ph worker_side_phase [OF worker_side_update] by auto
next
  case (pop_ends w)
  then show ?thesis using ph worker_side_phase [OF worker_side_update] by auto
next
  case (wakeup w)
  then show ?thesis using ph worker_side_phase [OF worker_side_update] by auto
qed (use ph in \<open>auto simp: phase_inv_def\<close>)

section \<open>Runs without errors\<close>

fun closing :: "main_pc \<Rightarrow> bool" where
  "closing (M_Join i) \<longleftrightarrow> True"
| "closing M_Report \<longleftrightarrow> True"
| "closing _ \<longleftrightarrow> False"

lemma closing_woken [simp]: "closing (woken_main m) = closing m" by (cases m) simp_all

fun awake :: "worker_pc \<Rightarrow> nat" where
  "awake W_Wait = 0"
| "awake W_Done = 0"
| "awake _ = 1"

text \<open>
  Who waits for what: nobody waits once the queue is closed; a worker ends only after it is closed and
  empty; \<open>main\<close> waits only on a full queue; while a worker waits, there is an awake worker for every
  job in the queue.
\<close>

definition wait_inv :: "pool \<Rightarrow> bool" where
  "wait_inv p \<longleftrightarrow> (q_closed (p_queue p) \<longleftrightarrow> closing (p_main p)) \<and>
     (q_closed (p_queue p) \<longrightarrow> (\<forall>w \<in> set (p_workers p). w_pc w \<noteq> W_Wait)) \<and>
     (\<forall>w \<in> set (p_workers p). w_pc w = W_Done \<longrightarrow> q_closed (p_queue p) \<and> q_count (p_queue p) = 0) \<and>
     (\<forall>a c. p_main p = M_Wait a c \<longrightarrow> q_count (p_queue p) = q_capacity (p_queue p)) \<and>
     ((\<exists>w \<in> set (p_workers p). w_pc w = W_Wait) \<longrightarrow> unat (q_count (p_queue p)) \<le> (\<Sum>w\<leftarrow>p_workers p. awake (w_pc w)))"

lemma start_wait: "\<not> q_closed q \<Longrightarrow> wait_inv (pool_start config q)"
  by (simp add: wait_inv_def pool_start_def)

lemma wait_same: "wait_inv p \<Longrightarrow> p_queue p' = p_queue p \<Longrightarrow> p_workers p' = p_workers p \<Longrightarrow> p_main p' = p_main p \<Longrightarrow> wait_inv p'"
  by (auto simp: wait_inv_def)

lemma set_updateD: "x \<in> set (xs[i := y]) \<Longrightarrow> x = y \<or> x \<in> set xs"
  using set_update_subset_insert by fastforce

lemma awake_update:
  assumes "w < length ws"
  shows "(\<Sum>x\<leftarrow>ws[w := y]. awake (w_pc x)) + awake (w_pc (ws ! w)) = (\<Sum>x\<leftarrow>ws. awake (w_pc x)) + awake (w_pc y)"
  by (rule sum_update [OF assms])

lemma wait_pushed:
  assumes inv: "wait_inv p" and op: "\<not> q_closed (p_queue p)" "\<not> q_closed q" and q: "q_list q = q_list (p_queue p) @ [a]"
    and wk: "woken_ok woken p"
  shows "wait_inv (signal_not_empty woken (pushed q c p))"
proof -
  note I = inv [unfolded wait_inv_def]
  have n: "unat (q_count q) = Suc (unat (q_count (p_queue p)))" using arg_cong [OF q, of length] by simp
  have nd: "\<And>w. w \<in> set (p_workers p) \<Longrightarrow> w_pc w \<noteq> W_Done" using I op(1) by blast
  show ?thesis
  proof (cases woken)
    case None
    then have "\<And>w. w \<in> set (p_workers p) \<Longrightarrow> w_pc w \<noteq> W_Wait" using wk by (simp add: woken_ok_def list_all_iff)
    then show ?thesis using None op nd by (auto simp: wait_inv_def signal_not_empty_def pushed_def)
  next
    case (Some w)
    then have w: "w < length (p_workers p)" "w_pc (p_workers p ! w) = W_Wait" using wk by (simp_all add: woken_ok_def)
    let ?ws = "(p_workers p)[w := wake_worker (p_workers p ! w)]"
    have "unat (q_count (p_queue p)) \<le> (\<Sum>x\<leftarrow>p_workers p. awake (w_pc x))" using I w nth_mem by blast
    then have "unat (q_count q) \<le> (\<Sum>x\<leftarrow>?ws. awake (w_pc x))"
      using awake_update [OF w(1), of "wake_worker (p_workers p ! w)"] w(2) n by (simp add: wake_worker_def)
    moreover have "\<And>x. x \<in> set ?ws \<Longrightarrow> w_pc x \<noteq> W_Done" using nd w(2) by (auto dest!: set_updateD simp: wake_worker_def)
    ultimately show ?thesis using Some op by (auto simp: wait_inv_def signal_not_empty_def pushed_def)
  qed
qed

lemma wait_taken:
  assumes inv: "wait_inv p" and w: "w < length (p_workers p)" "w_pc (p_workers p ! w) = W_Pop \<or> w_pc (p_workers p ! w) = W_Recheck"
    and q: "q_list (p_queue p) = x # q_list q" "q_closed q = q_closed (p_queue p)"
  shows "wait_inv (signal_not_full (p\<lparr>p_queue := q, p_workers := (p_workers p)[w := (p_workers p ! w)\<lparr>w_pc := W_Have x\<rparr>]\<rparr>))"
proof -
  note I = inv [unfolded wait_inv_def]
  let ?ws = "(p_workers p)[w := (p_workers p ! w)\<lparr>w_pc := W_Have x\<rparr>]"
  have n: "unat (q_count (p_queue p)) = Suc (unat (q_count q))" using arg_cong [OF q(1), of length] by simp
  then have "q_count (p_queue p) \<noteq> 0" by auto
  then have "\<And>w. w \<in> set (p_workers p) \<Longrightarrow> w_pc w \<noteq> W_Done" using I by blast
  then have nd: "\<And>y. y \<in> set ?ws \<Longrightarrow> w_pc y \<noteq> W_Done" by (auto dest!: set_updateD)
  have wt: "\<And>y. y \<in> set ?ws \<Longrightarrow> w_pc y = W_Wait \<Longrightarrow> y \<in> set (p_workers p)" by (auto dest!: set_updateD)
  have aw: "(\<Sum>y\<leftarrow>?ws. awake (w_pc y)) = (\<Sum>y\<leftarrow>p_workers p. awake (w_pc y))"
    using awake_update [OF w(1), of "(p_workers p ! w)\<lparr>w_pc := W_Have x\<rparr>"] w(2) by auto
  have "unat (q_count q) \<le> (\<Sum>y\<leftarrow>?ws. awake (w_pc y))" if "y \<in> set ?ws" "w_pc y = W_Wait" for y
  proof -
    have "unat (q_count (p_queue p)) \<le> (\<Sum>y\<leftarrow>p_workers p. awake (w_pc y))" using I wt [OF that] that(2) by blast
    then show ?thesis unfolding aw using n by simp
  qed
  then show ?thesis using I nd wt q(2) by (auto simp: wait_inv_def)
qed

text \<open>A worker moves between two awake places, or is woken.\<close>

lemma wait_moved:
  assumes inv: "wait_inv p" and w: "w < length (p_workers p)" "awake (w_pc (p_workers p ! w)) \<le> awake (w_pc th)" "awake (w_pc th) = 1"
  shows "wait_inv (p\<lparr>p_workers := (p_workers p)[w := th]\<rparr>)"
proof -
  note I = inv [unfolded wait_inv_def]
  let ?ws = "(p_workers p)[w := th]"
  have th: "w_pc th \<noteq> W_Wait" "w_pc th \<noteq> W_Done" using w(3) by auto
  have wt: "\<And>y. y \<in> set ?ws \<Longrightarrow> w_pc y = W_Wait \<or> w_pc y = W_Done \<Longrightarrow> y \<in> set (p_workers p)" using th by (auto dest!: set_updateD)
  have "(\<Sum>y\<leftarrow>p_workers p. awake (w_pc y)) \<le> (\<Sum>y\<leftarrow>?ws. awake (w_pc y))" using awake_update [OF w(1), of th] w(2) by simp
  then have "unat (q_count (p_queue p)) \<le> (\<Sum>y\<leftarrow>?ws. awake (w_pc y))" if "y \<in> set ?ws" "w_pc y = W_Wait" for y
    using I wt that by (meson order_trans)
  then show ?thesis using I wt unfolding wait_inv_def by auto
qed

lemma wait_closed:
  assumes inv: "wait_inv p" and m: "p_main p = M_Close"
  shows "wait_inv (main_close 0 0 0 0 p)"
proof -
  have "\<not> q_closed (p_queue p)" using inv m by (simp add: wait_inv_def)
  then have "\<And>w. w \<in> set (p_workers p) \<Longrightarrow> w_pc w \<noteq> W_Done" using inv unfolding wait_inv_def by blast
  moreover have "w_pc (wake_worker w) \<noteq> W_Wait" "w_pc (wake_worker w) = W_Done \<longleftrightarrow> w_pc w = W_Done" for w
    by (auto simp: wake_worker_def)
  ultimately show ?thesis
    by (auto simp: wait_inv_def main_close_def close_queue_def queue_close_def broadcast_not_empty_def)
qed

lemma event_wait:
  assumes snd: "sound config p" and inv: "wait_inv p" and ev: "enabled config e p" "action config e p = Some p'" and ne: "no_error e"
  shows "wait_inv p'"
  using snd ev
proof (cases rule: event_cases)
  case (create i)
  then show ?thesis using inv by (auto simp: wait_inv_def new_worker_def)
next
  case (pushed a c q woken)
  then show ?thesis using wait_pushed [OF inv _ _ pushed(5)] ne by blast
next
  case (close l b1 b2 u)
  then show ?thesis using wait_closed [OF inv] ne by simp
next
  case (pop_takes w s x q f)
  then show ?thesis using wait_taken [OF inv pop_takes(1,2,4,5)] ne by simp
next
  case (process w a)
  obtain th where th: "p_workers p' = (p_workers p)[w := th]" "w_pc th = W_Pop" "p_queue p' = p_queue p" "p_main p' = p_main p"
    unfolding process(4) processed_def Let_def by simp
  have "wait_inv (p\<lparr>p_workers := (p_workers p)[w := th]\<rparr>)"
    by (rule wait_moved [OF inv]) (simp_all add: process th(2))
  then show ?thesis by (rule wait_same) (simp_all add: th)
next
  case (wakeup w)
  then show ?thesis using wait_moved [OF inv, of w] by (simp add: wake_worker_def)
next
  case (pop_waits w)
  then have "q_count (p_queue p) = 0" by (metis q_list_length list.size(3) unat_eq_zero)
  then show ?thesis using inv pop_waits by (auto simp: wait_inv_def dest!: set_updateD)
next
  case (pop_ends w)
  then have "q_count (p_queue p) = 0" by (metis q_list_length list.size(3) unat_eq_zero)
  then show ?thesis using inv pop_ends by (auto simp: wait_inv_def dest!: set_updateD)
next
  case (pop_failed w x s k b1 b2 u)
  then show ?thesis using ne by simp
next
  case wakeup_main
  then show ?thesis using inv by (auto simp: wait_inv_def)
next
  case (dropped a c js)
  then show ?thesis using inv ne by (auto simp: wait_inv_def)
next
  case (create_failed i x)
  then show ?thesis using inv by (auto simp: wait_inv_def main_created_def)
next
  case (create_done i)
  then show ?thesis using inv by (auto simp: wait_inv_def main_created_def)
next
  case (join r i)
  then show ?thesis using inv by (auto simp: wait_inv_def main_join_def Let_def)
next
  case (full a c)
  then show ?thesis using inv by (auto simp: wait_inv_def)
qed (use inv in \<open>auto simp: wait_inv_def\<close>)

end
