(* ===== verification/Worker_Live.thy ===== *)
theory Worker_Live
  imports Worker_Control
begin

text \<open>
  Runs of the worker pool without errors: what the report will say, that no thread is ever stuck, and
  that every run ends.
\<close>

section \<open>No error is recorded\<close>

definition clean_inv :: "pool \<Rightarrow> bool" where
  "clean_inv p \<longleftrightarrow> p_all_joined p \<and> p_status p \<in> {RUN_OK, RUN_ALLOCATION_FAILURE, RUN_THREAD_FAILURE} \<and>
     (\<forall>w \<in> set (p_workers p). \<not> queue_error (w_result w)) \<and>
     (p_status p = RUN_THREAD_FAILURE \<longrightarrow> p_index p = 0) \<and> (p_workers p = [] \<longrightarrow> p_index p = 0)"

lemma start_clean: "clean_inv (pool_start config q)"
  by (simp add: clean_inv_def pool_start_def)

text \<open>Nothing of this changes but for the workers, none of which records an error.\<close>

lemma clean_same:
  assumes "clean_inv p" and "p_status p' = p_status p" "p_all_joined p' = p_all_joined p" "p_index p' = p_index p"
    and "map (\<lambda>w. queue_error (w_result w)) (p_workers p') = map (\<lambda>w. queue_error (w_result w)) (p_workers p)"
  shows "clean_inv p'"
proof -
  have "(\<forall>w \<in> set (p_workers p'). \<not> queue_error (w_result w)) \<longleftrightarrow> (\<forall>w \<in> set (p_workers p). \<not> queue_error (w_result w))"
    using arg_cong [OF assms(5), of set] by (auto simp: image_iff)
  moreover have "p_workers p' = [] \<longleftrightarrow> p_workers p = []" using assms(5) by (metis map_is_Nil_conv)
  ultimately show ?thesis using assms(1-4) by (simp add: clean_inv_def)
qed

lemma errors_update:
  assumes "queue_error (w_result th) = queue_error (w_result (ws ! w))"
  shows "map (\<lambda>w. queue_error (w_result w)) (ws[w := th]) = map (\<lambda>w. queue_error (w_result w)) ws"
  using assms by (cases "w < length ws") (simp_all add: map_update list_update_same_conv list_update_beyond)

lemma event_clean:
  assumes snd: "sound config p" and ph: "phase_inv config p" and wt: "wait_inv p" and cl: "clean_inv p" and W: "workers config \<noteq> 0"
    and ev: "enabled config e p" "action config e p = Some p'" and ne: "no_error e"
  shows "clean_inv p'"
  using snd ev
proof (cases rule: event_cases)
  case (create i)
  then show ?thesis using cl snd by (simp add: clean_inv_def sound_def new_worker_def)
next
  case (create_failed i x)
  then show ?thesis using cl snd by (simp add: clean_inv_def sound_def main_created_def)
next
  case (create_done i)
  then show ?thesis using cl by (auto simp: clean_inv_def main_created_def)
next
  case (dropped a c js)
  then show ?thesis using wt ne by (auto simp: wait_inv_def)
next
  case (pushed a c q woken)
  have "length (p_workers p) \<noteq> 0" "p_status p = RUN_OK" using ph W pushed(1) by (auto simp: phase_inv_def unat_eq_zero)
  then show ?thesis unfolding pushed(8) using cl pushed(7) [OF ne]
    by (auto simp: clean_inv_def signal_not_empty_def pushed_def woken_ok_def dest!: set_updateD split: option.splits)
next
  case (close l b1 b2 u)
  then show ?thesis using ne cl
    by (intro clean_same [OF cl])
      (simp_all add: main_close_def close_queue_def queue_close_def broadcast_not_empty_def comp_def)
next
  case (join r i)
  then show ?thesis using ne by (intro clean_same [OF cl]) (simp_all add: main_join_def)
next
  case (pop_takes w s x q f)
  then show ?thesis by (intro clean_same [OF cl]) (simp_all add: errors_update)
next
  case (process w a)
  then show ?thesis by (intro clean_same [OF cl]) (simp_all add: processed_def Let_def errors_update)
next
  case (pop_failed w x s k b1 b2 u)
  then show ?thesis using ne by simp
next
  case (failed raw)
  then show ?thesis using cl ph by (simp add: clean_inv_def phase_inv_def)
next
  case (pop_waits w)
  then show ?thesis by (intro clean_same [OF cl]) (simp_all add: errors_update)
next
  case (pop_ends w)
  then show ?thesis by (intro clean_same [OF cl]) (simp_all add: errors_update)
next
  case (wakeup w)
  then show ?thesis by (intro clean_same [OF cl]) (simp_all add: errors_update)
next
  case (made a c js)
  then show ?thesis by (intro clean_same [OF cl]) simp_all
qed (use cl in \<open>simp_all add: clean_inv_def\<close>)

section \<open>The invariant of the runs without errors\<close>

definition reliable_inv :: "configuration \<Rightarrow> pool \<Rightarrow> bool" where
  "reliable_inv config p \<longleftrightarrow> sound config p \<and> phase_inv config p \<and> wait_inv p \<and> clean_inv p \<and> workers config \<noteq> 0"

lemma reliable_start:
  assumes "queue_ok q" "q_list q = []" "\<not> q_closed q" "workers config \<noteq> 0"
  shows "reliable_inv config (pool_start config q)"
  using assms by (simp add: reliable_inv_def start_sound start_phase start_wait start_clean)

lemma reliable_event:
  assumes inv: "reliable_inv config p" and en: "enabled config e p" and ne: "no_error e"
  obtains p' where "action config e p = Some p'" "reliable_inv config p'"
proof -
  have I: "sound config p" "phase_inv config p" "wait_inv p" "clean_inv p" "workers config \<noteq> 0"
    using inv by (simp_all add: reliable_inv_def)
  from event_sound [OF I(1) en] obtain p' where p': "action config e p = Some p'" "sound config p'" by blast
  then show ?thesis
    using that event_phase [OF I(1,2) en p'(1)] event_wait [OF I(1,3) en p'(1) ne] event_clean [OF I en p'(1) ne] I(5)
    by (simp add: reliable_inv_def)
qed

lemma reach_reliable: "pool_reach config True start p \<Longrightarrow> reliable_inv config start \<Longrightarrow> reliable_inv config p"
proof (induction rule: pool_reach.induct)
  case (event p e p')
  then have "reliable_inv config p" "no_error e" by simp_all
  from reliable_event [OF this(1) event.hyps(2) this(2)] event.hyps show ?case by auto
qed

section \<open>No thread is stuck\<close>

text \<open>A worker that is awake can take a step.\<close>

lemma awake_step:
  assumes "w < length (p_workers p)" and "awake (w_pc (p_workers p ! w)) \<noteq> 0"
  shows "\<exists>e. enabled config e p \<and> no_error e \<and> \<not> spurious e"
proof (cases "w_pc (p_workers p ! w)")
  case (W_Have a)
  with assms show ?thesis by (intro exI [of _ "Process w"]) simp
qed (use assms in \<open>auto intro!: exI [of _ "Pop w 0 0 0 0 0 0"]\<close>)

lemma full_awake:
  assumes inv: "reliable_inv config p" and m: "p_main p = M_Wait a c"
  shows "\<exists>w \<in> set (p_workers p). awake (w_pc w) \<noteq> 0"
proof -
  have ph: "phase_inv config p" and wt: "wait_inv p" and ok: "queue_ok (p_queue p)" and W: "workers config \<noteq> 0"
    using inv by (simp_all add: reliable_inv_def sound_def own_inv_def)
  have "q_count (p_queue p) = q_capacity (p_queue p)" using wt unfolding wait_inv_def m by blast
  then have n: "0 < unat (q_count (p_queue p))" using ok by (simp add: queue_ok_def)
  have op: "\<not> q_closed (p_queue p)" using wt m by (simp add: wait_inv_def)
  have len: "length (p_workers p) \<noteq> 0" using ph m W by (simp add: phase_inv_def unat_eq_zero)
  show ?thesis
  proof (cases "\<exists>w \<in> set (p_workers p). w_pc w = W_Wait")
    case True
    then have "unat (q_count (p_queue p)) \<le> (\<Sum>w\<leftarrow>p_workers p. awake (w_pc w))" using wt unfolding wait_inv_def by blast
    then have "(\<Sum>w\<leftarrow>p_workers p. awake (w_pc w)) \<noteq> 0" using n by linarith
    then show ?thesis by (auto simp: sum_list_eq_0_iff)
  next
    case False
    obtain w where w: "w \<in> set (p_workers p)" using len by (cases "p_workers p") auto
    have "w_pc w \<noteq> W_Done" using w wt op unfolding wait_inv_def by blast
    moreover have "w_pc w \<noteq> W_Wait" using False w by blast
    ultimately show ?thesis using w by (intro bexI [of _ w]) (cases "w_pc w"; simp)
  qed
qed

lemma progress:
  assumes inv: "reliable_inv config p" and m: "p_main p \<noteq> M_Report"
  shows "\<exists>e. enabled config e p \<and> no_error e \<and> \<not> spurious e"
proof -
  have wt: "wait_inv p" using inv by (simp add: reliable_inv_def)
  have push: ?thesis if "(case p_main p of M_Push _ _ \<Rightarrow> True | M_Recheck _ _ \<Rightarrow> True | _ \<Rightarrow> False)"
  proof (cases "\<exists>w < length (p_workers p). w_pc (p_workers p ! w) = W_Wait")
    case True
    then obtain w where "w < length (p_workers p)" "w_pc (p_workers p ! w) = W_Wait" by blast
    then show ?thesis using that by (intro exI [of _ "Push 0 0 (Some w)"]) (simp add: woken_ok_def)
  next
    case False
    then show ?thesis using that by (intro exI [of _ "Push 0 0 None"]) (auto simp: woken_ok_def list_all_length)
  qed
  show ?thesis
  proof (cases "p_main p")
    case (M_Wait a c)
    show ?thesis using full_awake [OF inv M_Wait] awake_step by (metis in_set_conv_nth)
  next
    case (M_Join i)
    show ?thesis
    proof (cases "i < length (p_workers p) \<and> w_pc (p_workers p ! i) \<noteq> W_Done")
      case True
      have "q_closed (p_queue p)" using wt M_Join by (simp add: wait_inv_def)
      then have "w_pc (p_workers p ! i) \<noteq> W_Wait" using wt True nth_mem unfolding wait_inv_def by blast
      then have "awake (w_pc (p_workers p ! i)) \<noteq> 0" using True by (cases "w_pc (p_workers p ! i)") auto
      then show ?thesis using awake_step True by blast
    next
      case False
      then show ?thesis using M_Join by (intro exI [of _ "Join 0"]) auto
    qed
  next
    case (M_Create i)
    then show ?thesis by (intro exI [of _ "Create 0"]) simp
  next
    case M_Produce
    then show ?thesis by (intro exI [of _ "Produce NULL []"]) simp
  next
    case M_Close
    then show ?thesis by (intro exI [of _ "Close 0 0 0 0"]) simp
  qed (use m push in auto)
qed

section \<open>Every run ends\<close>

fun worker_weight :: "worker_pc \<Rightarrow> nat" where
  "worker_weight W_Wait = 0"
| "worker_weight W_Done = 0"
| "worker_weight (W_Have a) = 2"
| "worker_weight _ = 1"

text \<open>What \<open>main\<close> has left to do, \<open>n\<close> workers having been started and \<open>i\<close> jobs pushed.\<close>

fun main_weight :: "configuration \<Rightarrow> nat \<Rightarrow> nat \<Rightarrow> main_pc \<Rightarrow> nat" where
  "main_weight config n i (M_Create k) = (unat (workers config) - unat k) * 2 + unat (jobs config) * 6 + unat (workers config) * 2 + 7"
| "main_weight config n i M_Produce = (unat (jobs config) - i) * 6 + unat (workers config) * 2 + 6"
| "main_weight config n i (M_Push a c) = (unat (jobs config) - i) * 6 + unat (workers config) * 2 + 5"
| "main_weight config n i (M_Recheck a c) = (unat (jobs config) - i) * 6 + unat (workers config) * 2 + 5"
| "main_weight config n i (M_Wait a c) = (unat (jobs config) - i) * 6 + unat (workers config) * 2 + 4"
| "main_weight config n i M_Close = unat (workers config) * 2 + 3"
| "main_weight config n i (M_Join k) = (n - k) + 1"
| "main_weight config n i M_Report = 0"

definition pool_measure :: "configuration \<Rightarrow> pool \<Rightarrow> nat" where
  "pool_measure config p = (\<Sum>w\<leftarrow>p_workers p. worker_weight (w_pc w)) + unat (q_count (p_queue p)) * 3 +
     main_weight config (length (p_workers p)) (unat (p_index p)) (p_main p)"

lemma weight_update:
  assumes "w < length ws"
  shows "(\<Sum>x\<leftarrow>ws[w := y]. worker_weight (w_pc x)) + worker_weight (w_pc (ws ! w)) =
    (\<Sum>x\<leftarrow>ws. worker_weight (w_pc x)) + worker_weight (w_pc y)"
  by (rule sum_update [OF assms])

lemma weight_woken: "main_weight config n i (woken_main m) \<le> main_weight config n i m + 1"
  by (cases m) simp_all

lemma weight_wake_all: "(\<Sum>w\<leftarrow>map wake_worker ws. worker_weight (w_pc w)) \<le> (\<Sum>w\<leftarrow>ws. worker_weight (w_pc w)) + length ws"
  by (induction ws) (auto simp: wake_worker_def)

lemma weight_signal:
  "(\<Sum>x\<leftarrow>p_workers (signal_not_empty woken p). worker_weight (w_pc x)) \<le> (\<Sum>x\<leftarrow>p_workers p. worker_weight (w_pc x)) + 1"
proof (cases woken)
  case (Some w)
  show ?thesis
  proof (cases "w < length (p_workers p)")
    case True
    have "worker_weight (w_pc (wake_worker x)) \<le> worker_weight (w_pc x) + 1" for x by (simp add: wake_worker_def)
    from this [of "p_workers p ! w"] weight_update [OF True, of "wake_worker (p_workers p ! w)"] Some
    show ?thesis by (simp add: signal_not_empty_def)
  qed (simp add: Some signal_not_empty_def list_update_beyond)
qed (simp add: signal_not_empty_def)

lemma measure_pushed:
  assumes snd: "sound config p" and m: "p_main p = M_Push a c \<or> p_main p = M_Recheck a c" and q: "q_list q = q_list (p_queue p) @ [a]"
  shows "pool_measure config (signal_not_empty woken (pushed q c p)) < pool_measure config p"
proof -
  let ?p = "signal_not_empty woken (pushed q c p)"
  have own: "own_inv p" and data: "data_inv config p" using snd by (simp_all add: sound_def)
  have pd: "pending (p_main p) = Some (a, c)" using m by auto
  have lt: "unat (p_index p) < unat (jobs config)"
    using data_invD(2) [OF data pd] data_invD(1) [OF data, of a "job_at p a"] own_pending(1) [OF own pd]
    by (auto simp: id_at_def job_at_def)
  then have i: "unat (p_index p + 1) = Suc (unat (p_index p))" by (intro size_t_Suc(1)) (simp add: size_t_less_iff)
  have n: "unat (q_count q) = Suc (unat (q_count (p_queue p)))" using arg_cong [OF q, of length] by simp
  have e: "p_queue ?p = q" "length (p_workers ?p) = length (p_workers p)" "p_index ?p = p_index p + 1" "p_main ?p = M_Produce"
    by (simp_all add: signal_not_empty_def pushed_def split: option.splits)
  have "(\<Sum>x\<leftarrow>p_workers ?p. worker_weight (w_pc x)) \<le> (\<Sum>x\<leftarrow>p_workers p. worker_weight (w_pc x)) + 1"
    using weight_signal [of woken "pushed q c p"] by (simp add: pushed_def)
  moreover have "main_weight config k (unat (p_index p)) (p_main p) =
      (unat (jobs config) - unat (p_index p)) * 6 + unat (workers config) * 2 + 5" for k using m by auto
  ultimately show ?thesis using lt unfolding pool_measure_def e i n by simp
qed

lemma measure_event:
  assumes inv: "reliable_inv config p" and ev: "enabled config e p" "action config e p = Some p'" and ne: "no_error e"
  shows "pool_measure config p' \<le> pool_measure config p + (if spurious e then 1 else 0)"
    and "\<not> spurious e \<Longrightarrow> pool_measure config p' < pool_measure config p"
proof -
  have snd: "sound config p" and ph: "phase_inv config p" and wt: "wait_inv p" using inv by (simp_all add: reliable_inv_def)
  have "pool_measure config p' < pool_measure config p + (if spurious e then 2 else 0)" using snd ev
  proof (cases rule: event_cases)
    case (create i)
    have "unat i < unat (workers config)" using create(2) by (simp add: size_t_less_iff)
    then show ?thesis using create size_t_Suc(1) [OF create(2)] by (simp add: pool_measure_def new_worker_def)
  next
    case (create_failed i x)
    then show ?thesis by (simp add: pool_measure_def main_created_def)
  next
    case (create_done i)
    then show ?thesis using ph by (simp add: pool_measure_def main_created_def phase_inv_def)
  next
    case (pushed a c q woken)
    then show ?thesis using measure_pushed [OF snd pushed(1,5)] by simp
  next
    case (full a c)
    then show ?thesis by (auto simp: pool_measure_def)
  next
    case (dropped a c js)
    then show ?thesis using wt ne by (auto simp: wait_inv_def)
  next
    case (close l b1 b2 u)
    then have p': "p' = p\<lparr>p_queue := (p_queue p)\<lparr>q_closed := True\<rparr>, p_workers := map wake_worker (p_workers p), p_main := M_Join 0\<rparr>"
      using ne by (simp add: main_close_def close_queue_def queue_close_def broadcast_not_empty_def signal_not_full_def)
    have "length (p_workers p) \<le> unat (workers config)" using ph by (simp add: phase_inv_def)
    then show ?thesis using weight_wake_all [of "p_workers p"] close(1) unfolding p' by (simp add: pool_measure_def)
  next
    case (join r i)
    then show ?thesis using ne by (cases "i < length (p_workers p)") (simp_all add: pool_measure_def main_join_def)
  next
    case (pop_takes w s x q f)
    have n: "unat (q_count (p_queue p)) = Suc (unat (q_count q))" using arg_cong [OF pop_takes(4), of length] by simp
    have p': "p' = signal_not_full (p\<lparr>p_queue := q, p_workers := (p_workers p)[w := (p_workers p ! w)\<lparr>w_pc := W_Have x\<rparr>]\<rparr>)"
      using pop_takes ne by simp
    have "worker_weight (w_pc (p_workers p ! w)) = 1" using pop_takes(2) by auto
    then show ?thesis using weight_update [OF pop_takes(1), of "(p_workers p ! w)\<lparr>w_pc := W_Have x\<rparr>"]
      weight_woken [of config "length (p_workers p)" "unat (p_index p)" "p_main p"]
      unfolding p' pool_measure_def by (simp add: n)
  next
    case (process w a)
    then show ?thesis
      using weight_update [OF process(1), of "p_workers p' ! w"] by (simp add: pool_measure_def processed_def Let_def)
  next
    case (pop_waits w)
    then show ?thesis using weight_update [OF pop_waits(1), of "(p_workers p ! w)\<lparr>w_pc := W_Wait\<rparr>"]
      by (auto simp: pool_measure_def)
  next
    case (pop_ends w)
    then show ?thesis using weight_update [OF pop_ends(1), of "(p_workers p ! w)\<lparr>w_pc := W_Done\<rparr>"]
      by (auto simp: pool_measure_def)
  next
    case (pop_failed w x s k b1 b2 u)
    then show ?thesis using ne by simp
  next
    case (wakeup w)
    then show ?thesis using weight_update [OF wakeup(1), of "wake_worker (p_workers p ! w)"]
      by (simp add: pool_measure_def wake_worker_def)
  next
    case wakeup_main
    then show ?thesis using weight_woken [of config "length (p_workers p)" "unat (p_index p)" "p_main p"]
      by (simp add: pool_measure_def)
  qed (simp_all add: pool_measure_def)
  then show "pool_measure config p' \<le> pool_measure config p + (if spurious e then 1 else 0)"
    and "\<not> spurious e \<Longrightarrow> pool_measure config p' < pool_measure config p" by (simp_all split: if_splits)
qed

text \<open>A run as the list of its events.\<close>

fun pool_run :: "configuration \<Rightarrow> pool_event list \<Rightarrow> pool \<Rightarrow> pool option" where
  "pool_run config [] p = Some p"
| "pool_run config (e # es) p = (if enabled config e p then do { p \<leftarrow> action config e p; pool_run config es p } else None)"

lemma run_bounded:
  assumes "reliable_inv config p" and "list_all no_error es" and "pool_run config es p = Some p'"
  shows "reliable_inv config p'"
    and "length (filter (\<lambda>e. \<not> spurious e) es) + pool_measure config p' \<le> pool_measure config p + length (filter spurious es)"
  using assms
proof (induction es arbitrary: p)
  case Nil
  {
    case 1
    then show ?case by simp
  next
    case 2
    then show ?case by simp
  }
next
  case (Cons e es)
  have run: "\<exists>p1. enabled config e p \<and> action config e p = Some p1 \<and> reliable_inv config p1 \<and> pool_run config es p1 = Some p'"
    if "reliable_inv config p" "list_all no_error (e # es)" "pool_run config (e # es) p = Some p'" for p
    using that reliable_event [of config p e] by (auto split: if_splits bind_splits)
  {
    case 1
    from run [OF 1] obtain p1 where "reliable_inv config p1" "pool_run config es p1 = Some p'" by blast
    with 1 show ?case using Cons.IH(1) by simp
  next
    case 2
    from run [OF 2] obtain p1 where p1: "enabled config e p" "action config e p = Some p1" "reliable_inv config p1"
      "pool_run config es p1 = Some p'" by blast
    have ne: "no_error e" "list_all no_error es" using 2 by simp_all
    show ?case using Cons.IH(2) [OF p1(3) ne(2) p1(4)] measure_event [OF 2(1) p1(1,2) ne(1)] by (auto split: if_splits)
  }
qed

lemma run_append: "pool_run config (es @ fs) p = Option.bind (pool_run config es p) (pool_run config fs)"
proof (induction es arbitrary: p)
  case (Cons e es)
  then show ?case by (cases "action config e p") simp_all
qed simp

lemma run_reach:
  assumes "pool_run config es start = Some p" and "r \<Longrightarrow> list_all no_error es"
  shows "pool_reach config r start p"
  using assms
proof (induction es arbitrary: p rule: rev_induct)
  case Nil
  then show ?case by (simp add: pool_reach.initial)
next
  case (snoc e es)
  then obtain p1 where "pool_run config es start = Some p1" "enabled config e p1" "action config e p1 = Some p"
    by (auto simp: run_append split: bind_splits if_splits)
  then show ?case using snoc by (auto intro: pool_reach.event)
qed

lemma run_start_measure: "pool_measure config (pool_start config q) = unat (workers config) * 4 + unat (jobs config) * 6 + 7 + unat (q_count q) * 3"
  by (simp add: pool_measure_def pool_start_def)

section \<open>Runs in which nothing fails\<close>

text \<open>\<open>pthread_create\<close> and \<open>worker_allocate\<close> succeed.\<close>

fun smooth :: "pool_event \<Rightarrow> bool" where
  "smooth (Create e) \<longleftrightarrow> e = 0"
| "smooth (Produce a raw) \<longleftrightarrow> a \<noteq> NULL"
| "smooth _ \<longleftrightarrow> True"

definition smooth_inv :: "pool \<Rightarrow> bool" where
  "smooth_inv p \<longleftrightarrow> p_status p = RUN_OK \<and>
     (\<not> ending (p_main p) \<longrightarrow> p_attempts p = p_index p + (if pending (p_main p) = None then 0 else 1))"

lemma smooth_same:
  "smooth_inv p \<Longrightarrow> p_status p' = p_status p \<Longrightarrow> p_attempts p' = p_attempts p \<Longrightarrow> p_index p' = p_index p \<Longrightarrow>
    ending (p_main p') = ending (p_main p) \<Longrightarrow> pending (p_main p') = pending (p_main p) \<Longrightarrow> smooth_inv p'"
  by (simp add: smooth_inv_def)

lemma event_smooth:
  assumes inv: "reliable_inv config p" and sm: "smooth_inv p" and ev: "enabled config e p" "action config e p = Some p'"
    and e: "no_error e" "smooth e" and cf: "fail_thread_at config = 0" "fail_allocation_at config = 0"
  shows "smooth_inv p'"
proof -
  have snd: "sound config p" and wt: "wait_inv p" using inv by (simp_all add: reliable_inv_def)
  have no_wrap: "i + 1 \<noteq> 0" if "i < n" for i n :: size_t using size_t_Suc(1) [OF that] by (metis nat.distinct(1) unat_0)
  from snd ev show ?thesis
  proof (cases rule: event_cases)
    case (create_failed i x)
    then show ?thesis using no_wrap [of i] cf e by auto
  next
    case (failed raw)
    then show ?thesis using no_wrap [of "p_index p"] cf e sm by (auto simp: smooth_inv_def)
  next
    case (create_done i)
    then show ?thesis using sm snd by (simp add: smooth_inv_def main_created_def sound_def)
  next
    case (dropped a c js)
    then show ?thesis using wt e by (auto simp: wait_inv_def)
  next
    case (full a c)
    then show ?thesis using sm by (auto simp: smooth_inv_def)
  next
    case (pushed a c q woken)
    then show ?thesis using sm by (auto simp: smooth_inv_def signal_not_empty_def pushed_def split: option.splits)
  next
    case (close l b1 b2 u)
    then show ?thesis using sm e by (simp add: smooth_inv_def main_close_def close_queue_def queue_close_def broadcast_not_empty_def)
  next
    case (join r i)
    then show ?thesis using sm e by (simp add: smooth_inv_def main_join_def)
  next
    case (pop_takes w s x q f)
    then show ?thesis by (intro smooth_same [OF sm]) simp_all
  next
    case (pop_failed w x s k b1 b2 u)
    then show ?thesis using e by simp
  next
    case (process w a)
    then show ?thesis by (intro smooth_same [OF sm]) (simp_all add: processed_def Let_def)
  next
    case wakeup_main
    then show ?thesis by (intro smooth_same [OF sm]) simp_all
  qed (use sm in \<open>simp_all add: smooth_inv_def\<close>)
qed

lemma run_smooth:
  assumes "reliable_inv config p" and "smooth_inv p" and "list_all no_error es" "list_all smooth es" "pool_run config es p = Some p'"
    and cf: "fail_thread_at config = 0" "fail_allocation_at config = 0"
  shows "p_status p' = RUN_OK"
  using assms(1-5)
proof (induction es arbitrary: p)
  case Nil
  then show ?case by (simp add: smooth_inv_def)
next
  case (Cons e es)
  then have e: "enabled config e p" "no_error e" "smooth e" by (simp_all split: if_splits)
  from reliable_event [OF Cons.prems(1) e(1,2)] obtain p1 where p1: "action config e p = Some p1" "reliable_inv config p1" by blast
  show ?case
    by (rule Cons.IH [OF p1(2) event_smooth [OF Cons.prems(1,2) e(1) p1(1) e(2,3) cf]]) (use Cons.prems e(1) p1(1) in simp_all)
qed

end
