(* ===== verification/Worker_Report.thy ===== *)
theory Worker_Report
  imports Worker_Live
begin

text \<open>
  The report of the worker pool: in every run in which all workers were joined, each job that was
  pushed has been consumed once or is counted as abandoned, no memory of a job is left, and the status
  says \<open>ok\<close> only when every requested job was consumed.
\<close>

section \<open>The loops of the report\<close>

lemma collect_loop_spec:
  "collect_loop rs rp = rp\<lparr>
     rp_jobs_consumed := rp_jobs_consumed rp + (\<Sum>r\<leftarrow>rs. consumed r),
     rp_duplicate_jobs := rp_duplicate_jobs rp + (\<Sum>r\<leftarrow>rs. duplicate_jobs r),
     rp_invalid_jobs := rp_invalid_jobs rp + (\<Sum>r\<leftarrow>rs. invalid_jobs r),
     rp_checksum := rp_checksum rp + (\<Sum>r\<leftarrow>rs. result_checksum r),
     rp_status := (if \<exists>r \<in> set rs. queue_error r then RUN_INTERNAL_ERROR else rp_status rp)\<rparr>"
  by (induction rs arbitrary: rp) (simp_all add: ac_simps)

lemma missing_loop_spec:
  assumes "unat index + k \<le> length seen" and "length seen < SIZE_BOUND"
  shows "missing_loop k index seen missing = Some (missing + word_of_nat (length (filter (\<lambda>b. b = 0) (take k (drop (unat index) seen)))))"
  using assms
proof (induction k arbitrary: index missing)
  case (Suc k)
  have "unat index + unat (1 :: size_t) < SIZE_BOUND" using Suc.prems unfolding unat_1 by linarith
  from unat_add_noverflow [OF this] have u: "unat (index + 1) = Suc (unat index)" by simp
  have i: "unat index < length seen" using Suc.prems by simp
  show ?case using Suc.IH [of "index + 1"] Suc.prems(1) Suc.prems(2) i u
    by (simp add: Cons_nth_drop_Suc [symmetric] algebra_simps)
qed simp

lemma deallocate_all_spec:
  assumes "distinct as" and "set as \<subseteq> dom (p_jobs p)"
  shows "deallocate_all as p = Some (p\<lparr>p_jobs := p_jobs p |` (- set as)\<rparr>)"
  using assms
proof (induction as arbitrary: p)
  case Nil
  then show ?case by simp
next
  case (Cons a as)
  let ?p = "p\<lparr>p_jobs := (p_jobs p)(a := None)\<rparr>"
  have d: "deallocate a p = Some ?p" using Cons.prems(2) by (auto simp: deallocate_def)
  have s: "set as \<subseteq> dom (p_jobs ?p)" using Cons.prems by auto
  have "p_jobs ?p |` (- set as) = p_jobs p |` (- set (a # as))"
    by (auto simp: restrict_map_def fun_eq_iff)
  moreover have "deallocate_all as ?p = Some (?p\<lparr>p_jobs := p_jobs ?p |` (- set as)\<rparr>)"
    by (rule Cons.IH [OF _ s]) (use Cons.prems(1) in simp)
  ultimately have "deallocate_all as ?p = Some (p\<lparr>p_jobs := p_jobs p |` (- set (a # as))\<rparr>)" by (simp del: set_simps)
  then show ?case using d by simp
qed

section \<open>When every worker has ended\<close>

lemma all_done:
  assumes "phase_inv config p" and "p_main p = M_Report" and "p_all_joined p" and "w \<in> set (p_workers p)"
  shows "w_pc w = W_Done"
  using assms by (auto simp: phase_inv_def in_set_conv_nth)

lemma queue_owns:
  assumes snd: "sound config p" and ph: "phase_inv config p" and m: "p_main p = M_Report" and j: "p_all_joined p"
  shows "distinct (q_list (p_queue p))" and "set (q_list (p_queue p)) = dom (p_jobs p)" and "flight p = dom (p_jobs p)"
    and "card (flight p) = length (q_list (p_queue p))"
proof -
  have own: "own_inv p" using snd by (simp add: sound_def)
  have "(\<Sum>w\<leftarrow>ws. mset (pc_job (w_pc w))) = {#}" if "\<And>w. w \<in> set ws \<Longrightarrow> w_pc w = W_Done" for ws
    using that by (induction ws) simp_all
  from this [of "p_workers p"] all_done [OF ph m j] have "(\<Sum>w\<leftarrow>p_workers p. mset (pc_job (w_pc w))) = {#}" by blast
  then have ms: "mset (q_list (p_queue p)) = mset_set (dom (p_jobs p))" and fin: "finite (dom (p_jobs p))"
    using own m by (simp_all add: own_inv_def main_job_def)
  show s: "set (q_list (p_queue p)) = dom (p_jobs p)" using arg_cong [OF ms, of set_mset] fin by simp
  show d: "distinct (q_list (p_queue p))" using fin by (simp add: distinct_count_atmost_1 ms count_mset_set' s)
  show f: "flight p = dom (p_jobs p)" using m by (simp add: flight_def main_job_def)
  show "card (flight p) = length (q_list (p_queue p))" unfolding f s [symmetric] by (rule distinct_card [OF d])
qed

lemma missing_flight:
  assumes snd: "sound config p"
  shows "missing_loop (unat (p_produced p)) 0 (p_seen p) 0 = Some (word_of_nat (card (flight p)))"
proof -
  have data: "data_inv config p" using snd by (simp add: sound_def)
  note D = data_invD [OF data]
  let ?n = "unat (p_produced p)"
  have n: "?n \<le> length (p_seen p)" using D(3-5) by simp
  have "length (filter (\<lambda>b. b = 0) (take ?n (p_seen p))) = card {k. k < ?n \<and> p_seen p ! k = 0}"
    using n by (simp add: length_filter_conv_card cong: conj_cong)
  also have "{k. k < ?n \<and> p_seen p ! k = 0} = id_at p ` flight p"
  proof (intro set_eqI iffI)
    fix k assume "k \<in> {k. k < ?n \<and> p_seen p ! k = 0}"
    then show "k \<in> id_at p ` flight p" using D(8) [of k] D(3,4) by (simp split: if_splits)
  next
    fix k assume k: "k \<in> id_at p ` flight p"
    then have "k < ?n" using D(4,7) by auto
    then show "k \<in> {k. k < ?n \<and> p_seen p ! k = 0}" using D(8) [of k] D(3,4) k by simp
  qed
  also have "card (id_at p ` flight p) = card (flight p)" by (rule card_image [OF D(6)])
  finally have c: "length (filter (\<lambda>b. b = 0) (take ?n (p_seen p))) = card (flight p)" .
  show ?thesis using missing_loop_spec [of 0 ?n "p_seen p" 0] n D(5) unat_lt_2p64 [of "jobs config"] by (simp add: c)
qed

lemma report_spec:
  assumes snd: "sound config p" and ph: "phase_inv config p" and m: "p_main p = M_Report" and j: "p_all_joined p"
  shows "\<exists>rp p'. main_report p = Some (rp, p') \<and> p_jobs p' = Map.empty \<and> rp_workers_started rp = length (p_workers p) \<and>
     rp_jobs_produced rp = p_produced p \<and> rp_duplicate_jobs rp = 0 \<and> rp_invalid_jobs rp = 0 \<and>
     rp_jobs_consumed rp + rp_abandoned_jobs rp = rp_jobs_produced rp \<and>
     rp_missing_jobs rp = rp_abandoned_jobs rp \<and> rp_abandoned_jobs rp = q_count (p_queue p) \<and>
     rp_expected_checksum rp = p_expected p \<and>
     (q_count (p_queue p) = 0 \<longrightarrow> rp_checksum rp = rp_expected_checksum rp) \<and>
     rp_status rp = (if q_count (p_queue p) \<noteq> 0 then RUN_DATA_FAILURE
       else if \<exists>w \<in> set (p_workers p). queue_error (w_result w) then RUN_INTERNAL_ERROR else p_status p)"
proof -
  have data: "data_inv config p" and ok: "queue_ok (p_queue p)" using snd by (simp_all add: sound_def own_inv_def)
  note D = data_invD [OF data] and Q = queue_owns [OF snd ph m j]
  from release_loop_spec [OF ok] obtain q where q: "release_loop (p_queue p) = Some (q_list (p_queue p), q)" by blast
  let ?p' = "p\<lparr>p_queue := q, p_jobs := Map.empty\<rparr>"
  have "p_jobs p |` (- dom (p_jobs p)) = Map.empty" by (auto simp: restrict_map_def domIff fun_eq_iff)
  then have d: "deallocate_all (q_list (p_queue p)) (p\<lparr>p_queue := q\<rparr>) = Some ?p'"
    using deallocate_all_spec [of "q_list (p_queue p)" "p\<lparr>p_queue := q\<rparr>"] Q(1,2) by simp
  have ab: "word_of_nat (length (q_list (p_queue p))) = q_count (p_queue p)" by simp
  have zero: "(\<Sum>r\<leftarrow>rs. g r) = 0" if "\<And>r. r \<in> set rs \<Longrightarrow> g r = 0" for g :: "worker_result \<Rightarrow> size_t" and rs
    using that by (induction rs) simp_all
  have z: "(\<Sum>r\<leftarrow>map w_result (p_workers p). duplicate_jobs r) = 0" "(\<Sum>r\<leftarrow>map w_result (p_workers p). invalid_jobs r) = 0"
    using zero [of "map w_result (p_workers p)"] D(9) by auto
  have cs: "(\<Sum>r\<leftarrow>map w_result (p_workers p). consumed r) + q_count (p_queue p) = p_produced p"
    using D(4,10) Q(4) by (simp add: comp_def)
  have ck: "(\<Sum>r\<leftarrow>map w_result (p_workers p). result_checksum r) = p_expected p" if "q_count (p_queue p) = 0"
  proof -
    have "flight p = {}" using Q(2,3) that by (metis length_0_conv list.set(1) q_list_length unat_0)
    then show ?thesis using D(11) by (simp add: comp_def)
  qed
  have err: "(\<exists>r \<in> set (map w_result (p_workers p)). queue_error r) \<longleftrightarrow> (\<exists>w \<in> set (p_workers p). queue_error (w_result w))" by simp
  show ?thesis
    using j q d cs ck missing_flight [OF snd] Q(4)
    unfolding main_report_def Let_def collect_loop_spec err z by (auto simp: eq_neg_iff_add_eq_0)
qed

end
