(* ===== verification/Pool_Laws.thy ===== *)
theory Pool_Laws
  imports Worker_Report
begin

text \<open>
  The worker pool example as a whole: the queue is first in, first out; no run has undefined behaviour
  and the report accounts for every job; runs without errors end, and report that every job was
  consumed.
\<close>

section \<open>The start\<close>

lemma begin_start:
  assumes "main_begin args ta wa sa qa me ee fe = Inr (config, start)" and "unat (queue_capacity config) * 8 < SIZE_BOUND"
  obtains q where "start = pool_start config q" "queue_ok q" "q_list q = []" "\<not> q_closed q" "config_ok config"
proof -
  obtain q where p: "parse_arguments args = Run config" "queue_initialize qa me ee fe (queue_capacity config) = (True, q)"
    "start = pool_start config q"
    using assms(1) by (auto simp: main_begin_def Let_def split: parsed.splits if_splits prod.splits)
  have ok: "config_ok config" using p(1) argument_loop_ok by (simp add: parse_arguments_def)
  then have "queue_capacity config \<noteq> 0" by (simp add: config_ok_def)
  from queue_initialize_ok [OF p(2) this assms(2)] p(3) ok that show ?thesis by blast
qed

lemma begin_reliable:
  assumes "main_begin args ta wa sa qa me ee fe = Inr (config, start)" and "unat (queue_capacity config) * 8 < SIZE_BOUND"
  shows "reliable_inv config start" and "sound config start" and "phase_inv config start" and "smooth_inv start"
    and "pool_measure config start = unat (workers config) * 4 + unat (jobs config) * 6 + 7"
proof -
  from begin_start [OF assms] obtain q where q: "start = pool_start config q" "queue_ok q" "q_list q = []" "\<not> q_closed q"
    "config_ok config" .
  then have n: "unat (q_count q) = 0" using q_list_length [of q] by simp
  show "reliable_inv config start" using q reliable_start by (simp add: config_ok_def)
  then show "sound config start" "phase_inv config start" by (simp_all add: reliable_inv_def)
  show "smooth_inv start" unfolding q(1) by (simp add: smooth_inv_def pool_start_def)
  show "pool_measure config start = unat (workers config) * 4 + unat (jobs config) * 6 + 7"
    unfolding q(1) run_start_measure n by simp
qed

lemma reach_phase: "pool_reach config r start p \<Longrightarrow> sound config start \<Longrightarrow> phase_inv config start \<Longrightarrow> sound config p \<and> phase_inv config p"
proof (induction rule: pool_reach.induct)
  case (event p e p')
  then have p: "sound config p" "phase_inv config p" by simp_all
  have "sound config p'" using event_sound [OF p(1) event.hyps(2)] event.hyps(4) by simp
  then show ?case using event_phase [OF p event.hyps(2,4)] by simp
qed simp

text \<open>At the end of a run without errors the queue is empty.\<close>

lemma report_empty:
  assumes inv: "reliable_inv config p" and m: "p_main p = M_Report"
  shows "q_count (p_queue p) = 0"
proof -
  have snd: "sound config p" and ph: "phase_inv config p" and wt: "wait_inv p" and cl: "clean_inv p"
    using inv by (simp_all add: reliable_inv_def)
  have j: "p_all_joined p" using cl by (simp add: clean_inv_def)
  show ?thesis
  proof (cases "p_workers p")
    case Nil
    then have i: "unat (p_index p) = 0" using cl by (simp add: clean_inv_def)
    have "data_inv config p" using snd by (simp add: sound_def)
    from data_invD(7) [OF this] i have "flight p = {}" by auto
    then show ?thesis using queue_owns(4) [OF snd ph m j] by (simp add: unat_eq_zero)
  next
    case (Cons w ws)
    then have "w_pc w = W_Done" using all_done [OF ph m j] by simp
    then show ?thesis using wt Cons unfolding wait_inv_def by auto
  qed
qed

section \<open>Example\<close>

definition demo_arguments :: "string list" where
  "demo_arguments = [''--workers'', ''1'', ''--jobs'', ''1'', ''--queue-capacity'', ''1'', ''--seed'', ''52'']"

definition demo_config :: configuration where
  "demo_config = \<lparr>workers = 1, jobs = 1, queue_capacity = 1, seed = 52, fail_allocation_at = 0, fail_thread_at = 0\<rparr>"

definition demo_queue :: job_queue where
  "demo_queue = \<lparr>q_slots = [NULL], q_capacity = 1, q_head = 0, q_count = 0, q_closed = False\<rparr>"

text \<open>The worker waits before the job is pushed, and is woken for it.\<close>

definition demo_events :: "pool_event list" where
  "demo_events = [Create 0, Create 0, Pop 0 0 0 0 0 0 0, Produce 4096 [7], Push 0 0 (Some 0), Produce 8192 [7],
     Pop 0 0 0 0 0 0 0, Close 0 0 0 0, Process 0, Pop 0 0 0 0 0 0 0, Join 0, Join 0]"

lemma demo_begin: "main_begin demo_arguments True True True True 0 0 0 = Inr (demo_config, pool_start demo_config demo_queue)"
  by (simp add: main_begin_def demo_arguments_def parse_arguments_def parse_option_def parse_size_def parse_seed_def strtoull_def
    is_space_def is_digit_def digits_value_def queue_initialize_def default_configuration_def demo_config_def demo_queue_def
    size_t_less_iff)

lemma demo_capacity: "unat (queue_capacity demo_config) * 8 < SIZE_BOUND"
  by (simp add: demo_config_def)

lemma demo_ends: "case pool_run demo_config demo_events (pool_start demo_config demo_queue) of None \<Rightarrow> False | Some p \<Rightarrow> p_main p = M_Report \<and> p_produced p = 1"
  by code_simp

lemma demo_smooth: "list_all no_error demo_events" "list_all smooth demo_events"
  by code_simp+

lemma demo_final:
  obtains p where "pool_run demo_config demo_events (pool_start demo_config demo_queue) = Some p" "p_main p = M_Report" "p_produced p = 1"
  using demo_ends by (auto split: option.splits)

section \<open>The command line\<close>

text \<open>
  C24: numbers on the command line of the worker pool.  Whatever the text, it is accepted exactly when it
  consists of white space, an optional sign and decimal digits with nothing behind them, does not start
  with a minus sign, and the value of the digits fits 64 bits; the result is that value, negated modulo
  2^64 behind a minus sign.  Every other text and the null pointer are refused, and leave the output
  alone: the empty text, \<open>"12x"\<close>, \<open>"0x10"\<close>, \<open>"+"\<close>, \<open>"1 "\<close>, \<open>"-1"\<close> and what the report prints for zero.
  What \<open>printf("%zu")\<close> and the report print for a non-zero number is read back as that number.  The test
  for a leading minus sign does not see one behind a blank: \<open>" -1"\<close> is read as \<open>SIZE_MAX\<close>.  A
  configuration that \<open>parse_arguments\<close> accepts has at least one worker and a non-empty queue, and injected
  failures within the numbers of workers and jobs.
\<close>

theorem command_line_numbers:
  "(parse_size (Some t) v = (True, n) \<longleftrightarrow> hd t \<noteq> CHR ''-'' \<and>
      (\<exists>sp sg ds. t = sp @ sg @ ds \<and> list_all is_space sp \<and> sg \<in> {[], ''-'', ''+''} \<and> list_all is_digit ds \<and> ds \<noteq> [] \<and>
         digits_value ds < SIZE_BOUND \<and>
         n = (if sg = ''-'' then - word_of_nat (digits_value ds) else word_of_nat (digits_value ds)))) \<and>
   (fst (parse_size arg v) \<or> parse_size arg v = (False, v)) \<and> parse_seed arg v = parse_size arg v \<and>
   (\<forall>bad \<in> {[], ''12x'', ''0x10'', ''+'', ''1 '', ''-1''}. parse_size (Some bad) v = (False, v)) \<and>
   parse_size (Some (decimal (unat n))) v = (True, n) \<and> parse_seed (Some (decimal (unat n))) v = (True, n) \<and>
   (n \<noteq> 0 \<longrightarrow> parse_size (Some (print_nullable_size n)) v = (True, n)) \<and> parse_size (Some (print_nullable_size 0)) v = (False, v) \<and>
   (list_all is_digit ds \<and> ds \<noteq> [] \<longrightarrow>
      parse_size (Some ds) v = (if digits_value ds < SIZE_BOUND then (True, word_of_nat (digits_value ds)) else (False, v))) \<and>
   parse_size None v = (False, v) \<and> parse_size (Some ''-1'') v = (False, v) \<and> parse_size (Some '' -1'') v = (True, SIZE_MAX) \<and>
   (parse_arguments args = Run config \<longrightarrow> config_ok config)"
proof -
  have d: "parse_size (Some (decimal (unat n))) v = (True, n)" "parse_seed (Some (decimal (unat n))) v = (True, n)"
    using parse_digits [of "decimal (unat n)" v] decimal_digits [of "unat n"] unat_lt_2p64 [of n] by (simp_all add: digits_value_decimal)
  have "parse_size (Some (print_nullable_size 0)) v = (False, v)"
    by (simp add: parse_size_def print_nullable_size_def strtoull_def is_space_def is_digit_def)
  moreover have "n \<noteq> 0 \<longrightarrow> parse_size (Some (print_nullable_size n)) v = (True, n)" using d(1) by (simp add: print_nullable_size_def)
  moreover have "parse_size None v = (False, v)" "parse_size (Some ''-1'') v = (False, v)" by (simp_all add: parse_size_def)
  moreover have "parse_arguments args = Run config \<longrightarrow> config_ok config" using argument_loop_ok by (simp add: parse_arguments_def)
  moreover have "\<forall>bad \<in> {[], ''12x'', ''0x10'', ''+'', ''1 '', ''-1''}. parse_size (Some bad) v = (False, v)"
    by (simp add: parse_size_def strtoull_def is_space_def is_digit_def digits_value_def)
  ultimately show ?thesis
    using d parse_digits(1) parse_size_negative parse_size_accepts [of t v n, unfolded numeral_text_def signed_value_def]
      parse_size_refuses [of arg v] parse_seed_same [of arg v] by (simp only: simp_thms) blast
qed

lemma command_line_numbers_witness:
  "parse_size (Some ''18446744073709551616'') 3 = (False, 3) \<and> parse_size (Some '' +007'') 3 = (True, 7) \<and>
   parse_size (Some ''7 7'') 3 \<noteq> (True, 7) \<and> config_ok demo_config"
proof -
  have p: "parse_arguments demo_arguments = Run demo_config" using demo_begin by (auto simp: main_begin_def Let_def split: parsed.splits if_splits prod.splits)
  have big: "list_all is_digit ''18446744073709551616''" "digits_value ''18446744073709551616'' = 18446744073709551616"
    by (simp_all add: is_digit_def digits_value_def)
  have "parse_size (Some '' +007'') 3 = (True, 7)"
  proof (rule command_line_numbers [where t = "'' +007''" and v = 3 and n = 7, THEN conjunct1, THEN iffD2], intro conjI exI)
    show "'' +007'' = '' '' @ ''+'' @ ''007''" by simp
  qed (simp_all add: is_digit_def digits_value_def is_space_def)
  moreover have "parse_size (Some ''7 7'') 3 \<noteq> (True, 7)"
    by (simp add: parse_size_def strtoull_def is_space_def is_digit_def digits_value_def)
  ultimately show ?thesis
    using big p command_line_numbers [where n = 0 and v = 3 and ds = "''18446744073709551616''" and args = demo_arguments and config = demo_config]
    by simp
qed

section \<open>The queue\<close>

text \<open>
  C37: The queue of the worker pool is a bounded first-in first-out queue.  A ring buffer that holds the
  jobs \<open>q_list q\<close> and has room for the jobs \<open>xs\<close> accepts them all without waiting, and taking as many
  jobs as it then holds, again without waiting, gives the old jobs in order and then the new ones.  A
  push on a full open queue waits and one on a closed queue returns 0; a pop on an empty queue waits
  while it is open and returns 0 once it is closed.  No slot outside the buffer is touched.
\<close>

theorem worker_queue_fifo:
  assumes "queue_ok q" and "\<not> q_closed q" and "length xs \<le> unat (q_capacity q) - unat (q_count q)"
  shows "(\<exists>q1 q2. push_all push_at_once xs q = Some q1 \<and>
      pop_many pop_at_once (length (q_list q) + length xs) q1 = Some (q_list q @ xs, q2) \<and> q_list q2 = []) \<and>
    (q_count q = q_capacity q \<longrightarrow> queue_push_pass x q = Some (Waits, q)) \<and>
    queue_push_pass x (q\<lparr>q_closed := True\<rparr>) = Some (Returns 0, q\<lparr>q_closed := True\<rparr>) \<and>
    (q_list q = [] \<longrightarrow> queue_pop_pass q = Some (Waits, q) \<and>
       queue_pop_pass (q\<lparr>q_closed := True\<rparr>) = Some (Returns (0, NULL), q\<lparr>q_closed := True\<rparr>))"
proof (intro conjI impI)
  have closed: "queue_ok (q\<lparr>q_closed := True\<rparr>)" "q_list (q\<lparr>q_closed := True\<rparr>) = q_list q"
    using assms(1) by (simp_all add: queue_ok_def q_list_def)
  show "\<exists>q1 q2. push_all push_at_once xs q = Some q1 \<and>
      pop_many pop_at_once (length (q_list q) + length xs) q1 = Some (q_list q @ xs, q2) \<and> q_list q2 = []"
    by (rule job_fifo.in_order) (use assms in simp_all)
  show "queue_push_pass x q = Some (Waits, q)" if "q_count q = q_capacity q" by (rule push_pass(2) [OF assms(1,2) that])
  show "queue_push_pass x (q\<lparr>q_closed := True\<rparr>) = Some (Returns 0, q\<lparr>q_closed := True\<rparr>)" by (rule push_pass(1) [OF closed(1)]) simp
  show "queue_pop_pass q = Some (Waits, q)" if "q_list q = []" by (rule pop_pass(1) [OF assms(1) that assms(2)])
  show "queue_pop_pass (q\<lparr>q_closed := True\<rparr>) = Some (Returns (0, NULL), q\<lparr>q_closed := True\<rparr>)" if "q_list q = []"
    by (rule pop_pass(2) [OF closed(1)]) (simp_all add: closed(2) that)
qed

lemma worker_queue_fifo_witness:
  "queue_ok demo_queue \<and> (\<exists>q1 q2. push_all push_at_once [4096] demo_queue = Some q1 \<and>
     pop_many pop_at_once 1 q1 = Some ([4096], q2) \<and> q_list q2 = [])"
proof -
  have q: "queue_ok demo_queue" "\<not> q_closed demo_queue" "length [4096 :: addr] \<le> unat (q_capacity demo_queue) - unat (q_count demo_queue)"
    "q_list demo_queue = []" by (simp_all add: demo_queue_def queue_ok_def q_list_def)
  show ?thesis using worker_queue_fifo [OF q(1-3)] q by simp
qed

section \<open>The pool\<close>

text \<open>
  C38: Safety of the worker pool in every run, whichever of its thread calls fail (locks, waits,
  signals, broadcasts, joins, thread creation, allocations), after any accepted command line.  Every
  step a thread can take is defined: no access outside the queue or the \<open>seen\<close> flags, no use of a job
  after it was freed and no second free.  The report is always computed.  If all workers were joined, no
  job is left allocated, none was consumed twice or with wrong contents, every pushed job was either
  consumed or is counted as abandoned, and the missing jobs are the abandoned ones.  A status of
  \<open>RUN_OK\<close> is given only when every requested job was produced and consumed with the right checksum.
\<close>

theorem worker_pool_safe:
  assumes start: "main_begin args ta wa sa qa me ee fe = Inr (config, start)" and slots: "unat (queue_capacity config) * 8 < SIZE_BOUND"
    and run: "pool_reach config False start p"
  shows "(\<forall>e. enabled config e p \<longrightarrow> action config e p \<noteq> None) \<and>
    (p_main p = M_Report \<longrightarrow> (\<exists>rp p'. main_report p = Some (rp, p') \<and>
       (p_all_joined p \<longrightarrow> p_jobs p' = Map.empty \<and> rp_duplicate_jobs rp = 0 \<and> rp_invalid_jobs rp = 0 \<and>
          rp_jobs_consumed rp + rp_abandoned_jobs rp = rp_jobs_produced rp \<and> rp_missing_jobs rp = rp_abandoned_jobs rp) \<and>
       (rp_status rp = RUN_OK \<longrightarrow> p_all_joined p \<and> rp_jobs_produced rp = jobs config \<and> rp_jobs_consumed rp = jobs config \<and>
          rp_missing_jobs rp = 0 \<and> rp_abandoned_jobs rp = 0 \<and> rp_checksum rp = rp_expected_checksum rp)))"
proof -
  from reach_phase [OF run begin_reliable(2,3) [OF start slots]] have snd: "sound config p" and ph: "phase_inv config p" by simp_all
  have idx: "p_produced p = p_index p" using snd data_invD(4) [of config p] by (simp add: sound_def)
  show ?thesis
  proof (intro conjI allI impI, goal_cases)
    case (1 e)
    with event_sound [OF snd] show ?case by blast
  next
    case m: 2
    show ?case
    proof (cases "p_all_joined p")
      case True
      from report_spec [OF snd ph m True] obtain rp p' where rp: "main_report p = Some (rp, p')" "p_jobs p' = Map.empty"
        "rp_jobs_produced rp = p_produced p" "rp_duplicate_jobs rp = 0" "rp_invalid_jobs rp = 0"
        "rp_jobs_consumed rp + rp_abandoned_jobs rp = rp_jobs_produced rp" "rp_missing_jobs rp = rp_abandoned_jobs rp"
        "rp_abandoned_jobs rp = q_count (p_queue p)" "q_count (p_queue p) = 0 \<longrightarrow> rp_checksum rp = rp_expected_checksum rp"
        "rp_status rp = (if q_count (p_queue p) \<noteq> 0 then RUN_DATA_FAILURE
          else if \<exists>w \<in> set (p_workers p). queue_error (w_result w) then RUN_INTERNAL_ERROR else p_status p)" by blast
      have "q_count (p_queue p) = 0 \<and> p_status p = RUN_OK" if "rp_status rp = RUN_OK" using that rp(10) by (simp split: if_splits)
      moreover have "p_status p = RUN_OK \<longrightarrow> p_index p = jobs config" using ph m by (simp add: phase_inv_def)
      ultimately have "q_count (p_queue p) = 0 \<and> p_index p = jobs config" if "rp_status rp = RUN_OK" using that by blast
      moreover have "rp_jobs_consumed rp = rp_jobs_produced rp" if "q_count (p_queue p) = 0" using rp(6,8) that by simp
      ultimately have "rp_status rp = RUN_OK \<longrightarrow> p_all_joined p \<and> rp_jobs_produced rp = jobs config \<and> rp_jobs_consumed rp = jobs config \<and>
          rp_missing_jobs rp = 0 \<and> rp_abandoned_jobs rp = 0 \<and> rp_checksum rp = rp_expected_checksum rp"
        using rp(3,7-9) True idx by simp
      then show ?thesis using rp(1,2,4-7) by blast
    next
      case False
      then have "p_status p = RUN_INTERNAL_ERROR" using ph by (simp add: phase_inv_def)
      then show ?thesis using False by (simp add: main_report_def Let_def)
    qed
  qed
qed

lemma worker_pool_safe_witness:
  "\<exists>p rp p'. pool_reach demo_config False (pool_start demo_config demo_queue) p \<and> main_report p = Some (rp, p') \<and>
     (p_all_joined p \<longrightarrow> p_jobs p' = Map.empty)"
proof -
  obtain p where p: "pool_run demo_config demo_events (pool_start demo_config demo_queue) = Some p" "p_main p = M_Report" "p_produced p = 1"
    by (rule demo_final)
  have "pool_reach demo_config False (pool_start demo_config demo_queue) p" by (rule run_reach [OF p(1)]) simp
  with worker_pool_safe [OF demo_begin demo_capacity this] p(2) show ?thesis by blast
qed

text \<open>
  C39: A run of the worker pool in which no lock, wait, signal, broadcast, unlock or join fails never
  blocks and always ends.  The threads take at most \<open>4 * workers + 6 * jobs + 7\<close> steps, plus one for
  every wait that ends without a signal; and until \<open>main\<close> has joined all workers and reports, some
  thread can take a step that is not such a wake-up.  There is no deadlock and no lost wake-up.
\<close>

theorem worker_pool_ends:
  assumes start: "main_begin args ta wa sa qa me ee fe = Inr (config, start)" and slots: "unat (queue_capacity config) * 8 < SIZE_BOUND"
    and ne: "list_all no_error es" and run: "pool_run config es start = Some p"
  shows "length (filter (\<lambda>e. \<not> spurious e) es) \<le> 4 * unat (workers config) + 6 * unat (jobs config) + 7 + length (filter spurious es) \<and>
    (p_main p = M_Report \<or> (\<exists>e p'. enabled config e p \<and> no_error e \<and> \<not> spurious e \<and> action config e p = Some p'))"
proof
  note B = begin_reliable [OF start slots] and R = run_bounded [OF begin_reliable(1) [OF start slots] ne run]
  show "length (filter (\<lambda>e. \<not> spurious e) es) \<le> 4 * unat (workers config) + 6 * unat (jobs config) + 7 + length (filter spurious es)"
    using R(2) unfolding B(5) by simp
  show "p_main p = M_Report \<or> (\<exists>e p'. enabled config e p \<and> no_error e \<and> \<not> spurious e \<and> action config e p = Some p')"
    using progress [OF R(1)] reliable_event [OF R(1)] by metis
qed

lemma worker_pool_ends_witness:
  "\<exists>p. pool_run demo_config (take 3 demo_events) (pool_start demo_config demo_queue) = Some p \<and>
     (\<exists>e p'. enabled demo_config e p \<and> no_error e \<and> \<not> spurious e \<and> action demo_config e p = Some p')"
proof -
  have "case pool_run demo_config (take 3 demo_events) (pool_start demo_config demo_queue) of None \<Rightarrow> False | Some p \<Rightarrow> p_main p \<noteq> M_Report"
    by code_simp
  then obtain p where p: "pool_run demo_config (take 3 demo_events) (pool_start demo_config demo_queue) = Some p" "p_main p \<noteq> M_Report"
    by (auto split: option.splits)
  have "list_all no_error (take 3 demo_events)" by code_simp
  with worker_pool_ends [OF demo_begin demo_capacity this p(1)] p show ?thesis by blast
qed

text \<open>
  C40: What the worker pool reports at the end of a run in which no lock, wait, signal, broadcast, unlock
  or join failed.  Whatever the interleaving, every produced job was consumed exactly once and with valid
  contents: the counts agree, there are no duplicate, invalid, missing or abandoned jobs, the checksums
  are equal and no job is left allocated.  The status is \<open>RUN_OK\<close> and all jobs were produced, or it is
  the allocation or thread failure that stopped the production; without an injected failure and with
  allocations and thread creations that succeed the status is \<open>RUN_OK\<close> and the exit code 0.
\<close>

theorem worker_pool_report:
  assumes start: "main_begin args ta wa sa qa me ee fe = Inr (config, start)" and slots: "unat (queue_capacity config) * 8 < SIZE_BOUND"
    and ne: "list_all no_error es" and run: "pool_run config es start = Some p" and m: "p_main p = M_Report"
  shows "\<exists>rp p'. main_report p = Some (rp, p') \<and> p_jobs p' = Map.empty \<and>
    rp_jobs_consumed rp = rp_jobs_produced rp \<and> rp_checksum rp = rp_expected_checksum rp \<and> rp_duplicate_jobs rp = 0 \<and>
    rp_invalid_jobs rp = 0 \<and> rp_missing_jobs rp = 0 \<and> rp_abandoned_jobs rp = 0 \<and>
    rp_status rp \<in> {RUN_OK, RUN_ALLOCATION_FAILURE, RUN_THREAD_FAILURE} \<and>
    (rp_status rp = RUN_OK \<longrightarrow> rp_jobs_produced rp = jobs config) \<and>
    (rp_status rp = RUN_THREAD_FAILURE \<longrightarrow> rp_jobs_produced rp = 0) \<and>
    (list_all smooth es \<and> fail_thread_at config = 0 \<and> fail_allocation_at config = 0 \<longrightarrow>
       rp_status rp = RUN_OK \<and> status_exit_code (rp_status rp) = 0)"
proof -
  note B = begin_reliable [OF start slots]
  have inv: "reliable_inv config p" by (rule run_bounded(1) [OF B(1) ne run])
  then have snd: "sound config p" and ph: "phase_inv config p" and wt: "wait_inv p" and cl: "clean_inv p"
    by (simp_all add: reliable_inv_def)
  have j: "p_all_joined p" and err: "\<not> (\<exists>w \<in> set (p_workers p). queue_error (w_result w))" using cl by (auto simp: clean_inv_def)
  have idx: "p_produced p = p_index p" using snd data_invD(4) [of config p] by (simp add: sound_def)
  have z: "q_count (p_queue p) = 0" by (rule report_empty [OF inv m])
  from report_spec [OF snd ph m j] z err obtain rp p' where rp: "main_report p = Some (rp, p')" "p_jobs p' = Map.empty"
    "rp_jobs_produced rp = p_produced p" "rp_duplicate_jobs rp = 0" "rp_invalid_jobs rp = 0"
    "rp_jobs_consumed rp + rp_abandoned_jobs rp = rp_jobs_produced rp" "rp_missing_jobs rp = rp_abandoned_jobs rp"
    "rp_abandoned_jobs rp = 0" "rp_checksum rp = rp_expected_checksum rp" "rp_status rp = p_status p" by auto
  have ok: "p_status p = RUN_OK" if "list_all smooth es" "fail_thread_at config = 0" "fail_allocation_at config = 0"
    by (rule run_smooth [OF B(1,4) ne that(1) run that(2,3)])
  have st: "p_status p \<in> {RUN_OK, RUN_ALLOCATION_FAILURE, RUN_THREAD_FAILURE}" "p_status p = RUN_THREAD_FAILURE \<Longrightarrow> p_index p = 0"
    using cl by (simp_all add: clean_inv_def)
  have all: "p_index p = jobs config" if "p_status p = RUN_OK" using ph m that by (simp add: phase_inv_def)
  show ?thesis using rp ok st all idx by (intro exI [of _ rp] exI [of _ p']) simp
qed

lemma worker_pool_report_witness:
  "\<exists>p rp p'. pool_run demo_config demo_events (pool_start demo_config demo_queue) = Some p \<and> main_report p = Some (rp, p') \<and>
     rp_jobs_consumed rp = 1 \<and> rp_status rp = RUN_OK \<and> p_jobs p' = Map.empty"
proof -
  obtain p where p: "pool_run demo_config demo_events (pool_start demo_config demo_queue) = Some p" "p_main p = M_Report" "p_produced p = 1"
    by (rule demo_final)
  have cf: "fail_thread_at demo_config = 0" "fail_allocation_at demo_config = 0" "jobs demo_config = 1" by (simp_all add: demo_config_def)
  show ?thesis
    using worker_pool_report [OF demo_begin demo_capacity demo_smooth(1) p(1,2)] demo_smooth(2) cf p(1) by auto
qed

end
