(* ===== verification/Spec2Isabelle.thy ===== *)
theory Spec2Isabelle
  imports Component_Laws Pool_Laws
begin

text \<open>
  hplf-malloc is a memory allocator in C with a malloc-compatible interface
  (\<open>include/hplf/allocator.h\<close>), in two variants: one mutex around everything, or per-thread caches over
  shared chains.  This development models its implementation (\<open>src/*.c\<close>, \<open>src/*.h\<close>) and the worker pool
  example (\<open>examples/worker_pool.c\<close>) and proves them correct.

  \<^bold>\<open>The program.\<close>  A request of at most 4096 bytes is served from a slab: a mapping of at least 64 KiB
  that is cut into equal slots for one of sixteen size classes; a larger one gets a mapping of its own.
  A prefix in front of every payload says which slab or mapping it belongs to, and links the free blocks
  of a class.  The locked variant keeps one free list for each class under a mutex.  The cached variant keeps free
  blocks in a bounded private cache of each thread; caches exchange blocks through one shared chain for
  each class, are created on first use and flushed when the thread ends.  A quiescent trim unmaps the
  slabs that are entirely free.

  \<^bold>\<open>Theories\<close>, bottom up, with the code they model.
  \<^item> \<open>HPLF_Prelude\<close>: machine types (\<open>size_t\<close> and addresses are 64-bit words), C arrays, lemmas on words.
    \<open>Chains\<close>, \<open>Tables\<close>: linked lists in a heap (locale \<open>linked_heap\<close>); counting the entries of a table
    of lists.
  \<^item> \<open>Checked_Math\<close> (\<open>checked_math.h\<close>), \<open>Size_Class\<close> (\<open>size_class.h/.c\<close>), \<open>Block\<close> (\<open>block.h\<close>),
    \<open>Slab_Layout\<close> (\<open>slab.h\<close>): arithmetic and layouts, on words with wrap-around.  The four checked
    operations share the locale \<open>checked_operation\<close>.
  \<^item> \<open>Memory_Model\<close>: a typed memory (block prefixes, slab headers, bytes), the mappings and the
    environment that answers the system calls.  \<open>Os_Memory\<close> (\<open>os_memory.h/.c\<close>), \<open>Slab\<close> (\<open>slab.c\<close>):
    mapping, unmapping, fault injection, slab creation.
  \<^item> \<open>Arena\<close>, \<open>Free_Lists\<close>, \<open>Pools\<close>: the well-formedness of the heap: slabs and large mappings are
    disjoint, every block lies in one of them, the free blocks of a class are linked or divided up among
    several owners.
  \<^item> \<open>Allocator_Large\<close>, \<open>Allocator_Api\<close>, \<open>Trim\<close>, \<open>Allocator_Locked\<close> (\<open>allocator.c\<close>, locked variant):
    \<open>hplf_malloc\<close>, \<open>hplf_free\<close>, \<open>hplf_calloc\<close>, \<open>hplf_realloc\<close>, \<open>hplf_trim_quiescent\<close>.  The locale
    \<open>allocator\<close> states what \<open>malloc\<close> and \<open>free\<close> promise; what \<open>calloc\<close>, \<open>realloc\<close> and a client see is
    proved inside it (\<open>Client\<close>, \<open>Public_View\<close>) and holds for both variants, which interpret it.
  \<^item> \<open>Transfer_List\<close> (\<open>transfer_list.h\<close>), \<open>Transfer_Mutex\<close> (\<open>transfer_mutex.c\<close>), \<open>Transfer_Atomic\<close>
    (\<open>transfer_atomic.c\<close>): handing chains of blocks between threads; the two implementations interpret
    the locale \<open>transfer\<close>.  For the lock-free one there is also a step relation for any number of
    threads that interleave at every atomic action.
  \<^item> \<open>Thread_Cache\<close> (\<open>thread_cache.c\<close>), \<open>Thread_Cache_Lifecycle\<close> (\<open>thread_cache_lifecycle.c\<close>): the
    cache, its limits, and its descriptor from creation to the end of the thread.
  \<^item> \<open>Allocator_Cached\<close>, \<open>Cached_Calls\<close>, \<open>Cached_Threads\<close>, \<open>Cached_Trim\<close>, \<open>Cached_Snapshot\<close>
    (\<open>allocator.c\<close>, cached variant and its self-check), \<open>Program\<close>: runs of a program with many threads.
  \<^item> \<open>Worker_Jobs\<close>, \<open>Worker_Queue\<close>, \<open>Worker_Pool\<close> (\<open>examples/worker_pool.c\<close>): jobs and command line,
    the bounded queue (locale \<open>fifo\<close>), and the threads as a transition system whose events carry the
    results of the thread calls.  \<open>Worker_Data\<close>, \<open>Worker_Control\<close>, \<open>Worker_Live\<close>, \<open>Worker_Report\<close>: its
    invariants, progress and termination, and the report.
  \<^item> \<open>Demo\<close>, \<open>Demo_Cached\<close>: a concrete operating system on which the properties are applied.

  \<^bold>\<open>State and errors.\<close>  C structs are records, enums datatypes.  An operation takes and returns the
  state of the component (\<open>locked_state\<close>, \<open>cached_state\<close>, \<open>lifecycle_state\<close>, \<open>atomic_state\<close>, \<open>pool\<close>);
  static variables and thread-local variables are fields of it.  \<open>None\<close> is undefined behaviour (an
  access outside a mapping or an array, a dangling pointer, locking a mutex twice); failures that the
  code handles are values (a null pointer with \<open>errno\<close>, \<open>False\<close>, an error code), and every early return is
  a branch.  That a result is \<open>Some\<close> is therefore part of every theorem on an operation.

  \<^bold>\<open>Parameters.\<close>  \<open>sysconf\<close>, \<open>mmap\<close>, \<open>munmap\<close> and the POSIX thread calls are functions of an
  environment; \<open>os_ok\<close>, \<open>maps_ok\<close> and similar predicates state what POSIX documents of them (a mapping
  is page-aligned, zero-filled and disjoint from the others, page sizes are powers of two), and failures are
  allowed everywhere.  In the worker pool they are arguments of the events.

  \<^bold>\<open>Loops.\<close>  Loops over counters are structural recursion or have a measure.  The loops that follow
  links (\<open>detach_loop\<close>, \<open>trim_loop\<close>, \<open>find_tail\<close>, \<open>evict_loop\<close>, \<open>publish_loop\<close> and the walks of the
  self-check) may run for ever on a broken heap: they are \<open>partial_function (option)\<close>, and that they
  return on every well-formed heap is proved, for the self-check on any lists that end.  No fuel is used.

  \<^bold>\<open>Properties.\<close>  C1 to C8 are on the locked allocator: refinement of an abstract table of buffers for
  any client, and the contract of each call.  C9 to C20 are on the cached allocator: the same
  refinement for programs with many threads, each block in one place, the limits of the caches, each
  call, the end of a thread (its cache published, its descriptor unmapped), trimming, what the
  self-check accepts and refuses, and termination of the eviction loop.  C21 to C36
  (\<open>Component_Laws\<close>; C24, the texts that are accepted as numbers, in \<open>Pool_Laws\<close>) are on the single
  components, among them that a thread alone always leaves the lock-free lists (C32).  C37 to C40
  (\<open>Pool_Laws\<close>) are on the worker pool: the queue, safety in every run, termination and the report.

  \<^bold>\<open>Not modelled.\<close>  Weak memory: atomic operations are sequentially consistent, and the calls of the
  cached allocator interleave as wholes (inside a call the shared state is only accessed under the
  mutex or in the transfer lists, whose interleavings are modelled).  No variant of the
  allocator uses the lock-free lists yet; they are verified on their own.  \<open>hplf_transfer_atomic_is_lock_free\<close> and alignment attributes are properties of the compiler.  The
  benchmarks measure time; their queue and workloads, the adapters (one-line forwarding), tests and
  scripts are left out, as are the messages and the JSON line that the worker pool prints.
\<close>

section \<open>The public interface, locked baseline\<close>



text \<open>
  C2: \<open>hplf_malloc\<close> always returns, and keeps the invariant.  It returns null, or the payload of a
  block that was not live before and now records the request; the payload is aligned to 16, lies in
  mapped memory and overlaps no other live payload.  In both cases every block that was live stays
  live with its bytes.  A refusal sets \<open>errno\<close>.
\<close>

theorem malloc_correct:
  assumes "os_ok env" and "locked_inv env s A"
  shows "\<exists>r s' A'. hplf_malloc env sz s = Some (r, s') \<and> locked_inv env s' A' \<and> kept (live_blocks s A) s s' \<and>
    (if r = NULL then live_blocks s' A' = live_blocks s A \<and> (sz = 0 \<or> errno s' = failure_errno env s sz)
     else sz \<noteq> 0 \<and> sz \<le> PTRDIFF_MAX \<and> r - 48 \<notin> live_blocks s A \<and>
       live_blocks s' A' = insert (r - 48) (live_blocks s A) \<and> request s' (r - 48) = unat sz \<and>
       serves s' sz (r - 48) \<and> 16 dvd unat r \<and> mapped s' r (unat sz) \<and>
       (\<forall>q. q \<in> live_blocks s A \<longrightarrow> disjoint_ranges r (unat sz) (q + 48) (request s' q)))"
proof -
  from malloc_locked [OF assms, of sz] obtain r s' A' where m: "hplf_malloc env sz s = Some (r, s')"
    "locked_inv env s' A'" "r = NULL \<and> (sz \<noteq> 0 \<longrightarrow> errno s' = failure_errno env s sz) \<and> refused s A s' A' \<or>
      sz \<noteq> 0 \<and> sz \<le> PTRDIFF_MAX \<and> (\<exists>p. r = p + 48 \<and> granted p sz s A s' A' \<and> serves s' sz p)" by blast
  from m(3) show ?thesis
  proof (elim disjE exE conjE)
    assume "r = NULL" "sz \<noteq> 0 \<longrightarrow> errno s' = failure_errno env s sz" "refused s A s' A'"
    with m(1,2) show ?thesis by (auto simp: refused_def)
  next
    fix p assume sz: "sz \<noteq> 0" "sz \<le> PTRDIFF_MAX" and r: "r = p + 48" and g: "granted p sz s A s' A'"
      and sv: "serves s' sz p"
    note v = locked.granted_view [OF assms(1) m(2) g r]
    show ?thesis using m(1,2) sz r sv v by (intro exI [of _ r] exI [of _ s'] exI [of _ A']) simp
  qed
qed

theorem malloc_correct_witness:
  "os_ok demo_env \<and> locked_inv demo_env demo_locked empty_abs \<and>
   (\<exists>r s' A'. hplf_malloc demo_env 40 demo_locked = Some (r, s') \<and> locked_inv demo_env s' A' \<and>
      kept (live_blocks demo_locked empty_abs) demo_locked s' \<and> r \<noteq> NULL \<and>
      live_blocks s' A' = {r - 48} \<and> request s' (r - 48) = 40 \<and> 16 dvd unat r \<and> mapped s' r 40)"
proof -
  from malloc_correct [OF demo_env_ok demo_inv(1), of 40] obtain r s' A' where
    m: "hplf_malloc demo_env 40 demo_locked = Some (r, s')" "locked_inv demo_env s' A'"
    "kept (live_blocks demo_locked empty_abs) demo_locked s'"
    "r \<noteq> NULL \<longrightarrow> live_blocks s' A' = insert (r - 48) (live_blocks demo_locked empty_abs) \<and>
       request s' (r - 48) = unat (40 :: size_t) \<and> 16 dvd unat r \<and> mapped s' r (unat (40 :: size_t))"
    by (auto split: if_splits)
  have "r \<noteq> NULL" by (rule demo_nonnull [OF demo_small_served m(1)])
  with m show ?thesis using demo_env_ok demo_inv by auto
qed

text \<open>
  C3: \<open>hplf_malloc\<close> succeeds whenever it can: a small request when the mutex can be taken and its
  class has a free block or a slab can be mapped, a large one when its mapping can be made.
\<close>

theorem malloc_succeeds:
  assumes "os_ok env" and "locked_inv env s A" and "can_serve env s sz"
  shows "\<exists>p s' A'. hplf_malloc env sz s = Some (p + 48, s') \<and> p + 48 \<noteq> NULL \<and> locked_inv env s' A' \<and>
    p \<in> live_blocks s' A'"
proof -
  from malloc_locked [OF assms(1,2), of sz] assms(3) obtain p s' A' where
    "hplf_malloc env sz s = Some (p + 48, s')" "locked_inv env s' A'" "granted p sz s A s' A'" by blast
  then show ?thesis using locked.live_payload(1) [OF assms(1), of s' A' p] by (auto simp: granted_def)
qed

theorem malloc_succeeds_witness:
  "os_ok demo_env \<and> locked_inv demo_env demo_locked empty_abs \<and> can_serve demo_env demo_locked 5000 \<and>
   (\<exists>p s' A'. hplf_malloc demo_env 5000 demo_locked = Some (p + 48, s') \<and> p + 48 \<noteq> NULL \<and>
      locked_inv demo_env s' A' \<and> p \<in> live_blocks s' A')"
  using malloc_succeeds [OF demo_env_ok demo_inv(1) demo_large_served] demo_env_ok demo_inv(1)
    demo_large_served by blast

text \<open>
  C4: \<open>hplf_free\<close> of a live block always returns, keeps the invariant, leaves \<open>errno\<close> alone and
  touches no other live block.  The block is released unless the system refuses the mutex or the
  \<open>munmap\<close>, in which case it stays allocated.
\<close>

theorem free_correct:
  assumes "os_ok env" and "locked_inv env s A" and "p \<in> live_blocks s A"
  shows "\<exists>s' A'. hplf_free env (p + 48) s = Some s' \<and> locked_inv env s' A' \<and> errno s' = errno s \<and>
    kept (live_blocks s A - {p}) s s' \<and>
    (live_blocks s' A' = live_blocks s A - {p} \<or>
     live_blocks s' A' = live_blocks s A \<and> \<not> (lock_result env (ticks s) = 0 \<and> unmap_reliable env))"
proof -
  from free_locked [OF assms] obtain s' A' where f: "hplf_free env (p + 48) s = Some s'"
    "locked_inv env s' A'" "released p s A s' A'"
    "lock_result env (ticks s) = 0 \<and> unmap_reliable env \<longrightarrow> p \<notin> live_blocks s' A'" by blast
  moreover have "live_blocks s' A' = live_blocks s A - {p} \<or> live_blocks s' A' = live_blocks s A"
    using f(3) by (auto simp: released_def)
  ultimately show ?thesis using assms(3) by (auto simp: released_def)
qed

theorem free_correct_witness:
  "\<exists>s A p. os_ok demo_env \<and> locked_inv demo_env s A \<and> p \<in> live_blocks s A \<and>
    (\<exists>s' A'. hplf_free demo_env (p + 48) s = Some s' \<and> locked_inv demo_env s' A' \<and> errno s' = errno s \<and>
       live_blocks s' A' = live_blocks s A - {p})"
proof (rule demo_live [OF demo_large_served])
  fix p s A assume s: "locked_inv demo_env s A" "p \<in> live_blocks s A"
  have "lock_result demo_env (ticks s) = 0 \<and> unmap_reliable demo_env"
    by (simp add: demo_env_def unmap_reliable_def)
  then show ?thesis using free_correct [OF demo_env_ok s] demo_env_ok s by blast
qed

text \<open>
  C5: \<open>hplf_calloc\<close> refuses a product that does not fit \<open>size_t\<close>; otherwise it returns the pointer
  that \<open>hplf_malloc\<close> of the product returns, and every byte of the new payload reads zero.
\<close>

theorem calloc_correct:
  assumes "os_ok env" and "locked_inv env s A"
  shows "\<exists>r s' A'. hplf_calloc env c n s = Some (r, s') \<and> locked_inv env s' A' \<and> kept (live_blocks s A) s s' \<and>
    (c \<noteq> 0 \<and> n \<noteq> 0 \<and> unat c * unat n < SIZE_BOUND \<longrightarrow> (\<exists>s1. hplf_malloc env (c * n) s = Some (r, s1))) \<and>
    (if r = NULL then live_blocks s' A' = live_blocks s A \<and> (c = 0 \<or> n = 0 \<or> errno s' \<noteq> 0)
     else unat c * unat n < SIZE_BOUND \<and> r - 48 \<notin> live_blocks s A \<and>
       live_blocks s' A' = insert (r - 48) (live_blocks s A) \<and> request s' (r - 48) = unat c * unat n \<and>
       (\<forall>j. j < unat c * unat n \<longrightarrow> bytes s' (r + word_of_nat j) = Some 0))"
  using locked.calloc_view [OF assms] unfolding hplf_calloc_def .

theorem calloc_correct_witness:
  "os_ok demo_env \<and> locked_inv demo_env demo_locked empty_abs \<and>
   (\<exists>r s' A'. hplf_calloc demo_env 3 5 demo_locked = Some (r, s') \<and> locked_inv demo_env s' A' \<and>
      (r = NULL \<or> bytes s' (r + 14) = Some 0))"
proof -
  from calloc_correct [OF demo_env_ok demo_inv(1), of 3 5] obtain r s' A' where
    m: "hplf_calloc demo_env 3 5 demo_locked = Some (r, s')" "locked_inv demo_env s' A'"
    "r \<noteq> NULL \<longrightarrow> (\<forall>j. j < unat (3 :: size_t) * unat (5 :: size_t) \<longrightarrow> bytes s' (r + word_of_nat j) = Some 0)"
    by (auto split: if_splits)
  from m(3) have "r \<noteq> NULL \<longrightarrow> bytes s' (r + word_of_nat 14) = Some 0" by (auto dest: spec [of _ 14])
  with m(1,2) show ?thesis using demo_env_ok demo_inv(1) by auto
qed

text \<open>
  C6: \<open>hplf_realloc\<close> of a live block to a non-zero size.  It fails only for a size beyond
  \<open>PTRDIFF_MAX\<close> or when \<open>hplf_malloc\<close> of the size does; the block is then as before, bytes
  included, and \<open>errno\<close> is set.  On success the result is the same block or one that was not live;
  it records the new size, its common prefix holds the old bytes, and no other live block changed.
\<close>

theorem realloc_correct:
  assumes "os_ok env" and "locked_inv env s A" and "p \<in> live_blocks s A" and "sz \<noteq> 0"
  shows "\<exists>r s' A'. hplf_realloc env (p + 48) sz s = Some (r, s') \<and> locked_inv env s' A' \<and>
    kept (live_blocks s A - {p}) s s' \<and>
    (if r = NULL then errno s' \<noteq> 0 \<and> live_blocks s' A' = live_blocks s A \<and> kept {p} s s' \<and>
       (sz > PTRDIFF_MAX \<or> (\<exists>s1. hplf_malloc env sz s = Some (NULL, s1)))
     else r - 48 \<in> live_blocks s' A' \<and> r - 48 \<notin> live_blocks s A - {p} \<and> request s' (r - 48) = unat sz \<and>
       live_blocks s A - {p} \<subseteq> live_blocks s' A' \<and>
       (\<forall>j. j < min (request s p) (unat sz) \<longrightarrow>
          bytes s' (r + word_of_nat j) = bytes s (p + 48 + word_of_nat j)))"
  using locked.realloc_view [OF assms] unfolding hplf_realloc_def .

theorem realloc_correct_witness:
  "\<exists>s A p. os_ok demo_env \<and> locked_inv demo_env s A \<and> p \<in> live_blocks s A \<and>
    (\<exists>r s' A'. hplf_realloc demo_env (p + 48) 6000 s = Some (r, s') \<and> locked_inv demo_env s' A' \<and>
       kept (live_blocks s A - {p}) s s')"
proof (rule demo_live [OF demo_large_served])
  fix p s A assume s: "locked_inv demo_env s A" "p \<in> live_blocks s A"
  show ?thesis using realloc_correct [OF demo_env_ok s, of 6000] demo_env_ok s by force
qed

text \<open>
  C7: \<open>hplf_trim_quiescent\<close> always returns, keeps the invariant and every live block with its bytes.
  The slabs it unmaps are slabs of the registry with no live block; nothing else is unmapped; the
  result is the number of bytes given back (saturating).  When the mutex and \<open>munmap\<close> do not fail,
  no slab without a live block remains.
\<close>

theorem trim_correct:
  assumes "os_ok env" and "locked_inv env s A"
  shows "\<exists>n s' A' dropped. hplf_trim_quiescent env s = Some (n, s') \<and> locked_inv env s' A' \<and>
    live_blocks s' A' = live_blocks s A \<and> kept (live_blocks s A) s s' \<and>
    abs_slabs A' = filter (\<lambda>a. a \<notin> set dropped) (abs_slabs A) \<and> set dropped \<subseteq> set (abs_slabs A) \<and>
    (\<forall>a \<in> set dropped. idle s A a) \<and> distinct dropped \<and>
    set (mappings s') = {m \<in> set (mappings s). fst m \<notin> set dropped} \<and>
    unat n = min (SIZE_BOUND - 1) (length dropped * slab_bytes (sc_pagesize env)) \<and>
    (unmap_reliable env \<and> lock_result env (ticks s) = 0 \<longrightarrow>
       (\<forall>a \<in> set (abs_slabs A). idle s A a \<longrightarrow> a \<in> set dropped))"
  using trim_locked [OF assms] by blast

theorem trim_correct_witness:
  "\<exists>s A. os_ok demo_env \<and> locked_inv demo_env s A \<and> live_blocks s A \<noteq> {} \<and>
    (\<exists>n s' A'. hplf_trim_quiescent demo_env s = Some (n, s') \<and> locked_inv demo_env s' A' \<and>
       live_blocks s' A' = live_blocks s A)"
proof (rule demo_live [OF demo_small_served])
  fix p s A assume s: "locked_inv demo_env s A" "p \<in> live_blocks s A"
  show ?thesis using trim_correct [OF demo_env_ok s(1)] demo_env_ok s by blast
qed

text \<open>
  C8: free lists are last-in first-out: freeing a small block and asking for any size of its class
  gives the same address back.
\<close>

theorem free_then_malloc:
  assumes "os_ok env" and "locked_inv env s A" and "p \<in> live_blocks s A"
    and "blocks s p = Some b" and "kind b = HPLF_BLOCK_SMALL" and "class_of sz = Some (ci, capacity b)"
    and "\<And>t. lock_result env t = 0"
  shows "\<exists>s1 s2. hplf_free env (p + 48) s = Some s1 \<and> hplf_malloc env sz s1 = Some (p + 48, s2)"
proof -
  from free_small_head [OF assms(1-6) assms(7)] obtain s1 A1 where
    f: "hplf_free env (p + 48) s = Some s1" "locked_inv env s1 A1" "free_lists s1 ! unat ci = p" by blast
  have "p \<noteq> NULL"
    using block_facts(1) [OF assms(1) locked.inv_arena [OF assms(2)] live_in_arena [OF assms(3)]] .
  from allocate_small_head [OF assms(1) f(2) assms(6) f(3) this assms(7)] obtain s2 where
    "hplf_allocate_small env sz ci (capacity b) s1 = Some (p + 48, s2)" by blast
  moreover have "sz \<noteq> 0" "\<not> sz > PTRDIFF_MAX"
    using class_of_small [OF assms(6)] by (auto simp: size_t_less_iff HPLF_MAX_SMALL_SIZE_def size_t_le_iff)
  ultimately show ?thesis using f(1) assms(6) by (auto simp: hplf_malloc_def)
qed

theorem free_then_malloc_witness:
  "\<exists>s A p b ci. os_ok demo_env \<and> locked_inv demo_env s A \<and> p \<in> live_blocks s A \<and> blocks s p = Some b \<and>
    kind b = HPLF_BLOCK_SMALL \<and> class_of 40 = Some (ci, capacity b) \<and> (\<forall>t. lock_result demo_env t = 0) \<and>
    (\<exists>s1 s2. hplf_free demo_env (p + 48) s = Some s1 \<and> hplf_malloc demo_env 40 s1 = Some (p + 48, s2))"
proof (rule demo_live [OF demo_small_served])
  fix p s A assume s: "locked_inv demo_env s A" "p \<in> live_blocks s A" and sv: "serves s 40 p"
  obtain ci cap where cls: "class_of 40 = Some (ci, cap)"
    using class_of_total [of 40] by (auto simp: HPLF_MAX_SMALL_SIZE_def)
  with sv obtain b where b: "blocks s p = Some b" "kind b = HPLF_BLOCK_SMALL" "class_of 40 = Some (ci, capacity b)"
    by (auto simp: serves_def)
  have lk: "lock_result demo_env t = 0" for t by (simp add: demo_env_def)
  from free_then_malloc [OF demo_env_ok s b lk] b s lk show ?thesis using demo_env_ok by blast
qed

section \<open>The public interface, thread-cached variant\<close>

text \<open>
  C9: a program of many threads on the cached allocator.  Whatever the threads call, store, flush,
  trim and in whichever order they end, every call returns without undefined behaviour, both mutexes
  are free again, and the buffers the program holds are mapped, aligned, pairwise disjoint and hold
  the bytes the program may rely on.
\<close>

theorem program_refinement:
  assumes "transfer_lock_ok env" and "cached_init s" and "maps_ok env (mappings s)"
  shows "\<exists>s' bufs'. program_run env penv es (s, \<lambda>r. None) = Some (s', bufs') \<and> buffers_sound s' bufs' \<and>
    \<not> c_registry_mutex s' \<and> \<not> transfer_mutex s'"
proof -
  from program_start [OF assms(2,1,3)] obtain s' bufs' A' where
    r: "program_run env penv es (s, \<lambda>r. None) = Some (s', bufs')" "cached_inv env s' A'" "buffers_sound s' bufs'" .
  from r(2) have "\<not> c_registry_mutex s'" by (simp add: cached_inv_def)
  moreover from r(2) obtain T where "transfers_ok s' T" by (rule inv_division)
  ultimately show ?thesis using r(1,3) by (auto simp: transfers_ok_def)
qed

theorem program_refinement_witness:
  "transfer_lock_ok demo_env \<and> cached_init demo_cached \<and> maps_ok demo_env (mappings demo_cached) \<and>
   (\<exists>s' bufs'. program_run demo_env demo_penv
      [Call 0 (Malloc 40), Call 1 (Calloc 3 2000), Flush 0, Call 1 (Free 4144), Exit 1, Trim 0, Exit 0]
      (demo_cached, \<lambda>r. None) = Some (s', bufs') \<and> buffers_sound s' bufs' \<and>
      \<not> c_registry_mutex s' \<and> \<not> transfer_mutex s')"
  using program_refinement [OF demo_lock_ok demo_cached_init] demo_lock_ok demo_cached_init by blast

text \<open>
  C10: in every state a program can reach, each block is in one place only: it is live, or in one
  shared chain, or in one thread's cache.  Together these are all the blocks of the registered slabs
  and the large blocks, and the blocks of the program's buffers are among the live ones.
\<close>

theorem blocks_in_one_place:
  assumes "transfer_lock_ok env" and "cached_init s" and "maps_ok env (mappings s)"
  shows "\<exists>s' bufs' A T D cc. program_run env penv es (s, \<lambda>r. None) = Some (s', bufs') \<and> transfers_ok s' T \<and>
    chain (slab_link s') (c_slabs s') (abs_slabs A) \<and>
    (\<forall>t. current_state s' t = HPLF_CACHE_ACTIVE \<longrightarrow> current_descriptor s' t \<in> set D) \<and>
    (\<forall>p \<in> set D. \<exists>d. descriptors s' p = Some d \<and> cache_ok s' (dc_cache d) (cc p)) \<and>
    distinct (concat T @ concat (map (\<lambda>p. concat (cc p)) D)) \<and>
    live_blocks s' A \<inter> set (concat T @ concat (map (\<lambda>p. concat (cc p)) D)) = {} \<and>
    small_blocks s' (abs_slabs A) \<union> abs_large A =
      live_blocks s' A \<union> set (concat T @ concat (map (\<lambda>p. concat (cc p)) D)) \<and>
    (\<forall>r buf. bufs' r = Some buf \<longrightarrow> r - 48 \<in> live_blocks s' A)"
proof -
  from program_start [OF assms(2,1,3)] obtain s' bufs' A where
    r: "program_run env penv es (s, \<lambda>r. None) = Some (s', bufs')" "cached_inv env s' A" "buffers_ok s' A bufs'" .
  have sl: "chain (slab_link s') (c_slabs s') (abs_slabs A)"
    using r(2) unfolding cached_inv_def by (blast dest: coreD(7))
  from r(2) show ?thesis
  proof (rule inv_division)
    fix T D cc
    assume "transfers_ok s' T" "\<And>p. p \<in> set D \<Longrightarrow> \<exists>d. descriptors s' p = Some d \<and> cache_ok s' (dc_cache d) (cc p)"
      "\<And>t. current_state s' t = HPLF_CACHE_ACTIVE \<Longrightarrow> current_descriptor s' t \<in> set D"
      "distinct (concat T @ concat (map (\<lambda>p. concat (cc p)) D))"
      "small_blocks s' (abs_slabs A) \<union> abs_large A =
        live_blocks s' A \<union> set (concat T @ concat (map (\<lambda>p. concat (cc p)) D))"
      "live_blocks s' A \<inter> set (concat T @ concat (map (\<lambda>p. concat (cc p)) D)) = {}"
    with r(1) sl buffers_okD [OF r(3)] show ?thesis
      by (intro exI [of _ s'] exI [of _ bufs'] exI [of _ A] exI [of _ T] exI [of _ D] exI [of _ cc]) blast
  qed
qed

theorem blocks_in_one_place_witness:
  "transfer_lock_ok demo_env \<and> cached_init demo_cached \<and> maps_ok demo_env (mappings demo_cached) \<and>
   (\<exists>s' bufs' A T. program_run demo_env demo_penv [Call 0 (Malloc 40), Call 1 (Malloc 40), Exit 0]
      (demo_cached, \<lambda>r. None) = Some (s', bufs') \<and> transfers_ok s' T \<and> distinct (concat T) \<and>
      live_blocks s' A \<inter> set (concat T) = {})"
proof -
  have "distinct (xs @ ys) \<Longrightarrow> L \<inter> set (xs @ ys) = {} \<Longrightarrow> distinct xs \<and> L \<inter> set xs = {}" for xs ys :: "addr list" and L
    by auto
  with blocks_in_one_place [OF demo_lock_ok demo_cached_init, of demo_penv
      "[Call 0 (Malloc 40), Call 1 (Malloc 40), Exit 0]"]
  show ?thesis using demo_lock_ok demo_cached_init by meson
qed

text \<open>
  C11: the caches stay bounded.  In every state a program can reach, the cache of each thread holds
  at most 32 blocks of a class and at most 65536 bytes, and its counters are exact.
\<close>

theorem caches_bounded:
  assumes "transfer_lock_ok env" and "cached_init s" and "maps_ok env (mappings s)"
  shows "\<exists>s' bufs'. program_run env penv es (s, \<lambda>r. None) = Some (s', bufs') \<and>
    (\<forall>t. current_state s' t = HPLF_CACHE_ACTIVE \<longrightarrow>
      (\<exists>d F. descriptors s' (current_descriptor s' t) = Some d \<and> cache_ok s' (dc_cache d) F \<and>
         (\<forall>i < 16. unat (tc_counts (dc_cache d) ! i) = length (F ! i) \<and> length (F ! i) \<le> 32) \<and>
         unat (total_slot_bytes (dc_cache d)) = cache_bytes F \<and> cache_bytes F \<le> 65536))"
proof -
  from program_start [OF assms(2,1,3)] obtain s' bufs' A where
    r: "program_run env penv es (s, \<lambda>r. None) = Some (s', bufs')" "cached_inv env s' A" .
  with active_cache [OF r(2)] show ?thesis by blast
qed

theorem caches_bounded_witness:
  "transfer_lock_ok demo_env \<and> cached_init demo_cached \<and> maps_ok demo_env (mappings demo_cached) \<and>
   (\<exists>s' bufs'. program_run demo_env demo_penv [Call 0 (Malloc 40), Call 0 (Malloc 2000)] (demo_cached, \<lambda>r. None) =
      Some (s', bufs') \<and>
      (current_state s' 0 = HPLF_CACHE_ACTIVE \<longrightarrow> (\<exists>d. descriptors s' (current_descriptor s' 0) = Some d \<and>
         unat (tc_counts (dc_cache d) ! 2) \<le> 32 \<and> unat (total_slot_bytes (dc_cache d)) \<le> 65536)))"
proof -
  from caches_bounded [OF demo_lock_ok demo_cached_init, of demo_penv "[Call 0 (Malloc 40), Call 0 (Malloc 2000)]"]
  obtain s' bufs' where r: "program_run demo_env demo_penv [Call 0 (Malloc 40), Call 0 (Malloc 2000)]
      (demo_cached, \<lambda>r. None) = Some (s', bufs')"
    and b: "\<And>t. current_state s' t = HPLF_CACHE_ACTIVE \<Longrightarrow>
      \<exists>d F. descriptors s' (current_descriptor s' t) = Some d \<and> cache_ok s' (dc_cache d) F \<and>
         (\<forall>i < 16. unat (tc_counts (dc_cache d) ! i) = length (F ! i) \<and> length (F ! i) \<le> 32) \<and>
         unat (total_slot_bytes (dc_cache d)) = cache_bytes F \<and> cache_bytes F \<le> 65536" by blast
  have "\<exists>d. descriptors s' (current_descriptor s' 0) = Some d \<and> unat (tc_counts (dc_cache d) ! 2) \<le> 32 \<and>
      unat (total_slot_bytes (dc_cache d)) \<le> 65536" if "current_state s' 0 = HPLF_CACHE_ACTIVE"
    using b [OF that] by (auto dest: spec [of _ 2])
  with r show ?thesis using demo_lock_ok demo_cached_init by blast
qed

text \<open>
  C12: the cached \<open>hplf_malloc\<close> always returns, keeps the invariant and every live block with its
  bytes.  It returns null, with \<open>errno\<close> set to \<open>ENOMEM\<close>, only for size zero, a size beyond
  \<open>PTRDIFF_MAX\<close>, or when the shared chain of the class is empty and the system gives no memory.
  Otherwise the result is the payload of a block that was not live, aligned, mapped and disjoint from
  every live payload.
\<close>

theorem cached_malloc_correct:
  assumes "os_ok env" and "cached_inv env s A"
  shows "\<exists>r s' A'. cached_malloc env penv tid sz s = Some (r, s') \<and> cached_inv env s' A' \<and>
    kept (live_blocks s A) s s' \<and>
    (if r = NULL then live_blocks s' A' = live_blocks s A \<and> (sz = 0 \<or> errno s' = ENOMEM) \<and>
       \<not> cached_can_serve env penv tid s sz
     else sz \<noteq> 0 \<and> sz \<le> PTRDIFF_MAX \<and> r - 48 \<notin> live_blocks s A \<and>
       live_blocks s' A' = insert (r - 48) (live_blocks s A) \<and> request s' (r - 48) = unat sz \<and>
       16 dvd unat r \<and> mapped s' r (unat sz) \<and>
       (\<forall>q. q \<in> live_blocks s A \<longrightarrow> disjoint_ranges r (unat sz) (q + 48) (request s' q)))"
proof -
  from cached_malloc_contract [OF assms, of penv tid sz] obtain r s' A' where
    m: "cached_malloc env penv tid sz s = Some (r, s')" "cached_inv env s' A'"
    "r = NULL \<and> (sz \<noteq> 0 \<longrightarrow> errno s' = ENOMEM) \<and> refused s A s' A' \<and> \<not> cached_can_serve env penv tid s sz \<or>
     sz \<noteq> 0 \<and> sz \<le> PTRDIFF_MAX \<and> (\<exists>p. r = p + 48 \<and> granted p sz s A s' A')" by blast
  from m(3) show ?thesis
  proof (elim disjE exE conjE)
    assume "r = NULL" "sz \<noteq> 0 \<longrightarrow> errno s' = ENOMEM" "refused s A s' A'" "\<not> cached_can_serve env penv tid s sz"
    with m(1,2) show ?thesis by (auto simp: refused_def)
  next
    fix p assume sz: "sz \<noteq> 0" "sz \<le> PTRDIFF_MAX" and r: "r = p + 48" and g: "granted p sz s A s' A'"
    note v = cached.granted_view [OF assms(1) m(2) g r]
    show ?thesis using m(1,2) sz v by (intro exI [of _ r] exI [of _ s'] exI [of _ A']) simp
  qed
qed

theorem cached_malloc_correct_witness:
  "os_ok demo_env \<and> cached_inv demo_env demo_cached start_abs \<and>
   (\<exists>r s' A'. cached_malloc demo_env demo_penv 0 40 demo_cached = Some (r, s') \<and> cached_inv demo_env s' A' \<and>
      r \<noteq> NULL \<and> live_blocks s' A' = {r - 48} \<and> 16 dvd unat r \<and> mapped s' r 40)"
  using cached_malloc_correct [OF demo_env_ok demo_cached_inv(1), of demo_penv 0 40] demo_env_ok
    demo_cached_inv demo_cached_small by (auto split: if_splits)

text \<open>
  C13: the cached \<open>hplf_free\<close> of a live block, by any thread, always returns, keeps the invariant,
  leaves \<open>errno\<close> alone and touches no other live block.  The block is released unless it is a large
  block whose \<open>munmap\<close> fails, in which case it stays allocated.
\<close>

theorem cached_free_correct:
  assumes "cached_inv env s A" and "p \<in> live_blocks s A"
  shows "\<exists>s' A'. cached_free env penv tid (p + 48) s = Some s' \<and> cached_inv env s' A' \<and> errno s' = errno s \<and>
    kept (live_blocks s A - {p}) s s' \<and>
    (live_blocks s' A' = live_blocks s A - {p} \<or>
     live_blocks s' A' = live_blocks s A \<and> p \<in> abs_large A \<and> \<not> unmap_reliable env)"
proof -
  from cached_free_contract [OF assms, of penv tid] obtain s' A' where
    f: "cached_free env penv tid (p + 48) s = Some s'" "cached_inv env s' A'" "released p s A s' A'"
    "unmap_reliable env \<or> p \<notin> abs_large A \<longrightarrow> p \<notin> live_blocks s' A'" by blast
  moreover have "live_blocks s' A' = live_blocks s A - {p} \<or> live_blocks s' A' = live_blocks s A"
    using f(3) by (auto simp: released_def)
  ultimately show ?thesis using assms(2) by (auto simp: released_def)
qed

theorem cached_free_correct_witness:
  "\<exists>s A p. cached_inv demo_env s A \<and> p \<in> live_blocks s A \<and>
    (\<exists>s' A'. cached_free demo_env demo_penv 1 (p + 48) s = Some s' \<and> cached_inv demo_env s' A' \<and>
       live_blocks s' A' = live_blocks s A - {p})"
proof (rule demo_cached_live [OF demo_cached_small])
  fix p s A assume s: "cached_inv demo_env s A" "p \<in> live_blocks s A"
  have "unmap_reliable demo_env" by (simp add: demo_env_def unmap_reliable_def)
  then show ?thesis using cached_free_correct [OF s, of demo_penv 1] s by blast
qed

text \<open>
  C14: the cached \<open>hplf_realloc\<close> of a live block to a non-zero size: a failure leaves the block and its
  bytes alone and sets \<open>errno\<close>; a success gives the same block or one that was not live, whose common
  prefix holds the old bytes, and no other live block changed.
\<close>

theorem cached_realloc_correct:
  assumes "os_ok env" and "cached_inv env s A" and "p \<in> live_blocks s A" and "sz \<noteq> 0"
  shows "\<exists>r s' A'. cached_realloc env penv tid (p + 48) sz s = Some (r, s') \<and> cached_inv env s' A' \<and>
    kept (live_blocks s A - {p}) s s' \<and>
    (if r = NULL then errno s' \<noteq> 0 \<and> live_blocks s' A' = live_blocks s A \<and> kept {p} s s' \<and>
       (sz > PTRDIFF_MAX \<or> (\<exists>s1. cached_malloc env penv tid sz s = Some (NULL, s1)))
     else r - 48 \<in> live_blocks s' A' \<and> r - 48 \<notin> live_blocks s A - {p} \<and> request s' (r - 48) = unat sz \<and>
       live_blocks s A - {p} \<subseteq> live_blocks s' A' \<and>
       (\<forall>j. j < min (request s p) (unat sz) \<longrightarrow>
          bytes s' (r + word_of_nat j) = bytes s (p + 48 + word_of_nat j)))"
  using cached.realloc_view [OF assms] unfolding cached_realloc_def .

theorem cached_realloc_correct_witness:
  "\<exists>s A p. os_ok demo_env \<and> cached_inv demo_env s A \<and> p \<in> live_blocks s A \<and>
    (\<exists>r s' A'. cached_realloc demo_env demo_penv 0 (p + 48) 6000 s = Some (r, s') \<and> cached_inv demo_env s' A' \<and>
       kept (live_blocks s A - {p}) s s')"
proof (rule demo_cached_live [OF demo_cached_small])
  fix p s A assume s: "cached_inv demo_env s A" "p \<in> live_blocks s A"
  have "(6000 :: size_t) \<noteq> 0" by simp
  from cached_realloc_correct [OF demo_env_ok s this, of demo_penv 0] show ?thesis using demo_env_ok s by blast
qed

text \<open>
  C15: \<open>hplf_thread_flush\<close> of the cached variant returns, changes no live block, and leaves the
  calling thread's cache empty: all its blocks are in the shared chains.
\<close>

theorem flush_empties_cache:
  assumes "cached_inv env s A"
  shows "\<exists>s' A'. cached_thread_flush env tid s = Some s' \<and> cached_inv env s' A' \<and>
    live_blocks s' A' = live_blocks s A \<and> kept (live_blocks s A) s s' \<and>
    (current_state s tid = HPLF_CACHE_ACTIVE \<longrightarrow>
      (\<exists>d. descriptors s' (current_descriptor s tid) = Some d \<and> cache_ok s' (dc_cache d) empty_table))"
  using cached_flush_spec [OF assms, of tid] by (auto simp: refused_def)

theorem flush_empties_cache_witness:
  "\<exists>s A. cached_inv demo_env s A \<and> current_state s 0 = HPLF_CACHE_ACTIVE \<and>
    (\<exists>s' d. cached_thread_flush demo_env 0 s = Some s' \<and> descriptors s' (current_descriptor s 0) = Some d \<and>
       cache_ok s' (dc_cache d) empty_table)"
proof (rule demo_cached_active)
  fix s A assume s: "cached_inv demo_env s A" "current_state s 0 = HPLF_CACHE_ACTIVE"
  from flush_empties_cache [OF s(1), of 0] s show ?thesis by blast
qed

text \<open>
  C16: when a thread that has a cache ends, its destructor publishes the cache and gives the descriptor
  back: every block of the cache is at the front of the shared chain of its class, in front of the blocks
  that were there; the descriptor and its mapping are gone, unless the system refuses to unmap it; the
  thread has no cache and no key value any more.  The invariant holds, no live block changed and no other
  thread lost its cache.  The end of a thread without a cache changes nothing.
\<close>

theorem thread_exit_correct:
  fixes s :: cached_state
  assumes "cached_inv env s A"
  shows "\<exists>s' A'. thread_exit env tid s = Some s' \<and> cached_inv env s' A' \<and>
    live_blocks s' A' = live_blocks s A \<and> kept (live_blocks s A) s s' \<and>
    current_state s' tid \<noteq> HPLF_CACHE_ACTIVE \<and> hplf_cache_current tid s' = NULL \<and>
    (\<forall>t. t \<noteq> tid \<longrightarrow> hplf_cache_current t s' = hplf_cache_current t s) \<and>
    (if current_state s tid = HPLF_CACHE_ACTIVE
     then cache_key_values s' tid = NULL \<and> current_state s' tid = HPLF_CACHE_UNCACHED \<and>
       (\<exists>p d F T. p = current_descriptor s tid \<and> descriptors s p = Some d \<and> (p, dc_mapping_length d) \<in> set (mappings s) \<and>
          cache_ok s (dc_cache d) F \<and> transfers_ok s T \<and> transfers_ok s' (map2 (@) F T) \<and>
          (mappings s' = remove1 (p, dc_mapping_length d) (mappings s) \<and> descriptors s' p = None \<or>
           mappings s' = mappings s \<and> \<not> (\<forall>n b l. munmap_result env n b l = 0)))
     else s' = s)"
proof -
  from cached_exit_spec [OF assms, of tid] obtain s' A' where e: "thread_exit env tid s = Some s'" "cached_inv env s' A'"
    "refused s A s' A'" "current_state s' tid \<noteq> HPLF_CACHE_ACTIVE" "current_state s tid \<noteq> HPLF_CACHE_ACTIVE \<longrightarrow> s' = s"
    "current_state s tid = HPLF_CACHE_ACTIVE \<longrightarrow> cache_given_back env tid s s' \<and> cache_key_values s' tid = NULL \<and>
      current_state s' = (current_state s)(tid := HPLF_CACHE_UNCACHED) \<and> current_descriptor s' = (current_descriptor s)(tid := NULL)"
    by blast
  have "hplf_cache_current t s' = hplf_cache_current t s" if "t \<noteq> tid" for t
    using e(5,6) that by (cases "current_state s tid = HPLF_CACHE_ACTIVE") (simp_all add: hplf_cache_current_def)
  moreover have "hplf_cache_current tid s' = NULL" using e(4) by (simp add: hplf_cache_current_def)
  ultimately show ?thesis using e unfolding refused_def cache_given_back_def by (intro exI [of _ s'] exI [of _ A']) auto
qed

theorem thread_exit_correct_witness:
  "\<exists>s A. cached_inv demo_env s A \<and> current_state s 0 = HPLF_CACHE_ACTIVE \<and>
    (\<exists>s' A' p d F T. thread_exit demo_env 0 s = Some s' \<and> cached_inv demo_env s' A' \<and> hplf_cache_current 0 s' = NULL \<and>
       p = current_descriptor s 0 \<and> descriptors s p = Some d \<and> cache_ok s (dc_cache d) F \<and> transfers_ok s T \<and>
       transfers_ok s' (map2 (@) F T) \<and> mappings s' = remove1 (p, dc_mapping_length d) (mappings s) \<and> descriptors s' p = None)"
proof (rule demo_cached_active)
  fix s A assume s: "cached_inv demo_env s A" "current_state s 0 = HPLF_CACHE_ACTIVE"
  have m: "\<forall>n b l. munmap_result demo_env n b l = 0" by (simp add: demo_env_def)
  from thread_exit_correct [OF s(1), of 0, simplified s(2) simp_thms if_True] obtain s' A' d F T where
    e: "thread_exit demo_env 0 s = Some s'" "cached_inv demo_env s' A'" "hplf_cache_current 0 s' = NULL"
    "descriptors s (current_descriptor s 0) = Some d" "cache_ok s (dc_cache d) F" "transfers_ok s T" "transfers_ok s' (map2 (@) F T)"
    "mappings s' = remove1 (current_descriptor s 0, dc_mapping_length d) (mappings s) \<and> descriptors s' (current_descriptor s 0) = None \<or>
     mappings s' = mappings s \<and> \<not> (\<forall>n b l. munmap_result demo_env n b l = 0)" by blast
  from e(8) m have g: "mappings s' = remove1 (current_descriptor s 0, dc_mapping_length d) (mappings s)"
    "descriptors s' (current_descriptor s 0) = None" by blast+
  show ?thesis by (intro exI conjI) (rule s e g refl)+
qed

text \<open>
  C17: \<open>hplf_trim_quiescent\<close> of the cached variant returns, keeps the invariant and the live blocks.
  It unmaps slabs of the registry whose slots are all in the shared chains, and nothing else; the
  result is the number of bytes given back (saturating).  With a reliable \<open>munmap\<close> it unmaps every
  such slab.
\<close>

theorem cached_trim_correct:
  assumes "cached_inv env s A"
  shows "\<exists>n s' A' dropped T. cached_trim_quiescent env s = Some (n, s') \<and> cached_inv env s' A' \<and>
    live_blocks s' A' = live_blocks s A \<and> kept (live_blocks s A) s s' \<and> transfers_ok s T \<and>
    abs_slabs A' = filter (\<lambda>a. a \<notin> set dropped) (abs_slabs A) \<and> distinct dropped \<and>
    set dropped \<subseteq> set (abs_slabs A) \<and> (\<forall>a \<in> set dropped. set (slots_of s a) \<subseteq> set (concat T)) \<and>
    set (mappings s') = {m \<in> set (mappings s). fst m \<notin> set dropped} \<and>
    unat n = min (SIZE_BOUND - 1) (length dropped * slab_bytes (sc_pagesize env)) \<and>
    (unmap_reliable env \<longrightarrow>
      (\<forall>a \<in> set (abs_slabs A). set (slots_of s a) \<subseteq> set (concat T) \<longrightarrow> a \<in> set dropped))"
proof -
  from cached_trim_spec [OF assms] obtain n s' A' dropped T where "cached_trim_quiescent env s = Some (n, s')"
    "cached_inv env s' A'" "refused s A s' A'" "abs_slabs A' = filter (\<lambda>a. a \<notin> set dropped) (abs_slabs A)"
    "distinct dropped" "set dropped \<subseteq> set (abs_slabs A)" "set (mappings s') = {m \<in> set (mappings s). fst m \<notin> set dropped}"
    "unat n = min (SIZE_BOUND - 1) (length dropped * slab_bytes (sc_pagesize env))" "transfers_ok s T"
    "\<forall>a \<in> set dropped. set (slots_of s a) \<subseteq> set (concat T)"
    "unmap_reliable env \<longrightarrow> (\<forall>a \<in> set (abs_slabs A). set (slots_of s a) \<subseteq> set (concat T) \<longrightarrow> a \<in> set dropped)" by blast
  then show ?thesis unfolding refused_def by blast
qed

theorem cached_trim_correct_witness:
  "\<exists>s A. cached_inv demo_env s A \<and> live_blocks s A \<noteq> {} \<and>
    (\<exists>n s' A'. cached_trim_quiescent demo_env s = Some (n, s') \<and> cached_inv demo_env s' A' \<and>
       live_blocks s' A' = live_blocks s A)"
proof (rule demo_cached_live [OF demo_cached_small])
  fix p s A assume s: "cached_inv demo_env s A" "p \<in> live_blocks s A"
  from cached_trim_correct [OF s(1)] s show ?thesis by blast
qed

text \<open>
  C18: the self-check of the testing build (\<open>hplf_cached_test_snapshot\<close>) is exact.  It can be called in
  any state whose mutexes are free, whose registry is a list of well-formed slabs and whose lists end,
  whatever blocks the shared lists \<open>T\<close> and the caller's lists \<open>F\<close> hold and whatever the counters say: it
  returns, changes no block and gives the shared lists back.  It accepts exactly when the counters of the
  caller's cache agree with its lists, every listed block is a slot of a registered slab of its list's
  class, and no block is listed twice.  So it accepts every state that keeps the invariant; there its
  counts are exact: all slots, those in the shared lists and those in the caller's cache.  What it calls
  live is the rest, the live blocks and those in the caches of other threads.
\<close>

theorem self_check_exact:
  "(cached_inv env s A \<longrightarrow>
     (\<exists>sn s' A' T F. hplf_cached_test_snapshot_take env tid s = Some (True, sn, s') \<and> cached_inv env s' A' \<and>
        live_blocks s' A' = live_blocks s A \<and> kept (live_blocks s A) s s' \<and> transfers_ok s T \<and>
        unat (ts_total_slots sn) = card (small_blocks s (abs_slabs A)) \<and>
        unat (ts_shared_free_blocks sn) = length (concat T) \<and> unat (ts_current_local_blocks sn) = length (concat F) \<and>
        length (concat T) + length (concat F) + unat (ts_live_blocks sn) = card (small_blocks s (abs_slabs A)) \<and>
        card (live_blocks s A \<inter> small_blocks s (abs_slabs A)) \<le> unat (ts_live_blocks sn) \<and>
        (if hplf_cache_current tid s = NULL then F = empty_table
         else (\<exists>d. descriptors s (hplf_cache_current tid s) = Some d \<and> cache_ok s (dc_cache d) F)))) \<and>
   (snapshot_ready env tid s ss L T F \<longrightarrow>
     (\<exists>r sn s'. hplf_cached_test_snapshot_take env tid s = Some (r, sn, s') \<and> transfers_ok s' T \<and>
        blocks s' = blocks s \<and> descriptors s' = descriptors s \<and> mappings s' = mappings s \<and> \<not> c_registry_mutex s' \<and>
        (r \<longleftrightarrow>
           (\<forall>d. hplf_cache_current tid s \<noteq> NULL \<longrightarrow> descriptors s (hplf_cache_current tid s) = Some d \<longrightarrow>
              (\<forall>j < 16. tc_counts (dc_cache d) ! j = word_of_nat (length (F ! j))) \<and>
              total_slot_bytes (dc_cache d) = word_of_nat (cache_bytes F)) \<and>
           (\<forall>j < 16. \<forall>x \<in> set (F ! j) \<union> set (T ! j). in_class s ss j x) \<and> distinct (concat F @ concat T))))"
proof (intro conjI impI, goal_cases)
  case 1
  from cached_snapshot_spec [OF this, of tid] obtain sn s' A' T F where
    c: "hplf_cached_test_snapshot_take env tid s = Some (True, sn, s')" "cached_inv env s' A'" "refused s A s' A'"
    "transfers_ok s T" "unat (ts_total_slots sn) = card (small_blocks s (abs_slabs A))"
    "unat (ts_shared_free_blocks sn) = length (concat T)" "unat (ts_current_local_blocks sn) = length (concat F)"
    "length (concat T) + length (concat F) + unat (ts_live_blocks sn) = card (small_blocks s (abs_slabs A))"
    "card (live_blocks s A \<inter> small_blocks s (abs_slabs A)) \<le> unat (ts_live_blocks sn)"
    and f: "if hplf_cache_current tid s = NULL then F = empty_table
      else (\<exists>d. descriptors s (hplf_cache_current tid s) = Some d \<and> cache_ok s (dc_cache d) F)" by blast
  have "live_blocks s' A' = live_blocks s A" "kept (live_blocks s A) s s'" using c(3) by (simp_all add: refused_def)
  with c f show ?case by blast
next
  case rdy: 2
  then have "length F = 16" "length T = 16" by (auto simp: snapshot_ready_def local_lists_def transfers_ok_def)
  then have cls: "class_table s ss F \<and> class_table s ss T \<longleftrightarrow> (\<forall>j < 16. \<forall>x \<in> set (F ! j) \<union> set (T ! j). in_class s ss j x)"
    by (auto simp: class_table_def)
  from snapshot_run [OF rdy] obtain sn s1 where run: "hplf_cached_test_snapshot_take env tid s =
      Some (counters_match s tid F \<and> class_table s ss F \<and> class_table s ss T \<and> distinct (concat F @ concat T), sn,
        s1\<lparr>ticks := Suc (ticks s1), c_registry_mutex := False\<rparr>)" "transfers_ok s1 T"
    and st: "transfer_step {} (s\<lparr>ticks := Suc (ticks s), c_registry_mutex := True\<rparr>) s1" by blast
  let ?s = "s1\<lparr>ticks := Suc (ticks s1), c_registry_mutex := False\<rparr>"
  have "transfers_ok ?s T" by (rule transfers_ok_cong [OF run(2)]) simp_all
  moreover have "blocks ?s = blocks s" "mappings ?s = mappings s" using st by (simp_all add: transfer_step_def fun_eq_iff)
  moreover have "transfer_state.more s1 = transfer_state.more (s\<lparr>ticks := Suc (ticks s), c_registry_mutex := True\<rparr>)"
    using st by (simp add: transfer_step_def)
  from transfer_more_fields(4) [OF this] have "descriptors ?s = descriptors s" by simp
  moreover have "\<not> c_registry_mutex ?s" by simp
  ultimately show ?case
    using run(1) unfolding cls [symmetric] counters_match_def [symmetric] by (intro exI conjI) (assumption | simp only: conj_assoc)+
qed

theorem self_check_exact_witness:
  "\<exists>s A. cached_inv demo_env s A \<and> current_state s 0 = HPLF_CACHE_ACTIVE \<and>
    (\<exists>sn s' A'. hplf_cached_test_snapshot_take demo_env 0 s = Some (True, sn, s') \<and> cached_inv demo_env s' A') \<and>
    snapshot_ready demo_env 0 demo_stray [] {} ([4160] # replicate 15 []) empty_table \<and>
    (\<exists>sn s'. hplf_cached_test_snapshot_take demo_env 0 demo_stray = Some (False, sn, s'))"
proof (rule demo_cached_active)
  fix s A assume s: "cached_inv demo_env s A" "current_state s 0 = HPLF_CACHE_ACTIVE"
  have no: "\<not> (\<forall>j < 16. \<forall>x \<in> set (empty_table ! j) \<union> set (([4160 :: addr] # replicate 15 []) ! j). in_class demo_stray [] j x)"
    by (intro notI, drule spec [of _ 0]) (simp add: in_class_def)
  from self_check_exact [THEN conjunct2, THEN mp, OF demo_stray_ready] obtain r sn s' where
    e: "hplf_cached_test_snapshot_take demo_env 0 demo_stray = Some (r, sn, s')"
    "r \<longrightarrow> (\<forall>j < 16. \<forall>x \<in> set (empty_table ! j) \<union> set (([4160 :: addr] # replicate 15 []) ! j). in_class demo_stray [] j x)" by blast
  then have "\<not> r" using no by blast
  then have "\<exists>sn s'. hplf_cached_test_snapshot_take demo_env 0 demo_stray = Some (False, sn, s')" using e(1) by simp
  with self_check_exact [THEN conjunct1, THEN mp, OF s(1), of 0] s demo_stray_ready show ?thesis by blast
qed

text \<open>
  C19: the loop in which \<open>hplf_free\<close> publishes evicted blocks ends.  Started with a cache that exceeds
  a limit by the block just stored, it returns with the cache within its limits, and no live block
  changed.
\<close>

theorem eviction_terminates:
  assumes "cached_core env s A T empty_table D cc" and "cache \<in> set D" and "unat ci < 16"
    and "after_store (cc cache) (unat ci)"
  shows "\<exists>s' A' T' F. evict_loop env tid cache ci eviction_class eviction s = Some s' \<and>
    cached_core env s' A' T' empty_table D (cc(cache := F)) \<and> (\<forall>i < 16. length (F ! i) \<le> 32) \<and> cache_bytes F \<le> 65536 \<and>
    live_blocks s' A' = live_blocks s A \<and> kept (live_blocks s A) s s'"
  using evict_loop_spec [OF assms, of tid eviction_class eviction] unfolding goes_on_def refused_def within_limits_def
  by blast

theorem eviction_terminates_witness:
  "\<exists>s A T D cc cache. cached_core demo_env s A T empty_table D cc \<and> cache \<in> set D \<and> after_store (cc cache) (unat (3 :: size_t)) \<and>
    (\<exists>s' A' T' F. evict_loop demo_env 0 cache 3 0 \<lparr>tl_first = NULL, tl_last = NULL, tl_count = 0\<rparr> s = Some s' \<and>
       cached_core demo_env s' A' T' empty_table D (cc(cache := F)) \<and> cache_bytes F \<le> 65536)"
proof (rule demo_cached_active)
  fix s A assume s: "cached_inv demo_env s A" "current_state s 0 = HPLF_CACHE_ACTIVE"
  then obtain T D cc where c: "cached_core demo_env s A T empty_table D cc" "\<forall>p \<in> set D. within_limits (cc p)"
    by (auto simp: cached_inv_def)
  let ?p = "current_descriptor s 0"
  have p: "?p \<in> set D" using coreD(8) [OF c(1)] s(2) by (simp add: threads_ok_def)
  have a: "after_store (cc ?p) (unat (3 :: size_t))" using c(2) p by (intro within_after_store) blast
  have "unat (3 :: size_t) < 16" by simp
  from eviction_terminates [OF c(1) p this a, of 0 0 "\<lparr>tl_first = NULL, tl_last = NULL, tl_count = 0\<rparr>"] c(1) p a
  show ?thesis by blast
qed

text \<open>
  C20: in every state a program can reach, the prefix in front of each buffer is well formed: the
  recorded size is the buffer's and fits the capacity, and \<open>owner\<close> holds the member that \<open>kind\<close>
  announces, a slab of the right class or the block's own mapping.
\<close>

theorem buffer_prefix_typed:
  assumes "transfer_lock_ok env" and "cached_init s" and "maps_ok env (mappings s)"
  shows "\<exists>s' bufs'. program_run env penv es (s, \<lambda>r. None) = Some (s', bufs') \<and>
    (\<forall>r n c. bufs' r = Some (n, c) \<longrightarrow> (\<exists>b. blocks s' (hplf_block_from_payload r) = Some b \<and>
       unat (requested_size b) = n \<and> prefix_typed s' (hplf_block_from_payload r) b))"
proof -
  from program_start [OF assms(2,1,3)] obtain s' bufs' A where
    r: "program_run env penv es (s, \<lambda>r. None) = Some (s', bufs')" "cached_inv env s' A" "buffers_ok s' A bufs'" .
  have ok: "os_ok env" using assms(1) by (simp add: transfer_lock_ok_def)
  have "\<exists>b. blocks s' (hplf_block_from_payload x) = Some b \<and> unat (requested_size b) = n \<and>
      prefix_typed s' (hplf_block_from_payload x) b" if "bufs' x = Some (n, c)" for x n c
  proof -
    from buffers_okD [OF r(3) that] have x: "x - 48 \<in> live_blocks s' A" and n: "request s' (x - 48) = n"
      by (auto simp: implements_def)
    from cached.live_typed [OF r(2) x] n cached.live_payload(2) [OF ok r(2) x] show ?thesis
      by (auto simp: request_def)
  qed
  with r(1) show ?thesis by blast
qed

theorem buffer_prefix_typed_witness:
  "transfer_lock_ok demo_env \<and> cached_init demo_cached \<and> maps_ok demo_env (mappings demo_cached) \<and>
   (\<exists>s' bufs'. program_run demo_env demo_penv [Call 0 (Malloc 40), Call 1 (Malloc 9000)] (demo_cached, \<lambda>r. None) =
      Some (s', bufs') \<and>
    (\<forall>r n c. bufs' r = Some (n, c) \<longrightarrow> (\<exists>b. blocks s' (hplf_block_from_payload r) = Some b \<and>
       unat (requested_size b) = n \<and> prefix_typed s' (hplf_block_from_payload r) b)))"
  using buffer_prefix_typed [OF demo_lock_ok demo_cached_init] demo_lock_ok demo_cached_init by blast

end
